(* ===== verification/Prelude.thy ===== *)
theory Prelude
  imports Main "HOL-Library.Word"
begin

text \<open>
  Shared vocabulary of the Beast OS development: the machine integer types, the Rust
  result conventions, the named theorem collections, and the generic lemmas on lists,
  circular buffers and words that the component theories use.

  Conventions. \<open>usize\<close> and \<open>u64\<close> are \<open>64 word\<close> wherever the code relies on wrap-around
  or on bit operations; indices and counters that stay below a small bound are \<open>nat\<close>.
  A Rust \<open>Result<T, E>\<close> is the sum \<open>'e + 't\<close> with \<open>Inl\<close> for \<open>Err\<close>; an \<open>Option\<close> is
  \<open>option\<close>. Where an operation can panic (index out of range, \<open>unwrap\<close> on \<open>None\<close>), its
  model returns an option whose \<open>None\<close> is the panic.
\<close>

unbundle bit_operations_syntax

section \<open>Types\<close>

type_synonym u8 = "8 word"
type_synonym u16 = "16 word"
type_synonym u32 = "32 word"
type_synonym u64 = "64 word"
type_synonym usize = "64 word"

text \<open>\<open>Some\<close> is a normal return, \<open>None\<close> a Rust panic.\<close>

type_synonym 'a or_panic = "'a option"

named_theorems ring_simps \<open>rewriting of circular buffers to the lists they hold\<close>
named_theorems wf_intros \<open>preservation of the components' well-formedness invariants\<close>
named_theorems word_bits \<open>bit-level facts about the fields packed in machine words\<close>

section \<open>Fallible operations on a state\<close>

text \<open>Rust's \<open>?\<close>: run \<open>m\<close>, return its error at once, else go on with its value.  The effects of
  \<open>m\<close> on the state stay in both cases.\<close>

definition try_then ::
  "('s \<Rightarrow> ('e + 'a) \<times> 's) \<Rightarrow> ('a \<Rightarrow> 's \<Rightarrow> ('e + 'b) \<times> 's) \<Rightarrow> 's \<Rightarrow> ('e + 'b) \<times> 's" where
  "try_then m k s = (case m s of (Inl e, s') \<Rightarrow> (Inl e, s') | (Inr a, s') \<Rightarrow> k a s')"

lemma try_then_Inl: "m s = (Inl e, s') \<Longrightarrow> try_then m k s = (Inl e, s')"
  by (simp add: try_then_def)

lemma try_then_Inr: "m s = (Inr a, s') \<Longrightarrow> try_then m k s = k a s'"
  by (simp add: try_then_def)

section \<open>Searching lists\<close>

text \<open>Rust's \<open>Iterator::position\<close>: the first index whose element satisfies \<open>P\<close>.\<close>

fun position :: "('a \<Rightarrow> bool) \<Rightarrow> 'a list \<Rightarrow> nat option" where
  "position P [] = None"
| "position P (x # xs) = (if P x then Some 0 else map_option Suc (position P xs))"

lemma position_Some:
  "position P xs = Some i \<longleftrightarrow> i < length xs \<and> P (xs ! i) \<and> (\<forall>j < i. \<not> P (xs ! j))"
proof (induction xs arbitrary: i)
  case Nil
  then show ?case by simp
next
  case (Cons x xs)
  show ?case
  proof (cases i)
    case 0
    then show ?thesis by auto
  next
    case (Suc k)
    then show ?thesis
      using Cons.IH [of k] by (auto simp: nth_Cons less_Suc_eq_0_disj split: nat.splits)
  qed
qed

lemma position_None: "position P xs = None \<longleftrightarrow> (\<forall>x \<in> set xs. \<not> P x)"
  by (induction xs) auto

lemma count_update:
  assumes "i < length xs" "P x" "\<not> P (xs ! i)"
  shows "length (filter P (xs[i := x])) = Suc (length (filter P xs))"
  using assms by (induction xs arbitrary: i) (auto split: nat.splits)

lemma count_update_off:
  assumes "i < length xs" "\<not> P x" "P (xs ! i)"
  shows "Suc (length (filter P (xs[i := x]))) = length (filter P xs)"
  using assms by (induction xs arbitrary: i) (auto split: nat.splits)

section \<open>Circular buffers\<close>

text \<open>
  Four components keep a first-in first-out queue in a fixed array: the SPSC ring of
  \<open>beast_ring\<close>, the boosting ring of \<open>ipc/spsc_with_boost.rs\<close>, the run queues of the
  scheduler and the keyboard buffer. \<open>ring_slice buf a n\<close> is the list of the \<open>n\<close> elements
  that start at (absolute) position \<open>a\<close> of the array, read modulo its length.
\<close>

definition ring_slice :: "'a list \<Rightarrow> nat \<Rightarrow> nat \<Rightarrow> 'a list" where
  "ring_slice buf a n = map (\<lambda>i. buf ! ((a + i) mod length buf)) [0..<n]"

lemma length_ring_slice [simp]: "length (ring_slice buf a n) = n"
  by (simp add: ring_slice_def)

lemma ring_slice_0 [simp]: "ring_slice buf a 0 = []"
  by (simp add: ring_slice_def)

lemma ring_slice_eq_Nil [simp]: "ring_slice buf a n = [] \<longleftrightarrow> n = 0"
  by (simp add: ring_slice_def)

lemma nth_ring_slice: "i < n \<Longrightarrow> ring_slice buf a n ! i = buf ! ((a + i) mod length buf)"
  by (simp add: ring_slice_def)

lemma ring_slice_mod [ring_simps]:
  "ring_slice buf (a mod length buf) n = ring_slice buf a n"
  by (simp add: ring_slice_def mod_add_left_eq)

lemma ring_slice_cong_mod:
  "a mod length buf = b mod length buf \<Longrightarrow> ring_slice buf a n = ring_slice buf b n"
  by (metis ring_slice_mod)

lemma ring_slice_Suc: "ring_slice buf a (Suc n) = buf ! (a mod length buf) # ring_slice buf (Suc a) n"
  by (rule nth_equalityI) (auto simp: nth_ring_slice nth_Cons split: nat.splits)

lemma ring_index_inj:
  fixes a i j L :: nat
  assumes "i < L" "j < L" "(a + i) mod L = (a + j) mod L"
  shows "i = j"
proof -
  have "L dvd (a + max i j) - (a + min i j)"
    using assms(3) mod_eq_dvd_iff_nat [of "a + min i j" "a + max i j" L]
    by (auto simp: max_def min_def split: if_splits)
  then have "L dvd max i j - min i j" by simp
  moreover have "max i j - min i j < L" using assms(1,2) by linarith
  ultimately have "max i j - min i j = 0" using nat_dvd_not_less by blast
  then show ?thesis by (simp add: max_def min_def split: if_splits)
qed

lemma ring_slice_snoc:
  assumes "n < length buf"
  shows "ring_slice (buf[(a + n) mod length buf := x]) a (Suc n) = ring_slice buf a n @ [x]"
proof (rule nth_equalityI)
  fix i assume "i < length (ring_slice (buf[(a + n) mod length buf := x]) a (Suc n))"
  then have i: "i \<le> n" by simp
  have pos: "(a + n) mod length buf < length buf" using assms by (intro mod_less_divisor) linarith
  show "ring_slice (buf[(a + n) mod length buf := x]) a (Suc n) ! i = (ring_slice buf a n @ [x]) ! i"
  proof (cases "i = n")
    case True
    with pos show ?thesis by (simp add: nth_ring_slice nth_append)
  next
    case False
    with i assms have "(a + n) mod length buf \<noteq> (a + i) mod length buf"
      using ring_index_inj [of n "length buf" i a] by auto
    with False i show ?thesis by (simp add: nth_ring_slice nth_append)
  qed
qed simp

lemma ring_slice_upd_front:
  assumes "n < length buf"
  shows "ring_slice (buf[a mod length buf := x]) a (Suc n) = x # ring_slice buf (Suc a) n"
proof (rule nth_equalityI)
  fix i assume "i < length (ring_slice (buf[a mod length buf := x]) a (Suc n))"
  then have i: "i \<le> n" by simp
  have pos: "a mod length buf < length buf" using assms by (intro mod_less_divisor) linarith
  show "ring_slice (buf[a mod length buf := x]) a (Suc n) ! i = (x # ring_slice buf (Suc a) n) ! i"
  proof (cases i)
    case 0
    with pos show ?thesis by (simp add: nth_ring_slice)
  next
    case (Suc j)
    with i assms have "a mod length buf \<noteq> (a + i) mod length buf"
      using ring_index_inj [of 0 "length buf" i a] by fastforce
    with Suc i show ?thesis by (simp add: nth_ring_slice)
  qed
qed simp

lemma ring_slice_upd_other:
  assumes "n \<le> m" "m < length buf"
  shows "ring_slice (buf[(a + m) mod length buf := x]) a n = ring_slice buf a n"
proof (rule nth_equalityI)
  fix i assume "i < length (ring_slice (buf[(a + m) mod length buf := x]) a n)"
  then have i: "i < n" by simp
  with assms have "(a + m) mod length buf \<noteq> (a + i) mod length buf"
    using ring_index_inj [of m "length buf" i a] by auto
  with i show "ring_slice (buf[(a + m) mod length buf := x]) a n ! i = ring_slice buf a n ! i"
    by (simp add: nth_ring_slice)
qed simp

section \<open>Words\<close>

lemma unat_and_mask:
  fixes w :: "'a::len word"
  shows "unat (w AND mask n) = unat w mod 2 ^ n"
proof -
  have "unat (take_bit n w) = take_bit n (unat w)" by (rule unsigned_take_bit_eq)
  then show ?thesis by (simp add: take_bit_eq_mask [of n w] take_bit_eq_mod [of n "unat w"])
qed

lemma and_pow2_minus_1:
  fixes w :: "'a::len word"
  shows "w AND (2 ^ n - 1) = w AND mask n"
  by (simp add: mask_eq_decr_exp)

lemma word_and_absorb_iff:
  fixes w r :: "'a::len word"
  shows "w AND r = r \<longleftrightarrow> (\<forall>i. bit r i \<longrightarrow> bit w i)"
proof
  assume "w AND r = r"
  then show "\<forall>i. bit r i \<longrightarrow> bit w i" by (metis bit_and_iff)
next
  assume "\<forall>i. bit r i \<longrightarrow> bit w i"
  then show "w AND r = r" by (intro bit_eqI) (auto simp: bit_and_iff)
qed

lemma unat_of_nat_small:
  assumes "n < 2 ^ LENGTH('a)"
  shows "unat (of_nat n :: 'a::len word) = n"
  using assms by (simp add: unat_of_nat)

lemma pow2_less_word_range: "k < 64 \<Longrightarrow> (2::nat) ^ k < 2 ^ LENGTH(64)"
  using power_strict_increasing [of k 64 "2::nat"] by simp

lemma unat_pow2: "k < LENGTH('a) \<Longrightarrow> unat (2 ^ k :: 'a::len word) = 2 ^ k"
  using unat_of_nat_small [of "2 ^ k", where 'a = 'a] by (simp add: power_strict_increasing)

text \<open>Positions read modulo a divisor of the word range do not see the wrap-around.\<close>

lemma unat_add_mod_pow2:
  fixes a b :: "'a::len word"
  assumes "k \<le> LENGTH('a)"
  shows "unat (a + b) mod 2 ^ k = (unat a + unat b) mod 2 ^ k"
proof -
  have "(2::nat) ^ k dvd 2 ^ LENGTH('a)" using assms by (simp add: le_imp_power_dvd)
  then show ?thesis by (simp add: unat_word_ariths mod_mod_cancel)
qed

lemma unat_sub_step:
  fixes a b :: "'a::len word"
  assumes "unat (a - b) + 1 < 2 ^ LENGTH('a)"
  shows "unat (a + 1 - b) = unat (a - b) + 1"
proof -
  have "a + 1 - b = (a - b) + 1" by (simp add: algebra_simps)
  moreover have "unat ((a - b) + 1) = unat (a - b) + 1"
    using assms by (subst unat_word_ariths) simp
  ultimately show ?thesis by metis
qed

lemma unat_sub_step_down:
  fixes a b :: "'a::len word"
  assumes "a \<noteq> b"
  shows "unat (a - (b + 1)) + 1 = unat (a - b)"
proof -
  have "a - b \<noteq> 0" using assms by simp
  then have "unat (a - b - 1) = unat (a - b) - 1" "0 < unat (a - b)"
    by (simp_all add: unat_minus_one unat_gt_0)
  then show ?thesis by (simp add: diff_diff_eq)
qed

end
