(* ===== verification/Fifo.thy ===== *)
theory Fifo
  imports Prelude
begin

text \<open>
  The contract of a bounded first-in first-out queue, as the rings and queues of the kernel
  promise it to their clients, and the client lemmas that follow from it: every
  interleaving of pushes and pops delivers the accepted elements in order and without loss,
  and the ``pop until empty'' loop returns exactly the contents. The interpretations are in
  the theories of the providers (\<open>SpscRing\<close>, \<open>BoostRing\<close>, \<open>Mlfq\<close>, \<open>Keyboard\<close>).
\<close>

section \<open>Client programs\<close>

datatype 'a fifo_op = Push 'a | Pop

text \<open>
  \<open>fifo_run\<close> executes a sequence of operations and collects the elements that were accepted
  and the elements that came out.
\<close>

fun fifo_run ::
  "('q \<Rightarrow> 'a \<Rightarrow> bool) \<Rightarrow> ('q \<Rightarrow> 'a \<Rightarrow> 'q) \<Rightarrow> ('q \<Rightarrow> 'a option \<times> 'q) \<Rightarrow> 'a fifo_op list \<Rightarrow> 'q
     \<Rightarrow> 'a list \<times> 'a list \<times> 'q" where
  "fifo_run accepts push pop [] q = ([], [], q)"
| "fifo_run accepts push pop (Push x # ops) q =
     (let (ins, outs, q') = fifo_run accepts push pop ops (push q x)
      in (if accepts q x then x # ins else ins, outs, q'))"
| "fifo_run accepts push pop (Pop # ops) q =
     (let (r, q1) = pop q; (ins, outs, q') = fifo_run accepts push pop ops q1
      in (ins, (case r of None \<Rightarrow> outs | Some v \<Rightarrow> v # outs), q'))"

text \<open>
  The loop \<open>while let Some(x) = pop() { out.push(x) }\<close>, with fuel; \<open>drain_fuel_contents\<close>
  below shows that one more unit than the queue holds elements is enough.
\<close>

fun drain_fuel :: "('q \<Rightarrow> 'a option \<times> 'q) \<Rightarrow> nat \<Rightarrow> 'q \<Rightarrow> ('a list \<times> 'q) option" where
  "drain_fuel pop 0 q = None"
| "drain_fuel pop (Suc n) q =
     (case pop q of
        (None, q') \<Rightarrow> Some ([], q')
      | (Some x, q') \<Rightarrow> map_option (\<lambda>(xs, q''). (x # xs, q'')) (drain_fuel pop n q'))"

section \<open>The contract\<close>

locale bounded_fifo =
  fixes inv :: "'q \<Rightarrow> bool"
    and contents :: "'q \<Rightarrow> 'a list"
    and cap :: "'q \<Rightarrow> nat"
    and accepts :: "'q \<Rightarrow> 'a \<Rightarrow> bool"
    and push :: "'q \<Rightarrow> 'a \<Rightarrow> 'q"
    and pop :: "'q \<Rightarrow> 'a option \<times> 'q"
  assumes contents_bound: "inv q \<Longrightarrow> length (contents q) \<le> cap q"
    and accepts_iff: "inv q \<Longrightarrow> accepts q x \<longleftrightarrow> length (contents q) < cap q"
    and inv_push: "inv q \<Longrightarrow> inv (push q x)"
    and cap_push: "inv q \<Longrightarrow> cap (push q x) = cap q"
    and contents_push:
      "inv q \<Longrightarrow> contents (push q x) = (if accepts q x then contents q @ [x] else contents q)"
    and inv_pop: "inv q \<Longrightarrow> inv (snd (pop q))"
    and cap_pop: "inv q \<Longrightarrow> cap (snd (pop q)) = cap q"
    and result_pop:
      "inv q \<Longrightarrow> fst (pop q) = (case contents q of [] \<Rightarrow> None | x # _ \<Rightarrow> Some x)"
    and contents_pop: "inv q \<Longrightarrow> contents (snd (pop q)) = tl (contents q)"
begin

lemma pop_Some:
  assumes "inv q" "pop q = (Some x, q')"
  shows "inv q'" "contents q = x # contents q'" "cap q' = cap q"
  using inv_pop [OF assms(1)] result_pop [OF assms(1)] contents_pop [OF assms(1)]
    cap_pop [OF assms(1)] assms(2)
  by (auto split: list.splits)

lemma pop_None:
  assumes "inv q" "pop q = (None, q')"
  shows "inv q'" "contents q = []" "contents q' = []" "cap q' = cap q"
  using inv_pop [OF assms(1)] result_pop [OF assms(1)] contents_pop [OF assms(1)]
    cap_pop [OF assms(1)] assms(2)
  by (auto split: list.splits)

lemma fifo_order:
  assumes "inv q" "fifo_run accepts push pop ops q = (ins, outs, q')"
  shows "inv q' \<and> contents q @ ins = outs @ contents q'"
  using assms
proof (induction ops arbitrary: q ins outs q')
  case Nil
  then show ?case by simp
next
  case (Cons c ops)
  show ?case
  proof (cases c)
    case (Push x)
    obtain i o' r where run: "fifo_run accepts push pop ops (push q x) = (i, o', r)"
      by (metis prod_cases3)
    with Cons.IH [OF inv_push [OF Cons.prems(1)] run] Cons.prems Push
    show ?thesis by (auto simp: contents_push split: if_splits)
  next
    case Pop
    obtain v q1 where pop: "pop q = (v, q1)" by force
    obtain i o' r where run: "fifo_run accepts push pop ops q1 = (i, o', r)"
      by (metis prod_cases3)
    show ?thesis
    proof (cases v)
      case None
      with Cons.IH [OF _ run] pop_None [OF Cons.prems(1)] Cons.prems(2) pop run Pop
      show ?thesis by auto
    next
      case (Some y)
      with Cons.IH [OF _ run] pop_Some [OF Cons.prems(1)] Cons.prems(2) pop run Pop
      show ?thesis by auto
    qed
  qed
qed

text \<open>The draining loop ends within one iteration more than there are elements.\<close>

lemma drain_fuel_contents:
  assumes "inv q" "length (contents q) < n"
  shows "\<exists>q'. drain_fuel pop n q = Some (contents q, q') \<and> inv q' \<and> contents q' = []
    \<and> cap q' = cap q"
  using assms
proof (induction n arbitrary: q)
  case 0
  then show ?case by simp
next
  case (Suc n)
  obtain v q1 where pop: "pop q = (v, q1)" by force
  show ?case
  proof (cases v)
    case None
    with pop pop_None [OF Suc.prems(1)] show ?thesis by simp
  next
    case (Some x)
    with pop have p: "inv q1" "contents q = x # contents q1" "cap q1 = cap q"
      using pop_Some [OF Suc.prems(1)] by auto
    with Suc.prems(2) have "length (contents q1) < n" by simp
    from Suc.IH [OF p(1) this] pop Some p show ?thesis by auto
  qed
qed

end

end
