(* ===== verification/SpscRing.thy ===== *)
theory SpscRing
  imports Fifo
begin

text \<open>
  \<open>libs/beast_ring/src/lib.rs\<close>: the single-producer single-consumer ring. \<open>sr_head\<close> and
  \<open>sr_tail\<close> are free-running 64-bit counters that wrap around, the slot of a counter is its
  low bits. The first part models \<open>try_push\<close>, \<open>try_pop\<close> and the queries as state
  transformers and interprets the queue contract on them; the second part splits both
  operations into their atomic accesses and lets a producer and a consumer interleave.
\<close>

section \<open>The ring\<close>

record 'a SpscRing =
  sr_head :: usize
  sr_tail :: usize
  sr_buffer :: "'a list"

text \<open>The capacity \<open>N\<close> is the length of the array; as a \<open>usize\<close> it is \<open>spsc_capacity\<close>.\<close>

definition spsc_capacity :: "'a SpscRing \<Rightarrow> usize" where
  "spsc_capacity r = of_nat (length (sr_buffer r))"

definition spsc_capacity_ok :: "usize \<Rightarrow> bool" where
  "spsc_capacity_ok n \<longleftrightarrow> n > 0 \<and> n AND (n - 1) = 0"

text \<open>\<open>new\<close>: the assertion on \<open>N\<close> fails by a panic; \<open>z\<close> is the zeroed value of \<open>T\<close>.\<close>

definition spsc_new :: "usize \<Rightarrow> 'a \<Rightarrow> 'a SpscRing or_panic" where
  "spsc_new n z =
     (if spsc_capacity_ok n
      then Some \<lparr>sr_head = 0, sr_tail = 0, sr_buffer = replicate (unat n) z\<rparr>
      else None)"

definition spsc_index :: "'a SpscRing \<Rightarrow> usize \<Rightarrow> nat" where
  "spsc_index r c = unat (c AND (spsc_capacity r - 1))"

definition try_push :: "'a SpscRing \<Rightarrow> 'a \<Rightarrow> ('a + unit) \<times> 'a SpscRing" where
  "try_push r value =
     (if sr_head r - sr_tail r \<ge> spsc_capacity r then (Inl value, r)
      else (Inr (), r\<lparr>sr_buffer := (sr_buffer r)[spsc_index r (sr_head r) := value],
                      sr_head := sr_head r + 1\<rparr>))"

definition try_pop :: "'a SpscRing \<Rightarrow> 'a option \<times> 'a SpscRing" where
  "try_pop r =
     (if sr_tail r = sr_head r then (None, r)
      else (Some (sr_buffer r ! spsc_index r (sr_tail r)), r\<lparr>sr_tail := sr_tail r + 1\<rparr>))"

definition spsc_is_empty :: "'a SpscRing \<Rightarrow> bool" where
  "spsc_is_empty r \<longleftrightarrow> sr_head r = sr_tail r"

definition spsc_is_full :: "'a SpscRing \<Rightarrow> bool" where
  "spsc_is_full r \<longleftrightarrow> sr_head r - sr_tail r \<ge> spsc_capacity r"

definition spsc_len :: "'a SpscRing \<Rightarrow> usize" where
  "spsc_len r = sr_head r - sr_tail r"

section \<open>Abstraction and invariant\<close>

definition spsc_contents :: "'a SpscRing \<Rightarrow> 'a list" where
  "spsc_contents r = ring_slice (sr_buffer r) (unat (sr_tail r)) (unat (spsc_len r))"

definition spsc_wf :: "'a SpscRing \<Rightarrow> bool" where
  "spsc_wf r \<longleftrightarrow> (\<exists>k \<in> {0..<64}. length (sr_buffer r) = 2 ^ k)
     \<and> unat (spsc_len r) \<le> length (sr_buffer r)"

lemma bit_top_word:
  fixes w :: "64 word"
  assumes "2 ^ k \<le> unat w" "unat w < 2 ^ Suc k"
  shows "bit w k"
proof -
  have "unat w div 2 ^ k = 1"
    using assms by (simp add: Euclidean_Rings.div_nat_eqI)
  then have "bit (unat w) k" by (simp add: bit_iff_odd)
  then show ?thesis by (simp add: bit_unsigned_iff)
qed

lemma capacity_ok_pow2:
  assumes "spsc_capacity_ok n"
  obtains k where "k < 64" "unat n = 2 ^ k"
proof -
  have pos: "0 < unat n" using assms by (simp add: spsc_capacity_ok_def unat_gt_0 word_gt_0)
  then obtain k where k: "2 ^ k \<le> unat n" "unat n < 2 ^ (k + 1)"
    using ex_power_ivl1 [of 2 "unat n"] by auto
  have k64: "k < 64"
  proof (rule ccontr)
    assume "\<not> k < 64"
    then have "(2::nat) ^ 64 \<le> 2 ^ k" by (intro power_increasing) auto
    with k(1) unsigned_less [of n, where 'a = nat] show False by simp
  qed
  have "unat n = 2 ^ k"
  proof (rule ccontr)
    assume "unat n \<noteq> 2 ^ k"
    with k pos have "2 ^ k \<le> unat (n - 1)" "unat (n - 1) < 2 ^ Suc k"
      by (auto simp: unat_minus_one unat_gt_0)
    then have "bit (n - 1) k" by (rule bit_top_word)
    moreover from k have "bit n k" by (intro bit_top_word) auto
    ultimately have "bit (n AND (n - 1)) k" by (simp add: bit_and_iff)
    with assms show False by (simp add: spsc_capacity_ok_def)
  qed
  with k64 show thesis by (rule that)
qed

lemma unat_spsc_capacity:
  assumes "spsc_wf r" shows "unat (spsc_capacity r) = length (sr_buffer r)"
proof -
  from assms obtain k where "k < 64" "length (sr_buffer r) = 2 ^ k"
    by (auto simp: spsc_wf_def)
  then show ?thesis
    using unat_of_nat_small [OF pow2_less_word_range] by (simp add: spsc_capacity_def)
qed

lemma spsc_index_mod:
  assumes "spsc_wf r" shows "spsc_index r c = unat c mod length (sr_buffer r)"
proof -
  from assms obtain k where k: "k < 64" "length (sr_buffer r) = 2 ^ k"
    by (auto simp: spsc_wf_def)
  then have "spsc_capacity r = 2 ^ k" by (simp add: spsc_capacity_def)
  then show ?thesis
    by (simp add: spsc_index_def and_pow2_minus_1 unat_and_mask k(2))
qed

lemma unat_add_mod_len:
  fixes a b :: usize
  assumes "spsc_wf r"
  shows "unat (a + b) mod length (sr_buffer r) = (unat a + unat b) mod length (sr_buffer r)"
proof -
  from assms obtain k where "k < 64" "length (sr_buffer r) = 2 ^ k"
    by (auto simp: spsc_wf_def)
  then show ?thesis using unat_add_mod_pow2 [of k a b] by simp
qed

text \<open>The slot of the head counter is the one \<open>len\<close> positions after the tail's.\<close>

lemma spsc_index_head:
  assumes "spsc_wf r"
  shows "spsc_index r (sr_head r) =
    (unat (sr_tail r) + unat (spsc_len r)) mod length (sr_buffer r)"
  using unat_add_mod_len [OF assms, of "sr_tail r" "spsc_len r"]
  by (simp add: spsc_index_mod [OF assms] spsc_len_def)

lemma spsc_index_tail:
  assumes "spsc_wf r"
  shows "spsc_index r (sr_tail r) = unat (sr_tail r) mod length (sr_buffer r)"
  by (rule spsc_index_mod [OF assms])

lemma spsc_len_not_full:
  assumes "spsc_wf r"
  shows "\<not> sr_head r - sr_tail r \<ge> spsc_capacity r \<longleftrightarrow>
    unat (spsc_len r) < length (sr_buffer r)"
  by (simp add: word_le_nat_alt unat_spsc_capacity [OF assms] spsc_len_def not_le)

lemma spsc_len_push:
  assumes "spsc_wf r" "unat (spsc_len r) < length (sr_buffer r)"
  shows "unat (sr_head r + 1 - sr_tail r) = Suc (unat (spsc_len r))"
proof -
  from assms(1) obtain k where "k < 64" "length (sr_buffer r) = 2 ^ k"
    by (auto simp: spsc_wf_def)
  moreover from this have "(2::nat) ^ k \<le> 2 ^ 63" by (intro power_increasing) auto
  ultimately have "unat (sr_head r - sr_tail r) + 1 < 2 ^ LENGTH(64)"
    using assms(2) by (simp add: spsc_len_def)
  then show ?thesis by (simp add: unat_sub_step spsc_len_def)
qed

lemma spsc_len_pop:
  assumes "sr_tail r \<noteq> sr_head r"
  shows "Suc (unat (sr_head r - (sr_tail r + 1))) = unat (spsc_len r)"
  using unat_sub_step_down [of "sr_head r" "sr_tail r"] assms by (simp add: spsc_len_def)

lemma spsc_new_wf [wf_intros]:
  assumes "spsc_new n z = Some r"
  shows "spsc_wf r \<and> spsc_contents r = [] \<and> length (sr_buffer r) = unat n"
proof -
  from assms have ok: "spsc_capacity_ok n"
    and r: "r = \<lparr>sr_head = 0, sr_tail = 0, sr_buffer = replicate (unat n) z\<rparr>"
    by (auto simp: spsc_new_def split: if_splits)
  from ok obtain k where "k < 64" "unat n = 2 ^ k" by (rule capacity_ok_pow2)
  then show ?thesis by (auto simp: r spsc_wf_def spsc_contents_def spsc_len_def)
qed

section \<open>The operations implement a bounded queue\<close>

lemma try_push_ok:
  assumes "spsc_wf r" "length (spsc_contents r) < length (sr_buffer r)"
  shows "fst (try_push r v) = Inr () \<and> spsc_wf (snd (try_push r v))
    \<and> spsc_contents (snd (try_push r v)) = spsc_contents r @ [v]"
proof -
  have room: "unat (spsc_len r) < length (sr_buffer r)"
    using assms(2) by (simp add: spsc_contents_def)
  then have nf: "\<not> sr_head r - sr_tail r \<ge> spsc_capacity r"
    using spsc_len_not_full [OF assms(1)] by simp
  have "unat (sr_head r + 1 - sr_tail r) = Suc (unat (spsc_len r))"
    by (rule spsc_len_push [OF assms(1) room])
  with assms(1) nf room show ?thesis
    by (auto simp: try_push_def spsc_wf_def spsc_contents_def spsc_len_def
        spsc_index_head [OF assms(1)] ring_slice_snoc)
qed

lemma try_push_full:
  assumes "spsc_wf r" "length (spsc_contents r) = length (sr_buffer r)"
  shows "try_push r v = (Inl v, r)"
  using assms(2) spsc_len_not_full [OF assms(1)]
  by (auto simp: try_push_def spsc_contents_def)

lemma try_pop_ok:
  assumes "spsc_wf r" "spsc_contents r = x # xs"
  shows "fst (try_pop r) = Some x \<and> spsc_wf (snd (try_pop r))
    \<and> spsc_contents (snd (try_pop r)) = xs"
proof -
  have ne: "sr_tail r \<noteq> sr_head r" using assms(2) by (auto simp: spsc_contents_def spsc_len_def)
  note len = spsc_len_pop [OF ne]
  have "spsc_contents r = sr_buffer r ! spsc_index r (sr_tail r)
      # ring_slice (sr_buffer r) (Suc (unat (sr_tail r))) (unat (sr_head r - (sr_tail r + 1)))"
    by (simp add: spsc_contents_def len [symmetric] ring_slice_Suc spsc_index_tail [OF assms(1)])
  moreover have "ring_slice (sr_buffer r) (Suc (unat (sr_tail r))) m
      = ring_slice (sr_buffer r) (unat (sr_tail r + 1)) m" for m
    using unat_add_mod_len [OF assms(1), of "sr_tail r" 1] by (intro ring_slice_cong_mod) simp
  ultimately show ?thesis
    using assms ne len by (auto simp: try_pop_def spsc_contents_def spsc_wf_def spsc_len_def)
qed

lemma try_pop_empty: "spsc_contents r = [] \<Longrightarrow> try_pop r = (None, r)"
  by (auto simp: try_pop_def spsc_contents_def spsc_len_def unat_eq_0)

lemma spsc_contents_le: "spsc_wf r \<Longrightarrow> length (spsc_contents r) \<le> length (sr_buffer r)"
  by (simp add: spsc_wf_def spsc_contents_def)

lemma length_buffer_try_push [simp]: "length (sr_buffer (snd (try_push r v))) = length (sr_buffer r)"
  by (simp add: try_push_def)

lemma length_buffer_try_pop [simp]: "length (sr_buffer (snd (try_pop r))) = length (sr_buffer r)"
  by (simp add: try_pop_def)

lemma try_push_cases:
  assumes "spsc_wf r"
  shows "spsc_wf (snd (try_push r v))"
    and "fst (try_push r v) = Inr () \<longleftrightarrow> length (spsc_contents r) < length (sr_buffer r)"
    and "spsc_contents (snd (try_push r v)) =
      (if fst (try_push r v) = Inr () then spsc_contents r @ [v] else spsc_contents r)"
proof -
  have "length (spsc_contents r) < length (sr_buffer r) \<or>
      length (spsc_contents r) = length (sr_buffer r)"
    using spsc_contents_le [OF assms] by linarith
  then show "spsc_wf (snd (try_push r v))"
    "fst (try_push r v) = Inr () \<longleftrightarrow> length (spsc_contents r) < length (sr_buffer r)"
    "spsc_contents (snd (try_push r v)) =
      (if fst (try_push r v) = Inr () then spsc_contents r @ [v] else spsc_contents r)"
    using try_push_ok [OF assms, of v] try_push_full [OF assms, of v] assms by auto
qed

lemma try_pop_cases:
  assumes "spsc_wf r"
  shows "spsc_wf (snd (try_pop r))"
    and "fst (try_pop r) = (case spsc_contents r of [] \<Rightarrow> None | x # _ \<Rightarrow> Some x)"
    and "spsc_contents (snd (try_pop r)) = tl (spsc_contents r)"
  using try_pop_ok [OF assms] try_pop_empty [of r] assms
  by (cases "spsc_contents r"; simp)+

interpretation spsc: bounded_fifo spsc_wf spsc_contents "\<lambda>r. length (sr_buffer r)"
  "\<lambda>r v. fst (try_push r v) = Inr ()" "\<lambda>r v. snd (try_push r v)" try_pop
  by unfold_locales
    (simp_all add: spsc_contents_le try_push_cases try_pop_cases split: list.splits)

lemma spsc_queries:
  assumes "spsc_wf r"
  shows "spsc_is_empty r \<longleftrightarrow> spsc_contents r = []"
    and "spsc_is_full r \<longleftrightarrow> length (spsc_contents r) = unat (spsc_capacity r)"
    and "unat (spsc_len r) = length (spsc_contents r)"
  using spsc_len_not_full [OF assms] assms
  by (auto simp: spsc_is_empty_def spsc_is_full_def spsc_contents_def spsc_wf_def
      unat_spsc_capacity [OF assms] spsc_len_def unat_eq_0)

section \<open>Producer and consumer interleaved\<close>

text \<open>
  Each operation is split at its atomic accesses, in the order of the code: \<open>try_push\<close>
  loads \<open>head\<close>, loads \<open>tail\<close> and decides, writes the slot, publishes \<open>head + 1\<close>;
  \<open>try_pop\<close> loads \<open>tail\<close>, loads \<open>head\<close> and decides, reads the slot, publishes \<open>tail + 1\<close>.
  The steps of the two sides interleave freely (sequentially consistent memory, which the
  acquire loads and release stores give on these four accesses). \<open>sent\<close> and \<open>received\<close>
  record the values in the order in which the two \<open>store(Release)\<close> publish them.
\<close>

datatype 'a producer = PIdle | PLoaded 'a usize | PRoom 'a usize | PWritten 'a usize

datatype 'a consumer = CIdle | CLoaded usize | CAvail usize | CRead usize 'a

record 'a spsc_system =
  ss_ring :: "'a SpscRing"
  ss_prod :: "'a producer"
  ss_cons :: "'a consumer"
  ss_sent :: "'a list"
  ss_received :: "'a list"

inductive spsc_step :: "'a spsc_system \<Rightarrow> 'a spsc_system \<Rightarrow> bool" where
  push_load_head: "ss_prod s = PIdle \<Longrightarrow>
     spsc_step s (s\<lparr>ss_prod := PLoaded v (sr_head (ss_ring s))\<rparr>)"
| push_full: "ss_prod s = PLoaded v h \<Longrightarrow> h - sr_tail (ss_ring s) \<ge> spsc_capacity (ss_ring s) \<Longrightarrow>
     spsc_step s (s\<lparr>ss_prod := PIdle\<rparr>)"
| push_room: "ss_prod s = PLoaded v h \<Longrightarrow> \<not> h - sr_tail (ss_ring s) \<ge> spsc_capacity (ss_ring s) \<Longrightarrow>
     spsc_step s (s\<lparr>ss_prod := PRoom v h\<rparr>)"
| push_write: "ss_prod s = PRoom v h \<Longrightarrow>
     spsc_step s (s\<lparr>ss_prod := PWritten v h,
       ss_ring := (ss_ring s)\<lparr>sr_buffer := (sr_buffer (ss_ring s))[spsc_index (ss_ring s) h := v]\<rparr>\<rparr>)"
| push_publish: "ss_prod s = PWritten v h \<Longrightarrow>
     spsc_step s (s\<lparr>ss_prod := PIdle, ss_ring := (ss_ring s)\<lparr>sr_head := h + 1\<rparr>,
       ss_sent := ss_sent s @ [v]\<rparr>)"
| pop_load_tail: "ss_cons s = CIdle \<Longrightarrow>
     spsc_step s (s\<lparr>ss_cons := CLoaded (sr_tail (ss_ring s))\<rparr>)"
| pop_empty: "ss_cons s = CLoaded t \<Longrightarrow> t = sr_head (ss_ring s) \<Longrightarrow>
     spsc_step s (s\<lparr>ss_cons := CIdle\<rparr>)"
| pop_avail: "ss_cons s = CLoaded t \<Longrightarrow> t \<noteq> sr_head (ss_ring s) \<Longrightarrow>
     spsc_step s (s\<lparr>ss_cons := CAvail t\<rparr>)"
| pop_read: "ss_cons s = CAvail t \<Longrightarrow>
     spsc_step s (s\<lparr>ss_cons := CRead t (sr_buffer (ss_ring s) ! spsc_index (ss_ring s) t)\<rparr>)"
| pop_publish: "ss_cons s = CRead t v \<Longrightarrow>
     spsc_step s (s\<lparr>ss_cons := CIdle, ss_ring := (ss_ring s)\<lparr>sr_tail := t + 1\<rparr>,
       ss_received := ss_received s @ [v]\<rparr>)"

inductive spsc_reachable :: "'a SpscRing \<Rightarrow> 'a spsc_system \<Rightarrow> bool" for r where
  start: "spsc_reachable r \<lparr>ss_ring = r, ss_prod = PIdle, ss_cons = CIdle, ss_sent = [], ss_received = []\<rparr>"
| step: "spsc_reachable r s \<Longrightarrow> spsc_step s t \<Longrightarrow> spsc_reachable r t"

text \<open>What each program counter knows about the shared ring.\<close>

fun producer_inv :: "'a SpscRing \<Rightarrow> 'a producer \<Rightarrow> bool" where
  "producer_inv r PIdle = True"
| "producer_inv r (PLoaded v h) = (h = sr_head r)"
| "producer_inv r (PRoom v h) = (h = sr_head r \<and> unat (spsc_len r) < length (sr_buffer r))"
| "producer_inv r (PWritten v h) =
     (h = sr_head r \<and> unat (spsc_len r) < length (sr_buffer r) \<and> sr_buffer r ! spsc_index r h = v)"

fun consumer_inv :: "'a SpscRing \<Rightarrow> 'a consumer \<Rightarrow> bool" where
  "consumer_inv r CIdle = True"
| "consumer_inv r (CLoaded t) = (t = sr_tail r)"
| "consumer_inv r (CAvail t) = (t = sr_tail r \<and> spsc_contents r \<noteq> [])"
| "consumer_inv r (CRead t v) = (t = sr_tail r \<and> (\<exists>xs. spsc_contents r = v # xs))"

definition spsc_sys_inv :: "'a spsc_system \<Rightarrow> bool" where
  "spsc_sys_inv s \<longleftrightarrow> spsc_wf (ss_ring s) \<and> producer_inv (ss_ring s) (ss_prod s)
     \<and> consumer_inv (ss_ring s) (ss_cons s)
     \<and> ss_sent s = ss_received s @ spsc_contents (ss_ring s)"

lemma spsc_contents_Nil: "spsc_contents r = [] \<longleftrightarrow> sr_tail r = sr_head r"
  by (auto simp: spsc_contents_def spsc_len_def unat_eq_0)

lemma spsc_contents_hd:
  assumes "spsc_wf r" "spsc_contents r \<noteq> []"
  shows "\<exists>xs. spsc_contents r = sr_buffer r ! spsc_index r (sr_tail r) # xs"
  using try_pop_cases(2) [OF assms(1)] assms(2) spsc_contents_Nil [of r]
  by (auto simp: try_pop_def split: list.splits)

text \<open>Writing the free slot of the producer is invisible to the consumer.\<close>

lemma spsc_index_less:
  assumes "spsc_wf r" shows "spsc_index r c < length (sr_buffer r)"
  using assms by (auto simp: spsc_index_mod spsc_wf_def intro!: mod_less_divisor)

lemma spsc_write_free:
  fixes r :: "'a SpscRing" and v :: 'a
  assumes "spsc_wf r" "unat (spsc_len r) < length (sr_buffer r)"
  defines "b \<equiv> (sr_buffer r)[spsc_index r (sr_head r) := v]"
  shows "spsc_wf (r\<lparr>sr_buffer := b\<rparr>)" "spsc_contents (r\<lparr>sr_buffer := b\<rparr>) = spsc_contents r"
    "spsc_len (r\<lparr>sr_buffer := b\<rparr>) = spsc_len r"
    "spsc_index (r\<lparr>sr_buffer := b\<rparr>) = spsc_index r" "b ! spsc_index r (sr_head r) = v"
    "length b = length (sr_buffer r)"
proof -
  show len: "length b = length (sr_buffer r)" by (simp add: b_def)
  show "b ! spsc_index r (sr_head r) = v"
    by (simp add: b_def spsc_index_less [OF assms(1)])
  show "spsc_wf (r\<lparr>sr_buffer := b\<rparr>)" "spsc_len (r\<lparr>sr_buffer := b\<rparr>) = spsc_len r"
    using assms(1) len by (auto simp: spsc_wf_def spsc_len_def)
  show "spsc_contents (r\<lparr>sr_buffer := b\<rparr>) = spsc_contents r"
    using ring_slice_upd_other [OF order_refl assms(2), of "unat (sr_tail r)" v]
    by (simp add: spsc_contents_def b_def spsc_index_head [OF assms(1)] spsc_len_def)
  show "spsc_index (r\<lparr>sr_buffer := b\<rparr>) = spsc_index r"
    using len by (simp add: fun_eq_iff spsc_index_def spsc_capacity_def)
qed

text \<open>Publishing the head makes the written slot the last element of the contents.\<close>

lemma spsc_publish_head:
  assumes "spsc_wf r" "unat (spsc_len r) < length (sr_buffer r)"
  shows "spsc_wf (r\<lparr>sr_head := sr_head r + 1\<rparr>)"
    "spsc_contents (r\<lparr>sr_head := sr_head r + 1\<rparr>) =
      spsc_contents r @ [sr_buffer r ! spsc_index r (sr_head r)]"
proof -
  have "r\<lparr>sr_head := sr_head r + 1\<rparr> = snd (try_push r (sr_buffer r ! spsc_index r (sr_head r)))"
    using assms(2) spsc_len_not_full [OF assms(1)] by (simp add: try_push_def)
  then show "spsc_wf (r\<lparr>sr_head := sr_head r + 1\<rparr>)"
    "spsc_contents (r\<lparr>sr_head := sr_head r + 1\<rparr>) =
      spsc_contents r @ [sr_buffer r ! spsc_index r (sr_head r)]"
    using try_push_ok [OF assms(1)] assms(2) by (simp_all add: spsc_contents_def)
qed

lemma spsc_publish_tail:
  assumes "spsc_wf r" "spsc_contents r = x # xs"
  shows "spsc_wf (r\<lparr>sr_tail := sr_tail r + 1\<rparr>)"
    "spsc_contents (r\<lparr>sr_tail := sr_tail r + 1\<rparr>) = xs"
    "unat (spsc_len (r\<lparr>sr_tail := sr_tail r + 1\<rparr>)) < unat (spsc_len r)"
proof -
  have ne: "sr_tail r \<noteq> sr_head r" using assms(2) spsc_contents_Nil [of r] by auto
  then have "r\<lparr>sr_tail := sr_tail r + 1\<rparr> = snd (try_pop r)" by (simp add: try_pop_def)
  then show "spsc_wf (r\<lparr>sr_tail := sr_tail r + 1\<rparr>)"
    "spsc_contents (r\<lparr>sr_tail := sr_tail r + 1\<rparr>) = xs"
    using try_pop_ok [OF assms] by auto
  show "unat (spsc_len (r\<lparr>sr_tail := sr_tail r + 1\<rparr>)) < unat (spsc_len r)"
    using spsc_len_pop [OF ne] by (simp add: spsc_len_def)
qed

lemma spsc_step_inv: "spsc_step s t \<Longrightarrow> spsc_sys_inv s \<Longrightarrow> spsc_sys_inv t"
proof (induction rule: spsc_step.induct)
  case (push_room s v h)
  then show ?case using spsc_len_not_full [of "ss_ring s"] by (simp add: spsc_sys_inv_def)
next
  case (push_write s v h)
  then have inv: "spsc_wf (ss_ring s)" "h = sr_head (ss_ring s)"
      "unat (spsc_len (ss_ring s)) < length (sr_buffer (ss_ring s))"
    by (auto simp: spsc_sys_inv_def)
  from push_write.prems show ?case
    using inv(3) by (cases "ss_cons s")
      (auto simp: spsc_sys_inv_def inv(2) spsc_write_free [OF inv(1,3)])
next
  case (push_publish s v h)
  then have inv: "spsc_wf (ss_ring s)" "h = sr_head (ss_ring s)"
      "unat (spsc_len (ss_ring s)) < length (sr_buffer (ss_ring s))"
      "sr_buffer (ss_ring s) ! spsc_index (ss_ring s) h = v"
    by (auto simp: spsc_sys_inv_def)
  from push_publish.prems inv(4) show ?case
    by (cases "ss_cons s") (auto simp: spsc_sys_inv_def inv(2) spsc_publish_head [OF inv(1,3)])
next
  case (pop_avail s t)
  then show ?case using spsc_contents_Nil [of "ss_ring s"] by (auto simp: spsc_sys_inv_def)
next
  case (pop_read s t)
  then show ?case using spsc_contents_hd [of "ss_ring s"] by (auto simp: spsc_sys_inv_def)
next
  case (pop_publish s t v)
  then obtain xs where inv: "spsc_wf (ss_ring s)" "t = sr_tail (ss_ring s)"
      "spsc_contents (ss_ring s) = v # xs"
    by (auto simp: spsc_sys_inv_def)
  note pub = spsc_publish_tail [OF inv(1,3)]
  have idx: "spsc_index (ss_ring s\<lparr>sr_tail := u\<rparr>) = spsc_index (ss_ring s)" for u
    by (simp add: fun_eq_iff spsc_index_def spsc_capacity_def)
  from pop_publish.prems pub inv(3) show ?case
    by (cases "ss_prod s") (auto simp: spsc_sys_inv_def inv(2) idx)
qed (simp_all add: spsc_sys_inv_def)

lemma spsc_reachable_inv:
  assumes "spsc_reachable r s" "spsc_wf r" "spsc_contents r = []"
  shows "spsc_sys_inv s"
  using assms(1)
proof (induction rule: spsc_reachable.induct)
  case start
  with assms(2,3) show ?case by (simp add: spsc_sys_inv_def)
next
  case (step s t)
  then show ?case by (blast intro: spsc_step_inv)
qed

text \<open>The slots the two sides touch at the same time are different.\<close>

lemma spsc_no_race:
  assumes "spsc_sys_inv s" "ss_prod s = PRoom v h" "ss_cons s = CAvail t"
  shows "spsc_index (ss_ring s) h \<noteq> spsc_index (ss_ring s) t"
proof -
  let ?r = "ss_ring s" and ?n = "unat (spsc_len (ss_ring s))"
  from assms have inv: "spsc_wf ?r" "h = sr_head ?r" "t = sr_tail ?r"
      "?n < length (sr_buffer ?r)" "spsc_contents ?r \<noteq> []"
    by (auto simp: spsc_sys_inv_def)
  from inv(5) have "0 < ?n" by (simp add: spsc_contents_def)
  with inv(4) have "(unat (sr_tail ?r) + ?n) mod length (sr_buffer ?r)
      \<noteq> (unat (sr_tail ?r) + 0) mod length (sr_buffer ?r)"
    using ring_index_inj [of ?n "length (sr_buffer ?r)" 0 "unat (sr_tail ?r)"] by linarith
  then show ?thesis by (simp add: inv(2,3) spsc_index_head [OF inv(1)] spsc_index_tail [OF inv(1)])
qed

section \<open>Properties\<close>

text \<open>C1: Whatever the order in which the atomic accesses of one producer and one consumer
  interleave, starting from a ring that \<open>new\<close> accepts, the values received so far followed by
  the values in the ring are exactly the values sent, in order; the ring never holds more than
  its capacity; and the slot the producer is about to write is never the slot the consumer is
  about to read.\<close>

theorem spsc_interleaving_fifo:
  assumes "spsc_new n z = Some r" and "spsc_reachable r s"
  shows "ss_sent s = ss_received s @ spsc_contents (ss_ring s)
    \<and> length (spsc_contents (ss_ring s)) \<le> length (sr_buffer (ss_ring s))
    \<and> (\<forall>v h t. ss_prod s = PRoom v h \<and> ss_cons s = CAvail t \<longrightarrow>
         spsc_index (ss_ring s) h \<noteq> spsc_index (ss_ring s) t)"
proof -
  from spsc_new_wf [OF assms(1)] have inv: "spsc_sys_inv s"
    by (intro spsc_reachable_inv [OF assms(2)]) auto
  then have "ss_sent s = ss_received s @ spsc_contents (ss_ring s)"
    "length (spsc_contents (ss_ring s)) \<le> length (sr_buffer (ss_ring s))"
    by (simp_all add: spsc_sys_inv_def spsc_contents_le)
  with spsc_no_race [OF inv] show ?thesis by blast
qed

lemma spsc_new_2: "spsc_new 2 z = Some \<lparr>sr_head = 0, sr_tail = 0, sr_buffer = [z, z]\<rparr>"
proof -
  have "replicate 2 z = [z, z]" by (simp add: numeral_2_eq_2)
  then show ?thesis by (simp add: spsc_new_def spsc_capacity_ok_def)
qed

lemma spsc_push_7_run:
  fixes r :: "nat SpscRing"
  defines "r \<equiv> \<lparr>sr_head = 0, sr_tail = 0, sr_buffer = [0, 0]\<rparr>"
  shows "spsc_reachable r
    \<lparr>ss_ring = \<lparr>sr_head = 1, sr_tail = 0, sr_buffer = [7, 0]\<rparr>, ss_prod = PIdle, ss_cons = CIdle,
     ss_sent = [7], ss_received = []\<rparr>"
proof -
  let ?s = "\<lambda>p b h o'. \<lparr>ss_ring = \<lparr>sr_head = h, sr_tail = 0, sr_buffer = b\<rparr>, ss_prod = p,
    ss_cons = CIdle, ss_sent = o', ss_received = []\<rparr> :: nat spsc_system"
  have "spsc_reachable r (?s PIdle [0, 0] 0 [])" by (simp add: r_def spsc_reachable.start)
  moreover have "spsc_step (?s PIdle [0, 0] 0 []) (?s (PLoaded 7 0) [0, 0] 0 [])"
    using push_load_head [of "?s PIdle [0, 0] 0 []" 7] by simp
  moreover have "spsc_step (?s (PLoaded 7 0) [0, 0] 0 []) (?s (PRoom 7 0) [0, 0] 0 [])"
    using push_room [of "?s (PLoaded 7 0) [0, 0] 0 []" 7 0] by (simp add: spsc_capacity_def)
  moreover have "spsc_step (?s (PRoom 7 0) [0, 0] 0 []) (?s (PWritten 7 0) [7, 0] 0 [])"
    using push_write [of "?s (PRoom 7 0) [0, 0] 0 []" 7 0]
    by (simp add: spsc_capacity_def spsc_index_def)
  moreover have "spsc_step (?s (PWritten 7 0) [7, 0] 0 []) (?s PIdle [7, 0] 1 [7])"
    using push_publish [of "?s (PWritten 7 0) [7, 0] 0 []" 7 0] by simp
  ultimately show ?thesis by (blast intro: spsc_reachable.step)
qed

theorem spsc_interleaving_fifo_witness:
  "let s = \<lparr>ss_ring = \<lparr>sr_head = 1, sr_tail = 0, sr_buffer = [7, 0]\<rparr>, ss_prod = PIdle,
      ss_cons = CIdle, ss_sent = [7 :: nat], ss_received = []\<rparr>
   in spsc_new 2 (0 :: nat) = Some \<lparr>sr_head = 0, sr_tail = 0, sr_buffer = [0, 0]\<rparr>
    \<and> ss_sent s = ss_received s @ spsc_contents (ss_ring s)"
  using spsc_interleaving_fifo [OF spsc_new_2 spsc_push_7_run] by (simp add: Let_def spsc_new_2)

text \<open>Run one after the other, any sequence of \<open>try_push\<close> and \<open>try_pop\<close> calls on a fresh
  ring is a bounded queue: the accepted values are the popped values followed by what is left
  in the ring, across any number of wrap-arounds of the counters.\<close>

theorem spsc_fifo_order:
  assumes "spsc_new n z = Some r"
    and "fifo_run (\<lambda>r v. fst (try_push r v) = Inr ()) (\<lambda>r v. snd (try_push r v)) try_pop ops r
      = (accepted, popped, r')"
  shows "accepted = popped @ spsc_contents r' \<and> spsc_wf r'"
  using spsc.fifo_order [OF _ assms(2)] spsc_new_wf [OF assms(1)] by auto

theorem spsc_fifo_order_witness:
  "fifo_run (\<lambda>r v. fst (try_push r v) = Inr ()) (\<lambda>r v. snd (try_push r v)) try_pop
     [Push 5, Push 6, Push 7, Pop, Push 8] \<lparr>sr_head = 0, sr_tail = 0, sr_buffer = [0, 0 :: nat]\<rparr>
     = ([5, 6, 8], [5], \<lparr>sr_head = 3, sr_tail = 1, sr_buffer = [8, 6]\<rparr>)
   \<and> [5, 6, 8] = [5] @ spsc_contents \<lparr>sr_head = 3, sr_tail = 1, sr_buffer = [8, 6 :: nat]\<rparr>"
proof -
  have run: "fifo_run (\<lambda>r v. fst (try_push r v) = Inr ()) (\<lambda>r v. snd (try_push r v)) try_pop
     [Push 5, Push 6, Push 7, Pop, Push 8] \<lparr>sr_head = 0, sr_tail = 0, sr_buffer = [0, 0 :: nat]\<rparr>
     = ([5, 6, 8], [5], \<lparr>sr_head = 3, sr_tail = 1, sr_buffer = [8, 6]\<rparr>)"
    by (simp add: try_push_def try_pop_def spsc_capacity_def spsc_index_def word_le_nat_alt)
  show ?thesis using run spsc_fifo_order [OF spsc_new_2 run] by simp
qed

end
