(* ===== verification/Handles.thy ===== *)
theory Handles
  imports Prelude
begin

text \<open>
  The contract of a handle table: \<open>insert\<close> picks a free index, \<open>lookup\<close> reads it, \<open>remove\<close>
  frees it. The capability table and the per-task file descriptor table follow it; their
  theories hold the interpretations. The client lemma says that a handle designates the same
  object until it is removed, whatever else the table is used for in between.
\<close>

datatype 'v handle_op = Insert 'v | Remove nat

fun handle_step ::
  "('t \<Rightarrow> 'v \<Rightarrow> (nat \<times> 't) option) \<Rightarrow> ('t \<Rightarrow> nat \<Rightarrow> 't) \<Rightarrow> 'v handle_op \<Rightarrow> 't \<Rightarrow> 't" where
  "handle_step ins rem (Insert v) t = (case ins t v of None \<Rightarrow> t | Some (h, t') \<Rightarrow> t')"
| "handle_step ins rem (Remove h) t = rem t h"

locale handle_table =
  fixes inv :: "'t \<Rightarrow> bool"
    and lookup :: "'t \<Rightarrow> nat \<Rightarrow> 'v option"
    and ins :: "'t \<Rightarrow> 'v \<Rightarrow> (nat \<times> 't) option"
    and rem :: "'t \<Rightarrow> nat \<Rightarrow> 't"
  assumes ins_free: "inv t \<Longrightarrow> ins t v = Some (h, t') \<Longrightarrow> lookup t h = None"
    and ins_lookup: "inv t \<Longrightarrow> ins t v = Some (h, t') \<Longrightarrow> lookup t' = (lookup t)(h \<mapsto> v)"
    and ins_inv: "inv t \<Longrightarrow> ins t v = Some (h, t') \<Longrightarrow> inv t'"
    and rem_lookup: "inv t \<Longrightarrow> lookup (rem t h) = (lookup t)(h := None)"
    and rem_inv: "inv t \<Longrightarrow> inv (rem t h)"
begin

lemma step_inv: "inv t \<Longrightarrow> inv (handle_step ins rem c t)"
  by (cases c) (auto simp: rem_inv split: option.splits intro: ins_inv)

lemma step_stable:
  assumes "inv t" "lookup t h = Some v" "c \<noteq> Remove h"
  shows "lookup (handle_step ins rem c t) h = Some v"
proof (cases c)
  case (Insert w)
  show ?thesis
  proof (cases "ins t w")
    case None
    with Insert assms(2) show ?thesis by simp
  next
    case (Some p)
    then obtain g t' where p: "ins t w = Some (g, t')" by (cases p) auto
    with ins_free [OF assms(1) p] assms(2) have "g \<noteq> h" by auto
    with ins_lookup [OF assms(1) p] Insert p assms(2) show ?thesis by simp
  qed
next
  case (Remove g)
  with assms rem_lookup [OF assms(1), of g] show ?thesis by auto
qed

lemma run_stable:
  assumes "inv t" "lookup t h = Some v" "Remove h \<notin> set ops"
  shows "inv (fold (handle_step ins rem) ops t)
    \<and> lookup (fold (handle_step ins rem) ops t) h = Some v"
  using assms
proof (induction ops arbitrary: t)
  case Nil
  then show ?case by simp
next
  case (Cons c ops)
  have "lookup (handle_step ins rem c t) h = Some v"
    using Cons.prems by (intro step_stable) auto
  with Cons.IH [OF step_inv [OF Cons.prems(1)]] Cons.prems(3) show ?case by simp
qed

end

end
