(* ===== verification/Capability.thy ===== *)
theory Capability
  imports Handles
begin

text \<open>
  \<open>libs/beast_capability/src/lib.rs\<close>: 128-bit capability tokens packed in two 64-bit words,
  and the per-process capability table of 256 entries.
\<close>

section \<open>Tokens\<close>

record Capability =
  cap_lo :: u64
  cap_hi :: u64

definition cap_new :: "u64 \<Rightarrow> u16 \<Rightarrow> u32 \<Rightarrow> u16 \<Rightarrow> u16 \<Rightarrow> Capability" where
  "cap_new object_id rights_mask generation owner nonce =
     \<lparr>cap_lo = (object_id AND 0xFFFFFFFFFFFF) OR push_bit 48 (ucast rights_mask),
      cap_hi = ucast generation OR push_bit 32 (ucast owner) OR push_bit 48 (ucast nonce)\<rparr>"

definition cap_null :: Capability where
  "cap_null = \<lparr>cap_lo = 0, cap_hi = 0\<rparr>"

definition cap_is_null :: "Capability \<Rightarrow> bool" where
  "cap_is_null c \<longleftrightarrow> cap_lo c = 0 \<and> cap_hi c = 0"

definition cap_object_id :: "Capability \<Rightarrow> u64" where
  "cap_object_id c = cap_lo c AND 0xFFFFFFFFFFFF"

definition cap_rights :: "Capability \<Rightarrow> u16" where
  "cap_rights c = ucast (drop_bit 48 (cap_lo c))"

definition cap_has_right :: "Capability \<Rightarrow> u16 \<Rightarrow> bool" where
  "cap_has_right c right \<longleftrightarrow> cap_rights c AND right = right"

definition cap_generation :: "Capability \<Rightarrow> u32" where
  "cap_generation c = ucast (cap_hi c)"

definition cap_owner :: "Capability \<Rightarrow> u16" where
  "cap_owner c = ucast (drop_bit 32 (cap_hi c))"

definition cap_nonce :: "Capability \<Rightarrow> u16" where
  "cap_nonce c = ucast (drop_bit 48 (cap_hi c))"

definition cap_restrict :: "Capability \<Rightarrow> u16 \<Rightarrow> Capability" where
  "cap_restrict c new_rights =
     cap_new (cap_object_id c) (cap_rights c AND new_rights) (cap_generation c) (cap_owner c)
       (cap_nonce c)"

section \<open>The table\<close>

definition CAP_TABLE_SIZE :: nat where
  "CAP_TABLE_SIZE = 256"

record CapEntry =
  ce_cap :: Capability
  ce_active :: bool

definition cap_entry_empty :: CapEntry where
  "cap_entry_empty = \<lparr>ce_cap = cap_null, ce_active = False\<rparr>"

record CapabilityTable =
  ct_entries :: "CapEntry list"
  ct_count :: nat

datatype CapError = InvalidHandle | InsufficientRights | StaleGeneration | Revoked

definition captable_new :: CapabilityTable where
  "captable_new = \<lparr>ct_entries = replicate CAP_TABLE_SIZE cap_entry_empty, ct_count = 0\<rparr>"

definition captable_insert :: "CapabilityTable \<Rightarrow> Capability \<Rightarrow> (nat \<times> CapabilityTable) option" where
  "captable_insert t cap =
     (case position (\<lambda>e. \<not> ce_active e) (ct_entries t) of
        None \<Rightarrow> None
      | Some i \<Rightarrow> Some (i, t\<lparr>ct_entries := (ct_entries t)[i := \<lparr>ce_cap = cap, ce_active = True\<rparr>],
                            ct_count := ct_count t + 1\<rparr>))"

definition captable_lookup :: "CapabilityTable \<Rightarrow> nat \<Rightarrow> Capability option" where
  "captable_lookup t handle =
     (if handle < CAP_TABLE_SIZE \<and> ce_active (ct_entries t ! handle)
      then Some (ce_cap (ct_entries t ! handle)) else None)"

definition captable_validate :: "CapabilityTable \<Rightarrow> nat \<Rightarrow> u16 \<Rightarrow> CapError + Capability" where
  "captable_validate t handle required =
     (case captable_lookup t handle of
        None \<Rightarrow> Inl InvalidHandle
      | Some cap \<Rightarrow> if \<not> cap_has_right cap required then Inl InsufficientRights else Inr cap)"

definition captable_revoke :: "CapabilityTable \<Rightarrow> nat \<Rightarrow> bool \<times> CapabilityTable" where
  "captable_revoke t handle =
     (if handle < CAP_TABLE_SIZE \<and> ce_active (ct_entries t ! handle)
      then (True, t\<lparr>ct_entries := (ct_entries t)[handle := cap_entry_empty], ct_count := ct_count t - 1\<rparr>)
      else (False, t))"

definition captable_len :: "CapabilityTable \<Rightarrow> nat" where
  "captable_len t = ct_count t"

section \<open>Token lemmas\<close>

lemma mask48: "(0xFFFFFFFFFFFF :: u64) = mask 48"
  by (simp add: mask_eq_decr_exp)

lemma cap_fields_new [word_bits, simp]:
  "cap_object_id (cap_new i r g w n) = i AND mask 48"
  "cap_rights (cap_new i r g w n) = r"
  "cap_generation (cap_new i r g w n) = g"
  "cap_owner (cap_new i r g w n) = w"
  "cap_nonce (cap_new i r g w n) = n"
  unfolding cap_object_id_def cap_rights_def cap_generation_def cap_owner_def cap_nonce_def
    cap_new_def mask48
  by (rule bit_eqI; auto simp: bit_simps dest: bit_imp_le_length)+

lemma cap_new_fields:
  "cap_new (cap_object_id c) (cap_rights c) (cap_generation c) (cap_owner c) (cap_nonce c) = c"
proof -
  have "cap_lo (cap_new (cap_object_id c) (cap_rights c) (cap_generation c) (cap_owner c) (cap_nonce c))
      = cap_lo c"
    unfolding cap_object_id_def cap_rights_def cap_new_def mask48
    by (rule bit_eqI) (auto simp: bit_simps)
  moreover have "cap_hi (cap_new (cap_object_id c) (cap_rights c) (cap_generation c) (cap_owner c) (cap_nonce c))
      = cap_hi c"
  proof (rule bit_eqI)
    fix n
    show "bit (cap_hi (cap_new (cap_object_id c) (cap_rights c) (cap_generation c) (cap_owner c)
        (cap_nonce c))) n = bit (cap_hi c) n"
      unfolding cap_generation_def cap_owner_def cap_nonce_def cap_new_def
      by (cases "48 \<le> n") (auto simp: bit_simps dest: bit_imp_le_length)
  qed
  ultimately show ?thesis by simp
qed

lemma cap_restrict_fields [simp]:
  "cap_object_id (cap_restrict c m) = cap_object_id c"
  "cap_rights (cap_restrict c m) = cap_rights c AND m"
  "cap_generation (cap_restrict c m) = cap_generation c"
  "cap_owner (cap_restrict c m) = cap_owner c"
  "cap_nonce (cap_restrict c m) = cap_nonce c"
  by (simp_all add: cap_restrict_def) (simp add: cap_object_id_def mask48 and.assoc)

lemma cap_has_right_iff: "cap_has_right c r \<longleftrightarrow> (\<forall>i. bit r i \<longrightarrow> bit (cap_rights c) i)"
  by (simp add: cap_has_right_def word_and_absorb_iff)

section \<open>Table lemmas\<close>

definition captable_wf :: "CapabilityTable \<Rightarrow> bool" where
  "captable_wf t \<longleftrightarrow> length (ct_entries t) = CAP_TABLE_SIZE
     \<and> ct_count t = length (filter ce_active (ct_entries t))"

lemma captable_new_wf [wf_intros]: "captable_wf captable_new"
  by (simp add: captable_wf_def captable_new_def cap_entry_empty_def)

lemma captable_insert_facts:
  assumes "captable_wf t" "captable_insert t c = Some (h, t')"
  shows "captable_wf t'" "captable_lookup t h = None" "captable_lookup t' = (captable_lookup t)(h \<mapsto> c)"
    "h < CAP_TABLE_SIZE" "ct_count t' = Suc (ct_count t)"
proof -
  from assms(2) have i: "position (\<lambda>e. \<not> ce_active e) (ct_entries t) = Some h"
    and t': "t' = t\<lparr>ct_entries := (ct_entries t)[h := \<lparr>ce_cap = c, ce_active = True\<rparr>],
                   ct_count := ct_count t + 1\<rparr>"
    by (auto simp: captable_insert_def split: option.splits)
  from i have h: "h < length (ct_entries t)" "\<not> ce_active (ct_entries t ! h)"
    by (auto simp: position_Some)
  show "captable_wf t'"
    using assms(1) h by (simp add: captable_wf_def t' count_update)
  show "captable_lookup t h = None" using h by (simp add: captable_lookup_def)
  show "captable_lookup t' = (captable_lookup t)(h \<mapsto> c)"
    using assms(1) h by (auto simp: captable_lookup_def t' captable_wf_def fun_eq_iff nth_list_update)
  show "h < CAP_TABLE_SIZE" using assms(1) h by (simp add: captable_wf_def)
  show "ct_count t' = Suc (ct_count t)" by (simp add: t')
qed

lemma captable_revoke_facts:
  assumes "captable_wf t"
  shows "captable_wf (snd (captable_revoke t h))"
    "captable_lookup (snd (captable_revoke t h)) = (captable_lookup t)(h := None)"
    "fst (captable_revoke t h) \<longleftrightarrow> captable_lookup t h \<noteq> None"
proof -
  show "captable_wf (snd (captable_revoke t h))"
    using assms count_update_off [of h "ct_entries t" ce_active cap_entry_empty]
    by (auto simp: captable_revoke_def captable_wf_def cap_entry_empty_def)
  show "captable_lookup (snd (captable_revoke t h)) = (captable_lookup t)(h := None)"
    using assms
    by (auto simp: captable_revoke_def captable_lookup_def captable_wf_def cap_entry_empty_def
        fun_eq_iff nth_list_update)
  show "fst (captable_revoke t h) \<longleftrightarrow> captable_lookup t h \<noteq> None"
    by (simp add: captable_revoke_def captable_lookup_def)
qed

interpretation captable: handle_table captable_wf captable_lookup captable_insert
  "\<lambda>t h. snd (captable_revoke t h)"
  by unfold_locales (auto simp: captable_insert_facts captable_revoke_facts)

lemma captable_full_iff:
  assumes "captable_wf t"
  shows "captable_insert t c = None \<longleftrightarrow> ct_count t = CAP_TABLE_SIZE"
proof -
  have "length (filter ce_active (ct_entries t)) = length (ct_entries t) \<longleftrightarrow>
      (\<forall>e \<in> set (ct_entries t). ce_active e)"
    by (metis length_filter_less filter_True less_irrefl_nat)
  with assms show ?thesis
    by (auto simp: captable_insert_def captable_wf_def position_None simp flip: not_None_eq
        split: option.splits)
qed

abbreviation captable_run :: "Capability handle_op list \<Rightarrow> CapabilityTable \<Rightarrow> CapabilityTable" where
  "captable_run \<equiv> fold (handle_step captable_insert (\<lambda>t h. snd (captable_revoke t h)))"

lemma captable_run_wf: "captable_wf t \<Longrightarrow> captable_wf (captable_run ops t)"
  by (induction ops arbitrary: t) (auto intro: captable.step_inv)

section \<open>Properties\<close>

text \<open>Packing and unpacking a capability token are inverse: every field that \<open>new\<close> packs is
  read back unchanged (the object id in its low 48 bits), and repacking the fields of any token
  gives the same 128 bits, so no two fields overlap.\<close>

theorem cap_token_roundtrip:
  "cap_object_id (cap_new i r g w n) = i AND 0xFFFFFFFFFFFF
   \<and> cap_rights (cap_new i r g w n) = r \<and> cap_generation (cap_new i r g w n) = g
   \<and> cap_owner (cap_new i r g w n) = w \<and> cap_nonce (cap_new i r g w n) = n
   \<and> cap_new (cap_object_id c) (cap_rights c) (cap_generation c) (cap_owner c) (cap_nonce c) = c"
  by (simp add: cap_new_fields mask48)

text \<open>\<open>restrict\<close> never adds a right: the derived token grants exactly the rights that the
  original grants and the mask keeps, and designates the same object, generation, owner and
  nonce. Restricting twice is restricting once by the intersection of the masks.\<close>

theorem cap_restrict_monotonic:
  "(cap_has_right (cap_restrict c m) r \<longleftrightarrow> cap_has_right c r \<and> m AND r = r)
   \<and> cap_object_id (cap_restrict c m) = cap_object_id c
   \<and> cap_generation (cap_restrict c m) = cap_generation c
   \<and> cap_owner (cap_restrict c m) = cap_owner c \<and> cap_nonce (cap_restrict c m) = cap_nonce c
   \<and> cap_restrict (cap_restrict c m) m' = cap_restrict c (m AND m')"
proof -
  have "cap_has_right (cap_restrict c m) r \<longleftrightarrow> cap_has_right c r \<and> m AND r = r"
    by (auto simp: cap_has_right_iff bit_and_iff word_and_absorb_iff)
  moreover have "cap_restrict (cap_restrict c m) m' = cap_restrict c (m AND m')"
    by (simp add: cap_restrict_def [of "cap_restrict c m"])
      (simp add: cap_restrict_def and.assoc)
  ultimately show ?thesis by simp
qed

text \<open>In every table reached from the empty one, a capability that \<open>insert\<close> stored under a
  handle stays the one \<open>validate\<close> finds under that handle, with exactly its rights, through any
  further insertions and revocations of other handles; revoking the handle makes \<open>validate\<close> fail
  with \<open>InvalidHandle\<close>; and \<open>insert\<close> fails only when all 256 entries are active.\<close>

theorem captable_validate_stable:
  assumes "captable_insert (captable_run before captable_new) c = Some (h, t)"
    and "Remove h \<notin> set after"
  shows "captable_validate (captable_run after t) h req =
      (if cap_has_right c req then Inr c else Inl InsufficientRights)
    \<and> captable_validate (snd (captable_revoke (captable_run after t) h)) h req = Inl InvalidHandle
    \<and> (captable_insert (captable_run after t) c' = None \<longleftrightarrow>
         captable_len (captable_run after t) = CAP_TABLE_SIZE)"
proof -
  have wf0: "captable_wf (captable_run before captable_new)"
    by (intro captable_run_wf captable_new_wf)
  note ins = captable_insert_facts [OF wf0 assms(1)]
  have "captable_lookup t h = Some c" by (simp add: ins(3))
  from captable.run_stable [OF ins(1) this assms(2)]
  have wf: "captable_wf (captable_run after t)" and look: "captable_lookup (captable_run after t) h = Some c"
    by auto
  show ?thesis
    using look captable_revoke_facts(2) [OF wf, of h] captable_full_iff [OF wf, of c']
    by (simp add: captable_validate_def captable_len_def)
qed

theorem captable_validate_stable_witness:
  "captable_validate (captable_run [Insert cap_null, Remove 1] (snd (the (captable_insert captable_new
     (cap_new 9 3 1 1 1))))) 0 1 = Inr (cap_new 9 3 1 1 1)"
proof -
  have "position (\<lambda>e. \<not> ce_active e) (ct_entries captable_new) = Some 0"
    by (simp add: captable_new_def CAP_TABLE_SIZE_def cap_entry_empty_def position_Some)
  then obtain t where ins: "captable_insert captable_new (cap_new 9 3 1 1 1) = Some (0, t)"
    by (simp add: captable_insert_def)
  then have "captable_insert (captable_run [] captable_new) (cap_new 9 3 1 1 1) = Some (0, t)" by simp
  moreover have "Remove 0 \<notin> set [Insert cap_null, Remove 1]" by simp
  ultimately have "captable_validate (captable_run [Insert cap_null, Remove 1] t) 0 1 =
      (if cap_has_right (cap_new 9 3 1 1 1) 1 then Inr (cap_new 9 3 1 1 1) else Inl InsufficientRights)"
    using captable_validate_stable by blast
  then show ?thesis by (simp add: ins cap_has_right_def)
qed

end
