(* ===== verification/Regions.thy ===== *)
theory Regions
  imports Prelude
begin

text \<open>
  The contract of an allocator that hands out regions (sets of units: page numbers for the
  physical memory manager, byte addresses for the kernel heap).  A client holds a list of live
  regions; the lemmas of the locale say that no two live regions ever overlap and that no free
  unit belongs to a live region, whatever sequence of requests and releases the client makes.
\<close>

datatype ('r, 'd) region_op = Alloc 'r | Release 'd

definition region_step ::
  "('r \<Rightarrow> 's \<Rightarrow> nat set option \<times> 's) \<Rightarrow> ('d \<Rightarrow> 's \<Rightarrow> 's) \<Rightarrow> ('d \<Rightarrow> nat set) \<Rightarrow>
   's \<times> nat set list \<Rightarrow> ('r, 'd) region_op \<Rightarrow> 's \<times> nat set list" where
  "region_step alloc release region st op =
     (case op of
        Alloc r \<Rightarrow> (case alloc r (fst st) of
                      (None, s') \<Rightarrow> (s', snd st)
                    | (Some R, s') \<Rightarrow> (s', R # snd st))
      | Release d \<Rightarrow> (release d (fst st), map (\<lambda>R. R - region d) (snd st)))"

text \<open>A client may release only what lies inside one of its live regions.\<close>

definition region_op_ok ::
  "('r \<Rightarrow> bool) \<Rightarrow> ('d \<Rightarrow> bool) \<Rightarrow> ('d \<Rightarrow> nat set) \<Rightarrow> nat set list \<Rightarrow> ('r, 'd) region_op \<Rightarrow> bool" where
  "region_op_ok req_ok rel_ok region live op =
     (case op of
        Alloc r \<Rightarrow> req_ok r
      | Release d \<Rightarrow> rel_ok d \<and> (\<exists>R \<in> set live. region d \<subseteq> R))"

fun region_run ::
  "('r \<Rightarrow> bool) \<Rightarrow> ('d \<Rightarrow> bool) \<Rightarrow> ('r \<Rightarrow> 's \<Rightarrow> nat set option \<times> 's) \<Rightarrow> ('d \<Rightarrow> 's \<Rightarrow> 's) \<Rightarrow> ('d \<Rightarrow> nat set) \<Rightarrow>
   ('r, 'd) region_op list \<Rightarrow> 's \<times> nat set list \<Rightarrow> ('s \<times> nat set list) option" where
  "region_run req_ok rel_ok alloc release region [] st = Some st"
| "region_run req_ok rel_ok alloc release region (op # ops) st =
     (if region_op_ok req_ok rel_ok region (snd st) op
      then region_run req_ok rel_ok alloc release region ops (region_step alloc release region st op)
      else None)"

fun pairwise_disjoint :: "'a set list \<Rightarrow> bool" where
  "pairwise_disjoint [] = True"
| "pairwise_disjoint (R # Rs) \<longleftrightarrow> (\<forall>S \<in> set Rs. R \<inter> S = {}) \<and> pairwise_disjoint Rs"

lemma pairwise_disjoint_diff:
  "pairwise_disjoint Rs \<Longrightarrow> pairwise_disjoint (map (\<lambda>R. R - D) Rs)"
  by (induction Rs) auto

lemma pairwise_disjoint_unique:
  "pairwise_disjoint Rs \<Longrightarrow> i < length Rs \<Longrightarrow> j < length Rs \<Longrightarrow> x \<in> Rs ! i \<Longrightarrow> x \<in> Rs ! j \<Longrightarrow> i = j"
proof (induction Rs arbitrary: i j)
  case (Cons R Rs)
  then show ?case by (cases i; cases j) (fastforce simp: disjoint_iff)+
qed simp

locale region_allocator =
  fixes inv :: "'s \<Rightarrow> bool"
    and free :: "'s \<Rightarrow> nat set"
    and req_ok :: "'r \<Rightarrow> bool"
    and rel_ok :: "'d \<Rightarrow> bool"
    and alloc :: "'r \<Rightarrow> 's \<Rightarrow> nat set option \<times> 's"
    and release :: "'d \<Rightarrow> 's \<Rightarrow> 's"
    and region :: "'d \<Rightarrow> nat set"
  assumes alloc_inv: "inv s \<Longrightarrow> req_ok r \<Longrightarrow> inv (snd (alloc r s))"
    and alloc_grant: "inv s \<Longrightarrow> req_ok r \<Longrightarrow> fst (alloc r s) = Some R \<Longrightarrow> R \<subseteq> free s"
    and alloc_taken: "inv s \<Longrightarrow> req_ok r \<Longrightarrow> fst (alloc r s) = Some R \<Longrightarrow> free (snd (alloc r s)) \<subseteq> free s - R"
    and alloc_fail: "inv s \<Longrightarrow> req_ok r \<Longrightarrow> fst (alloc r s) = None \<Longrightarrow> snd (alloc r s) = s"
    and release_inv: "inv s \<Longrightarrow> rel_ok d \<Longrightarrow> region d \<inter> free s = {} \<Longrightarrow> inv (release d s)"
    and release_free: "inv s \<Longrightarrow> rel_ok d \<Longrightarrow> region d \<inter> free s = {} \<Longrightarrow> free (release d s) \<subseteq> free s \<union> region d"
begin

definition client_inv :: "'s \<times> nat set list \<Rightarrow> bool" where
  "client_inv st \<longleftrightarrow> inv (fst st) \<and> pairwise_disjoint (snd st) \<and> (\<forall>R \<in> set (snd st). R \<inter> free (fst st) = {})"

lemma client_inv_start: "inv s \<Longrightarrow> client_inv (s, [])"
  by (simp add: client_inv_def)

lemma client_step_alloc:
  assumes "client_inv st" "req_ok r"
  shows "client_inv (region_step alloc release region st (Alloc r))"
proof (cases "fst (alloc r (fst st))")
  case None
  have "inv (fst st)"
    using assms by (simp add: client_inv_def)
  with None assms have "alloc r (fst st) = (None, fst st)"
    using alloc_fail [of "fst st" r] by (metis prod.collapse)
  then show ?thesis
    using assms by (simp add: region_step_def)
next
  case (Some R)
  have inv: "inv (fst st)"
    using assms by (simp add: client_inv_def)
  have "region_step alloc release region st (Alloc r) = (snd (alloc r (fst st)), R # snd st)"
    using Some by (cases "alloc r (fst st)") (simp add: region_step_def)
  moreover have "R \<subseteq> free (fst st)" "free (snd (alloc r (fst st))) \<subseteq> free (fst st) - R"
    "inv (snd (alloc r (fst st)))"
    using alloc_grant [OF inv assms(2) Some] alloc_taken [OF inv assms(2) Some] alloc_inv [OF inv assms(2)]
    by blast+
  ultimately show ?thesis
    using assms(1) unfolding client_inv_def by auto
qed

lemma client_step_release:
  assumes "client_inv st" "rel_ok d" "\<exists>R \<in> set (snd st). region d \<subseteq> R"
  shows "client_inv (region_step alloc release region st (Release d))"
proof -
  have inv: "inv (fst st)" and off: "region d \<inter> free (fst st) = {}"
    using assms unfolding client_inv_def by auto
  have "inv (release d (fst st))" "free (release d (fst st)) \<subseteq> free (fst st) \<union> region d"
    using release_inv [OF inv assms(2) off] release_free [OF inv assms(2) off] .
  then show ?thesis
    using assms(1) unfolding client_inv_def region_step_def
    by (auto simp: pairwise_disjoint_diff)
qed

lemma client_run_inv:
  "client_inv st \<Longrightarrow> region_run req_ok rel_ok alloc release region ops st = Some st' \<Longrightarrow> client_inv st'"
proof (induction ops arbitrary: st)
  case (Cons op ops)
  have "client_inv (region_step alloc release region st op)"
    using Cons.prems client_step_alloc client_step_release
    by (auto simp: region_op_ok_def split: if_splits region_op.splits)
  then show ?case
    using Cons by (auto split: if_splits)
qed simp

lemma live_regions_disjoint:
  assumes "inv s" "region_run req_ok rel_ok alloc release region ops (s, []) = Some (s', live)"
  shows "inv s' \<and> pairwise_disjoint live \<and> (\<forall>R \<in> set live. R \<inter> free s' = {})"
  using client_run_inv [OF client_inv_start [OF assms(1)] assms(2)] by (simp add: client_inv_def)

end

end
