(* ===== verification/Pmm.thy ===== *)
theory Pmm
  imports Regions
begin

text \<open>
  \<open>kernel/src/memory/pmm.rs\<close>: the physical memory manager, a bitmap with one bit for each 4 KiB
  page of the first 4 GiB (1 = free).  The statics \<open>BITMAP\<close>, \<open>TOTAL_PAGES\<close> and \<open>FREE_PAGES\<close> are the
  fields of one record; the counters are machine words, so \<open>fetch_sub\<close> and \<open>fetch_add\<close> wrap.
  Each function holds the bitmap lock from its first access to its return, so each is one step.
\<close>

section \<open>State and operations\<close>

definition PAGE_SIZE :: nat where
  "PAGE_SIZE = 4096"

definition MAX_PAGES :: nat where
  "MAX_PAGES = 1024 * 1024"

definition BITMAP_WORDS :: nat where
  "BITMAP_WORDS = MAX_PAGES div 64"

record Pmm =
  pm_bitmap :: "u64 list"
  pm_total :: usize
  pm_free :: usize

definition pmm_set_bit :: "u64 list \<Rightarrow> nat \<Rightarrow> u64 list" where
  "pmm_set_bit bm page = bm[page div 64 := bm ! (page div 64) OR push_bit (page mod 64) 1]"

definition pmm_clear_bit :: "u64 list \<Rightarrow> nat \<Rightarrow> u64 list" where
  "pmm_clear_bit bm page = bm[page div 64 := bm ! (page div 64) AND NOT (push_bit (page mod 64) 1)]"

definition pmm_test_bit :: "u64 list \<Rightarrow> nat \<Rightarrow> bool" where
  "pmm_test_bit bm page \<longleftrightarrow> bm ! (page div 64) AND push_bit (page mod 64) 1 \<noteq> 0"

text \<open>A memory map entry of the boot protocol: \<open>me_usable\<close> is \<open>type_ == MEMMAP_USABLE\<close>.\<close>

record memmap_entry =
  me_base :: u64
  me_length :: u64
  me_usable :: bool

definition page_range :: "usize \<Rightarrow> usize \<Rightarrow> nat list" where
  "page_range start_page end_page = [unat start_page ..< unat end_page]"

definition usable_pages :: "memmap_entry \<Rightarrow> nat list" where
  "usable_pages e =
     page_range ((me_base e + of_nat PAGE_SIZE - 1) div of_nat PAGE_SIZE)
                ((me_base e + me_length e) div of_nat PAGE_SIZE)"

definition mark_usable :: "nat \<Rightarrow> u64 list \<times> usize \<Rightarrow> u64 list \<times> usize" where
  "mark_usable page st =
     (if page < MAX_PAGES then (pmm_set_bit (fst st) page, snd st + 1) else st)"

definition mark_entry :: "memmap_entry \<Rightarrow> u64 list \<times> usize \<Rightarrow> u64 list \<times> usize" where
  "mark_entry e st = (if me_usable e then fold mark_usable (usable_pages e) st else st)"

definition reserve_page :: "nat \<Rightarrow> u64 list \<times> usize \<Rightarrow> u64 list \<times> usize" where
  "reserve_page page st =
     (if page < MAX_PAGES \<and> pmm_test_bit (fst st) page
      then (pmm_clear_bit (fst st) page, snd st - 1) else st)"

definition kernel_pages :: "u64 \<Rightarrow> u64 \<Rightarrow> nat list" where
  "kernel_pages kernel_start kernel_end =
     page_range (kernel_start div of_nat PAGE_SIZE)
                ((kernel_end + of_nat PAGE_SIZE - 1) div of_nat PAGE_SIZE)"

definition pmm_init :: "memmap_entry list \<Rightarrow> u64 \<Rightarrow> u64 \<Rightarrow> Pmm" where
  "pmm_init entries kernel_start kernel_end =
     (let (bm, free_count) = fold mark_entry entries (replicate BITMAP_WORDS 0, 0);
          st = fold reserve_page (kernel_pages kernel_start kernel_end) (bm, free_count);
          (bm', free) = fold reserve_page [0 ..< (1024 * 1024) div PAGE_SIZE] st
      in \<lparr>pm_bitmap = bm', pm_total = free_count, pm_free = free\<rparr>)"

definition trailing_zeros :: "u64 \<Rightarrow> nat" where
  "trailing_zeros w = (case position (bit w) [0..<64] of None \<Rightarrow> 64 | Some i \<Rightarrow> i)"

definition alloc_page :: "Pmm \<Rightarrow> u64 option \<times> Pmm" where
  "alloc_page p =
     (case position (\<lambda>w. w \<noteq> 0) (pm_bitmap p) of
        None \<Rightarrow> (None, p)
      | Some i \<Rightarrow>
          let page = i * 64 + trailing_zeros (pm_bitmap p ! i)
          in (Some (of_nat (page * PAGE_SIZE)),
              p\<lparr>pm_bitmap := pmm_clear_bit (pm_bitmap p) page, pm_free := pm_free p - 1\<rparr>))"

definition free_page :: "u64 \<Rightarrow> Pmm \<Rightarrow> Pmm" where
  "free_page phys_addr p =
     (let page = unat phys_addr div PAGE_SIZE
      in if MAX_PAGES \<le> page then p
         else if \<not> pmm_test_bit (pm_bitmap p) page
         then p\<lparr>pm_bitmap := pmm_set_bit (pm_bitmap p) page, pm_free := pm_free p + 1\<rparr>
         else p)"

text \<open>The scan of \<open>alloc_contiguous\<close>: the pages still to visit, \<open>run_start\<close> and \<open>run_len\<close>.\<close>

fun find_run :: "(nat \<Rightarrow> bool) \<Rightarrow> nat \<Rightarrow> nat list \<Rightarrow> nat \<Rightarrow> nat \<Rightarrow> nat option" where
  "find_run test count [] run_start run_len = None"
| "find_run test count (page # pages) run_start run_len =
     (if test page
      then let run_start = (if run_len = 0 then page else run_start);
               run_len = run_len + 1
           in if run_len = count then Some run_start
              else find_run test count pages run_start run_len
      else find_run test count pages run_start 0)"

definition take_page :: "nat \<Rightarrow> u64 list \<times> usize \<Rightarrow> u64 list \<times> usize" where
  "take_page p st = (pmm_clear_bit (fst st) p, snd st - 1)"

definition alloc_contiguous :: "nat \<Rightarrow> Pmm \<Rightarrow> u64 option \<times> Pmm" where
  "alloc_contiguous count p =
     (if count = 0 then (None, p)
      else case find_run (pmm_test_bit (pm_bitmap p)) count [0..<MAX_PAGES] 0 0 of
             None \<Rightarrow> (None, p)
           | Some run_start \<Rightarrow>
               let (bm, free) = fold take_page [run_start ..< run_start + count] (pm_bitmap p, pm_free p)
               in (Some (of_nat (run_start * PAGE_SIZE)), p\<lparr>pm_bitmap := bm, pm_free := free\<rparr>))"

definition free_count :: "Pmm \<Rightarrow> usize" where
  "free_count p = pm_free p"

definition total_count :: "Pmm \<Rightarrow> usize" where
  "total_count p = pm_total p"

section \<open>The abstraction: the set of free pages\<close>

definition free_set :: "u64 list \<Rightarrow> nat set" where
  "free_set bm = {page. page < MAX_PAGES \<and> pmm_test_bit bm page}"

definition counted :: "u64 list \<times> usize \<Rightarrow> bool" where
  "counted st \<longleftrightarrow> length (fst st) = BITMAP_WORDS \<and> unat (snd st) = card (free_set (fst st))"

definition pmm_wf :: "Pmm \<Rightarrow> bool" where
  "pmm_wf p \<longleftrightarrow> counted (pm_bitmap p, pm_free p)"

abbreviation pmm_free_pages :: "Pmm \<Rightarrow> nat set" where
  "pmm_free_pages p \<equiv> free_set (pm_bitmap p)"

lemma test_bit_iff: "pmm_test_bit bm page \<longleftrightarrow> bit (bm ! (page div 64)) (page mod 64)"
proof -
  have "push_bit (page mod 64) (1 :: u64) = 2 ^ (page mod 64)"
    by (simp add: push_bit_eq_mult)
  then show ?thesis
    by (simp add: pmm_test_bit_def and_exp_eq_0_iff_not_bit)
qed

lemma page_word_lt: "page < MAX_PAGES \<Longrightarrow> page div 64 < BITMAP_WORDS"
  by (simp add: MAX_PAGES_def BITMAP_WORDS_def)

lemma same_page_iff: "p div 64 = q div 64 \<and> p mod 64 = q mod 64 \<longleftrightarrow> p = (q :: nat)"
  by (metis div_mult_mod_eq)

lemma free_set_finite [simp, intro]: "finite (free_set bm)"
  by (simp add: free_set_def)

lemma card_free_set: "card (free_set bm) \<le> MAX_PAGES"
  using card_mono [of "{..<MAX_PAGES}" "free_set bm"] by (auto simp: free_set_def)

lemma length_set_clear [simp]:
  "length (pmm_set_bit bm page) = length bm" "length (pmm_clear_bit bm page) = length bm"
  by (simp_all add: pmm_set_bit_def pmm_clear_bit_def)

lemma test_set_bit:
  assumes "length bm = BITMAP_WORDS" "q < MAX_PAGES"
  shows "pmm_test_bit (pmm_set_bit bm q) p \<longleftrightarrow> p = q \<or> pmm_test_bit bm p"
proof (cases "p div 64 = q div 64")
  case True
  then show ?thesis
    using assms page_word_lt [of q] same_page_iff [of p q]
    by (auto simp: test_bit_iff pmm_set_bit_def bit_simps)
next
  case False
  then show ?thesis
    by (auto simp: test_bit_iff pmm_set_bit_def)
qed

lemma test_clear_bit:
  assumes "length bm = BITMAP_WORDS" "q < MAX_PAGES"
  shows "pmm_test_bit (pmm_clear_bit bm q) p \<longleftrightarrow> p \<noteq> q \<and> pmm_test_bit bm p"
proof (cases "p div 64 = q div 64")
  case True
  then show ?thesis
    using assms page_word_lt [of q] same_page_iff [of p q]
    by (auto simp: test_bit_iff pmm_clear_bit_def bit_simps)
next
  case False
  then show ?thesis
    by (auto simp: test_bit_iff pmm_clear_bit_def)
qed

lemma free_set_set_bit [simp]:
  "length bm = BITMAP_WORDS \<Longrightarrow> q < MAX_PAGES \<Longrightarrow> free_set (pmm_set_bit bm q) = insert q (free_set bm)"
  by (auto simp: free_set_def test_set_bit)

lemma free_set_clear_bit [simp]:
  "length bm = BITMAP_WORDS \<Longrightarrow> q < MAX_PAGES \<Longrightarrow> free_set (pmm_clear_bit bm q) = free_set bm - {q}"
  by (auto simp: free_set_def test_clear_bit)

section \<open>Counting\<close>

lemma counted_length: "counted st \<Longrightarrow> length (fst st) = BITMAP_WORDS"
  by (simp add: counted_def)

lemma MAX_PAGES_small: "MAX_PAGES < 2 ^ 64"
  by (simp add: MAX_PAGES_def)

lemma counted_set:
  assumes "counted (bm, n)" "q < MAX_PAGES" "\<not> pmm_test_bit bm q"
  shows "counted (pmm_set_bit bm q, n + 1)"
proof -
  have fresh: "q \<notin> free_set bm"
    using assms by (simp add: free_set_def)
  have "Suc (card (free_set bm)) = card (free_set (pmm_set_bit bm q))"
    using assms fresh by (simp add: counted_def)
  then have "Suc (unat n) \<le> MAX_PAGES"
    using assms card_free_set [of "pmm_set_bit bm q"] by (simp add: counted_def)
  then have "unat (n + 1) = Suc (unat n)"
    using MAX_PAGES_small by (simp add: unat_word_ariths)
  then show ?thesis
    using assms fresh by (simp add: counted_def)
qed

lemma counted_clear:
  assumes "counted (bm, n)" "q < MAX_PAGES" "pmm_test_bit bm q"
  shows "counted (pmm_clear_bit bm q, n - 1)"
proof -
  have here: "q \<in> free_set bm"
    using assms by (simp add: free_set_def)
  then have "0 < unat n"
    using assms by (auto simp: counted_def card_gt_0_iff)
  then have "unat (n - 1) = unat n - 1"
    by (metis unat_eq_zero unat_minus_one gr_implies_not0)
  then show ?thesis
    using assms here by (simp add: counted_def)
qed

lemma counted_reserve: "counted st \<Longrightarrow> counted (reserve_page page st)"
  by (cases st) (auto simp: reserve_page_def intro: counted_clear)

lemma free_reserve:
  "counted st \<Longrightarrow> free_set (fst (reserve_page page st)) = free_set (fst st) - {page}"
  by (auto simp: reserve_page_def counted_def free_set_def test_clear_bit)

lemma fold_reserve:
  "counted st \<Longrightarrow> counted (fold reserve_page pages st)
     \<and> free_set (fst (fold reserve_page pages st)) = free_set (fst st) - set pages"
proof (induction pages arbitrary: st)
  case (Cons page pages)
  then show ?case
    using Cons.IH [OF counted_reserve [OF Cons.prems, of page]] free_reserve [OF Cons.prems, of page]
    by auto
qed simp

lemma fold_take:
  "counted st \<Longrightarrow> distinct pages \<Longrightarrow> set pages \<subseteq> free_set (fst st) \<Longrightarrow>
     counted (fold take_page pages st)
     \<and> free_set (fst (fold take_page pages st)) = free_set (fst st) - set pages"
proof (induction pages arbitrary: st)
  case (Cons page pages)
  have "page < MAX_PAGES" "pmm_test_bit (fst st) page"
    using Cons.prems by (auto simp: free_set_def)
  then have *: "counted (take_page page st)" "free_set (fst (take_page page st)) = free_set (fst st) - {page}"
    using Cons.prems(1) counted_clear [of "fst st" "snd st" page]
    by (simp_all add: take_page_def counted_def)
  have "set pages \<subseteq> free_set (fst (take_page page st))"
    using Cons.prems *(2) by auto
  then show ?case
    using Cons.IH [OF *(1)] Cons.prems(2) *(2) by auto
qed simp

lemma counted_mark:
  assumes "counted st" "page < MAX_PAGES \<longrightarrow> page \<notin> free_set (fst st)"
  shows "counted (mark_usable page st)"
    "free_set (fst (mark_usable page st)) = free_set (fst st) \<union> ({page} \<inter> {..<MAX_PAGES})"
  using assms counted_set [of "fst st" "snd st" page]
  by (auto simp: mark_usable_def free_set_def counted_def test_set_bit)

lemma fold_mark:
  "counted st \<Longrightarrow> distinct pages \<Longrightarrow> set pages \<inter> free_set (fst st) = {} \<Longrightarrow>
     counted (fold mark_usable pages st)
     \<and> free_set (fst (fold mark_usable pages st)) = free_set (fst st) \<union> (set pages \<inter> {..<MAX_PAGES})"
proof (induction pages arbitrary: st)
  case (Cons page pages)
  have *: "counted (mark_usable page st)"
    "free_set (fst (mark_usable page st)) = free_set (fst st) \<union> ({page} \<inter> {..<MAX_PAGES})"
    using counted_mark [of st page] Cons.prems by auto
  have "set pages \<inter> free_set (fst (mark_usable page st)) = {}"
    using Cons.prems *(2) by auto
  then show ?case
    using Cons.IH [OF *(1)] Cons.prems(2) *(2) by auto
qed simp

section \<open>Single pages\<close>

lemma trailing_zeros_props:
  assumes "w \<noteq> 0"
  shows "trailing_zeros w < 64" "bit w (trailing_zeros w)" "j < trailing_zeros w \<Longrightarrow> \<not> bit w j"
proof -
  obtain n where n: "n < 64" "bit w n"
    using assms by (auto simp: bit_eq_iff [of w 0] dest: bit_imp_le_length)
  then have "position (bit w) [0..<64] \<noteq> None"
    by (auto simp: position_None)
  then obtain i where i: "position (bit w) [0..<64] = Some i"
    by blast
  then have "trailing_zeros w = i"
    by (simp add: trailing_zeros_def)
  with i show "trailing_zeros w < 64" "bit w (trailing_zeros w)" "j < trailing_zeros w \<Longrightarrow> \<not> bit w j"
    by (auto simp: position_Some)
qed

lemma unat_page_addr [simp]:
  "page < MAX_PAGES \<Longrightarrow> unat (of_nat (page * PAGE_SIZE) :: u64) = page * PAGE_SIZE"
  by (rule unat_of_nat_small) (simp add: MAX_PAGES_def PAGE_SIZE_def)

lemma page_addr_div [simp]: "page * PAGE_SIZE div PAGE_SIZE = page"
  by (simp add: PAGE_SIZE_def)

lemma free_set_word:
  assumes "length bm = BITMAP_WORDS" "page \<in> free_set bm"
  shows "page div 64 < length bm" "bm ! (page div 64) \<noteq> 0"
  using assms page_word_lt [of page] by (auto simp: free_set_def test_bit_iff)

lemma lowest_free:
  assumes "length bm = BITMAP_WORDS" "position (\<lambda>w. w \<noteq> 0) bm = Some i"
  defines "page \<equiv> i * 64 + trailing_zeros (bm ! i)"
  shows "page \<in> free_set bm" "q \<in> free_set bm \<Longrightarrow> page \<le> q"
proof -
  have i: "i < length bm" "bm ! i \<noteq> 0" "\<And>j. j < i \<Longrightarrow> bm ! j = 0"
    using assms(2) by (auto simp: position_Some)
  note tz = trailing_zeros_props [OF i(2)]
  have pos: "page div 64 = i" "page mod 64 = trailing_zeros (bm ! i)"
    using tz(1) by (simp_all add: page_def)
  have "page < MAX_PAGES"
    using i(1) tz(1) assms(1) by (simp add: page_def BITMAP_WORDS_def MAX_PAGES_def)
  then show "page \<in> free_set bm"
    using tz(2) pos by (simp add: free_set_def test_bit_iff)
  assume q: "q \<in> free_set bm"
  have "i \<le> q div 64"
    using free_set_word [OF assms(1) q] i(3) not_less by blast
  moreover have "trailing_zeros (bm ! i) \<le> q mod 64" if "q div 64 = i"
    using q that tz(3) [of "q mod 64"] by (fastforce simp: free_set_def test_bit_iff)
  ultimately have "i * 64 + trailing_zeros (bm ! i) \<le> (q div 64) * 64 + q mod 64"
    using tz(1) by (cases "q div 64 = i") auto
  then show "page \<le> q"
    by (simp add: page_def)
qed

lemma alloc_page_none:
  assumes "pmm_wf p"
  shows "fst (alloc_page p) = None \<longleftrightarrow> pmm_free_pages p = {}"
    "fst (alloc_page p) = None \<Longrightarrow> snd (alloc_page p) = p"
proof -
  have len: "length (pm_bitmap p) = BITMAP_WORDS"
    using assms by (simp add: pmm_wf_def counted_def)
  have "pmm_free_pages p = {}" if "position (\<lambda>w. w \<noteq> 0) (pm_bitmap p) = None"
    using that free_set_word [OF len] by (fastforce simp: position_None)
  then show "fst (alloc_page p) = None \<longleftrightarrow> pmm_free_pages p = {}"
    "fst (alloc_page p) = None \<Longrightarrow> snd (alloc_page p) = p"
    using lowest_free(1) [OF len] by (auto simp: alloc_page_def Let_def split: option.splits)
qed

lemma alloc_page_some:
  assumes "pmm_wf p" "fst (alloc_page p) = Some a"
  obtains page where "a = of_nat (page * PAGE_SIZE)" "page \<in> pmm_free_pages p"
    "\<And>q. q \<in> pmm_free_pages p \<Longrightarrow> page \<le> q"
    "pmm_free_pages (snd (alloc_page p)) = pmm_free_pages p - {page}"
    "pmm_wf (snd (alloc_page p))"
proof -
  have len: "length (pm_bitmap p) = BITMAP_WORDS"
    using assms by (simp add: pmm_wf_def counted_def)
  obtain i where i: "position (\<lambda>w. w \<noteq> 0) (pm_bitmap p) = Some i"
    using assms(2) by (auto simp: alloc_page_def split: option.splits)
  define page where "page = i * 64 + trailing_zeros (pm_bitmap p ! i)"
  note low = lowest_free [OF len i, folded page_def]
  have eq: "alloc_page p = (Some (of_nat (page * PAGE_SIZE)),
      p\<lparr>pm_bitmap := pmm_clear_bit (pm_bitmap p) page, pm_free := pm_free p - 1\<rparr>)"
    by (simp add: alloc_page_def i page_def)
  have bit: "page < MAX_PAGES" "pmm_test_bit (pm_bitmap p) page"
    using low(1) by (simp_all add: free_set_def)
  show thesis
  proof (rule that [of page])
    show "a = of_nat (page * PAGE_SIZE)"
      using assms(2) eq by simp
    show "pmm_wf (snd (alloc_page p))"
      using counted_clear [OF _ bit] assms(1) by (simp add: eq pmm_wf_def)
  qed (use low bit len eq in auto)
qed

lemma free_page_wf:
  assumes "pmm_wf p"
  shows "pmm_wf (free_page a p)"
    "pmm_free_pages (free_page a p) = pmm_free_pages p \<union> ({unat a div PAGE_SIZE} \<inter> {..<MAX_PAGES})"
  using assms counted_set [of "pm_bitmap p" "pm_free p" "unat a div PAGE_SIZE"]
  by (auto simp: free_page_def Let_def pmm_wf_def counted_def free_set_def test_set_bit)

section \<open>Contiguous runs\<close>

text \<open>What the scan promises: the first page of the lowest run of \<open>count\<close> free pages.\<close>

definition is_run :: "(nat \<Rightarrow> bool) \<Rightarrow> nat \<Rightarrow> nat \<Rightarrow> nat \<Rightarrow> bool" where
  "is_run test limit count start \<longleftrightarrow> start + count \<le> limit \<and> (\<forall>q. start \<le> q \<and> q < start + count \<longrightarrow> test q)"

text \<open>The scan's loop invariant before it visits page \<open>n\<close>.\<close>

definition scan_inv :: "(nat \<Rightarrow> bool) \<Rightarrow> nat \<Rightarrow> nat \<Rightarrow> nat \<Rightarrow> nat \<Rightarrow> bool" where
  "scan_inv test count n run_start run_len \<longleftrightarrow>
     run_len \<le> n \<and> run_len < count \<and> (0 < run_len \<longrightarrow> run_start = n - run_len)
     \<and> (\<forall>q. n - run_len \<le> q \<and> q < n \<longrightarrow> test q)
     \<and> (run_len = n \<or> \<not> test (n - run_len - 1))"

lemma find_run_result:
  assumes "scan_inv test count n run_start run_len" "n \<le> limit"
    "\<And>start. start + count \<le> n \<Longrightarrow> \<not> is_run test limit count start"
  shows "case find_run test count [n..<limit] run_start run_len of
           None \<Rightarrow> \<forall>start. \<not> is_run test limit count start
         | Some start \<Rightarrow> is_run test limit count start \<and> (\<forall>s < start. \<not> is_run test limit count s)"
  using assms
proof (induction "limit - n" arbitrary: n run_start run_len)
  case 0
  then show ?case by (auto simp: is_run_def)
next
  case (Suc d)
  have range: "[n..<limit] = n # [Suc n..<limit]"
    using Suc.hyps(2) by (simp add: upt_conv_Cons)
  define start where "start = (if run_len = 0 then n else run_start)"
  have start: "start = n - run_len"
    using Suc.prems(1) by (auto simp: start_def scan_inv_def)
  consider (skip) "\<not> test n" | (found) "test n" "Suc run_len = count" | (more) "test n" "Suc run_len \<noteq> count"
    by blast
  then show ?case
  proof cases
    case skip
    have "\<not> is_run test limit count s" if "s + count \<le> Suc n" for s
      using Suc.prems(1,3) that skip by (cases "s + count \<le> n") (auto simp: is_run_def scan_inv_def le_Suc_eq)
    moreover have "scan_inv test count (Suc n) run_start 0"
      using Suc.prems(1) skip by (auto simp: scan_inv_def)
    ultimately show ?thesis
      using Suc.hyps skip by (simp add: range)
  next
    case found
    have "is_run test limit count start"
      using Suc.prems(1) Suc.hyps(2) found unfolding is_run_def scan_inv_def start
      by (auto simp: less_Suc_eq)
    moreover have "\<not> is_run test limit count s" if "s < start" for s
      using Suc.prems(1,3) that found(2) by (auto simp: start scan_inv_def)
    ultimately show ?thesis
      using found by (simp add: range start_def Let_def)
  next
    case more
    have "scan_inv test count (Suc n) start (Suc run_len)"
      using Suc.prems(1) more by (auto simp: scan_inv_def start less_Suc_eq)
    moreover have "\<not> is_run test limit count s" if "s + count \<le> Suc n" for s
    proof
      assume run: "is_run test limit count s"
      then have "s + count = Suc n"
        using that Suc.prems(3) by (metis le_Suc_eq)
      then have "run_len \<noteq> n" "s \<le> n - run_len - 1" "n - run_len - 1 < s + count"
        using Suc.prems(1) more(2) by (auto simp: scan_inv_def)
      then show False
        using run Suc.prems(1) by (auto simp: scan_inv_def is_run_def)
    qed
    ultimately show ?thesis
      using Suc.hyps more by (simp add: range start_def Let_def)
  qed
qed

lemma find_run_whole:
  assumes "0 < count"
  shows "case find_run test count [0..<limit] 0 0 of
           None \<Rightarrow> \<forall>start. \<not> is_run test limit count start
         | Some start \<Rightarrow> is_run test limit count start \<and> (\<forall>s < start. \<not> is_run test limit count s)"
  by (rule find_run_result) (use assms in \<open>auto simp: scan_inv_def\<close>)

abbreviation pmm_is_run :: "Pmm \<Rightarrow> nat \<Rightarrow> nat \<Rightarrow> bool" where
  "pmm_is_run p count start \<equiv> is_run (pmm_test_bit (pm_bitmap p)) MAX_PAGES count start"

lemma is_run_free: "pmm_is_run p count start \<longleftrightarrow> start + count \<le> MAX_PAGES \<and> {start..<start + count} \<subseteq> pmm_free_pages p"
  by (auto simp: is_run_def free_set_def subset_iff)

lemma alloc_contiguous_none:
  assumes "fst (alloc_contiguous count p) = None"
  shows "snd (alloc_contiguous count p) = p" "0 < count \<Longrightarrow> \<not> pmm_is_run p count start"
  using assms find_run_whole [of count "pmm_test_bit (pm_bitmap p)" MAX_PAGES]
  by (auto simp: alloc_contiguous_def split: if_splits option.splits prod.splits)

lemma alloc_contiguous_some:
  assumes "pmm_wf p" "fst (alloc_contiguous count p) = Some a"
  obtains start where "0 < count" "a = of_nat (start * PAGE_SIZE)" "pmm_is_run p count start"
    "\<And>s. s < start \<Longrightarrow> \<not> pmm_is_run p count s"
    "pmm_free_pages (snd (alloc_contiguous count p)) = pmm_free_pages p - {start..<start + count}"
    "pmm_wf (snd (alloc_contiguous count p))"
proof -
  let ?find = "find_run (pmm_test_bit (pm_bitmap p)) count [0..<MAX_PAGES] 0 0"
  have pos: "0 < count"
    using assms(2) by (auto simp: alloc_contiguous_def split: if_splits)
  obtain start where start: "?find = Some start"
    using assms(2) by (auto simp: alloc_contiguous_def split: if_splits option.splits)
  have run: "pmm_is_run p count start" "\<And>s. s < start \<Longrightarrow> \<not> pmm_is_run p count s"
    using find_run_whole [OF pos, of "pmm_test_bit (pm_bitmap p)" MAX_PAGES] start by auto
  define st where "st = fold take_page [start ..< start + count] (pm_bitmap p, pm_free p)"
  have eq: "alloc_contiguous count p =
      (Some (of_nat (start * PAGE_SIZE)), p\<lparr>pm_bitmap := fst st, pm_free := snd st\<rparr>)"
    using pos start by (simp add: alloc_contiguous_def st_def case_prod_unfold Let_def)
  have "counted st \<and> free_set (fst st) = pmm_free_pages p - {start..<start + count}"
    using fold_take [of "(pm_bitmap p, pm_free p)" "[start ..< start + count]"] assms(1) run(1)
    by (simp add: is_run_free pmm_wf_def st_def)
  then show thesis
    using that [of start] pos run assms(2) by (simp add: eq pmm_wf_def)
qed

section \<open>The manager is a region allocator\<close>

datatype pmm_request = OnePage | Pages nat

definition page_of :: "u64 \<Rightarrow> nat" where
  "page_of a = unat a div PAGE_SIZE"

definition pmm_alloc :: "pmm_request \<Rightarrow> Pmm \<Rightarrow> nat set option \<times> Pmm" where
  "pmm_alloc r p =
     (case r of
        OnePage \<Rightarrow> (map_option (\<lambda>a. {page_of a}) (fst (alloc_page p)), snd (alloc_page p))
      | Pages n \<Rightarrow> (map_option (\<lambda>a. {page_of a ..< page_of a + n}) (fst (alloc_contiguous n p)),
                   snd (alloc_contiguous n p)))"

definition pmm_region :: "u64 \<Rightarrow> nat set" where
  "pmm_region a = {page_of a} \<inter> {..<MAX_PAGES}"

lemma page_of_addr: "page < MAX_PAGES \<Longrightarrow> page_of (of_nat (page * PAGE_SIZE)) = page"
  by (simp add: page_of_def del: of_nat_mult)

lemma pmm_alloc_result:
  assumes "pmm_wf p"
  shows "case fst (pmm_alloc r p) of
           None \<Rightarrow> snd (pmm_alloc r p) = p
         | Some R \<Rightarrow> R \<subseteq> pmm_free_pages p \<and> pmm_free_pages (snd (pmm_alloc r p)) = pmm_free_pages p - R
             \<and> pmm_wf (snd (pmm_alloc r p))"
proof (cases r)
  case OnePage
  show ?thesis
  proof (cases "fst (alloc_page p)")
    case None
    then show ?thesis
      using OnePage alloc_page_none(2) [OF assms] by (simp add: pmm_alloc_def)
  next
    case (Some a)
    then obtain page where pg: "a = of_nat (page * PAGE_SIZE)" "page \<in> pmm_free_pages p"
      "pmm_free_pages (snd (alloc_page p)) = pmm_free_pages p - {page}" "pmm_wf (snd (alloc_page p))"
      using alloc_page_some [OF assms Some] by blast
    then have "page_of a = page"
      by (simp add: pg(1) free_set_def page_of_addr del: of_nat_mult)
    then show ?thesis
      using OnePage Some pg by (simp add: pmm_alloc_def)
  qed
next
  case (Pages n)
  show ?thesis
  proof (cases "fst (alloc_contiguous n p)")
    case None
    then show ?thesis
      using Pages alloc_contiguous_none(1) [OF None] by (simp add: pmm_alloc_def)
  next
    case (Some a)
    then obtain start where st: "0 < n" "a = of_nat (start * PAGE_SIZE)" "pmm_is_run p n start"
      "pmm_free_pages (snd (alloc_contiguous n p)) = pmm_free_pages p - {start..<start + n}"
      "pmm_wf (snd (alloc_contiguous n p))"
      using alloc_contiguous_some [OF assms Some] by blast
    have "page_of a = start"
      using st(1,3) by (simp add: st(2) is_run_def page_of_addr del: of_nat_mult)
    then show ?thesis
      using Pages Some st by (simp add: pmm_alloc_def is_run_free)
  qed
qed

lemma pmm_alloc_one:
  assumes "pmm_wf p" "page \<in> pmm_free_pages p" "\<And>q. q \<in> pmm_free_pages p \<Longrightarrow> page \<le> q"
  obtains p' where "pmm_alloc OnePage p = (Some {page}, p')" "pmm_wf p'" "pmm_free_pages p' = pmm_free_pages p - {page}"
proof -
  obtain a where a: "fst (alloc_page p) = Some a"
    using alloc_page_none(1) [OF assms(1)] assms(2) by (cases "fst (alloc_page p)") auto
  then obtain page' where *: "a = of_nat (page' * PAGE_SIZE)" "page' \<in> pmm_free_pages p"
    "\<And>q. q \<in> pmm_free_pages p \<Longrightarrow> page' \<le> q"
    "pmm_free_pages (snd (alloc_page p)) = pmm_free_pages p - {page'}" "pmm_wf (snd (alloc_page p))"
    using alloc_page_some [OF assms(1) a] by blast
  have "page' = page"
    using *(2,3) assms(2,3) by (simp add: le_antisym)
  moreover have "page_of a = page'"
    using *(2) by (simp add: *(1) free_set_def page_of_addr del: of_nat_mult)
  ultimately show thesis
    using that [of "snd (alloc_page p)"] * a by (simp add: pmm_alloc_def)
qed

interpretation pmm: region_allocator pmm_wf pmm_free_pages "\<lambda>_. True" "\<lambda>_. True" pmm_alloc free_page pmm_region
proof unfold_locales
  fix p r R d
  assume wf: "pmm_wf p"
  note res = pmm_alloc_result [OF wf, of r]
  show "pmm_wf (snd (pmm_alloc r p))"
    using res wf by (auto split: option.splits)
  show "R \<subseteq> pmm_free_pages p" if "fst (pmm_alloc r p) = Some R"
    using res that by simp
  show "pmm_free_pages (snd (pmm_alloc r p)) \<subseteq> pmm_free_pages p - R" if "fst (pmm_alloc r p) = Some R"
    using res that by simp
  show "snd (pmm_alloc r p) = p" if "fst (pmm_alloc r p) = None"
    using res that by simp
  show "pmm_wf (free_page d p)" "pmm_free_pages (free_page d p) \<subseteq> pmm_free_pages p \<union> pmm_region d"
    using free_page_wf [OF wf, of d] by (auto simp: pmm_region_def page_of_def)
qed

section \<open>Initialisation\<close>

definition entry_pages :: "memmap_entry \<Rightarrow> nat set" where
  "entry_pages e = (if me_usable e then set (usable_pages e) else {})"

lemma mark_entry_counted:
  assumes "counted st" "entry_pages e \<inter> free_set (fst st) = {}"
  shows "counted (mark_entry e st)"
    "free_set (fst (mark_entry e st)) = free_set (fst st) \<union> (entry_pages e \<inter> {..<MAX_PAGES})"
  using assms fold_mark [OF assms(1), of "usable_pages e"]
  by (auto simp: mark_entry_def entry_pages_def usable_pages_def page_range_def)

lemma fold_mark_entries:
  "counted st \<Longrightarrow> pairwise_disjoint (map entry_pages entries) \<Longrightarrow>
   (\<forall>e \<in> set entries. entry_pages e \<inter> free_set (fst st) = {}) \<Longrightarrow>
     counted (fold mark_entry entries st)
     \<and> free_set (fst (fold mark_entry entries st)) = free_set (fst st) \<union> (\<Union>(entry_pages ` set entries) \<inter> {..<MAX_PAGES})"
proof (induction entries arbitrary: st)
  case (Cons e entries)
  have *: "counted (mark_entry e st)"
    "free_set (fst (mark_entry e st)) = free_set (fst st) \<union> (entry_pages e \<inter> {..<MAX_PAGES})"
    using mark_entry_counted [OF Cons.prems(1)] Cons.prems(3) by auto
  have "\<forall>e' \<in> set entries. entry_pages e' \<inter> free_set (fst (mark_entry e st)) = {}"
    using Cons.prems(2,3) by (auto simp: *(2))
  then show ?case
    using Cons.IH [OF *(1)] Cons.prems(2) *(2) by auto
qed simp

lemma counted_zero: "counted (replicate BITMAP_WORDS 0, 0)" "free_set (replicate BITMAP_WORDS 0) = {}"
proof -
  show "free_set (replicate BITMAP_WORDS 0) = {}"
    by (auto simp: free_set_def test_bit_iff page_word_lt)
  then show "counted (replicate BITMAP_WORDS 0, 0)"
    by (simp add: counted_def)
qed

lemma pmm_init_result:
  assumes "pairwise_disjoint (map entry_pages entries)"
  shows "pmm_wf (pmm_init entries ks ke)"
    "pmm_free_pages (pmm_init entries ks ke) =
       (\<Union>(entry_pages ` set entries) \<inter> {..<MAX_PAGES}) - set (kernel_pages ks ke) - {..<256}"
proof -
  define st0 where "st0 = fold mark_entry entries (replicate BITMAP_WORDS 0, 0 :: usize)"
  define st1 where "st1 = fold reserve_page (kernel_pages ks ke) st0"
  define st2 where "st2 = fold reserve_page [0..<256] st1"
  have 0: "counted st0" "free_set (fst st0) = \<Union>(entry_pages ` set entries) \<inter> {..<MAX_PAGES}"
    using fold_mark_entries [OF counted_zero(1) assms] counted_zero(2) by (auto simp: st0_def)
  have 1: "counted st1" "free_set (fst st1) = free_set (fst st0) - set (kernel_pages ks ke)"
    using fold_reserve [OF 0(1), of "kernel_pages ks ke"] by (simp_all add: st1_def)
  have 2: "counted st2" "free_set (fst st2) = free_set (fst st1) - {..<256}"
    using fold_reserve [OF 1(1), of "[0..<256]"] by (simp_all add: st2_def lessThan_atLeast0)
  have "(1024 * 1024) div PAGE_SIZE = 256"
    by (simp add: PAGE_SIZE_def)
  then have eq: "pmm_init entries ks ke = \<lparr>pm_bitmap = fst st2, pm_total = snd st0, pm_free = snd st2\<rparr>"
    by (simp add: pmm_init_def st0_def st1_def st2_def case_prod_unfold Let_def)
  show "pmm_wf (pmm_init entries ks ke)"
    using 2(1) by (simp add: eq pmm_wf_def)
  show "pmm_free_pages (pmm_init entries ks ke) =
       (\<Union>(entry_pages ` set entries) \<inter> {..<MAX_PAGES}) - set (kernel_pages ks ke) - {..<256}"
    by (simp add: eq 0(2) 1(2) 2(2))
qed

text \<open>The instance of the witnesses: four usable pages just above the first MiB.\<close>

definition pmm_example :: Pmm where
  "pmm_example = pmm_init [\<lparr>me_base = 0x100000, me_length = 0x4000, me_usable = True\<rparr>] 0 0"

lemma example_entry:
  "entry_pages \<lparr>me_base = 0x100000, me_length = 0x4000, me_usable = True\<rparr> = {256..<260}"
  by (auto simp: entry_pages_def usable_pages_def page_range_def PAGE_SIZE_def)

lemma pmm_example_wf: "pmm_wf pmm_example"
  unfolding pmm_example_def by (rule pmm_init_result) simp

lemma pmm_example_free: "pmm_free_pages pmm_example = {256..<260}"
  unfolding pmm_example_def
  by (subst pmm_init_result(2))
    (auto simp: example_entry kernel_pages_def page_range_def PAGE_SIZE_def MAX_PAGES_def)

text \<open>After at most \<open>n\<close> pages are taken from a block of free pages, one of \<open>n + 1\<close> runs in it is still whole.\<close>

lemma run_survives:
  fixes F F' :: "nat set"
  assumes "finite F" "F' \<subseteq> F" "card F \<le> card F' + n" "{a..<a + c * Suc n} \<subseteq> F" "0 < c"
  shows "\<exists>b. {b..<b + c} \<subseteq> F'"
proof (rule ccontr)
  assume none: "\<nexists>b. {b..<b + c} \<subseteq> F'"
  then have "\<forall>j. \<exists>x. x \<in> {a + c * j..<a + c * j + c} \<and> x \<notin> F'"
    by blast
  then obtain x where x: "x j \<in> {a + c * j..<a + c * j + c}" "x j \<notin> F'" for j
    by metis
  have "(x j - a) div c = j" for j
  proof -
    have "x j - a = c * j + (x j - a - c * j)" "x j - a - c * j < c"
      using x(1) [of j] by auto
    then show ?thesis
      using assms(5) by (metis div_less div_mult_self4 add.right_neutral less_not_refl)
  qed
  then have "inj_on x {..n}"
    by (metis inj_onI)
  moreover have "x ` {..n} \<subseteq> F - F'"
  proof
    fix y
    assume "y \<in> x ` {..n}"
    then obtain j where j: "j \<le> n" "y = x j"
      by auto
    then have "a + c * j + c \<le> a + c * Suc n"
      by simp
    moreover have "a + c * j \<le> x j" "x j < a + c * j + c"
      using x(1) [of j] by simp_all
    ultimately have "x j \<in> {a..<a + c * Suc n}"
      using less_le_trans by fastforce
    then show "y \<in> F - F'"
      using assms(4) x(2) j by blast
  qed
  ultimately have "Suc n \<le> card (F - F')"
    using card_inj_on_le [of x "{..n}" "F - F'"] assms(1) by simp
  then show False
    using assms(1-3) by (simp add: card_Diff_subset finite_subset)
qed

section \<open>Properties\<close>

text \<open>C5: The physical pages held by the callers of \<open>alloc_page\<close> and \<open>alloc_contiguous\<close> never overlap,
  and none of them is free, after any sequence of allocations and of releases of pages that are
  held; the free counter still counts the free bits.\<close>

theorem pmm_no_double_allocation:
  assumes "pmm_wf p"
    and "region_run (\<lambda>_. True) (\<lambda>_. True) pmm_alloc free_page pmm_region ops (p, []) = Some (p', live)"
  shows "pmm_wf p' \<and> pairwise_disjoint live \<and> (\<forall>R \<in> set live. R \<inter> pmm_free_pages p' = {})"
  using pmm.live_regions_disjoint [OF assms] .

theorem pmm_no_double_allocation_witness:
  "\<exists>p'. region_run (\<lambda>_. True) (\<lambda>_. True) pmm_alloc free_page pmm_region
          [Alloc OnePage, Alloc OnePage, Release 0x100000, Alloc OnePage] (pmm_example, [])
        = Some (p', [{256}, {257}, {}]) \<and> pmm_free_pages p' \<inter> {256} = {}"
proof -
  obtain p1 where 1: "pmm_alloc OnePage pmm_example = (Some {256}, p1)" "pmm_wf p1" "pmm_free_pages p1 = {256..<260} - {256}"
    using pmm_alloc_one [OF pmm_example_wf, of 256] pmm_example_free by auto
  obtain p2 where 2: "pmm_alloc OnePage p1 = (Some {257}, p2)" "pmm_wf p2" "pmm_free_pages p2 = {256..<260} - {256} - {257}"
    using pmm_alloc_one [OF 1(2), of 257] 1(3) by auto
  define p3 where "p3 = free_page 0x100000 p2"
  have 3: "pmm_wf p3" "256 \<in> pmm_free_pages p3" "\<And>q. q \<in> pmm_free_pages p3 \<Longrightarrow> 256 \<le> q"
    using free_page_wf [OF 2(2), of "0x100000"] 2(3) by (auto simp: p3_def PAGE_SIZE_def MAX_PAGES_def)
  obtain p4 where 4: "pmm_alloc OnePage p3 = (Some {256}, p4)"
    using pmm_alloc_one [OF 3] by auto
  have run: "region_run (\<lambda>_. True) (\<lambda>_. True) pmm_alloc free_page pmm_region
        [Alloc OnePage, Alloc OnePage, Release 0x100000, Alloc OnePage] (pmm_example, [])
      = Some (p4, [{256}, {257}, {}])"
    using 1(1) 2(1) 4
    by (simp add: region_step_def region_op_ok_def pmm_region_def page_of_def PAGE_SIZE_def MAX_PAGES_def p3_def)
  then show ?thesis
    using pmm_no_double_allocation [OF pmm_example_wf run] by auto
qed

text \<open>\<open>alloc_contiguous\<close> is complete and exact.  It fails only when no run of \<open>count\<close> free pages
  exists, leaving the manager unchanged; otherwise it returns the lowest such run, takes exactly
  its pages and lowers the free counter by \<open>count\<close>.\<close>

theorem alloc_contiguous_lowest_run:
  assumes "pmm_wf p" "0 < count"
  shows "case alloc_contiguous count p of
      (None, p') \<Rightarrow> p' = p \<and> (\<forall>start. \<not> pmm_is_run p count start)
    | (Some a, p') \<Rightarrow> \<exists>start. unat a = start * PAGE_SIZE \<and> pmm_is_run p count start
          \<and> (\<forall>s < start. \<not> pmm_is_run p count s)
          \<and> pmm_free_pages p' = pmm_free_pages p - {start..<start + count}
          \<and> pmm_wf p' \<and> unat (free_count p') + count = unat (free_count p)"
proof (cases "fst (alloc_contiguous count p)")
  case None
  then show ?thesis
    using alloc_contiguous_none [OF None] assms(2) by (cases "alloc_contiguous count p") auto
next
  case (Some a)
  obtain start where st: "a = of_nat (start * PAGE_SIZE)" "pmm_is_run p count start"
    "\<And>s. s < start \<Longrightarrow> \<not> pmm_is_run p count s"
    "pmm_free_pages (snd (alloc_contiguous count p)) = pmm_free_pages p - {start..<start + count}"
    "pmm_wf (snd (alloc_contiguous count p))"
    using alloc_contiguous_some [OF assms(1) Some] by blast
  have "start < MAX_PAGES"
    using st(2) assms(2) by (simp add: is_run_def)
  then have addr: "unat a = start * PAGE_SIZE"
    by (simp add: st(1) del: of_nat_mult)
  have "{start..<start + count} \<subseteq> pmm_free_pages p"
    using st(2) by (simp add: is_run_free)
  then have "card (pmm_free_pages p - {start..<start + count}) + count = card (pmm_free_pages p)"
    using card_mono [of "pmm_free_pages p" "{start..<start + count}"] by (simp add: card_Diff_subset)
  then have "unat (free_count (snd (alloc_contiguous count p))) + count = unat (free_count p)"
    using st(4,5) assms(1) by (simp add: free_count_def pmm_wf_def counted_def)
  then show ?thesis
    using Some st(2-5) addr by (cases "alloc_contiguous count p") auto
qed

theorem alloc_contiguous_lowest_run_witness:
  "\<exists>p'. alloc_contiguous 3 pmm_example = (Some 0x100000, p') \<and> pmm_free_pages p' = {259}"
proof -
  have run: "pmm_is_run pmm_example 3 256"
    unfolding is_run_free pmm_example_free by (auto simp: MAX_PAGES_def)
  have low: "256 \<le> start" if "pmm_is_run pmm_example 3 start" for start
  proof -
    have "start \<in> {start..<start + 3}" by simp
    then have "start \<in> {256..<260}"
      using that unfolding is_run_free pmm_example_free by blast
    then show ?thesis by simp
  qed
  obtain a p' where ap: "alloc_contiguous 3 pmm_example = (Some a, p')"
    using alloc_contiguous_none(2) [of 3 pmm_example 256] run
    by (cases "alloc_contiguous 3 pmm_example"; cases "fst (alloc_contiguous 3 pmm_example)") simp_all
  have "(0 :: nat) < 3" by simp
  note * = alloc_contiguous_lowest_run [OF pmm_example_wf this, unfolded ap prod.case option.case]
  then obtain start where start: "unat a = start * PAGE_SIZE" "pmm_is_run pmm_example 3 start"
    "\<forall>s < start. \<not> pmm_is_run pmm_example 3 s" "pmm_free_pages p' = {256..<260} - {start..<start + 3}"
    unfolding pmm_example_free by blast
  have "start = 256"
    using low [OF start(2)] start(3) run by (metis le_neq_implies_less)
  then have "unat a = unat (0x100000 :: u64)"
    using start(1) by (simp add: PAGE_SIZE_def)
  then have "a = 0x100000"
    by (simp only: word_unat_eq_iff)
  moreover have "pmm_free_pages p' = {259}"
    unfolding start(4) \<open>start = 256\<close> by auto
  ultimately show ?thesis
    using ap by blast
qed

text \<open>After \<open>init\<close> on a memory map whose usable entries do not overlap, the free pages are exactly
  the pages wholly inside usable entries, below 4 GiB, outside the kernel range and above the first
  MiB, and the free counter is their number.\<close>

theorem pmm_init_free_pages:
  assumes "pairwise_disjoint (map entry_pages entries)"
  shows "pmm_free_pages (pmm_init entries ks ke) =
      (\<Union>(entry_pages ` set entries) \<inter> {..<MAX_PAGES}) - set (kernel_pages ks ke) - {..<256}
    \<and> unat (free_count (pmm_init entries ks ke)) = card (pmm_free_pages (pmm_init entries ks ke))"
  using pmm_init_result [OF assms, of ks ke] by (simp_all add: pmm_wf_def counted_def free_count_def)

theorem pmm_init_free_pages_witness:
  "pmm_free_pages (pmm_init [\<lparr>me_base = 0x100000, me_length = 0x4000, me_usable = True\<rparr>] 0x101000 0x102000)
     = {256, 258, 259}"
proof -
  have "set (kernel_pages 0x101000 0x102000) = {257}"
    by (simp add: kernel_pages_def page_range_def PAGE_SIZE_def)
  moreover have "{256..<260} = {256, 257, 258, 259 :: nat}"
    by auto
  ultimately show ?thesis
    by (subst pmm_init_free_pages [THEN conjunct1]) (auto simp: example_entry MAX_PAGES_def)
qed

end
