(* ===== verification/Heap.thy ===== *)
theory Heap
  imports Pmm
begin

text \<open>
  \<open>kernel/src/memory/heap.rs\<close>: the kernel heap, a first-fit free list.  The intrusive list of
  \<open>FreeBlock\<close>s is the list of their (address, size) pairs in link order; addresses and sizes are
  64-bit words and all the arithmetic wraps.  \<open>size_of::<FreeBlock>()\<close> is 16 and its alignment 8.
\<close>

section \<open>State and operations\<close>

definition HEAP_SIZE :: usize where
  "HEAP_SIZE = 16 * 1024 * 1024"

record Layout =
  ly_size :: usize
  ly_align :: usize

type_synonym FreeBlock = "usize \<times> usize"

record HeapAllocator =
  ha_head :: "FreeBlock list"

definition heap_new :: HeapAllocator where
  "heap_new = \<lparr>ha_head = []\<rparr>"

definition heap_init :: "usize \<Rightarrow> usize \<Rightarrow> HeapAllocator \<Rightarrow> HeapAllocator" where
  "heap_init start bytes h = h\<lparr>ha_head := [(start, bytes)]\<rparr>"

definition align_up :: "usize \<Rightarrow> usize \<Rightarrow> usize" where
  "align_up x align = (x + align - 1) AND NOT (align - 1)"

definition block_align :: "Layout \<Rightarrow> usize" where
  "block_align l = max (ly_align l) 8"

definition block_size :: "Layout \<Rightarrow> usize" where
  "block_size l = align_up (max (ly_size l) 16) (block_align l)"

text \<open>The first-fit loop: the address granted and the list with the block split or unlinked.\<close>

fun first_fit :: "usize \<Rightarrow> usize \<Rightarrow> FreeBlock list \<Rightarrow> (usize \<times> FreeBlock list) option" where
  "first_fit align bytes [] = None"
| "first_fit align bytes ((block_addr, bsize) # next) =
     (let aligned_addr = align_up block_addr align;
          adjustment = aligned_addr - block_addr
      in if bytes + adjustment \<le> bsize
         then let remaining = bsize - bytes - adjustment
              in if 16 + 16 \<le> remaining
                 then Some (aligned_addr, (aligned_addr + bytes, remaining) # next)
                 else Some (aligned_addr, next)
         else map_option (\<lambda>(a, bs). (a, (block_addr, bsize) # bs)) (first_fit align bytes next))"

text \<open>The null pointer reports that no block fits.\<close>

definition allocate :: "Layout \<Rightarrow> HeapAllocator \<Rightarrow> usize \<times> HeapAllocator" where
  "allocate l h =
     (case first_fit (block_align l) (block_size l) (ha_head h) of
        None \<Rightarrow> (0, h)
      | Some (a, bs) \<Rightarrow> (a, h\<lparr>ha_head := bs\<rparr>))"

definition deallocate :: "usize \<Rightarrow> Layout \<Rightarrow> HeapAllocator \<Rightarrow> HeapAllocator" where
  "deallocate ptr l h = h\<lparr>ha_head := (ptr, block_size l) # ha_head h\<rparr>"

text \<open>\<open>init\<close>: 16 MiB from the physical memory manager, else 1 MiB, else no heap at all.\<close>

definition heap_boot :: "u64 \<Rightarrow> Pmm \<Rightarrow> HeapAllocator \<Rightarrow> Pmm \<times> HeapAllocator" where
  "heap_boot hhdm p h =
     (case alloc_contiguous (unat HEAP_SIZE div PAGE_SIZE) p of
        (Some phys, p') \<Rightarrow> (p', heap_init (phys + hhdm) HEAP_SIZE h)
      | (None, p') \<Rightarrow>
          let small_size = 1024 * 1024
          in (case alloc_contiguous (unat small_size div PAGE_SIZE) p' of
                (Some phys, p'') \<Rightarrow> (p'', heap_init (phys + hhdm) small_size h)
              | (None, p'') \<Rightarrow> (p'', h)))"

section \<open>Aligning\<close>

lemma and_not_minus: "(w :: usize) AND NOT m = w - (w AND m)"
proof -
  have "w - (w AND m) = w AND NOT (w AND m)"
    by (rule disjunctive_diff) (simp add: bit_simps)
  also have "\<dots> = w AND NOT m"
    by (rule bit_eqI) (auto simp: bit_simps)
  finally show ?thesis by simp
qed

lemma align_up_pow2:
  fixes x :: usize
  assumes "k < 64" "unat x + 2 ^ k \<le> 2 ^ 64"
  shows "unat (align_up x (2 ^ k)) = (unat x + 2 ^ k - 1) div 2 ^ k * 2 ^ k"
proof -
  let ?w = "x + 2 ^ k - 1" and ?n = "unat x + 2 ^ k - 1"
  have w: "unat ?w = ?n"
  proof -
    have one: "(1 :: nat) \<le> unat x + 2 ^ k"
      by (simp add: trans_le_add2)
    have "?w = of_nat ?n"
      unfolding of_nat_diff [OF one] by simp
    moreover have "?n < 2 ^ LENGTH(64)"
      using assms(2) one by simp
    ultimately show ?thesis
      by (simp only: unat_of_nat_small)
  qed
  have m: "unat (?w AND (2 ^ k - 1)) = ?n mod 2 ^ k"
    by (simp only: and_pow2_minus_1 unat_and_mask w)
  have "align_up x (2 ^ k) = ?w - (?w AND (2 ^ k - 1))"
    by (simp add: align_up_def and_not_minus)
  then have "unat (align_up x (2 ^ k)) = unat ?w - unat (?w AND (2 ^ k - 1))"
    using m w by (simp add: unat_sub word_le_nat_alt)
  then show ?thesis
    by (simp add: m w minus_mod_eq_div_mult)
qed

lemma align_up_bounds:
  fixes x :: usize
  assumes "k < 64" "unat x + 2 ^ k \<le> 2 ^ 64"
  shows "x \<le> align_up x (2 ^ k)" "unat (align_up x (2 ^ k)) < unat x + 2 ^ k" "2 ^ k dvd unat (align_up x (2 ^ k))"
proof -
  let ?n = "unat x + 2 ^ k - 1"
  have "?n = ?n div 2 ^ k * 2 ^ k + ?n mod 2 ^ k" "?n mod 2 ^ k < 2 ^ k"
    by (simp_all only: div_mult_mod_eq mod_less_divisor zero_less_power zero_less_numeral)
  moreover have "(1 :: nat) \<le> 2 ^ k" by simp
  ultimately show "x \<le> align_up x (2 ^ k)" "unat (align_up x (2 ^ k)) < unat x + 2 ^ k"
    unfolding word_le_nat_alt align_up_pow2 [OF assms] by linarith+
  show "2 ^ k dvd unat (align_up x (2 ^ k))"
    unfolding align_up_pow2 [OF assms] by simp
qed

section \<open>The invariant\<close>

fun block_ok :: "FreeBlock \<Rightarrow> bool" where
  "block_ok (b, n) \<longleftrightarrow> 0 < unat b \<and> 8 dvd unat b \<and> 8 dvd unat n \<and> 16 \<le> unat n
     \<and> unat b + unat n + 2 ^ 32 \<le> 2 ^ 64"

fun block_bytes :: "FreeBlock \<Rightarrow> nat set" where
  "block_bytes (b, n) = {unat b ..< unat b + unat n}"

definition list_bytes :: "FreeBlock list \<Rightarrow> nat set" where
  "list_bytes bs = \<Union>(block_bytes ` set bs)"

definition blocks_ok :: "FreeBlock list \<Rightarrow> bool" where
  "blocks_ok bs \<longleftrightarrow> (\<forall>b \<in> set bs. block_ok b) \<and> pairwise_disjoint (map block_bytes bs)"

definition heap_wf :: "HeapAllocator \<Rightarrow> bool" where
  "heap_wf h \<longleftrightarrow> blocks_ok (ha_head h)"

definition heap_free :: "HeapAllocator \<Rightarrow> nat set" where
  "heap_free h = list_bytes (ha_head h)"

lemma list_bytes_simps [simp]:
  "list_bytes [] = {}" "list_bytes (b # bs) = block_bytes b \<union> list_bytes bs"
  by (simp_all add: list_bytes_def)

lemma blocks_ok_Cons [simp]:
  "blocks_ok (b # bs) \<longleftrightarrow> block_ok b \<and> block_bytes b \<inter> list_bytes bs = {} \<and> blocks_ok bs"
  by (auto simp: blocks_ok_def list_bytes_def)

lemma blocks_ok_Nil [simp]: "blocks_ok []"
  by (simp add: blocks_ok_def)

text \<open>What Rust guarantees of a layout: the alignment is a power of two and the size rounded up to
  it does not exceed \<open>isize::MAX\<close>; kernel alignments stay below 4 GiB.\<close>

definition layout_ok :: "Layout \<Rightarrow> bool" where
  "layout_ok l \<longleftrightarrow> (\<exists>k \<le> 31. ly_align l = 2 ^ k \<and> unat (ly_size l) + 2 ^ k \<le> 2 ^ 63)"

definition request_ok :: "nat \<Rightarrow> usize \<Rightarrow> bool" where
  "request_ok j n \<longleftrightarrow> 3 \<le> j \<and> j \<le> 31 \<and> 8 dvd unat n \<and> 16 \<le> unat n \<and> unat n < 2 ^ 63 + 2 ^ 32"

lemma block_align_pow2:
  assumes "ly_align l = 2 ^ k" "k \<le> 31"
  shows "block_align l = 2 ^ max k 3"
proof -
  have "unat (2 ^ k :: usize) = 2 ^ k" "unat (2 ^ 3 :: usize) = 2 ^ 3"
    using assms(2) by (intro unat_pow2, simp)+
  then have "(2 ^ k \<le> (2 ^ 3 :: usize)) = ((2 :: nat) ^ k \<le> 2 ^ 3)"
    by (simp only: word_le_nat_alt)
  also have "\<dots> = (k \<le> 3)"
    by (rule power_increasing_iff) simp
  finally show ?thesis
    using assms(1) by (auto simp: block_align_def max_def)
qed

lemma layout_request:
  assumes "layout_ok l"
  obtains j where "block_align l = 2 ^ j" "request_ok j (block_size l)"
    "unat (ly_align l) dvd 2 ^ j" "ly_size l \<le> block_size l"
proof -
  obtain k where k: "k \<le> 31" "ly_align l = 2 ^ k" "unat (ly_size l) + 2 ^ k \<le> 2 ^ 63"
    using assms by (auto simp: layout_ok_def)
  define j where "j = max k 3"
  have j: "3 \<le> j" "j \<le> 31" "k \<le> j"
    using k(1) by (auto simp: j_def)
  have al: "block_align l = 2 ^ j"
    using block_align_pow2 [OF k(2,1)] by (simp add: j_def)
  let ?s = "max (ly_size l) 16"
  have "(2 :: nat) ^ j \<le> 2 ^ 31"
    using j by (intro power_increasing) simp_all
  moreover have s: "unat ?s = max (unat (ly_size l)) 16"
    by (simp add: max_def word_le_nat_alt)
  ultimately have fits: "unat ?s + 2 ^ j \<le> 2 ^ 64"
    using k(3) by simp
  have up: "unat (block_size l) < unat ?s + 2 ^ j" "?s \<le> block_size l" "2 ^ j dvd unat (block_size l)"
    using align_up_bounds [of j ?s] fits j by (simp_all add: block_size_def al)
  have "(8 :: nat) dvd 2 ^ j"
    using le_imp_power_dvd [OF j(1), of "2 :: nat"] by simp
  then have "8 dvd unat (block_size l)"
    using up(3) by (rule dvd_trans)
  then have "request_ok j (block_size l)"
    using up s k(3) j \<open>2 ^ j \<le> 2 ^ 31\<close> by (auto simp: request_ok_def word_le_nat_alt max_def split: if_splits)
  moreover have "unat (ly_align l) dvd 2 ^ j"
    using j(3) k(1) by (simp add: k(2) unat_pow2 le_imp_power_dvd)
  moreover have "ly_size l \<le> block_size l"
    using up(2) by simp
  ultimately show thesis
    using that al by blast
qed

section \<open>First fit\<close>

lemma unat_minus_le: "b \<le> a \<Longrightarrow> unat ((a :: usize) - b) = unat a - unat b"
  by (simp add: unat_sub word_le_nat_alt)

lemma unat_plus_small: "unat a + unat b < 2 ^ 64 \<Longrightarrow> unat ((a :: usize) + b) = unat a + unat b"
  by (simp add: unat_word_ariths)

text \<open>The arithmetic of one step of the search never wraps.\<close>

lemma fit_arith:
  assumes ok: "block_ok (b, n)" and req: "request_ok j m"
  defines "a \<equiv> align_up b (2 ^ j)"
  shows "b \<le> a" "2 ^ j dvd unat a" "8 dvd unat a"
    "m + (a - b) \<le> n \<longleftrightarrow> unat a + unat m \<le> unat b + unat n"
    "m + (a - b) \<le> n \<Longrightarrow> unat (n - m - (a - b)) = unat b + unat n - (unat a + unat m)"
    "m + (a - b) \<le> n \<Longrightarrow> unat (a + m) = unat a + unat m"
proof -
  have "(2 :: nat) ^ j \<le> 2 ^ 31"
    using req by (intro power_increasing) (simp_all add: request_ok_def)
  then have up: "b \<le> a" "unat a < unat b + 2 ^ j" "2 ^ j dvd unat a"
    using align_up_bounds [of j b] ok req by (simp_all add: a_def request_ok_def)
  show "b \<le> a" "2 ^ j dvd unat a" by fact+
  have "(8 :: nat) dvd 2 ^ j"
    using le_imp_power_dvd [of 3 j "2 :: nat"] req by (simp add: request_ok_def)
  then show "8 dvd unat a"
    using up(3) by (rule dvd_trans)
  have adj: "unat (a - b) = unat a - unat b" "unat b \<le> unat a"
    using up(1) by (simp_all add: unat_minus_le word_le_nat_alt)
  then have need: "unat (m + (a - b)) = unat m + (unat a - unat b)"
    using req up(2) \<open>2 ^ j \<le> 2 ^ 31\<close> by (subst unat_plus_small) (simp_all add: request_ok_def, linarith)
  then show iff: "m + (a - b) \<le> n \<longleftrightarrow> unat a + unat m \<le> unat b + unat n"
    using adj(2) by (simp add: word_le_nat_alt) linarith
  assume fits: "m + (a - b) \<le> n"
  have "unat (n - m - (a - b)) = unat n - unat (m + (a - b))"
    unfolding diff_diff_eq using fits by (rule unat_minus_le)
  then show "unat (n - m - (a - b)) = unat b + unat n - (unat a + unat m)"
    using need adj(2) by linarith
  show "unat (a + m) = unat a + unat m"
    using fits iff ok by (intro unat_plus_small) simp
qed

definition grant_bytes :: "usize \<Rightarrow> usize \<Rightarrow> nat set" where
  "grant_bytes a m = {unat a ..< unat a + unat m}"

lemma first_fit_grant:
  assumes "first_fit (2 ^ j) m bs = Some (a, bs')" "blocks_ok bs" "request_ok j m"
  shows "2 ^ j dvd unat a \<and> a \<noteq> 0 \<and> unat a + unat m + 2 ^ 32 \<le> 2 ^ 64 \<and> grant_bytes a m \<subseteq> list_bytes bs
     \<and> list_bytes bs' \<subseteq> list_bytes bs - grant_bytes a m \<and> blocks_ok bs'"
  using assms
proof (induction bs arbitrary: bs')
  case (Cons blk bs)
  obtain b n where blk: "blk = (b, n)" by (cases blk)
  define al where "al = align_up b (2 ^ j)"
  have ok: "block_ok (b, n)" "block_bytes (b, n) \<inter> list_bytes bs = {}" "blocks_ok bs"
    using Cons.prems(2) by (simp_all add: blk)
  note ar = fit_arith [OF ok(1) Cons.prems(3), folded al_def]
  show ?case
  proof (cases "m + (al - b) \<le> n")
    case False
    then obtain bs2 where bs2: "first_fit (2 ^ j) m bs = Some (a, bs2)" "bs' = (b, n) # bs2"
      using Cons.prems(1) by (auto simp: blk al_def Let_def)
    then show ?thesis
      using Cons.IH [OF bs2(1) ok(3) Cons.prems(3)] ok by (auto simp: blk)
  next
    case True
    have fit: "unat al + unat m \<le> unat b + unat n" "unat b \<le> unat al"
      using ar(1,4) True by (simp_all add: word_le_nat_alt)
    have a: "a = al"
      using Cons.prems(1) True by (auto simp: blk al_def Let_def split: if_splits)
    have inside: "grant_bytes al m \<subseteq> block_bytes (b, n)"
      using fit by (auto simp: grant_bytes_def)
    have "al \<noteq> 0"
      using fit(2) ok(1) by auto
    moreover have "list_bytes bs' \<subseteq> (block_bytes (b, n) \<union> list_bytes bs) - grant_bytes al m \<and> blocks_ok bs'"
    proof (cases "32 \<le> n - m - (al - b)")
      case split: True
      have bs': "bs' = (al + m, n - m - (al - b)) # bs"
        using Cons.prems(1) True split by (auto simp: blk al_def Let_def)
      have sizes: "unat (al + m) = unat al + unat m" "unat (n - m - (al - b)) = unat b + unat n - (unat al + unat m)"
        using ar(5,6) True by simp_all
      have "block_ok (al + m, n - m - (al - b))"
        using split ok(1) ar(3) Cons.prems(3) fit
        by (auto simp: sizes word_le_nat_alt request_ok_def intro!: dvd_diff_nat dvd_add)
      then show ?thesis
        using ok inside fit by (auto simp: bs' sizes grant_bytes_def disjoint_iff)
    next
      case False
      then have "bs' = bs"
        using Cons.prems(1) True by (simp add: blk al_def Let_def)
      then show ?thesis
        using ok inside by auto
    qed
    ultimately show ?thesis
      using ar(2) ok(1) fit inside by (auto simp: blk a)
  qed
qed simp

text \<open>The search misses no block that could serve the request.\<close>

lemma first_fit_none:
  assumes "first_fit (2 ^ j) m bs = None" "blocks_ok bs" "request_ok j m" "(b, n) \<in> set bs"
  shows "unat b + unat n < unat (align_up b (2 ^ j)) + unat m"
  using assms
proof (induction bs)
  case (Cons blk bs)
  obtain b' n' where blk: "blk = (b', n')" by (cases blk)
  have ok: "block_ok (b', n')"
    using Cons.prems(2) by (simp add: blk)
  have "\<not> m + (align_up b' (2 ^ j) - b') \<le> n'" "first_fit (2 ^ j) m bs = None"
    using Cons.prems(1) by (auto simp: blk Let_def split: if_splits)
  then show ?case
    using Cons fit_arith(4) [OF ok Cons.prems(3)] by (auto simp: blk)
qed simp

section \<open>The heap is a region allocator\<close>

definition heap_alloc :: "Layout \<Rightarrow> HeapAllocator \<Rightarrow> nat set option \<times> HeapAllocator" where
  "heap_alloc l h =
     (let (a, h') = allocate l h
      in (if a = 0 then None else Some (grant_bytes a (block_size l)), h'))"

definition heap_release :: "usize \<times> Layout \<Rightarrow> HeapAllocator \<Rightarrow> HeapAllocator" where
  "heap_release d h = deallocate (fst d) (snd d) h"

definition heap_region :: "usize \<times> Layout \<Rightarrow> nat set" where
  "heap_region d = grant_bytes (fst d) (block_size (snd d))"

text \<open>What a pointer returned for a layout satisfies: see \<open>allocate_grant\<close>.\<close>

definition heap_ptr_ok :: "usize \<times> Layout \<Rightarrow> bool" where
  "heap_ptr_ok d \<longleftrightarrow> layout_ok (snd d) \<and> fst d \<noteq> 0 \<and> 8 dvd unat (fst d)
     \<and> unat (fst d) + unat (block_size (snd d)) + 2 ^ 32 \<le> 2 ^ 64"

lemma allocate_grant:
  assumes "heap_wf h" "layout_ok l" "allocate l h = (a, h')" "a \<noteq> 0"
  shows "unat (ly_align l) dvd unat a" "ly_size l \<le> block_size l" "heap_ptr_ok (a, l)"
    "grant_bytes a (block_size l) \<subseteq> heap_free h"
    "heap_free h' \<subseteq> heap_free h - grant_bytes a (block_size l)" "heap_wf h'"
proof -
  obtain j where j: "block_align l = 2 ^ j" "request_ok j (block_size l)" "ly_size l \<le> block_size l"
    "unat (ly_align l) dvd 2 ^ j"
    using layout_request [OF assms(2)] by metis
  obtain bs where bs: "first_fit (2 ^ j) (block_size l) (ha_head h) = Some (a, bs)" "h' = h\<lparr>ha_head := bs\<rparr>"
    using assms(3,4) by (auto simp: allocate_def j(1) split: option.splits)
  note g = first_fit_grant [OF bs(1) _ j(2)]
  have "(8 :: nat) dvd 2 ^ j"
    using le_imp_power_dvd [of 3 j "2 :: nat"] j(2) by (simp add: request_ok_def)
  then show "heap_ptr_ok (a, l)" "unat (ly_align l) dvd unat a"
    using g assms(1,2,4) j(4) by (auto simp: heap_ptr_ok_def heap_wf_def intro: dvd_trans)
  show "ly_size l \<le> block_size l" by fact
  show "grant_bytes a (block_size l) \<subseteq> heap_free h" "heap_wf h'"
    "heap_free h' \<subseteq> heap_free h - grant_bytes a (block_size l)"
    using g assms(1) by (auto simp: bs(2) heap_wf_def heap_free_def)
qed

lemma allocate_fail: "allocate l h = (0, h') \<Longrightarrow> heap_wf h \<Longrightarrow> layout_ok l \<Longrightarrow> h' = h"
proof -
  assume *: "allocate l h = (0, h')" "heap_wf h" "layout_ok l"
  obtain j where j: "block_align l = 2 ^ j" "request_ok j (block_size l)"
    using layout_request [OF *(3)] by metis
  show "h' = h"
    using *(1,2) first_fit_grant [OF _ _ j(2), of "ha_head h" 0]
    by (auto simp: allocate_def j(1) heap_wf_def split: option.splits)
qed

lemma deallocate_ok:
  assumes "heap_wf h" "heap_ptr_ok d" "heap_region d \<inter> heap_free h = {}"
  shows "heap_wf (heap_release d h)" "heap_free (heap_release d h) = heap_free h \<union> heap_region d"
proof -
  obtain j where "request_ok j (block_size (snd d))"
    using layout_request assms(2) by (metis heap_ptr_ok_def)
  then show "heap_wf (heap_release d h)" "heap_free (heap_release d h) = heap_free h \<union> heap_region d"
    using assms
    by (auto simp: heap_release_def deallocate_def heap_wf_def heap_free_def heap_region_def
        grant_bytes_def heap_ptr_ok_def request_ok_def unat_gt_0)
qed

interpretation heap: region_allocator heap_wf heap_free layout_ok heap_ptr_ok heap_alloc heap_release heap_region
proof unfold_locales
  fix h l R d
  assume wf: "heap_wf h"
  obtain a h' where ah: "allocate l h = (a, h')" by (cases "allocate l h")
  show "snd (heap_alloc l h) = h" if "layout_ok l" "fst (heap_alloc l h) = None"
    using that ah allocate_fail [OF _ wf] by (auto simp: heap_alloc_def split: if_splits)
  show "heap_wf (snd (heap_alloc l h))" if "layout_ok l"
    using that ah wf allocate_fail [OF _ wf] allocate_grant(6) [OF wf that ah]
    by (cases "a = 0") (auto simp: heap_alloc_def)
  show "R \<subseteq> heap_free h" "heap_free (snd (heap_alloc l h)) \<subseteq> heap_free h - R"
    if "layout_ok l" "fst (heap_alloc l h) = Some R"
    using that(2) allocate_grant(4,5) [OF wf that(1) ah] by (auto simp: heap_alloc_def ah split: if_splits)
  show "heap_wf (heap_release d h)" "heap_free (heap_release d h) \<subseteq> heap_free h \<union> heap_region d"
    if "heap_ptr_ok d" "heap_region d \<inter> heap_free h = {}"
    using deallocate_ok [OF wf that] by simp_all
qed

section \<open>Properties\<close>

lemma heap_init_wf:
  assumes "block_ok (start, n)"
  shows "heap_wf (heap_init start n h)" "heap_free (heap_init start n h) = {unat start ..< unat start + unat n}"
  using assms by (simp_all add: heap_wf_def heap_init_def heap_free_def)

text \<open>C6: The byte ranges the kernel heap hands out never overlap each other nor the free list, after
  any sequence of \<open>alloc\<close> and of \<open>dealloc\<close> calls that return ranges the caller holds; the free list
  stays a list of disjoint, 8-aligned blocks of at least 16 bytes.\<close>

theorem heap_no_overlap:
  assumes "block_ok (start, n)"
    and "region_run layout_ok heap_ptr_ok heap_alloc heap_release heap_region ops
           (heap_init start n heap_new, []) = Some (h, live)"
  shows "heap_wf h \<and> pairwise_disjoint live \<and> (\<forall>R \<in> set live. R \<inter> heap_free h = {})"
  using heap.live_regions_disjoint [OF heap_init_wf(1) [OF assms(1)] assms(2)] .

lemma layout_example: "layout_ok \<lparr>ly_size = 24, ly_align = 64\<rparr>"
  unfolding layout_ok_def by (intro exI [of _ 6]) simp

theorem heap_no_overlap_witness:
  "\<exists>h. region_run layout_ok heap_ptr_ok heap_alloc heap_release heap_region
         [Alloc \<lparr>ly_size = 24, ly_align = 64\<rparr>, Alloc \<lparr>ly_size = 24, ly_align = 64\<rparr>,
          Release (0x1040, \<lparr>ly_size = 24, ly_align = 64\<rparr>)]
         (heap_init 0x1008 0x1000 heap_new, []) = Some (h, [{0x1080..<0x10C0}, {}]) \<and> heap_wf h"
proof -
  let ?l = "\<lparr>ly_size = 24, ly_align = 64\<rparr>"
  have sz: "block_size ?l = 64" "block_align ?l = 64"
    by (simp_all add: block_size_def block_align_def align_up_def max_def word_le_nat_alt)
  have 1: "allocate ?l (heap_init 0x1008 0x1000 heap_new) = (0x1040, \<lparr>ha_head = [(0x1080, 0xF88)]\<rparr>)"
    by (simp add: allocate_def heap_init_def heap_new_def sz align_up_def word_le_nat_alt)
  have 2: "allocate ?l \<lparr>ha_head = [(0x1080, 0xF88)]\<rparr> = (0x1080, \<lparr>ha_head = [(0x10C0, 0xF48)]\<rparr>)"
    by (simp add: allocate_def sz align_up_def word_le_nat_alt)
  have "heap_ptr_ok (0x1040, ?l)"
    by (simp add: heap_ptr_ok_def layout_example sz)
  then have run: "region_run layout_ok heap_ptr_ok heap_alloc heap_release heap_region
      [Alloc ?l, Alloc ?l, Release (0x1040, ?l)] (heap_init 0x1008 0x1000 heap_new, [])
      = Some (\<lparr>ha_head = [(0x1040, 64), (0x10C0, 0xF48)]\<rparr>, [{0x1080..<0x10C0}, {}])"
    using layout_example 1 2
    by (auto simp: region_op_ok_def region_step_def heap_alloc_def heap_region_def grant_bytes_def sz
        heap_release_def deallocate_def)
  have "block_ok (0x1008, 0x1000)"
    by simp
  then show ?thesis
    using heap_no_overlap [OF _ run] run by blast
qed

text \<open>An allocation that succeeds returns a non-null address that is a multiple of the layout's
  alignment, with at least the layout's size in bytes, all of them taken from the free list; one
  that fails leaves the heap as it was, and then no free block holds the request.\<close>

theorem heap_allocate_spec:
  assumes "heap_wf h" "layout_ok l"
  shows "case allocate l h of (a, h') \<Rightarrow>
     if a = 0
     then h' = h \<and> (\<forall>(b, n) \<in> set (ha_head h). unat b + unat n < unat (align_up b (block_align l)) + unat (block_size l))
     else unat (ly_align l) dvd unat a \<and> ly_size l \<le> block_size l
        \<and> {unat a ..< unat a + unat (block_size l)} \<subseteq> heap_free h
        \<and> heap_free h' \<subseteq> heap_free h - {unat a ..< unat a + unat (block_size l)} \<and> heap_wf h'"
proof -
  obtain a h' where ah: "allocate l h = (a, h')" by (cases "allocate l h")
  show ?thesis
  proof (cases "a = 0")
    case False
    then show ?thesis
      using allocate_grant [OF assms ah False] by (simp add: ah grant_bytes_def)
  next
    case True
    obtain j where j: "block_align l = 2 ^ j" "request_ok j (block_size l)"
      using layout_request [OF assms(2)] by metis
    have "first_fit (2 ^ j) (block_size l) (ha_head h) = None"
      using ah True first_fit_grant [OF _ _ j(2), of "ha_head h" 0] assms(1)
      by (auto simp: allocate_def j(1) heap_wf_def split: option.splits)
    then show ?thesis
      using allocate_fail [OF ah [unfolded True] assms] True first_fit_none [OF _ _ j(2)] assms(1)
      by (auto simp: ah j(1) heap_wf_def)
  qed
qed

theorem heap_allocate_spec_witness:
  "\<exists>h'. allocate \<lparr>ly_size = 24, ly_align = 64\<rparr> (heap_init 0x1008 0x1000 heap_new) = (0x1040, h')
     \<and> heap_wf h' \<and> {0x1040..<0x1080} \<inter> heap_free h' = {}"
proof -
  let ?l = "\<lparr>ly_size = 24, ly_align = 64\<rparr>" and ?h = "heap_init 0x1008 0x1000 heap_new"
  have sz: "block_size ?l = 64" "block_align ?l = 64"
    by (simp_all add: block_size_def block_align_def align_up_def max_def word_le_nat_alt)
  have 1: "allocate ?l ?h = (0x1040, \<lparr>ha_head = [(0x1080, 0xF88)]\<rparr>)"
    by (simp add: allocate_def heap_init_def heap_new_def sz align_up_def word_le_nat_alt)
  have "heap_wf ?h"
    by (rule heap_init_wf) simp
  then show ?thesis
    using heap_allocate_spec [OF _ layout_example, of ?h] by (auto simp: 1 sz)
qed

end
