(* ===== verification/Task.thy ===== *)
theory Task
  imports Pmm
begin

text \<open>
  \<open>kernel/src/scheduler/task.rs\<close>: the task control block.  An open file is a trait object of the
  file system; its type is the parameter \<open>'f\<close>.  Slot numbers and task ids are natural numbers, with
  the sentinel \<open>NO_TASK = usize::MAX\<close>; tick counters are natural numbers.  The addresses of the two
  assembly trampolines are parameters.
\<close>

definition TASK_STACK_PAGES :: nat where
  "TASK_STACK_PAGES = 32"

definition TASK_STACK_SIZE :: nat where
  "TASK_STACK_SIZE = TASK_STACK_PAGES * PAGE_SIZE"

definition MAX_TASKS :: nat where
  "MAX_TASKS = 64"

definition PRIORITY_LEVELS :: nat where
  "PRIORITY_LEVELS = 6"

type_synonym TaskId = nat

definition NO_TASK :: TaskId where
  "NO_TASK = 2 ^ 64 - 1"

datatype TaskState = Ready | Running | Blocked | Dead

datatype BlockReason =
    SpscRingEmpty TaskId
  | SpscRingFull TaskId
  | MutexContention
  | Sleep
  | FileRead
  | Yield
  | Waiting

datatype LatencyClass = Realtime | Interactive | NormalLatency | Batch | PowerSave

primrec max_wait_us :: "LatencyClass \<Rightarrow> nat" where
  "max_wait_us Realtime = 0"
| "max_wait_us Interactive = 5"
| "max_wait_us NormalLatency = 20"
| "max_wait_us Batch = 100"
| "max_wait_us PowerSave = 200"

record Context =
  c_rax :: u64
  c_rbx :: u64
  c_rcx :: u64
  c_rdx :: u64
  c_rbp :: u64
  c_rsi :: u64
  c_rdi :: u64
  c_r8 :: u64
  c_r9 :: u64
  c_r10 :: u64
  c_r11 :: u64
  c_r12 :: u64
  c_r13 :: u64
  c_r14 :: u64
  c_r15 :: u64
  c_rip :: u64
  c_cs :: u64
  c_rflags :: u64
  c_rsp :: u64
  c_ss :: u64

definition context_empty :: Context where
  "context_empty =
     \<lparr>c_rax = 0, c_rbx = 0, c_rcx = 0, c_rdx = 0, c_rbp = 0, c_rsi = 0, c_rdi = 0, c_r8 = 0, c_r9 = 0,
      c_r10 = 0, c_r11 = 0, c_r12 = 0, c_r13 = 0, c_r14 = 0, c_r15 = 0, c_rip = 0, c_cs = 0,
      c_rflags = 0, c_rsp = 0, c_ss = 0\<rparr>"

record 'f Task =
  t_id :: TaskId
  t_state :: TaskState
  t_priority :: nat
  t_base_priority :: nat
  t_ticks :: nat
  t_ticks_used :: nat
  t_context :: Context
  t_page_table :: u64
  t_kernel_stack_top :: u64
  t_stack_phys :: u64
  t_stack_virt :: u64
  t_user_entry :: u64
  t_user_stack_top :: u64
  t_name :: "u8 list"
  t_name_len :: nat
  t_awake_pending :: bool
  t_waiting_on :: "TaskId option"
  t_cwd :: string
  t_fds :: "'f option list"
  t_brk :: u64
  t_latency_class :: LatencyClass

text \<open>The 32-byte name buffer: the first bytes of the name, padded with zeros.\<close>

definition name_buf :: "u8 list \<Rightarrow> u8 list \<times> nat" where
  "name_buf name_str =
     (let len = min (length name_str) 32
      in (take len name_str @ replicate (32 - len) 0, len))"

definition task_new_with_args ::
  "u64 \<Rightarrow> u64 \<Rightarrow> TaskId \<Rightarrow> u64 \<Rightarrow> u64 \<Rightarrow> u64 \<Rightarrow> u8 list \<Rightarrow> nat \<Rightarrow> u64 \<Rightarrow> Pmm \<Rightarrow> 'f Task option \<times> Pmm" where
  "task_new_with_args hhdm trampoline tid entry arg1 arg2 name_str priority page_table p =
     (case alloc_contiguous TASK_STACK_PAGES p of
        (None, p') \<Rightarrow> (None, p')
      | (Some phys, p') \<Rightarrow>
          let virt = phys + hhdm;
              stack_top = virt + of_nat TASK_STACK_SIZE;
              rsp = stack_top - 8;
              (name, len) = name_buf name_str
          in (Some \<lparr>t_id = tid, t_state = Ready, t_priority = priority, t_base_priority = priority,
                t_ticks = 0, t_ticks_used = 0,
                t_context = context_empty
                  \<lparr>c_r12 := entry, c_r13 := arg1, c_r14 := arg2, c_rip := trampoline, c_cs := 0x08,
                   c_rflags := 0x202, c_rsp := rsp, c_ss := 0x10\<rparr>,
                t_page_table = page_table, t_kernel_stack_top = stack_top, t_stack_phys = phys,
                t_stack_virt = virt, t_user_entry = arg1, t_user_stack_top = arg2,
                t_name = name, t_name_len = len, t_awake_pending = False, t_waiting_on = None,
                t_cwd = ''/'', t_fds = [None, None, None], t_brk = 0,
                t_latency_class = NormalLatency\<rparr>, p'))"

definition task_new ::
  "u64 \<Rightarrow> u64 \<Rightarrow> TaskId \<Rightarrow> u64 \<Rightarrow> u8 list \<Rightarrow> nat \<Rightarrow> u64 \<Rightarrow> Pmm \<Rightarrow> 'f Task option \<times> Pmm" where
  "task_new hhdm trampoline tid entry name_str priority page_table p =
     task_new_with_args hhdm trampoline tid entry 0 0 name_str priority page_table p"

definition USER_HEAP_START :: u64 where
  "USER_HEAP_START = 0x0000200000000000"

definition task_new_user ::
  "u64 \<Rightarrow> u64 \<Rightarrow> TaskId \<Rightarrow> u64 \<Rightarrow> u64 \<Rightarrow> u8 list \<Rightarrow> nat \<Rightarrow> u64 \<Rightarrow> Pmm \<Rightarrow> 'f Task option \<times> Pmm" where
  "task_new_user hhdm user_trampoline tid entry user_stack_top name_str priority page_table_cr3 p =
     (case alloc_contiguous TASK_STACK_PAGES p of
        (None, p') \<Rightarrow> (None, p')
      | (Some kernel_stack_phys, p') \<Rightarrow>
          let kernel_stack_virt = kernel_stack_phys + hhdm;
              kernel_stack_top = kernel_stack_virt + of_nat TASK_STACK_SIZE;
              (name, len) = name_buf name_str
          in (Some \<lparr>t_id = tid, t_state = Ready, t_priority = priority, t_base_priority = priority,
                t_ticks = 0, t_ticks_used = 0,
                t_context = context_empty
                  \<lparr>c_r12 := user_stack_top, c_r13 := entry, c_rip := user_trampoline, c_cs := 0x23,
                   c_rflags := 0x202, c_rsp := user_stack_top, c_ss := 0x1b\<rparr>,
                t_page_table = page_table_cr3, t_kernel_stack_top = kernel_stack_top,
                t_stack_phys = kernel_stack_phys, t_stack_virt = kernel_stack_virt,
                t_user_entry = entry, t_user_stack_top = user_stack_top,
                t_name = name, t_name_len = len, t_awake_pending = False, t_waiting_on = None,
                t_cwd = ''/'', t_fds = [None, None, None], t_brk = USER_HEAP_START,
                t_latency_class = NormalLatency\<rparr>, p'))"

section \<open>Lemmas\<close>

lemma name_buf_shape:
  "length (fst (name_buf s)) = 32" "snd (name_buf s) \<le> 32" "take (snd (name_buf s)) (fst (name_buf s)) = take 32 s"
  by (auto simp: name_buf_def Let_def min_def)

text \<open>What a constructor returns: a \<open>Ready\<close> task with the id and the priority asked for.\<close>

definition fresh_task :: "TaskId \<Rightarrow> nat \<Rightarrow> 'f Task \<Rightarrow> bool" where
  "fresh_task tid priority t \<longleftrightarrow> t_id t = tid \<and> t_state t = Ready \<and> t_priority t = priority \<and> t_ticks_used t = 0
     \<and> \<not> t_awake_pending t"

lemma task_new_with_args_fresh:
  assumes "task_new_with_args hhdm tr tid entry a1 a2 name prio pt p = (Some t, p')"
  shows "fresh_task tid prio t"
  using assms
  by (auto simp: task_new_with_args_def fresh_task_def Let_def split: prod.splits option.splits)

lemma task_new_fresh:
  "task_new hhdm tr tid entry name prio pt p = (Some t, p') \<Longrightarrow> fresh_task tid prio t"
  by (simp add: task_new_def task_new_with_args_fresh)

lemma task_new_user_fresh:
  assumes "task_new_user hhdm tr tid entry st name prio pt p = (Some t, p')"
  shows "fresh_task tid prio t"
  using assms
  by (auto simp: task_new_user_def fresh_task_def Let_def split: prod.splits option.splits)

end
