(* ===== verification/Mlfq.thy ===== *)
theory Mlfq
  imports Task Fifo
begin

text \<open>
  \<open>kernel/src/scheduler/mlfq.rs\<close>: the multilevel feedback queue.  \<open>TaskQueue\<close> is a circular buffer of
  64 slots and interprets the contract of \<open>Fifo\<close>; \<open>Scheduler\<close> holds the task table and six of them.
  The invariant \<open>queues_ok\<close> says that the queue of a level holds exactly the \<open>Ready\<close> tasks of that
  priority, each once; under it no index of the code is out of range and no \<open>push\<close> is dropped.
\<close>

section \<open>Task queues\<close>

record TaskQueue =
  tq_buf :: "TaskId list"
  tq_head :: nat
  tq_tail :: nat
  tq_len :: nat

definition tq_new :: TaskQueue where
  "tq_new = \<lparr>tq_buf = replicate MAX_TASKS NO_TASK, tq_head = 0, tq_tail = 0, tq_len = 0\<rparr>"

definition tq_push_back :: "TaskQueue \<Rightarrow> TaskId \<Rightarrow> TaskQueue" where
  "tq_push_back q tid =
     (if MAX_TASKS \<le> tq_len q then q
      else q\<lparr>tq_buf := (tq_buf q)[tq_tail q := tid], tq_tail := (tq_tail q + 1) mod MAX_TASKS,
             tq_len := tq_len q + 1\<rparr>)"

definition tq_push_front :: "TaskQueue \<Rightarrow> TaskId \<Rightarrow> TaskQueue" where
  "tq_push_front q tid =
     (if MAX_TASKS \<le> tq_len q then q
      else let head = (if tq_head q = 0 then MAX_TASKS - 1 else tq_head q - 1)
           in q\<lparr>tq_buf := (tq_buf q)[head := tid], tq_head := head, tq_len := tq_len q + 1\<rparr>)"

definition tq_pop_front :: "TaskQueue \<Rightarrow> TaskId option \<times> TaskQueue" where
  "tq_pop_front q =
     (if tq_len q = 0 then (None, q)
      else (Some (tq_buf q ! tq_head q),
            q\<lparr>tq_head := (tq_head q + 1) mod MAX_TASKS, tq_len := tq_len q - 1\<rparr>))"

definition tq_is_empty :: "TaskQueue \<Rightarrow> bool" where
  "tq_is_empty q \<longleftrightarrow> tq_len q = 0"

lemma tq_pop_shrinks: "tq_pop_front q = (Some x, q') \<Longrightarrow> tq_len q' < tq_len q"
  by (auto simp: tq_pop_front_def split: if_splits)

function tq_remove_loop :: "TaskId \<Rightarrow> TaskQueue \<Rightarrow> TaskQueue \<Rightarrow> TaskQueue" where
  "tq_remove_loop tid q new =
     (case tq_pop_front q of
        (None, _) \<Rightarrow> new
      | (Some x, q') \<Rightarrow> tq_remove_loop tid q' (if x \<noteq> tid then tq_push_back new x else new))"
  by pat_completeness auto
termination
  by (relation "measure (\<lambda>(_, q, _). tq_len q)") (auto intro: tq_pop_shrinks [OF sym])

declare tq_remove_loop.simps [simp del]

definition tq_remove :: "TaskQueue \<Rightarrow> TaskId \<Rightarrow> TaskQueue" where
  "tq_remove q tid = tq_remove_loop tid q tq_new"

section \<open>The scheduler\<close>

definition QUANTA :: "nat list" where
  "QUANTA = [1, 2, 4, 8, 16, 32]"

definition BOOST_INTERVAL :: nat where
  "BOOST_INTERVAL = 500"

record 'f Scheduler =
  sc_tasks :: "'f Task option list"
  sc_queues :: "TaskQueue list"
  sc_current :: TaskId
  sc_tick_count :: nat
  sc_boost_countdown :: nat
  sc_next_id :: nat
  sc_started :: bool

definition sched_new :: "'f Scheduler" where
  "sched_new = \<lparr>sc_tasks = replicate MAX_TASKS None, sc_queues = replicate PRIORITY_LEVELS tq_new,
     sc_current = NO_TASK, sc_tick_count = 0, sc_boost_countdown = BOOST_INTERVAL, sc_next_id = 0,
     sc_started = False\<rparr>"

definition task_at :: "'f Scheduler \<Rightarrow> nat \<Rightarrow> 'f Task option" where
  "task_at s slot = (if slot < length (sc_tasks s) then sc_tasks s ! slot else None)"

definition set_task :: "nat \<Rightarrow> 'f Task \<Rightarrow> 'f Scheduler \<Rightarrow> 'f Scheduler" where
  "set_task slot t s = s\<lparr>sc_tasks := (sc_tasks s)[slot := Some t]\<rparr>"

definition upd_queue :: "nat \<Rightarrow> (TaskQueue \<Rightarrow> TaskQueue) \<Rightarrow> 'f Scheduler \<Rightarrow> 'f Scheduler" where
  "upd_queue level f s = s\<lparr>sc_queues := (sc_queues s)[level := f (sc_queues s ! level)]\<rparr>"

definition find_free_slot :: "'f Scheduler \<Rightarrow> nat option" where
  "find_free_slot s = position (\<lambda>t. t = None) (sc_tasks s)"

definition sched_spawn ::
  "u64 \<Rightarrow> u64 \<Rightarrow> u64 \<Rightarrow> u64 \<Rightarrow> u8 list \<Rightarrow> nat \<Rightarrow> 'f Scheduler \<times> Pmm \<Rightarrow> TaskId option \<times> 'f Scheduler \<times> Pmm" where
  "sched_spawn hhdm trampoline cr3 entry name priority sp =
     (let (s, p) = sp
      in case find_free_slot s of
           None \<Rightarrow> (None, s, p)
         | Some slot \<Rightarrow>
             let tid = sc_next_id s;
                 s = s\<lparr>sc_next_id := sc_next_id s + 1\<rparr>;
                 prio = min priority (PRIORITY_LEVELS - 1);
                 page_table = cr3 AND NOT 0xFFF
             in case task_new hhdm trampoline tid entry name prio page_table p of
                  (None, p') \<Rightarrow> (None, s, p')
                | (Some task, p') \<Rightarrow>
                    (Some slot, upd_queue prio (\<lambda>q. tq_push_back q slot) (set_task slot task s), p'))"

text \<open>Indexing the task table out of range panics.\<close>

definition kill :: "nat \<Rightarrow> 'f Scheduler \<Rightarrow> 'f Scheduler or_panic" where
  "kill slot s =
     (if MAX_TASKS \<le> slot then None
      else Some (case task_at s slot of
                   None \<Rightarrow> s
                 | Some task \<Rightarrow>
                     upd_queue (t_priority task) (\<lambda>q. tq_remove q slot)
                       (set_task slot (task\<lparr>t_state := Dead\<rparr>) s)))"

definition demote_current :: "'f Scheduler \<Rightarrow> 'f Scheduler" where
  "demote_current s =
     (case task_at s (sc_current s) of
        None \<Rightarrow> s
      | Some task \<Rightarrow>
          set_task (sc_current s)
            (task\<lparr>t_ticks_used := 0,
                  t_priority := (if t_priority task < PRIORITY_LEVELS - 1 then t_priority task + 1
                                 else t_priority task)\<rparr>) s)"

text \<open>\<open>boost_all\<close>: each level above 0 is drained into level 0.\<close>

definition boost_slot :: "'f Task option list \<times> TaskQueue \<Rightarrow> nat \<Rightarrow> 'f Task option list \<times> TaskQueue" where
  "boost_slot st slot =
     ((fst st)[slot := map_option (\<lambda>t. t\<lparr>t_priority := 0, t_ticks_used := 0\<rparr>) (fst st ! slot)],
      tq_push_back (snd st) slot)"

function drain_queue ::
  "TaskQueue \<Rightarrow> 'f Task option list \<times> TaskQueue \<Rightarrow> TaskQueue \<times> 'f Task option list \<times> TaskQueue" where
  "drain_queue q st =
     (case tq_pop_front q of
        (None, q') \<Rightarrow> (q', st)
      | (Some slot, q') \<Rightarrow> drain_queue q' (boost_slot st slot))"
  by pat_completeness auto
termination
  by (relation "measure (\<lambda>(q, _). tq_len q)") (auto intro: tq_pop_shrinks [OF sym])

declare drain_queue.simps [simp del]

definition boost_level :: "nat \<Rightarrow> 'f Scheduler \<Rightarrow> 'f Scheduler" where
  "boost_level level s =
     (let (q, tasks, q0) = drain_queue (sc_queues s ! level) (sc_tasks s, sc_queues s ! 0)
      in s\<lparr>sc_tasks := tasks, sc_queues := (sc_queues s)[level := q, 0 := q0]\<rparr>)"

definition boost_all :: "'f Scheduler \<Rightarrow> 'f Scheduler" where
  "boost_all s = fold boost_level [1..<PRIORITY_LEVELS] s"

definition sched_tick :: "'f Scheduler \<Rightarrow> bool \<times> 'f Scheduler" where
  "sched_tick s0 =
     (let s = s0\<lparr>sc_tick_count := sc_tick_count s0 + 1, sc_boost_countdown := sc_boost_countdown s0 - 1\<rparr>;
          s = (if sc_boost_countdown s = 0 then (boost_all s)\<lparr>sc_boost_countdown := BOOST_INTERVAL\<rparr> else s)
      in if sc_current s = NO_TASK then (False, s)
         else case task_at s (sc_current s) of
                None \<Rightarrow> (False, s)
              | Some task \<Rightarrow>
                  let task = task\<lparr>t_ticks_used := t_ticks_used task + 1\<rparr>;
                      s = set_task (sc_current s) task s;
                      quantum = QUANTA ! t_priority task
                  in if quantum \<le> t_ticks_used task then (True, demote_current s) else (False, s))"

text \<open>\<open>pick_next\<close>: stale entries are popped and skipped.\<close>

definition is_ready :: "'f Scheduler \<Rightarrow> nat \<Rightarrow> bool" where
  "is_ready s slot = (case task_at s slot of None \<Rightarrow> False | Some t \<Rightarrow> t_state t = Ready)"

function pick_level :: "(nat \<Rightarrow> bool) \<Rightarrow> TaskQueue \<Rightarrow> nat option \<times> TaskQueue" where
  "pick_level ready q =
     (case tq_pop_front q of
        (None, q') \<Rightarrow> (None, q')
      | (Some slot, q') \<Rightarrow> if ready slot then (Some slot, q') else pick_level ready q')"
  by pat_completeness auto
termination
  by (relation "measure (\<lambda>(_, q). tq_len q)") (auto intro: tq_pop_shrinks [OF sym])

declare pick_level.simps [simp del]

fun pick_levels :: "nat list \<Rightarrow> 'f Scheduler \<Rightarrow> TaskId \<times> 'f Scheduler" where
  "pick_levels [] s = (NO_TASK, s)"
| "pick_levels (level # levels) s =
     (case pick_level (is_ready s) (sc_queues s ! level) of
        (Some slot, q) \<Rightarrow> (slot, upd_queue level (\<lambda>_. q) s)
      | (None, q) \<Rightarrow> pick_levels levels (upd_queue level (\<lambda>_. q) s))"

definition pick_next :: "'f Scheduler \<Rightarrow> TaskId \<times> 'f Scheduler" where
  "pick_next s = pick_levels [0..<PRIORITY_LEVELS] s"

definition requeue_current :: "'f Scheduler \<Rightarrow> 'f Scheduler" where
  "requeue_current s =
     (if sc_current s = NO_TASK then s
      else case task_at s (sc_current s) of
             None \<Rightarrow> s
           | Some task \<Rightarrow>
               if t_state task = Running
               then upd_queue (t_priority task) (\<lambda>q. tq_push_back q (sc_current s))
                      (set_task (sc_current s) (task\<lparr>t_state := Ready\<rparr>) s)
               else s)"

text \<open>The part of \<open>boost_for_reason\<close> that lifts a peer task to level 0, moving it if it is queued.\<close>

definition boost_peer :: "TaskId \<Rightarrow> 'f Scheduler \<Rightarrow> 'f Scheduler or_panic" where
  "boost_peer peer s =
     (if MAX_TASKS \<le> peer then None
      else Some (case task_at s peer of
                   None \<Rightarrow> s
                 | Some t \<Rightarrow>
                     let old_prio = t_priority t;
                         s = set_task peer (t\<lparr>t_priority := 0, t_ticks_used := 0\<rparr>) s
                     in if t_state t = Ready \<and> old_prio \<noteq> 0
                        then upd_queue 0 (\<lambda>q. tq_push_front q peer) (upd_queue old_prio (\<lambda>q. tq_remove q peer) s)
                        else s))"

definition boost_for_reason :: "TaskId \<Rightarrow> BlockReason \<Rightarrow> 'f Scheduler \<Rightarrow> 'f Scheduler or_panic" where
  "boost_for_reason slot reason s =
     (case reason of
        SpscRingEmpty producer_slot \<Rightarrow>
          (case boost_peer producer_slot s of
             None \<Rightarrow> None
           | Some s \<Rightarrow>
               if MAX_TASKS \<le> slot then None
               else Some (case task_at s slot of
                            None \<Rightarrow> s
                          | Some t \<Rightarrow> set_task slot (t\<lparr>t_priority := 0, t_ticks_used := 0\<rparr>) s))
      | SpscRingFull consumer_slot \<Rightarrow> boost_peer consumer_slot s
      | r \<Rightarrow>
          if r = FileRead \<or> r = MutexContention
          then if MAX_TASKS \<le> slot then None
               else Some (case task_at s slot of
                            None \<Rightarrow> s
                          | Some t \<Rightarrow>
                              let old_prio = t_priority t;
                                  new_prio = (if 0 < t_priority t then t_priority t - 1 else t_priority t);
                                  s = set_task slot (t\<lparr>t_ticks_used := 0, t_priority := new_prio\<rparr>) s
                              in if t_state t = Ready \<and> old_prio \<noteq> new_prio
                                 then upd_queue new_prio (\<lambda>q. tq_push_back q slot)
                                        (upd_queue old_prio (\<lambda>q. tq_remove q slot) s)
                                 else s)
          else Some s)"

definition promote :: "TaskId \<Rightarrow> 'f Scheduler \<Rightarrow> 'f Scheduler or_panic" where
  "promote slot s =
     (if MAX_TASKS \<le> slot then None
      else Some (case task_at s slot of
                   None \<Rightarrow> s
                 | Some task \<Rightarrow>
                     set_task slot (task\<lparr>t_ticks_used := 0,
                       t_priority := (if 0 < t_priority task then t_priority task - 1 else t_priority task)\<rparr>) s))"

section \<open>Queues as lists\<close>

definition tq_contents :: "TaskQueue \<Rightarrow> TaskId list" where
  "tq_contents q = ring_slice (tq_buf q) (tq_head q) (tq_len q)"

definition tq_wf :: "TaskQueue \<Rightarrow> bool" where
  "tq_wf q \<longleftrightarrow> length (tq_buf q) = MAX_TASKS \<and> tq_len q \<le> MAX_TASKS \<and> tq_head q < MAX_TASKS
     \<and> tq_tail q = (tq_head q + tq_len q) mod MAX_TASKS"

lemma tq_new_wf [simp]: "tq_wf tq_new" "tq_contents tq_new = []"
  by (simp_all add: tq_wf_def tq_new_def tq_contents_def MAX_TASKS_def)

lemma tq_length [simp]: "length (tq_contents q) = tq_len q"
  by (simp add: tq_contents_def)

lemma tq_push_back_contents:
  assumes "tq_wf q" "tq_len q < MAX_TASKS"
  shows "tq_contents (tq_push_back q x) = tq_contents q @ [x]"
  using assms ring_slice_snoc [of "tq_len q" "tq_buf q" "tq_head q" x]
  by (simp add: tq_contents_def tq_push_back_def tq_wf_def)

lemma tq_push_back_wf [simp]: "tq_wf q \<Longrightarrow> tq_wf (tq_push_back q x)"
  by (auto simp: tq_wf_def tq_push_back_def mod_simps)

lemma tq_push_back_full: "MAX_TASKS \<le> tq_len q \<Longrightarrow> tq_push_back q x = q"
  by (simp add: tq_push_back_def)

lemma tq_pop_cases:
  assumes "tq_wf q"
  shows "tq_wf (snd (tq_pop_front q))"
    "fst (tq_pop_front q) = (case tq_contents q of [] \<Rightarrow> None | x # _ \<Rightarrow> Some x)"
    "tq_contents (snd (tq_pop_front q)) = tl (tq_contents q)"
proof -
  have "tq_wf (snd (tq_pop_front q))
      \<and> fst (tq_pop_front q) = (case tq_contents q of [] \<Rightarrow> None | x # _ \<Rightarrow> Some x)
      \<and> tq_contents (snd (tq_pop_front q)) = tl (tq_contents q)"
  proof (cases "tq_len q")
    case 0
    then show ?thesis
      using assms by (simp add: tq_pop_front_def tq_contents_def)
  next
    case (Suc n)
    have len: "length (tq_buf q) = MAX_TASKS" "tq_head q < MAX_TASKS"
      using assms by (simp_all add: tq_wf_def)
    have "ring_slice (tq_buf q) (Suc (tq_head q) mod MAX_TASKS) n = ring_slice (tq_buf q) (Suc (tq_head q)) n"
      using ring_slice_mod [of "tq_buf q" "Suc (tq_head q)" n] len by simp
    moreover have "(Suc (tq_head q) mod MAX_TASKS + n) mod MAX_TASKS = (tq_head q + Suc n) mod MAX_TASKS"
      by (simp add: mod_simps)
    ultimately show ?thesis
      using assms Suc len by (auto simp: tq_pop_front_def tq_contents_def ring_slice_Suc tq_wf_def MAX_TASKS_def)
  qed
  then show "tq_wf (snd (tq_pop_front q))"
    "fst (tq_pop_front q) = (case tq_contents q of [] \<Rightarrow> None | x # _ \<Rightarrow> Some x)"
    "tq_contents (snd (tq_pop_front q)) = tl (tq_contents q)"
    by simp_all
qed

lemma tq_len_le: "tq_wf q \<Longrightarrow> tq_len q \<le> MAX_TASKS"
  by (simp add: tq_wf_def)

lemma tq_len_new [simp]: "tq_len tq_new = 0"
  by (simp add: tq_new_def)

interpretation tq: bounded_fifo tq_wf tq_contents "\<lambda>_. MAX_TASKS" "\<lambda>q _. tq_len q < MAX_TASKS" tq_push_back tq_pop_front
  by unfold_locales (simp_all add: tq_len_le tq_pop_cases tq_push_back_contents tq_push_back_full)

lemma tq_pop_Some: "tq_wf q \<Longrightarrow> tq_contents q = x # xs \<Longrightarrow> \<exists>q'. tq_pop_front q = (Some x, q') \<and> tq_wf q' \<and> tq_contents q' = xs"
  using tq_pop_cases [of q] by (cases "tq_pop_front q") auto

lemma tq_pop_None: "tq_wf q \<Longrightarrow> tq_contents q = [] \<Longrightarrow> \<exists>q'. tq_pop_front q = (None, q') \<and> tq_wf q' \<and> tq_contents q' = []"
  using tq_pop_cases [of q] by (cases "tq_pop_front q") auto

lemma tq_push_front_contents:
  assumes "tq_wf q" "tq_len q < MAX_TASKS"
  shows "tq_contents (tq_push_front q x) = x # tq_contents q" "tq_wf (tq_push_front q x)"
proof -
  define h where "h = (if tq_head q = 0 then MAX_TASKS - 1 else tq_head q - 1)"
  have len: "length (tq_buf q) = MAX_TASKS" "tq_head q < MAX_TASKS" "h < MAX_TASKS"
    using assms(1) by (auto simp: tq_wf_def h_def MAX_TASKS_def)
  have "Suc h mod MAX_TASKS = tq_head q mod MAX_TASKS"
    using len by (auto simp: h_def MAX_TASKS_def)
  then have nxt: "ring_slice (tq_buf q) (Suc h) (tq_len q) = ring_slice (tq_buf q) (tq_head q) (tq_len q)"
    using len by (intro ring_slice_cong_mod) simp
  have eq: "tq_push_front q x = q\<lparr>tq_buf := (tq_buf q)[h := x], tq_head := h, tq_len := tq_len q + 1\<rparr>"
    using assms(2) by (simp add: tq_push_front_def h_def Let_def)
  show "tq_contents (tq_push_front q x) = x # tq_contents q"
    using ring_slice_upd_front [of "tq_len q" "tq_buf q" h x] assms(2) len nxt
    by (simp add: eq tq_contents_def)
  have "(h + Suc (tq_len q)) mod MAX_TASKS = (tq_head q + tq_len q) mod MAX_TASKS"
    using \<open>Suc h mod MAX_TASKS = tq_head q mod MAX_TASKS\<close> by (metis add_Suc_right add_Suc mod_add_left_eq)
  then show "tq_wf (tq_push_front q x)"
    using assms len by (simp add: eq tq_wf_def)
qed

lemma tq_remove_loop_contents:
  "tq_wf q \<Longrightarrow> tq_wf new \<Longrightarrow> tq_len new + tq_len q \<le> MAX_TASKS \<Longrightarrow>
     tq_wf (tq_remove_loop x q new)
     \<and> tq_contents (tq_remove_loop x q new) = tq_contents new @ filter (\<lambda>y. y \<noteq> x) (tq_contents q)"
proof (induction "tq_contents q" arbitrary: q new)
  case Nil
  then show ?case
    using tq_pop_None [of q] by (subst (1 2) tq_remove_loop.simps) auto
next
  case (Cons y ys)
  obtain q' where q': "tq_pop_front q = (Some y, q')" "tq_wf q'" "tq_contents q' = ys"
    using tq_pop_Some [OF Cons.prems(1) Cons.hyps(2) [symmetric]] by blast
  have len: "tq_len q = Suc (tq_len q')"
    using Cons.hyps(2) q'(3) by (metis length_Cons tq_length)
  define new' where "new' = (if y \<noteq> x then tq_push_back new y else new)"
  have new': "tq_wf new'" "tq_contents new' = tq_contents new @ filter (\<lambda>z. z \<noteq> x) [y]"
    using Cons.prems(2,3) len by (auto simp: new'_def tq_push_back_contents)
  have "tq_len new' \<le> Suc (tq_len new)"
    using new'(2) by (metis length_append length_filter_le tq_length Suc_eq_plus1 add_left_mono length_Cons list.size(3) One_nat_def plus_1_eq_Suc)
  then have "tq_len new' + tq_len q' \<le> MAX_TASKS"
    using Cons.prems(3) len by linarith
  note IH = Cons.hyps(1) [OF q'(3) [symmetric] q'(2) new'(1) this]
  have step: "tq_remove_loop x q new = tq_remove_loop x q' new'"
    using q'(1) by (subst tq_remove_loop.simps) (simp add: new'_def)
  show ?case
    unfolding step using IH new'(2) Cons.hyps(2) q'(3) by (auto simp flip: Cons.hyps(2))
qed

lemma tq_remove_contents:
  assumes "tq_wf q"
  shows "tq_wf (tq_remove q x)" "tq_contents (tq_remove q x) = filter (\<lambda>y. y \<noteq> x) (tq_contents q)"
  using tq_remove_loop_contents [OF assms, of tq_new x] tq_len_le [OF assms]
  by (simp_all add: tq_remove_def)

section \<open>The invariant of the run queues\<close>

abbreviation run_queue :: "'f Scheduler \<Rightarrow> nat \<Rightarrow> TaskId list" where
  "run_queue s l \<equiv> tq_contents (sc_queues s ! l)"

definition ready_set :: "'f Task option list \<Rightarrow> nat \<Rightarrow> nat set" where
  "ready_set tasks l =
     {slot. slot < length tasks \<and> (\<exists>t. tasks ! slot = Some t \<and> t_state t = Ready \<and> t_priority t = l)}"

definition prios_ok :: "'f Task option list \<Rightarrow> bool" where
  "prios_ok tasks \<longleftrightarrow> (\<forall>t. Some t \<in> set tasks \<longrightarrow> t_priority t < PRIORITY_LEVELS)"

definition queue_ok :: "'f Task option list \<Rightarrow> nat \<Rightarrow> TaskQueue \<Rightarrow> bool" where
  "queue_ok tasks l q \<longleftrightarrow> tq_wf q \<and> distinct (tq_contents q) \<and> set (tq_contents q) = ready_set tasks l"

definition queues_ok :: "'f Scheduler \<Rightarrow> bool" where
  "queues_ok s \<longleftrightarrow> length (sc_tasks s) = MAX_TASKS \<and> length (sc_queues s) = PRIORITY_LEVELS
     \<and> prios_ok (sc_tasks s) \<and> (\<forall>l < PRIORITY_LEVELS. queue_ok (sc_tasks s) l (sc_queues s ! l))"

lemma ready_set_update:
  assumes "slot < length tasks"
  shows "ready_set (tasks[slot := Some t]) l =
    (if t_state t = Ready \<and> t_priority t = l then insert slot (ready_set tasks l) else ready_set tasks l - {slot})"
  using assms by (auto simp: ready_set_def nth_list_update split: if_splits)

lemma prios_ok_update: "prios_ok tasks \<Longrightarrow> t_priority t < PRIORITY_LEVELS \<Longrightarrow> prios_ok (tasks[slot := Some t])"
  using set_update_subset_insert [of tasks slot "Some t"] by (auto simp: prios_ok_def)

lemma prios_ok_nth: "prios_ok tasks \<Longrightarrow> slot < length tasks \<Longrightarrow> tasks ! slot = Some t \<Longrightarrow> t_priority t < PRIORITY_LEVELS"
  unfolding prios_ok_def by (metis nth_mem)

lemma queues_ok_len: "queues_ok s \<Longrightarrow> length (sc_tasks s) = MAX_TASKS" "queues_ok s \<Longrightarrow> length (sc_queues s) = PRIORITY_LEVELS"
  by (simp_all add: queues_ok_def)

lemma queues_ok_prio:
  "queues_ok s \<Longrightarrow> task_at s slot = Some t \<Longrightarrow> t_priority t < PRIORITY_LEVELS"
  by (auto simp: queues_ok_def task_at_def intro: prios_ok_nth split: if_splits)

lemma queues_ok_level:
  assumes "queues_ok s" "l < PRIORITY_LEVELS"
  shows "tq_wf (sc_queues s ! l)" "distinct (run_queue s l)" "set (run_queue s l) = ready_set (sc_tasks s) l"
  using assms by (simp_all add: queues_ok_def queue_ok_def)

lemma task_at_bound: "task_at s slot = Some t \<Longrightarrow> slot < length (sc_tasks s)"
  by (simp add: task_at_def split: if_splits)

lemma ready_set_mem:
  "slot \<in> ready_set (sc_tasks s) l \<longleftrightarrow> (\<exists>t. task_at s slot = Some t \<and> t_state t = Ready \<and> t_priority t = l)"
  by (auto simp: ready_set_def task_at_def)

lemma is_ready_mem: "is_ready s slot \<longleftrightarrow> (\<exists>l. slot \<in> ready_set (sc_tasks s) l)"
  unfolding ready_set_mem by (auto simp: is_ready_def split: option.splits)

text \<open>A queue never holds a slot twice, so there is room for one that it does not hold.\<close>

lemma queue_room:
  assumes "queue_ok tasks l q" "length tasks = MAX_TASKS" "slot < MAX_TASKS" "slot \<notin> set (tq_contents q)"
  shows "tq_len q < MAX_TASKS"
proof -
  have "set (tq_contents q) \<subseteq> {..<MAX_TASKS} - {slot}"
    using assms by (auto simp: queue_ok_def ready_set_def)
  then have "card (set (tq_contents q)) \<le> MAX_TASKS - 1"
    using card_mono [of "{..<MAX_TASKS} - {slot}"] assms(3) by fastforce
  moreover have "card (set (tq_contents q)) = tq_len q"
    using assms(1) distinct_card [of "tq_contents q"] by (simp add: queue_ok_def)
  ultimately show ?thesis
    by (simp add: MAX_TASKS_def)
qed

text \<open>Replacing one task, with the queues adjusted level by level, keeps the invariant.\<close>

lemma queues_ok_set_task:
  assumes ok: "queues_ok s" and slot: "slot < MAX_TASKS" and prio: "t_priority t < PRIORITY_LEVELS"
    and tasks: "sc_tasks s' = (sc_tasks s)[slot := Some t]" and len: "length (sc_queues s') = PRIORITY_LEVELS"
    and lev: "\<And>l. l < PRIORITY_LEVELS \<Longrightarrow> tq_wf (sc_queues s' ! l) \<and> distinct (run_queue s' l)
       \<and> set (run_queue s' l) = (if t_state t = Ready \<and> t_priority t = l then insert slot (set (run_queue s l))
           else set (run_queue s l) - {slot})"
  shows "queues_ok s'"
proof -
  have tl: "length (sc_tasks s) = MAX_TASKS"
    using ok by (rule queues_ok_len)
  have "queue_ok (sc_tasks s') l (sc_queues s' ! l)" if "l < PRIORITY_LEVELS" for l
    using lev [OF that] queues_ok_level(3) [OF ok that] slot tl
    by (simp add: queue_ok_def tasks ready_set_update)
  moreover have "prios_ok (sc_tasks s')"
    using ok prio by (simp add: tasks queues_ok_def prios_ok_update)
  ultimately show ?thesis
    using tl len by (simp add: queues_ok_def tasks)
qed

lemma upd_queue_simps [simp]:
  "sc_tasks (upd_queue l f s) = sc_tasks s" "sc_current (upd_queue l f s) = sc_current s"
  "sc_boost_countdown (upd_queue l f s) = sc_boost_countdown s" "sc_next_id (upd_queue l f s) = sc_next_id s"
  "length (sc_queues (upd_queue l f s)) = length (sc_queues s)" "sc_tick_count (upd_queue l f s) = sc_tick_count s"
  by (simp_all add: upd_queue_def)

lemma upd_queue_nth:
  "l' < length (sc_queues s) \<Longrightarrow> sc_queues (upd_queue l f s) ! l' = (if l = l' then f (sc_queues s ! l) else sc_queues s ! l')"
  by (simp add: upd_queue_def nth_list_update)

lemma set_task_simps [simp]:
  "sc_tasks (set_task i t s) = (sc_tasks s)[i := Some t]" "sc_queues (set_task i t s) = sc_queues s"
  "sc_current (set_task i t s) = sc_current s" "sc_boost_countdown (set_task i t s) = sc_boost_countdown s"
  "sc_next_id (set_task i t s) = sc_next_id s" "sc_tick_count (set_task i t s) = sc_tick_count s"
  by (simp_all add: set_task_def)

lemma task_at_upd_queue [simp]: "task_at (upd_queue l f s) = task_at s"
  by (simp add: task_at_def fun_eq_iff)

lemma task_at_set_task: "task_at (set_task i t s) j = (if i = j \<and> i < length (sc_tasks s) then Some t else task_at s j)"
  by (auto simp: task_at_def)

text \<open>A task that is not in a queue before nor after.\<close>

lemma queues_ok_keep:
  assumes "queues_ok s" "task_at s slot = Some t0" "t_priority t < PRIORITY_LEVELS"
    and "t_state t0 = Ready \<longleftrightarrow> t_state t = Ready" "t_state t = Ready \<longrightarrow> t_priority t0 = t_priority t"
  shows "queues_ok (set_task slot t s)"
proof (rule queues_ok_set_task [OF assms(1) _ assms(3)])
  show "slot < MAX_TASKS"
    using task_at_bound [OF assms(2)] queues_ok_len [OF assms(1)] by simp
  fix l
  assume l: "l < PRIORITY_LEVELS"
  have "slot \<in> set (run_queue s l) \<longleftrightarrow> t_state t0 = Ready \<and> t_priority t0 = l"
    using queues_ok_level(3) [OF assms(1) l] assms(2) by (auto simp: ready_set_mem)
  then show "tq_wf (sc_queues (set_task slot t s) ! l) \<and> distinct (run_queue (set_task slot t s) l)
      \<and> set (run_queue (set_task slot t s) l) = (if t_state t = Ready \<and> t_priority t = l
          then insert slot (set (run_queue s l)) else set (run_queue s l) - {slot})"
    using queues_ok_level [OF assms(1) l] assms(4,5) by (auto simp del: tq_length)
qed (use queues_ok_len [OF assms(1)] in simp_all)

text \<open>A task that becomes ready.\<close>

lemma queues_ok_enqueue:
  assumes "queues_ok s" "slot < MAX_TASKS" "\<not> is_ready s slot" "t_state t = Ready" "t_priority t = p" "p < PRIORITY_LEVELS"
  shows "queues_ok (upd_queue p (\<lambda>q. tq_push_back q slot) (set_task slot t s))"
proof (rule queues_ok_set_task [OF assms(1,2)])
  fix l
  assume l: "l < PRIORITY_LEVELS"
  let ?s = "upd_queue p (\<lambda>q. tq_push_back q slot) (set_task slot t s)"
  have out: "slot \<notin> set (run_queue s l)"
    using queues_ok_level(3) [OF assms(1) l] assms(3) by (auto simp: is_ready_mem)
  have room: "tq_len (sc_queues s ! l) < MAX_TASKS"
    using queue_room [of "sc_tasks s" l "sc_queues s ! l"] assms(1,2) l out by (simp add: queues_ok_def)
  show "tq_wf (sc_queues ?s ! l) \<and> distinct (run_queue ?s l)
      \<and> set (run_queue ?s l) = (if t_state t = Ready \<and> t_priority t = l
          then insert slot (set (run_queue s l)) else set (run_queue s l) - {slot})"
    using queues_ok_level [OF assms(1) l] l out room assms(4,5) queues_ok_len [OF assms(1)]
    by (auto simp: upd_queue_nth tq_push_back_contents)
qed (use assms queues_ok_len [OF assms(1)] in simp_all)

text \<open>A task that leaves the ready state.\<close>

lemma queues_ok_dequeue:
  assumes "queues_ok s" "task_at s slot = Some t0" "t_state t \<noteq> Ready" "t_priority t < PRIORITY_LEVELS"
  shows "queues_ok (upd_queue (t_priority t0) (\<lambda>q. tq_remove q slot) (set_task slot t s))"
proof (rule queues_ok_set_task [OF assms(1) _ assms(4)])
  show "slot < MAX_TASKS"
    using task_at_bound [OF assms(2)] queues_ok_len [OF assms(1)] by simp
  fix l
  assume l: "l < PRIORITY_LEVELS"
  have "slot \<in> set (run_queue s l) \<longrightarrow> t_priority t0 = l"
    using queues_ok_level(3) [OF assms(1) l] assms(2) by (auto simp: ready_set_mem)
  then show "tq_wf (sc_queues (upd_queue (t_priority t0) (\<lambda>q. tq_remove q slot) (set_task slot t s)) ! l)
      \<and> distinct (run_queue (upd_queue (t_priority t0) (\<lambda>q. tq_remove q slot) (set_task slot t s)) l)
      \<and> set (run_queue (upd_queue (t_priority t0) (\<lambda>q. tq_remove q slot) (set_task slot t s)) l)
        = (if t_state t = Ready \<and> t_priority t = l then insert slot (set (run_queue s l))
           else set (run_queue s l) - {slot})"
    using queues_ok_level [OF assms(1) l] assms(3) l queues_ok_len [OF assms(1)]
    by (auto simp: upd_queue_nth tq_remove_contents)
qed (use queues_ok_len [OF assms(1)] in simp_all)

text \<open>A ready task that moves to another level, at either end of its queue.\<close>

lemma queues_ok_move:
  assumes "queues_ok s" "task_at s slot = Some t0" "t_state t0 = Ready" "t_state t = Ready" "t_priority t = p"
    "p < PRIORITY_LEVELS" "t_priority t0 \<noteq> p" "push = tq_push_back \<or> push = tq_push_front"
  shows "queues_ok (upd_queue p (\<lambda>q. push q slot) (upd_queue (t_priority t0) (\<lambda>q. tq_remove q slot) (set_task slot t s)))"
proof (rule queues_ok_set_task [OF assms(1)])
  let ?s = "upd_queue p (\<lambda>q. push q slot) (upd_queue (t_priority t0) (\<lambda>q. tq_remove q slot) (set_task slot t s))"
  show slot: "slot < MAX_TASKS"
    using task_at_bound [OF assms(2)] queues_ok_len [OF assms(1)] by simp
  fix l
  assume l: "l < PRIORITY_LEVELS"
  have mem: "slot \<in> set (run_queue s l) \<longleftrightarrow> t_priority t0 = l"
    using queues_ok_level(3) [OF assms(1) l] assms(2,3) by (auto simp: ready_set_mem)
  have room: "tq_len (sc_queues s ! l) < MAX_TASKS" if "l \<noteq> t_priority t0"
    using queue_room [of "sc_tasks s" l "sc_queues s ! l" slot] assms(1) slot l mem that by (simp add: queues_ok_def)
  have push: "tq_wf (push q slot)" "set (tq_contents (push q slot)) = insert slot (set (tq_contents q))"
    "distinct (tq_contents (push q slot)) \<longleftrightarrow> distinct (tq_contents q) \<and> slot \<notin> set (tq_contents q)"
    if "tq_wf q" "tq_len q < MAX_TASKS" for q
    using assms(8) that by (auto simp: tq_push_back_contents tq_push_front_contents)
  show "tq_wf (sc_queues ?s ! l) \<and> distinct (run_queue ?s l)
      \<and> set (run_queue ?s l) = (if t_state t = Ready \<and> t_priority t = l
          then insert slot (set (run_queue s l)) else set (run_queue s l) - {slot})"
    using queues_ok_level [OF assms(1) l] assms(4,5,7) l queues_ok_len [OF assms(1)] mem room push
    by (auto simp: upd_queue_nth tq_remove_contents)
qed (use assms queues_ok_len [OF assms(1)] in simp_all)

lemmas queues_ok_intros = queues_ok_keep queues_ok_enqueue queues_ok_dequeue queues_ok_move

section \<open>Operations keep the invariant\<close>

lemma sched_new_ok: "queues_ok sched_new"
  by (auto simp: queues_ok_def queue_ok_def prios_ok_def sched_new_def ready_set_def)

lemma queues_ok_cong:
  "sc_tasks s' = sc_tasks s \<Longrightarrow> sc_queues s' = sc_queues s \<Longrightarrow> queues_ok s' = queues_ok s"
  by (simp add: queues_ok_def)

lemma task_at_cong: "sc_tasks s' = sc_tasks s \<Longrightarrow> task_at s' = task_at s"
  by (simp add: task_at_def fun_eq_iff)

lemma find_free_slot_spec:
  assumes "queues_ok s" "find_free_slot s = Some slot"
  shows "slot < MAX_TASKS" "task_at s slot = None" "\<not> is_ready s slot"
  using assms queues_ok_len [OF assms(1)] by (auto simp: find_free_slot_def position_Some task_at_def is_ready_def)

lemma sched_spawn_ok:
  assumes "queues_ok s" "sched_spawn hhdm tr cr3 entry name prio (s, p) = (r, s', p')"
  shows "queues_ok s'" "sc_current s' = sc_current s" "sc_boost_countdown s' = sc_boost_countdown s"
    "\<And>slot t. task_at s slot = Some t \<Longrightarrow> task_at s' slot = Some t"
    "\<And>slot t. task_at s' slot = Some t \<Longrightarrow> task_at s slot = Some t \<or> t_state t = Ready"
proof -
  have "queues_ok s' \<and> sc_current s' = sc_current s \<and> sc_boost_countdown s' = sc_boost_countdown s
      \<and> (\<forall>slot t. task_at s slot = Some t \<longrightarrow> task_at s' slot = Some t)
      \<and> (\<forall>slot t. task_at s' slot = Some t \<longrightarrow> task_at s slot = Some t \<or> t_state t = Ready)"
  proof (cases "find_free_slot s")
    case None
    then show ?thesis
      using assms by (simp add: sched_spawn_def)
  next
    case (Some slot)
    note free = find_free_slot_spec [OF assms(1) Some]
    let ?s = "s\<lparr>sc_next_id := sc_next_id s + 1\<rparr>" and ?prio = "min prio (PRIORITY_LEVELS - 1)"
    have ok: "queues_ok ?s" and at: "task_at ?s = task_at s"
      using assms(1) by (simp_all add: queues_ok_def task_at_def fun_eq_iff)
    show ?thesis
    proof (cases "task_new hhdm tr (sc_next_id s) entry name ?prio (cr3 AND NOT 0xFFF) p :: 'a Task option \<times> Pmm")
      case (Pair res p2)
      show ?thesis
      proof (cases res)
        case None
        then show ?thesis
          using assms(2) ok at Some Pair by (auto simp: sched_spawn_def Let_def)
      next
        case (Some t)
        have t: "t_state t = Ready" "t_priority t = ?prio"
          using task_new_fresh [OF Pair [unfolded Some]] by (simp_all add: fresh_task_def)
        have s': "s' = upd_queue ?prio (\<lambda>q. tq_push_back q slot) (set_task slot t ?s)"
          using assms(2) \<open>find_free_slot s = Some slot\<close> Pair Some by (simp add: sched_spawn_def Let_def)
        have "queues_ok s'"
          unfolding s' using free t at
          by (intro queues_ok_enqueue [OF ok]) (simp_all add: is_ready_def PRIORITY_LEVELS_def)
        then show ?thesis
          using free(2) t at by (auto simp: s' task_at_set_task)
      qed
    qed
  qed
  then show "queues_ok s'" "sc_current s' = sc_current s" "sc_boost_countdown s' = sc_boost_countdown s"
    "\<And>slot t. task_at s slot = Some t \<Longrightarrow> task_at s' slot = Some t"
    "\<And>slot t. task_at s' slot = Some t \<Longrightarrow> task_at s slot = Some t \<or> t_state t = Ready"
    by blast+
qed

lemma kill_ok:
  assumes "queues_ok s" "kill slot s = Some s'"
  shows "queues_ok s'" "sc_current s' = sc_current s" "sc_boost_countdown s' = sc_boost_countdown s"
    "task_at s' k = (if k = slot then map_option (\<lambda>t. t\<lparr>t_state := Dead\<rparr>) (task_at s k) else task_at s k)"
proof -
  have s': "s' = (case task_at s slot of None \<Rightarrow> s
      | Some t \<Rightarrow> upd_queue (t_priority t) (\<lambda>q. tq_remove q slot) (set_task slot (t\<lparr>t_state := Dead\<rparr>) s))"
    using assms(2) by (simp add: kill_def split: if_splits)
  show "queues_ok s'"
    using assms(1) queues_ok_prio [OF assms(1)]
    by (auto simp: s' split: option.splits intro!: queues_ok_dequeue)
  show "sc_current s' = sc_current s" "sc_boost_countdown s' = sc_boost_countdown s"
    by (simp_all add: s' split: option.splits)
  show "task_at s' k = (if k = slot then map_option (\<lambda>t. t\<lparr>t_state := Dead\<rparr>) (task_at s k) else task_at s k)"
    using task_at_bound [of s slot] by (auto simp: s' task_at_set_task split: option.splits)
qed

definition same_states :: "'f Scheduler \<Rightarrow> 'f Scheduler \<Rightarrow> bool" where
  "same_states s s' \<longleftrightarrow> (\<forall>k. map_option t_state (task_at s' k) = map_option t_state (task_at s k))
     \<and> sc_current s' = sc_current s \<and> sc_boost_countdown s' = sc_boost_countdown s"

lemma same_states_refl [simp]: "same_states s s"
  by (simp add: same_states_def)

lemma same_states_trans: "same_states s s' \<Longrightarrow> same_states s' s'' \<Longrightarrow> same_states s s''"
  by (simp add: same_states_def)

lemma same_states_set:
  "task_at s slot = Some t0 \<Longrightarrow> t_state t = t_state t0 \<Longrightarrow> same_states s (set_task slot t s)"
  using task_at_bound [of s slot t0] by (auto simp: same_states_def task_at_set_task)

lemma same_states_upd [simp]: "same_states s (upd_queue l f s') = same_states s s'"
  by (simp add: same_states_def)

lemma boost_peer_ok:
  assumes "queues_ok s" "boost_peer peer s = Some s'"
  shows "queues_ok s'" "same_states s s'"
proof -
  have "queues_ok s' \<and> same_states s s'"
  proof (cases "task_at s peer")
    case None
    then show ?thesis
      using assms by (simp add: boost_peer_def split: if_splits)
  next
    case (Some t)
    define t' where "t' = t\<lparr>t_priority := 0, t_ticks_used := 0\<rparr>"
    have t': "t_state t' = t_state t" "t_priority t' = 0"
      by (simp_all add: t'_def)
    have s': "s' = (if t_state t = Ready \<and> t_priority t \<noteq> 0
        then upd_queue 0 (\<lambda>q. tq_push_front q peer) (upd_queue (t_priority t) (\<lambda>q. tq_remove q peer) (set_task peer t' s))
        else set_task peer t' s)"
      using assms(2) Some by (auto simp: boost_peer_def t'_def Let_def split: if_splits)
    have "queues_ok s'"
      using queues_ok_move [OF assms(1) Some, of t' 0 tq_push_front] queues_ok_keep [OF assms(1) Some, of t'] t'
      by (auto simp: s' PRIORITY_LEVELS_def)
    then show ?thesis
      using same_states_set [OF Some, of t'] t' by (simp add: s')
  qed
  then show "queues_ok s'" "same_states s s'" by simp_all
qed

lemma boost_for_reason_ok:
  assumes "queues_ok s" "\<not> is_ready s slot" "boost_for_reason slot reason s = Some s'"
  shows "queues_ok s'" "same_states s s'"
proof -
  have lower: "queues_ok (set_task slot t' s1) \<and> same_states s1 (set_task slot t' s1)"
    if "queues_ok s1" "task_at s1 slot = Some t" "t_state t \<noteq> Ready" "t_state t' = t_state t" "t_priority t' < PRIORITY_LEVELS"
    for s1 and t t' :: "'a Task"
    using queues_ok_keep [OF that(1,2,5)] same_states_set [OF that(2,4)] that(3,4) by simp
  have "queues_ok s' \<and> same_states s s'"
  proof (cases reason)
    case (SpscRingEmpty peer)
    obtain s1 where s1: "boost_peer peer s = Some s1" "slot < MAX_TASKS"
      "s' = (case task_at s1 slot of None \<Rightarrow> s1 | Some t \<Rightarrow> set_task slot (t\<lparr>t_priority := 0, t_ticks_used := 0\<rparr>) s1)"
      using assms(3) SpscRingEmpty by (auto simp: boost_for_reason_def split: option.splits if_splits)
    note ok = boost_peer_ok [OF assms(1) s1(1)]
    have "map_option t_state (task_at s1 slot) = map_option t_state (task_at s slot)"
      using ok(2) by (simp add: same_states_def)
    then have nr: "t_state t \<noteq> Ready" if "task_at s1 slot = Some t" for t
      using assms(2) that by (auto simp: is_ready_def split: option.splits)
    show ?thesis
      using ok lower [OF ok(1) _ nr] same_states_trans [OF ok(2)]
      by (auto simp: s1(3) PRIORITY_LEVELS_def split: option.splits)
  next
    case (SpscRingFull peer)
    then show ?thesis
      using boost_peer_ok [OF assms(1)] assms(3) by (simp add: boost_for_reason_def)
  next
    case FileRead
    then show ?thesis
      using assms lower [OF assms(1)] queues_ok_prio [OF assms(1), of slot]
      by (auto simp: boost_for_reason_def is_ready_def Let_def split: option.splits if_splits)
  next
    case MutexContention
    then show ?thesis
      using assms lower [OF assms(1)] queues_ok_prio [OF assms(1), of slot]
      by (auto simp: boost_for_reason_def is_ready_def Let_def split: option.splits if_splits)
  qed (use assms in \<open>auto simp: boost_for_reason_def\<close>)
  then show "queues_ok s'" "same_states s s'" by simp_all
qed

lemma demote_current_ok:
  assumes "queues_ok s" "\<not> is_ready s (sc_current s)"
  shows "queues_ok (demote_current s)" "same_states s (demote_current s)"
proof -
  have "queues_ok (demote_current s) \<and> same_states s (demote_current s)"
  proof (cases "task_at s (sc_current s)")
    case None
    then show ?thesis
      using assms by (simp add: demote_current_def)
  next
    case (Some t)
    define t' where "t' = t\<lparr>t_ticks_used := 0,
        t_priority := (if t_priority t < PRIORITY_LEVELS - 1 then t_priority t + 1 else t_priority t)\<rparr>"
    have d: "demote_current s = set_task (sc_current s) t' s"
      using Some by (simp add: demote_current_def t'_def)
    have "t_state t \<noteq> Ready" "t_priority t' < PRIORITY_LEVELS" "t_state t' = t_state t"
      using assms(2) Some queues_ok_prio [OF assms(1) Some] by (auto simp: is_ready_def t'_def)
    then show ?thesis
      unfolding d using queues_ok_keep [OF assms(1) Some, of t'] same_states_set [OF Some, of t'] by simp
  qed
  then show "queues_ok (demote_current s)" "same_states s (demote_current s)" by simp_all
qed

section \<open>Picking\<close>

lemma pick_level_all_ready:
  assumes "tq_wf q" "\<forall>x \<in> set (tq_contents q). ready x"
  shows "pick_level ready q = tq_pop_front q"
proof (cases "tq_contents q")
  case Nil
  then show ?thesis
    using tq_pop_None [OF assms(1) Nil] by (auto simp: pick_level.simps)
next
  case (Cons x xs)
  then show ?thesis
    using tq_pop_Some [OF assms(1) Cons] assms(2) by (auto simp: pick_level.simps)
qed

text \<open>Replacing a queue by one with the same contents.\<close>

lemma pick_levels_spec:
  assumes "queues_ok s" "\<forall>l \<in> set levels. l < PRIORITY_LEVELS" "pick_levels levels s = (slot, s')"
  shows "sc_tasks s' = sc_tasks s \<and> sc_current s' = sc_current s \<and> sc_boost_countdown s' = sc_boost_countdown s
    \<and> length (sc_queues s') = PRIORITY_LEVELS \<and> (\<forall>l < PRIORITY_LEVELS. tq_wf (sc_queues s' ! l))
    \<and> (if \<forall>l \<in> set levels. run_queue s l = []
       then slot = NO_TASK \<and> (\<forall>l < PRIORITY_LEVELS. run_queue s' l = run_queue s l)
       else \<exists>pre l post. levels = pre @ l # post \<and> (\<forall>k \<in> set pre. run_queue s k = [])
          \<and> run_queue s l = slot # run_queue s' l \<and> (\<forall>k < PRIORITY_LEVELS. k \<noteq> l \<longrightarrow> run_queue s' k = run_queue s k))"
  using assms
proof (induction levels arbitrary: s)
  case Nil
  then show ?case
    by (auto simp: queues_ok_def queue_ok_def)
next
  case (Cons l levels)
  have l: "l < PRIORITY_LEVELS"
    using Cons.prems(2) by simp
  note lev = queues_ok_level [OF Cons.prems(1) l]
  have pick: "pick_level (is_ready s) (sc_queues s ! l) = tq_pop_front (sc_queues s ! l)"
    by (rule pick_level_all_ready [OF lev(1)]) (use lev(3) in \<open>auto simp: is_ready_mem\<close>)
  have len: "length (sc_queues s) = PRIORITY_LEVELS"
    using queues_ok_len [OF Cons.prems(1)] by simp
  show ?case
  proof (cases "run_queue s l")
    case Nil
    obtain q where q: "tq_pop_front (sc_queues s ! l) = (None, q)" "tq_wf q" "tq_contents q = []"
      using tq_pop_None [OF lev(1) Nil] by blast
    define s1 where "s1 = upd_queue l (\<lambda>_. q) s"
    have same: "run_queue s1 k = run_queue s k" if "k < PRIORITY_LEVELS" for k
      using that Nil q(3) len by (auto simp: s1_def upd_queue_nth)
    have wf1: "tq_wf (sc_queues s1 ! k)" if "k < PRIORITY_LEVELS" for k
      using that q(2) len queues_ok_level(1) [OF Cons.prems(1) that] by (simp add: s1_def upd_queue_nth)
    have ok1: "queues_ok s1"
      using Cons.prems(1) same wf1 by (simp add: queues_ok_def queue_ok_def s1_def)
    have lv: "\<forall>k \<in> set levels. k < PRIORITY_LEVELS"
      using Cons.prems(2) by simp
    have "pick_levels levels s1 = (slot, s')"
      using Cons.prems(3) pick q(1) by (simp add: s1_def)
    note IH = Cons.IH [OF ok1 lv this]
    have eq: "run_queue s1 k = run_queue s k" if "k \<in> set levels" for k
      using same Cons.prems(2) that by simp
    show ?thesis
    proof (cases "\<forall>k \<in> set levels. run_queue s k = []")
      case True
      then show ?thesis
        using IH Nil eq same by (simp add: s1_def)
    next
      case False
      then have f1: "\<not> (\<forall>k \<in> set levels. run_queue s1 k = [])"
        using eq by simp
      obtain pre j post where *: "levels = pre @ j # post" "\<forall>k \<in> set pre. run_queue s1 k = []"
        "run_queue s1 j = slot # run_queue s' j" "\<forall>k < PRIORITY_LEVELS. k \<noteq> j \<longrightarrow> run_queue s' k = run_queue s1 k"
        using IH unfolding if_not_P [OF f1] by blast
      have "\<forall>k \<in> set (l # pre). run_queue s k = []" "run_queue s j = slot # run_queue s' j"
        "\<forall>k < PRIORITY_LEVELS. k \<noteq> j \<longrightarrow> run_queue s' k = run_queue s k" "l # levels = (l # pre) @ j # post"
        using Nil eq same * by simp_all
      then have found: "\<exists>pre l' post. l # levels = pre @ l' # post \<and> (\<forall>k \<in> set pre. run_queue s k = [])
          \<and> run_queue s l' = slot # run_queue s' l' \<and> (\<forall>k < PRIORITY_LEVELS. k \<noteq> l' \<longrightarrow> run_queue s' k = run_queue s k)"
        by blast
      have nf: "\<not> (\<forall>k \<in> set (l # levels). run_queue s k = [])"
        using False by simp
      have frame: "sc_tasks s1 = sc_tasks s" "sc_current s1 = sc_current s" "sc_boost_countdown s1 = sc_boost_countdown s"
        by (simp_all add: s1_def)
      show ?thesis
        using IH found unfolding if_not_P [OF nf] frame by blast
    qed
  next
    case (Cons x xs)
    obtain q where q: "tq_pop_front (sc_queues s ! l) = (Some x, q)" "tq_wf q" "tq_contents q = xs"
      using tq_pop_Some [OF lev(1) Cons] by blast
    have s': "slot = x" "s' = upd_queue l (\<lambda>_. q) s"
      using Cons.prems(3) pick q(1) by auto
    have "run_queue s l = slot # run_queue s' l" "\<forall>k < PRIORITY_LEVELS. k \<noteq> l \<longrightarrow> run_queue s' k = run_queue s k"
      using Cons q(3) l len s' by (simp_all add: upd_queue_nth)
    then have found: "\<exists>pre l' post. l # levels = pre @ l' # post \<and> (\<forall>k \<in> set pre. run_queue s k = [])
        \<and> run_queue s l' = slot # run_queue s' l' \<and> (\<forall>k < PRIORITY_LEVELS. k \<noteq> l' \<longrightarrow> run_queue s' k = run_queue s k)"
      by (intro exI [of _ "[]"] exI [of _ l] exI [of _ levels]) simp
    have nf: "\<not> (\<forall>k \<in> set (l # levels). run_queue s k = [])"
      using Cons by simp
    have "\<forall>k < PRIORITY_LEVELS. tq_wf (sc_queues s' ! k)"
      using s' len q(2) queues_ok_level(1) [OF Cons.prems(1)] by (simp add: upd_queue_nth)
    moreover have "sc_tasks s' = sc_tasks s" "sc_current s' = sc_current s" "sc_boost_countdown s' = sc_boost_countdown s"
      "length (sc_queues s') = PRIORITY_LEVELS"
      using s'(2) len by simp_all
    ultimately show ?thesis
      using found unfolding if_not_P [OF nf] by blast
  qed
qed

text \<open>\<open>pick_next\<close> takes the head of the first non-empty level.\<close>

lemma pick_next_spec:
  assumes "queues_ok s" "pick_next s = (slot, s')"
  shows "sc_tasks s' = sc_tasks s" "sc_current s' = sc_current s" "sc_boost_countdown s' = sc_boost_countdown s"
    "length (sc_queues s') = PRIORITY_LEVELS" "l < PRIORITY_LEVELS \<Longrightarrow> tq_wf (sc_queues s' ! l)"
    "\<forall>l < PRIORITY_LEVELS. run_queue s l = [] \<Longrightarrow> slot = NO_TASK \<and> (\<forall>l < PRIORITY_LEVELS. run_queue s' l = run_queue s l)"
    "\<not> (\<forall>l < PRIORITY_LEVELS. run_queue s l = []) \<Longrightarrow> \<exists>l < PRIORITY_LEVELS. (\<forall>k < l. run_queue s k = [])
       \<and> run_queue s l = slot # run_queue s' l \<and> (\<forall>k < PRIORITY_LEVELS. k \<noteq> l \<longrightarrow> run_queue s' k = run_queue s k)"
proof -
  have "\<forall>l \<in> set [0..<PRIORITY_LEVELS]. l < PRIORITY_LEVELS"
    by simp
  note spec = pick_levels_spec [OF assms(1) this assms(2) [unfolded pick_next_def]]
  then show "sc_tasks s' = sc_tasks s" "sc_current s' = sc_current s" "sc_boost_countdown s' = sc_boost_countdown s"
    "length (sc_queues s') = PRIORITY_LEVELS" "l < PRIORITY_LEVELS \<Longrightarrow> tq_wf (sc_queues s' ! l)"
    by blast+
  have range: "(\<forall>l \<in> set [0..<PRIORITY_LEVELS]. run_queue s l = []) = (\<forall>l < PRIORITY_LEVELS. run_queue s l = [])"
    by auto
  show "slot = NO_TASK \<and> (\<forall>l < PRIORITY_LEVELS. run_queue s' l = run_queue s l)" if "\<forall>l < PRIORITY_LEVELS. run_queue s l = []"
    using spec that unfolding range if_P [OF that] by blast
  assume some: "\<not> (\<forall>l < PRIORITY_LEVELS. run_queue s l = [])"
  obtain pre l post where *: "[0..<PRIORITY_LEVELS] = pre @ l # post" "\<forall>k \<in> set pre. run_queue s k = []"
    "run_queue s l = slot # run_queue s' l" "\<forall>k < PRIORITY_LEVELS. k \<noteq> l \<longrightarrow> run_queue s' k = run_queue s k"
    using spec unfolding range if_not_P [OF some] by blast
  have "l = length pre" "l < PRIORITY_LEVELS"
    using arg_cong [OF *(1), of "\<lambda>xs. xs ! length pre"] arg_cong [OF *(1), of length] by (simp_all add: nth_append)
  moreover have "pre = [0..<l]"
    using *(1) calculation by (metis append_eq_conv_conj take_upt add_0 less_imp_le_nat)
  ultimately show "\<exists>l < PRIORITY_LEVELS. (\<forall>k < l. run_queue s k = [])
       \<and> run_queue s l = slot # run_queue s' l \<and> (\<forall>k < PRIORITY_LEVELS. k \<noteq> l \<longrightarrow> run_queue s' k = run_queue s k)"
    using *(2-4) by (intro exI [of _ l]) simp
qed

section \<open>The anti-starvation boost\<close>

abbreviation boosted :: "'f Task \<Rightarrow> 'f Task" where
  "boosted t \<equiv> t\<lparr>t_priority := 0, t_ticks_used := 0\<rparr>"

lemma drain_queue_spec:
  "tq_wf q \<Longrightarrow> tq_wf (snd st) \<Longrightarrow> tq_len (snd st) + tq_len q \<le> MAX_TASKS \<Longrightarrow>
   set (tq_contents q) \<subseteq> {..<length (fst st)} \<Longrightarrow> drain_queue q st = (q', tasks', q0') \<Longrightarrow>
     tq_wf q' \<and> tq_contents q' = [] \<and> tq_wf q0' \<and> tq_contents q0' = tq_contents (snd st) @ tq_contents q
     \<and> length tasks' = length (fst st)
     \<and> (\<forall>k < length (fst st). tasks' ! k = (if k \<in> set (tq_contents q) then map_option boosted (fst st ! k) else fst st ! k))"
proof (induction "tq_contents q" arbitrary: q st)
  case Nil
  obtain q1 where q1: "tq_pop_front q = (None, q1)" "tq_wf q1" "tq_contents q1 = []"
    using tq_pop_None [OF Nil.prems(1)] Nil.hyps by auto
  then have "drain_queue q st = (q1, st)"
    by (subst drain_queue.simps) simp
  then have "q' = q1" "st = (tasks', q0')"
    using Nil.prems(5) by auto
  then show ?case
    using Nil.hyps [symmetric] Nil.prems(2) q1(2,3) by simp
next
  case (Cons x xs)
  obtain q1 where q1: "tq_pop_front q = (Some x, q1)" "tq_wf q1" "tq_contents q1 = xs"
    using tq_pop_Some [OF Cons.prems(1) Cons.hyps(2) [symmetric]] by blast
  have step: "drain_queue q1 (boost_slot st x) = (q', tasks', q0')"
    using Cons.prems(5) q1(1) by (subst (asm) drain_queue.simps) simp
  have len: "tq_len q = Suc (tq_len q1)"
    using Cons.hyps(2) q1(3) by (metis length_Cons tq_length)
  have room: "tq_len (snd st) < MAX_TASKS"
    using Cons.prems(3) len by linarith
  have push: "tq_contents (snd (boost_slot st x)) = tq_contents (snd st) @ [x]" "tq_wf (snd (boost_slot st x))"
    using Cons.prems(2) room by (simp_all add: boost_slot_def tq_push_back_contents)
  then have len0: "tq_len (snd (boost_slot st x)) = Suc (tq_len (snd st))"
    by (metis length_append_singleton tq_length)
  have cont: "tq_contents q = x # xs"
    using Cons.hyps(2) by simp
  have x: "x < length (fst st)" "set xs \<subseteq> {..<length (fst (boost_slot st x))}"
    using Cons.prems(4) cont by (auto simp: boost_slot_def)
  have "tq_wf q' \<and> tq_contents q' = [] \<and> tq_wf q0' \<and> tq_contents q0' = tq_contents (snd (boost_slot st x)) @ tq_contents q1
     \<and> length tasks' = length (fst (boost_slot st x))
     \<and> (\<forall>k < length (fst (boost_slot st x)). tasks' ! k =
          (if k \<in> set (tq_contents q1) then map_option boosted (fst (boost_slot st x) ! k) else fst (boost_slot st x) ! k))"
    using Cons.hyps(1) [OF q1(3) [symmetric] q1(2) push(2) _ _ step] Cons.prems(3) len len0 q1(3) x(2) by simp
  moreover have "fst (boost_slot st x) = (fst st)[x := map_option boosted (fst st ! x)]"
    by (simp add: boost_slot_def)
  ultimately show ?case
    using push(1) q1(3) cont x(1) by (auto simp: nth_list_update option.map_comp comp_def)
qed

lemma two_queues_fit:
  assumes "queues_ok s" "l < PRIORITY_LEVELS" "l \<noteq> 0"
  shows "tq_len (sc_queues s ! 0) + tq_len (sc_queues s ! l) \<le> MAX_TASKS"
proof -
  have 0: "0 < PRIORITY_LEVELS" by (simp add: PRIORITY_LEVELS_def)
  let ?all = "run_queue s 0 @ run_queue s l"
  have "set (run_queue s 0) \<inter> set (run_queue s l) = {}"
    unfolding queues_ok_level(3) [OF assms(1) 0] queues_ok_level(3) [OF assms(1,2)]
    using assms(3) by (auto simp: ready_set_def)
  then have "distinct ?all"
    using queues_ok_level(2) [OF assms(1)] 0 assms(2) by simp
  moreover have "set ?all \<subseteq> {..<MAX_TASKS}"
    using queues_ok_level(3) [OF assms(1)] 0 assms(2) queues_ok_len [OF assms(1)] by (auto simp: ready_set_def)
  ultimately have "length ?all \<le> MAX_TASKS"
    by (metis card_lessThan card_mono distinct_card finite_lessThan)
  then show ?thesis by simp
qed

lemma boost_level_spec:
  assumes ok: "queues_ok s" and l: "l < PRIORITY_LEVELS" "l \<noteq> 0"
  shows "queues_ok (boost_level l s)" "same_states s (boost_level l s)"
    "run_queue (boost_level l s) 0 = run_queue s 0 @ run_queue s l" "run_queue (boost_level l s) l = []"
    "k < PRIORITY_LEVELS \<Longrightarrow> k \<noteq> 0 \<Longrightarrow> k \<noteq> l \<Longrightarrow> run_queue (boost_level l s) k = run_queue s k"
proof -
  have 0: "0 < PRIORITY_LEVELS" by (simp add: PRIORITY_LEVELS_def)
  note len = queues_ok_len [OF ok]
  note lev = queues_ok_level [OF ok l(1)]
  note lev0 = queues_ok_level [OF ok 0]
  obtain q tasks q0 where d: "drain_queue (sc_queues s ! l) (sc_tasks s, sc_queues s ! 0) = (q, tasks, q0)"
    by (metis prod_cases3)
  have sub: "set (run_queue s l) \<subseteq> {..<length (sc_tasks s)}"
    using lev(3) by (auto simp: ready_set_def)
  have dr: "tq_wf q" "tq_contents q = []" "tq_wf q0" "tq_contents q0 = run_queue s 0 @ run_queue s l"
    "length tasks = length (sc_tasks s)"
    "\<And>k. k < length (sc_tasks s) \<Longrightarrow> tasks ! k = (if k \<in> ready_set (sc_tasks s) l then map_option boosted (sc_tasks s ! k) else sc_tasks s ! k)"
    using drain_queue_spec [OF lev(1) _ _ _ d] lev0(1) sub two_queues_fit [OF ok l] lev(3) by auto
  let ?s = "boost_level l s"
  have s': "sc_tasks ?s = tasks" "sc_queues ?s = (sc_queues s)[l := q, 0 := q0]" "sc_current ?s = sc_current s"
    "sc_boost_countdown ?s = sc_boost_countdown s"
    by (simp_all add: boost_level_def d)
  have nth: "sc_queues ?s ! k = (if k = 0 then q0 else if k = l then q else sc_queues s ! k)" if "k < PRIORITY_LEVELS" for k
    using that l len(2) by (simp add: s' nth_list_update)
  show "run_queue ?s 0 = run_queue s 0 @ run_queue s l" "run_queue ?s l = []"
    "k < PRIORITY_LEVELS \<Longrightarrow> k \<noteq> 0 \<Longrightarrow> k \<noteq> l \<Longrightarrow> run_queue ?s k = run_queue s k"
    using nth dr(2,4) l 0 by simp_all
  have rs: "ready_set tasks k = (if k = 0 then ready_set (sc_tasks s) 0 \<union> ready_set (sc_tasks s) l
      else if k = l then {} else ready_set (sc_tasks s) k)" for k
    using dr(5,6) l(2) by (auto simp: ready_set_def split: if_splits)
  have "prios_ok tasks"
    unfolding prios_ok_def
  proof (intro allI impI)
    fix t
    assume "Some t \<in> set tasks"
    then obtain k where k: "k < length (sc_tasks s)" "tasks ! k = Some t"
      by (metis dr(5) in_set_conv_nth)
    show "t_priority t < PRIORITY_LEVELS"
      using k dr(6) [OF k(1)] prios_ok_nth [of "sc_tasks s" k] ok 0 by (auto simp: queues_ok_def split: if_splits)
  qed
  moreover have "queue_ok tasks k (sc_queues ?s ! k)" if k: "k < PRIORITY_LEVELS" for k
  proof -
    have "set (run_queue s 0) \<inter> set (run_queue s l) = {}"
      unfolding lev0(3) lev(3) using l(2) by (auto simp: ready_set_def)
    then show ?thesis
      using queues_ok_level [OF ok k] dr(1-4) lev lev0 by (auto simp: queue_ok_def nth [OF k] rs)
  qed
  ultimately show "queues_ok ?s"
    using len dr(5) by (simp add: queues_ok_def s')
  show "same_states s ?s"
    using dr(5,6) by (auto simp: same_states_def s' task_at_def option.map_comp comp_def)
qed

lemma fold_boost_spec:
  assumes "queues_ok s" "distinct ls" "0 \<notin> set ls" "set ls \<subseteq> {..<PRIORITY_LEVELS}"
  shows "queues_ok (fold boost_level ls s) \<and> same_states s (fold boost_level ls s)
    \<and> run_queue (fold boost_level ls s) 0 = run_queue s 0 @ concat (map (run_queue s) ls)
    \<and> (\<forall>k \<in> set ls. run_queue (fold boost_level ls s) k = [])"
  using assms
proof (induction ls arbitrary: s)
  case (Cons l ls)
  have l: "l < PRIORITY_LEVELS" "l \<noteq> 0"
    using Cons.prems by auto
  note b = boost_level_spec [OF Cons.prems(1) l]
  have same: "run_queue (boost_level l s) k = run_queue s k" if "k \<in> set ls" for k
    using b(5) that Cons.prems by auto
  then have cc: "concat (map (run_queue (boost_level l s)) ls) = concat (map (run_queue s) ls)"
    by (metis (no_types, lifting) map_eq_conv)
  have IH: "queues_ok (fold boost_level ls (boost_level l s)) \<and> same_states (boost_level l s) (fold boost_level ls (boost_level l s))
    \<and> run_queue (fold boost_level ls (boost_level l s)) 0 = run_queue (boost_level l s) 0 @ concat (map (run_queue (boost_level l s)) ls)
    \<and> (\<forall>k \<in> set ls. run_queue (fold boost_level ls (boost_level l s)) k = [])"
    using Cons.IH [OF b(1)] Cons.prems by simp
  have "run_queue (fold boost_level ls t) l = run_queue t l" if "queues_ok t" for t :: "'a Scheduler"
    using that Cons.prems l
  proof (induction ls arbitrary: t)
    case (Cons j js)
    then show ?case
      using boost_level_spec [of t j] by auto
  qed simp
  then have "run_queue (fold boost_level ls (boost_level l s)) l = []"
    using b(1,4) by simp
  then show ?case
    using IH b(2,3) cc same_states_trans by auto
qed simp

lemma boost_all_spec:
  assumes "queues_ok s"
  shows "queues_ok (boost_all s)" "same_states s (boost_all s)"
    "run_queue (boost_all s) 0 = concat (map (run_queue s) [0..<PRIORITY_LEVELS])"
    "0 < k \<Longrightarrow> k < PRIORITY_LEVELS \<Longrightarrow> run_queue (boost_all s) k = []"
proof -
  have r: "[0..<PRIORITY_LEVELS] = 0 # [1..<PRIORITY_LEVELS]"
    by (simp add: PRIORITY_LEVELS_def upt_conv_Cons)
  have sub: "{Suc 0..<PRIORITY_LEVELS} \<subseteq> {..<PRIORITY_LEVELS}"
    by auto
  show "queues_ok (boost_all s)" "same_states s (boost_all s)"
    "run_queue (boost_all s) 0 = concat (map (run_queue s) [0..<PRIORITY_LEVELS])"
    "0 < k \<Longrightarrow> k < PRIORITY_LEVELS \<Longrightarrow> run_queue (boost_all s) k = []"
    using fold_boost_spec [OF assms, of "[1..<PRIORITY_LEVELS]"] sub unfolding boost_all_def r by auto
qed

section \<open>Ticks\<close>

definition states :: "'f Scheduler \<Rightarrow> nat \<Rightarrow> TaskState option" where
  "states s k = map_option t_state (task_at s k)"

lemma same_states_states: "same_states s s' \<Longrightarrow> states s' = states s"
  by (simp add: same_states_def states_def fun_eq_iff)

lemma is_ready_states: "is_ready s k \<longleftrightarrow> states s k = Some Ready"
  by (auto simp: is_ready_def states_def split: option.splits)

lemma states_cong: "sc_tasks s' = sc_tasks s \<Longrightarrow> states s' = states s"
  by (simp add: states_def task_at_def fun_eq_iff)

text \<open>The part of a tick before the quantum of the current task is looked at.\<close>

definition tick_boost :: "'f Scheduler \<Rightarrow> 'f Scheduler" where
  "tick_boost s0 =
     (let s = s0\<lparr>sc_tick_count := sc_tick_count s0 + 1, sc_boost_countdown := sc_boost_countdown s0 - 1\<rparr>
      in if sc_boost_countdown s = 0 then (boost_all s)\<lparr>sc_boost_countdown := BOOST_INTERVAL\<rparr> else s)"

lemma tick_boost_ok:
  assumes "queues_ok s" "0 < sc_boost_countdown s" "sc_boost_countdown s \<le> BOOST_INTERVAL"
  shows "queues_ok (tick_boost s)" "states (tick_boost s) = states s" "sc_current (tick_boost s) = sc_current s"
    "sc_boost_countdown (tick_boost s) = (if sc_boost_countdown s = 1 then BOOST_INTERVAL else sc_boost_countdown s - 1)"
    "sc_boost_countdown s \<noteq> 1 \<Longrightarrow> sc_queues (tick_boost s) = sc_queues s \<and> sc_tasks (tick_boost s) = sc_tasks s"
    "sc_boost_countdown s = 1 \<Longrightarrow> run_queue (tick_boost s) 0 = concat (map (run_queue s) [0..<PRIORITY_LEVELS])"
    "sc_boost_countdown s = 1 \<Longrightarrow> 0 < l \<Longrightarrow> l < PRIORITY_LEVELS \<Longrightarrow> run_queue (tick_boost s) l = []"
proof -
  define s0 where "s0 = s\<lparr>sc_tick_count := sc_tick_count s + 1, sc_boost_countdown := sc_boost_countdown s - 1\<rparr>"
  define s1 where "s1 = (boost_all s0)\<lparr>sc_boost_countdown := BOOST_INTERVAL\<rparr>"
  have s0: "sc_tasks s0 = sc_tasks s" "sc_queues s0 = sc_queues s" "sc_current s0 = sc_current s"
    "sc_boost_countdown s0 = sc_boost_countdown s - 1"
    by (simp_all add: s0_def)
  have eq: "tick_boost s = (if sc_boost_countdown s = 1 then s1 else s0)"
    using assms(2) by (auto simp: tick_boost_def Let_def s1_def s0_def)
  have ok: "queues_ok s0" "states s0 = states s"
    using assms(1) queues_ok_cong [OF s0(1,2)] states_cong [OF s0(1)] by simp_all
  note b = boost_all_spec [OF ok(1)]
  have s1: "sc_tasks s1 = sc_tasks (boost_all s0)" "sc_queues s1 = sc_queues (boost_all s0)"
    "sc_current s1 = sc_current s" "sc_boost_countdown s1 = BOOST_INTERVAL"
    using b(2) s0(3) by (simp_all add: s1_def same_states_def)
  have ok1: "queues_ok s1" "states s1 = states s"
    using b(1) queues_ok_cong [OF s1(1,2)] states_cong [OF s1(1)] same_states_states [OF b(2)] ok(2) by simp_all
  show "queues_ok (tick_boost s)" "states (tick_boost s) = states s" "sc_current (tick_boost s) = sc_current s"
    "sc_boost_countdown (tick_boost s) = (if sc_boost_countdown s = 1 then BOOST_INTERVAL else sc_boost_countdown s - 1)"
    "sc_boost_countdown s \<noteq> 1 \<Longrightarrow> sc_queues (tick_boost s) = sc_queues s \<and> sc_tasks (tick_boost s) = sc_tasks s"
    using ok ok1 s0 s1(3,4) by (simp_all add: eq)
  show "sc_boost_countdown s = 1 \<Longrightarrow> run_queue (tick_boost s) 0 = concat (map (run_queue s) [0..<PRIORITY_LEVELS])"
    "sc_boost_countdown s = 1 \<Longrightarrow> 0 < l \<Longrightarrow> l < PRIORITY_LEVELS \<Longrightarrow> run_queue (tick_boost s) l = []"
    using b(3,4) s0(2) s1(2) by (simp_all add: eq)
qed

lemma NO_TASK_big [simp]: "\<not> NO_TASK < MAX_TASKS"
  by (simp add: NO_TASK_def MAX_TASKS_def)

lemma task_at_NO_TASK: "queues_ok s \<Longrightarrow> task_at s NO_TASK = None"
  using queues_ok_len [of s] by (simp add: task_at_def)

lemma sched_tick_eq:
  assumes "queues_ok (tick_boost s)"
  shows "sched_tick s =
    (let s1 = tick_boost s
     in case task_at s1 (sc_current s1) of
          None \<Rightarrow> (False, s1)
        | Some task \<Rightarrow>
            let s2 = set_task (sc_current s1) (task\<lparr>t_ticks_used := t_ticks_used task + 1\<rparr>) s1
            in if QUANTA ! t_priority task \<le> t_ticks_used task + 1 then (True, demote_current s2) else (False, s2))"
  using task_at_NO_TASK [OF assms]
  by (auto simp: sched_tick_def tick_boost_def Let_def split: option.splits)

lemma sched_tick_ok:
  assumes "queues_ok s" "0 < sc_boost_countdown s" "sc_boost_countdown s \<le> BOOST_INTERVAL" "\<not> is_ready s (sc_current s)"
    "sched_tick s = (b, s')"
  shows "queues_ok s'" "states s' = states s" "sc_current s' = sc_current s"
    "sc_boost_countdown s' = (if sc_boost_countdown s = 1 then BOOST_INTERVAL else sc_boost_countdown s - 1)"
    "b \<Longrightarrow> task_at s (sc_current s) \<noteq> None"
proof -
  define s1 where "s1 = tick_boost s"
  note t = tick_boost_ok [OF assms(1-3), folded s1_def]
  have nr: "\<not> is_ready s1 (sc_current s1)"
    using assms(4) t(2,3) by (simp add: is_ready_states)
  have "queues_ok s' \<and> same_states s1 s' \<and> (b \<longrightarrow> task_at s1 (sc_current s1) \<noteq> None)"
  proof (cases "task_at s1 (sc_current s1)")
    case None
    then show ?thesis
      using assms(5) t(1) by (simp add: sched_tick_eq [OF t(1) [unfolded s1_def]] flip: s1_def)
  next
    case (Some task)
    define task' where "task' = task\<lparr>t_ticks_used := t_ticks_used task + 1\<rparr>"
    define s2 where "s2 = set_task (sc_current s1) task' s1"
    have s2: "queues_ok s2" "same_states s1 s2"
      unfolding s2_def
      by (rule queues_ok_keep [OF t(1) Some] same_states_set [OF Some];
          simp add: task'_def queues_ok_prio [OF t(1) Some])+
    have "\<not> is_ready s2 (sc_current s2)"
      using nr same_states_states [OF s2(2)] by (simp add: is_ready_states s2_def)
    then have d: "queues_ok (demote_current s2)" "same_states s1 (demote_current s2)"
      using demote_current_ok [OF s2(1)] same_states_trans [OF s2(2)] by simp_all
    have "s' = demote_current s2 \<or> s' = s2"
      using assms(5) Some
      by (auto simp: sched_tick_eq [OF t(1) [unfolded s1_def]] Let_def s2_def task'_def simp flip: s1_def split: if_splits)
    then show ?thesis
      using d s2 Some by auto
  qed
  then show "queues_ok s'" "states s' = states s" "sc_current s' = sc_current s"
    "sc_boost_countdown s' = (if sc_boost_countdown s = 1 then BOOST_INTERVAL else sc_boost_countdown s - 1)"
    using same_states_states [of s1 s'] t(2-4) by (auto simp: same_states_def)
  assume b
  then have "states s1 (sc_current s1) \<noteq> None"
    using \<open>_ \<and> _ \<and> (b \<longrightarrow> _)\<close> by (simp add: states_def)
  then show "task_at s (sc_current s) \<noteq> None"
    unfolding t(2,3) by (simp add: states_def)
qed

end
