(* ===== verification/Paging.thy ===== *)
theory Paging
  imports Prelude
begin

text \<open>
  \<open>kernel/src/arch/paging.rs\<close>: page table entries as raw 64-bit words and the index fields of a
  virtual address.  The inline assembly that moves CR3 and flushes the TLB has no effect on memory.
\<close>

section \<open>Entries\<close>

definition PRESENT :: u64 where "PRESENT = push_bit 0 1"
definition WRITABLE :: u64 where "WRITABLE = push_bit 1 1"
definition USER :: u64 where "USER = push_bit 2 1"
definition HUGE_PAGE :: u64 where "HUGE_PAGE = push_bit 7 1"
definition NO_EXECUTE :: u64 where "NO_EXECUTE = push_bit 63 1"

definition pte_is_present :: "u64 \<Rightarrow> bool" where
  "pte_is_present e \<longleftrightarrow> e AND PRESENT \<noteq> 0"

definition pte_set_address :: "u64 \<Rightarrow> u64 \<Rightarrow> u64" where
  "pte_set_address addr flags =
     (let mask = 0x000FFFFFFFFFF000 in (addr AND mask) OR (flags AND NOT mask))"

definition pte_physical_address :: "u64 \<Rightarrow> u64" where
  "pte_physical_address e = e AND 0x000FFFFFFFFFF000"

definition pte_flags :: "u64 \<Rightarrow> u64" where
  "pte_flags e = e AND 0xFFF0000000000FFF"

section \<open>Virtual addresses\<close>

definition pml4_index :: "u64 \<Rightarrow> nat" where
  "pml4_index virt = unat (drop_bit 39 virt AND 0x1FF)"

definition pdpt_index :: "u64 \<Rightarrow> nat" where
  "pdpt_index virt = unat (drop_bit 30 virt AND 0x1FF)"

definition pd_index :: "u64 \<Rightarrow> nat" where
  "pd_index virt = unat (drop_bit 21 virt AND 0x1FF)"

definition pt_index :: "u64 \<Rightarrow> nat" where
  "pt_index virt = unat (drop_bit 12 virt AND 0x1FF)"

section \<open>Lemmas on entries\<close>

text \<open>The address field of an entry: bits 12 to 51.\<close>

lemma address_mask: "(0x000FFFFFFFFFF000 :: u64) = push_bit 12 (mask 40)"
  by (simp add: mask_eq_decr_exp push_bit_eq_mult)

lemma flags_mask: "(0xFFF0000000000FFF :: u64) = NOT (push_bit 12 (mask 40))"
  unfolding address_mask [symmetric] by simp

lemma bit_address_mask: "bit (push_bit 12 (mask 40) :: u64) n \<longleftrightarrow> 12 \<le> n \<and> n < 52"
  by (auto simp: bit_push_bit_iff bit_mask_iff)

lemma and_flag_iff: "w AND push_bit k 1 \<noteq> 0 \<longleftrightarrow> bit w k" if "k < 64" for w :: u64
proof -
  have "push_bit k (1 :: u64) = 2 ^ k"
    by (simp add: push_bit_eq_mult)
  then show ?thesis
    by (simp add: and_exp_eq_0_iff_not_bit)
qed

lemma pte_is_present_bit: "pte_is_present e \<longleftrightarrow> bit e 0"
  unfolding pte_is_present_def PRESENT_def by (rule and_flag_iff) simp

lemma bit_flag_consts [word_bits]:
  "bit PRESENT n \<longleftrightarrow> n = 0" "bit WRITABLE n \<longleftrightarrow> n = 1" "bit USER n \<longleftrightarrow> n = 2"
  "bit HUGE_PAGE n \<longleftrightarrow> n = 7" "bit NO_EXECUTE n \<longleftrightarrow> n = 63"
  unfolding PRESENT_def WRITABLE_def USER_def HUGE_PAGE_def NO_EXECUTE_def bit_push_bit_iff bit_1_iff
  by auto

lemma bit_pte_flags [word_bits]: "bit (pte_flags e) n \<longleftrightarrow> (n < 12 \<or> 52 \<le> n) \<and> bit e n"
  unfolding pte_flags_def flags_mask bit_and_iff bit_not_iff bit_address_mask
  by (auto simp: possible_bit_def dest: bit_imp_le_length)

lemma bit_pte_address [word_bits]: "bit (pte_physical_address e) n \<longleftrightarrow> 12 \<le> n \<and> n < 52 \<and> bit e n"
  unfolding pte_physical_address_def address_mask bit_and_iff bit_address_mask by auto

lemma bit_pte_set [word_bits]:
  "bit (pte_set_address a fl) n \<longleftrightarrow> (if 12 \<le> n \<and> n < 52 then bit a n else bit fl n)"
  unfolding pte_set_address_def Let_def address_mask bit_or_iff bit_and_iff bit_not_iff bit_address_mask
  by (auto simp: possible_bit_def dest: bit_imp_le_length)

definition pte_huge :: "u64 \<Rightarrow> bool" where
  "pte_huge e \<longleftrightarrow> pte_flags e AND HUGE_PAGE \<noteq> 0"

lemma pte_huge_bit: "pte_huge e \<longleftrightarrow> bit e 7"
  unfolding pte_huge_def HUGE_PAGE_def by (subst and_flag_iff) (simp_all add: bit_pte_flags)

lemma pte_address_set [simp]:
  "pte_physical_address (pte_set_address a fl) = pte_physical_address a"
  by (rule bit_eqI) (auto simp: word_bits)

lemma pte_address_idem [simp]: "pte_physical_address (pte_physical_address a) = pte_physical_address a"
  by (rule bit_eqI) (auto simp: word_bits)

lemma pte_flags_set [simp]: "pte_flags (pte_set_address a fl) = pte_flags fl"
  by (rule bit_eqI) (auto simp: word_bits)

lemma pte_present_set: "pte_is_present (pte_set_address a fl) \<longleftrightarrow> bit fl 0"
  by (simp add: pte_is_present_bit bit_pte_set)

lemma pte_huge_set: "pte_huge (pte_set_address a fl) \<longleftrightarrow> bit fl 7"
  by (simp add: pte_huge_bit bit_pte_set)

lemma pte_zero [simp]: "\<not> pte_is_present 0"
  by (simp add: pte_is_present_def)

lemma pte_roundtrip: "pte_set_address (pte_physical_address e) (pte_flags e) = e"
  by (rule bit_eqI) (auto simp: word_bits)

text \<open>A page-aligned address below \<open>2 ^ 52\<close> is stored without loss.\<close>

lemma pte_address_aligned:
  assumes "unat a mod 4096 = 0" "unat a < 2 ^ 52"
  shows "pte_physical_address a = a"
proof (rule bit_eqI)
  fix n
  have "unat (a AND mask 12) = 0"
    using assms(1) by (simp add: unat_and_mask)
  then have "take_bit 12 a = 0"
    by (simp add: take_bit_eq_mask unsigned_eq_0_iff)
  then have low: "\<not> bit a n" if "n < 12"
    using that by (metis bit_take_bit_iff bit_0_eq bot_apply bot_bool_def)
  have high: "\<not> bit a n" if "52 \<le> n"
  proof -
    have "take_bit 52 (unat a) = unat a"
      using assms(2) by (simp add: take_bit_nat_eq_self)
    then have "\<not> bit (unat a) n"
      using that by (metis bit_take_bit_iff not_less)
    then show ?thesis
      by (simp add: bit_unsigned_iff)
  qed
  show "bit (pte_physical_address a) n = bit a n"
    using low high by (meson bit_pte_address not_le)
qed

section \<open>Lemmas on addresses\<close>

lemma mask9: "(0x1FF :: u64) = mask 9"
  by (simp add: mask_eq_decr_exp)

lemmas index_defs = pml4_index_def pdpt_index_def pd_index_def pt_index_def

lemma index_less [simp]:
  "pml4_index v < 512" "pdpt_index v < 512" "pd_index v < 512" "pt_index v < 512"
  by (simp_all add: index_defs mask9 unat_and_mask)

text \<open>Walking a large page and walking the table it is split into give the same address: the child
  at index \<open>i\<close> of a block of \<open>2 ^ (k + 9)\<close> bytes starts \<open>i * 2 ^ k\<close> bytes into it.\<close>

definition aligned_bits :: "nat \<Rightarrow> u64 \<Rightarrow> bool" where
  "aligned_bits k b \<longleftrightarrow> (\<forall>n < k. \<not> bit b n)"

lemma split_base:
  fixes b v :: u64
  assumes "aligned_bits (k + 9) b" "i = unat (drop_bit k v AND mask 9)"
  shows "b + of_nat i * 2 ^ k = b OR push_bit k (drop_bit k v AND mask 9)"
proof -
  have "of_nat i = drop_bit k v AND mask 9"
    by (simp add: assms(2))
  then have "of_nat i * 2 ^ k = push_bit k (drop_bit k v AND mask 9)"
    by (simp only: push_bit_eq_mult)
  moreover have "b + push_bit k (drop_bit k v AND mask 9) = b OR push_bit k (drop_bit k v AND mask 9)"
    using assms(1) by (intro disjunctive_add) (auto simp: aligned_bits_def bit_simps)
  ultimately show ?thesis by simp
qed

lemma split_offset:
  fixes b v :: u64
  assumes "aligned_bits (k + 9) b" "i = unat (drop_bit k v AND mask 9)"
  shows "(b + of_nat i * 2 ^ k) + (v AND mask k) = b + (v AND mask (k + 9))"
proof -
  have "(b OR push_bit k (drop_bit k v AND mask 9)) + (v AND mask k)
      = (b OR push_bit k (drop_bit k v AND mask 9)) OR (v AND mask k)"
    using assms(1) by (intro disjunctive_add) (auto simp: aligned_bits_def bit_simps)
  also have "\<dots> = b OR (v AND mask (k + 9))"
    by (rule bit_eqI) (auto simp: bit_simps)
  also have "\<dots> = b + (v AND mask (k + 9))"
    using assms(1) by (intro disjunctive_add [symmetric]) (auto simp: aligned_bits_def bit_simps)
  finally show ?thesis
    unfolding split_base [OF assms] .
qed

lemma split_aligned:
  fixes b v :: u64
  assumes "aligned_bits (k + 9) b" "i < 512"
  shows "aligned_bits k (b + of_nat i * 2 ^ k)"
proof -
  have "\<not> bit (b + of_nat i * 2 ^ k) n" if "n < k" for n
  proof -
    have "b = push_bit k (drop_bit k b)"
    proof (rule bit_eqI)
      fix n
      have "k \<le> n" if "bit b n"
        using that assms(1) unfolding aligned_bits_def by (metis not_le trans_less_add1)
      then show "bit b n = bit (push_bit k (drop_bit k b)) n"
        by (auto simp: bit_simps dest: bit_imp_le_length)
    qed
    then have "b + of_nat i * 2 ^ k = (drop_bit k b + of_nat i) * 2 ^ k"
      by (metis distrib_right push_bit_eq_mult)
    also have "\<dots> = push_bit k (drop_bit k b + of_nat i)"
      by (simp add: push_bit_eq_mult)
    finally show ?thesis
      using that by (simp add: bit_push_bit_iff)
  qed
  then show ?thesis
    by (simp add: aligned_bits_def)
qed

lemma split_no_carry:
  fixes b :: u64
  assumes "aligned_bits (k + 9) (pte_physical_address b)" "i < 512" "12 \<le> k" "k + 9 \<le> 52"
  shows "pte_physical_address (pte_physical_address b + of_nat i * 2 ^ k) = pte_physical_address b + of_nat i * 2 ^ k"
proof -
  let ?v = "push_bit k (of_nat i) :: u64"
  have "drop_bit k ?v AND mask 9 = of_nat i"
  proof (rule bit_eqI)
    fix n
    have "bit (of_nat i :: u64) n \<Longrightarrow> n < 9"
    proof -
      assume "bit (of_nat i :: u64) n"
      then have "bit i n"
        by (simp add: bit_simps)
      moreover have "take_bit 9 i = i"
        using assms(2) by (simp add: take_bit_nat_eq_self)
      ultimately show "n < 9"
        by (metis bit_take_bit_iff)
    qed
    then show "bit (drop_bit k ?v AND mask 9) n = bit (of_nat i :: u64) n"
      using assms(3,4) by (auto simp: bit_simps)
  qed
  moreover from this have "i = unat (drop_bit k ?v AND mask 9)"
    using assms(2) by (simp add: unat_of_nat_small)
  ultimately have eq: "pte_physical_address b + of_nat i * 2 ^ k
      = pte_physical_address b OR push_bit k (drop_bit k ?v AND mask 9)"
    using split_base [OF assms(1)] by blast
  show ?thesis
    unfolding eq using assms(3,4) by (intro bit_eqI) (auto simp: bit_pte_address bit_or_iff bit_push_bit_iff bit_and_iff bit_mask_iff)
qed

end
