(* ===== verification/Vmm.thy ===== *)
theory Vmm
  imports Paging Pmm
begin

text \<open>
  \<open>kernel/src/memory/vmm.rs\<close>: the page table walker.  Physical memory is seen through the page
  tables only: \<open>vm_mem t i\<close> is the raw entry \<open>i\<close> of the table in the frame at physical address \<open>t\<close>.
  A \<open>&mut PageTable\<close> obtained from \<open>phys_to_virt\<close> is that physical address.  TLB invalidation and
  the console output have no effect on the model; the error strings are the code's own.
\<close>

section \<open>State and operations\<close>

record Vm =
  vm_mem :: "u64 \<Rightarrow> nat \<Rightarrow> u64"
  vm_pmm :: Pmm

definition KERNEL_OFFSET :: u64 where
  "KERNEL_OFFSET = 0xFFFF800000000000"

definition phys_to_virt :: "u64 \<Rightarrow> u64 \<Rightarrow> u64" where
  "phys_to_virt hhdm_offset phys = phys + hhdm_offset"

definition virt_to_phys :: "u64 \<Rightarrow> u64 \<Rightarrow> u64" where
  "virt_to_phys hhdm_offset virt = virt - hhdm_offset"

definition RECURSIVE_ENTRY :: nat where
  "RECURSIVE_ENTRY = 510"

definition ON_DEMAND :: u64 where
  "ON_DEMAND = push_bit 9 1"

definition vm_set_entry :: "u64 \<Rightarrow> nat \<Rightarrow> u64 \<Rightarrow> Vm \<Rightarrow> Vm" where
  "vm_set_entry t i e s = s\<lparr>vm_mem := (vm_mem s)(t := (vm_mem s t)(i := e))\<rparr>"

definition vm_zero_page :: "u64 \<Rightarrow> Vm \<Rightarrow> Vm" where
  "vm_zero_page t s = s\<lparr>vm_mem := (vm_mem s)(t := (\<lambda>_. 0))\<rparr>"

text \<open>\<open>write_bytes(table, 0, 4096)\<close> on a \<open>*mut PageTable\<close> counts in tables, not in bytes: it zeroes
  4096 consecutive frames.\<close>

definition vm_zero_tables :: "u64 \<Rightarrow> nat \<Rightarrow> Vm \<Rightarrow> Vm" where
  "vm_zero_tables t count s = fold (\<lambda>k. vm_zero_page (t + of_nat k * 4096)) [0..<count] s"

definition vm_alloc_page :: "string \<Rightarrow> Vm \<Rightarrow> (string + u64) \<times> Vm" where
  "vm_alloc_page err s =
     (case alloc_page (vm_pmm s) of
        (None, p) \<Rightarrow> (Inl err, s\<lparr>vm_pmm := p\<rparr>)
      | (Some a, p) \<Rightarrow> (Inr a, s\<lparr>vm_pmm := p\<rparr>))"

definition vmm_new :: "u64 \<Rightarrow> Vm \<Rightarrow> Vm" where
  "vmm_new pml4_phys s =
     vm_set_entry pml4_phys RECURSIVE_ENTRY
       (pte_set_address pml4_phys (PRESENT OR WRITABLE OR NO_EXECUTE)) s"

definition vmm_active :: "u64 \<Rightarrow> Vm \<Rightarrow> u64 \<times> Vm" where
  "vmm_active cr3 s = (let p = cr3 AND NOT 0xFFF in (p, vmm_new p s))"

text \<open>The 512 entries that \<open>split_1gib_page\<close> and \<open>split_2mib_page\<close> write into the new table.\<close>

definition vm_fill_table :: "u64 \<Rightarrow> (nat \<Rightarrow> u64) \<Rightarrow> Vm \<Rightarrow> Vm" where
  "vm_fill_table t e s = fold (\<lambda>i. vm_set_entry t i (e i)) [0..<512] s"

definition split_1gib_page :: "u64 \<Rightarrow> nat \<Rightarrow> u64 \<Rightarrow> Vm \<Rightarrow> (string + u64) \<times> Vm" where
  "split_1gib_page parent index new_flags s =
     (let entry = vm_mem s parent index;
          base_phys = pte_physical_address entry;
          huge_flags = pte_flags entry;
          child_flags = (huge_flags OR (new_flags AND (USER OR WRITABLE))) AND NOT HUGE_PAGE;
          child_huge_flags = child_flags OR HUGE_PAGE
      in try_then (vm_alloc_page ''OOM'') (\<lambda>pd_phys s.
           let s = vm_zero_tables pd_phys 4096 s;
               s = vm_fill_table pd_phys
                     (\<lambda>i. pte_set_address (base_phys + of_nat i * 0x200000) child_huge_flags) s;
               intermediate_flags = PRESENT OR WRITABLE OR (new_flags AND USER)
           in (Inr pd_phys, vm_set_entry parent index (pte_set_address pd_phys intermediate_flags) s)) s)"

definition split_2mib_page :: "u64 \<Rightarrow> nat \<Rightarrow> u64 \<Rightarrow> Vm \<Rightarrow> (string + u64) \<times> Vm" where
  "split_2mib_page parent index new_flags s =
     (let entry = vm_mem s parent index;
          base_phys = pte_physical_address entry;
          huge_flags = pte_flags entry;
          child_flags = (huge_flags OR (new_flags AND (USER OR WRITABLE))) AND NOT HUGE_PAGE
      in try_then (vm_alloc_page ''OOM'') (\<lambda>pt_phys s.
           let s = vm_zero_tables pt_phys 4096 s;
               s = vm_fill_table pt_phys
                     (\<lambda>i. pte_set_address (base_phys + of_nat i * 0x1000) child_flags) s;
               intermediate_flags = PRESENT OR WRITABLE OR (new_flags AND USER)
           in (Inr pt_phys, vm_set_entry parent index (pte_set_address pt_phys intermediate_flags) s)) s)"

definition get_or_create_table :: "u64 \<Rightarrow> nat \<Rightarrow> u64 \<Rightarrow> nat \<Rightarrow> Vm \<Rightarrow> (string + u64) \<times> Vm" where
  "get_or_create_table parent index new_flags level s =
     (let entry = vm_mem s parent index
      in if pte_is_present entry
         then let present_flags = pte_flags entry
              in if present_flags AND HUGE_PAGE \<noteq> 0
                 then (if level = 2 then split_1gib_page parent index new_flags s
                       else if level = 3 then split_2mib_page parent index new_flags s
                       else (Inl ''Unexpected huge page at PML4 level'', s))
                 else let needed_flags = new_flags AND (USER OR WRITABLE);
                          s' = (if present_flags AND needed_flags \<noteq> needed_flags
                                then vm_set_entry parent index
                                       (pte_set_address (pte_physical_address entry) (present_flags OR needed_flags)) s
                                else s)
                      in (Inr (pte_physical_address (vm_mem s' parent index)), s')
         else try_then (vm_alloc_page ''OOM'') (\<lambda>new_phys s.
                let s = vm_zero_page new_phys s;
                    intermediate_flags = PRESENT OR WRITABLE OR (new_flags AND USER)
                in (Inr new_phys, vm_set_entry parent index (pte_set_address new_phys intermediate_flags) s)) s)"

text \<open>The three levels that every mapping function walks before it writes the last entry.\<close>

definition walk_to_pt :: "u64 \<Rightarrow> u64 \<Rightarrow> u64 \<Rightarrow> Vm \<Rightarrow> (string + u64) \<times> Vm" where
  "walk_to_pt pml4 virt flags =
     try_then (get_or_create_table pml4 (pml4_index virt) flags 1) (\<lambda>pdpt.
     try_then (get_or_create_table pdpt (pdpt_index virt) flags 2) (\<lambda>pd.
     get_or_create_table pd (pd_index virt) flags 3))"

definition map_page_with_flags :: "u64 \<Rightarrow> u64 \<Rightarrow> u64 \<Rightarrow> u64 \<Rightarrow> Vm \<Rightarrow> (string + unit) \<times> Vm" where
  "map_page_with_flags pml4 virt phys flags =
     try_then (walk_to_pt pml4 virt flags) (\<lambda>pt s.
       (Inr (), vm_set_entry pt (pt_index virt) (pte_set_address phys flags) s))"

definition map_page :: "u64 \<Rightarrow> u64 \<Rightarrow> u64 \<Rightarrow> bool \<Rightarrow> Vm \<Rightarrow> (string + unit) \<times> Vm" where
  "map_page pml4 virt phys user =
     (let flags = PRESENT OR WRITABLE OR (if user then USER else 0)
      in try_then (walk_to_pt pml4 virt flags) (\<lambda>pt s.
           (Inr (), vm_set_entry pt (pt_index virt) (pte_set_address phys flags) s)))"

definition map_user_page :: "u64 \<Rightarrow> u64 \<Rightarrow> bool \<Rightarrow> Vm \<Rightarrow> (string + unit) \<times> Vm" where
  "map_user_page pml4 virt on_demand =
     (if on_demand
      then let flags = USER OR WRITABLE OR ON_DEMAND
           in try_then (walk_to_pt pml4 virt flags) (\<lambda>pt s.
                (Inr (), vm_set_entry pt (pt_index virt) (pte_set_address 0 flags) s))
      else try_then (vm_alloc_page ''OOM: cannot allocate physical page for user mapping'') (\<lambda>phys.
             map_page pml4 virt phys True))"

definition handle_fault :: "u64 \<Rightarrow> u64 \<Rightarrow> Vm \<Rightarrow> (string + unit) \<times> Vm" where
  "handle_fault pml4 virt s =
     (let pml4_e = vm_mem s pml4 (pml4_index virt)
      in if \<not> pte_is_present pml4_e then (Inl ''PML4 entry not present'', s)
      else let pdpt = pte_physical_address pml4_e; pdpt_e = vm_mem s pdpt (pdpt_index virt)
      in if \<not> pte_is_present pdpt_e then (Inl ''PDPT entry not present'', s)
      else let pd = pte_physical_address pdpt_e; pd_e = vm_mem s pd (pd_index virt)
      in if \<not> pte_is_present pd_e then (Inl ''PD entry not present'', s)
      else let pt = pte_physical_address pd_e; pt_idx = pt_index virt; pt_e = vm_mem s pt pt_idx
      in if \<not> pte_is_present pt_e \<and> pte_flags pt_e AND ON_DEMAND \<noteq> 0
         then try_then (vm_alloc_page ''OOM: cannot allocate physical page for fault'') (\<lambda>phys s.
                let s = vm_zero_page phys s;
                    pt_e = vm_mem s pt pt_idx;
                    flags = (pte_flags pt_e AND NOT ON_DEMAND) OR PRESENT;
                    flags = flags AND NOT NO_EXECUTE
                in (Inr (), vm_set_entry pt pt_idx (pte_set_address phys flags) s)) s
         else (Inl ''Not an on-demand page'', s))"

definition unmap_page :: "u64 \<Rightarrow> u64 \<Rightarrow> Vm \<Rightarrow> (string + u64) \<times> Vm" where
  "unmap_page pml4 virt s =
     (let pml4_e = vm_mem s pml4 (pml4_index virt)
      in if \<not> pte_is_present pml4_e then (Inl ''PML4 not present'', s)
      else let pdpt = pte_physical_address pml4_e; pdpt_e = vm_mem s pdpt (pdpt_index virt)
      in if \<not> pte_is_present pdpt_e then (Inl ''PDPT not present'', s)
      else let pd = pte_physical_address pdpt_e; pd_e = vm_mem s pd (pd_index virt)
      in if \<not> pte_is_present pd_e then (Inl ''PD not present'', s)
      else let pt = pte_physical_address pd_e; pt_idx = pt_index virt; pt_e = vm_mem s pt pt_idx
      in if \<not> pte_is_present pt_e \<and> pte_flags pt_e AND ON_DEMAND = 0 then (Inl ''PT not present'', s)
      else (Inr (pte_physical_address pt_e), vm_set_entry pt pt_idx (pte_set_address 0 0) s))"

definition translate :: "u64 \<Rightarrow> Vm \<Rightarrow> u64 \<Rightarrow> u64 option" where
  "translate pml4 s virt =
     (let pml4_e = vm_mem s pml4 (pml4_index virt)
      in if \<not> pte_is_present pml4_e then None
      else let pdpt_e = vm_mem s (pte_physical_address pml4_e) (pdpt_index virt)
      in if \<not> pte_is_present pdpt_e then None
      else if pte_flags pdpt_e AND HUGE_PAGE \<noteq> 0
      then Some (pte_physical_address pdpt_e + (virt AND 0x3FFFFFFF))
      else let pd_e = vm_mem s (pte_physical_address pdpt_e) (pd_index virt)
      in if \<not> pte_is_present pd_e then None
      else if pte_flags pd_e AND HUGE_PAGE \<noteq> 0
      then Some (pte_physical_address pd_e + (virt AND 0x1FFFFF))
      else let pt_e = vm_mem s (pte_physical_address pd_e) (pt_index virt)
      in if \<not> pte_is_present pt_e then None
      else Some (pte_physical_address pt_e + (virt AND 0xFFF)))"

text \<open>The copy loop of \<open>create_user_page_table\<close> for one index.\<close>

definition copy_kernel_entry :: "u64 \<Rightarrow> u64 \<Rightarrow> nat \<Rightarrow> Vm \<Rightarrow> Vm" where
  "copy_kernel_entry kernel_pml4 new_pml4 i s =
     (let entry = vm_mem s kernel_pml4 i
      in if pte_is_present entry then vm_set_entry new_pml4 i entry s else s)"

definition create_user_page_table :: "u64 \<Rightarrow> Vm \<Rightarrow> u64 option \<times> Vm" where
  "create_user_page_table kernel_cr3 s =
     (case alloc_page (vm_pmm s) of
        (None, p) \<Rightarrow> (None, s\<lparr>vm_pmm := p\<rparr>)
      | (Some new_pml4, p) \<Rightarrow>
          let s = vm_zero_page new_pml4 (s\<lparr>vm_pmm := p\<rparr>);
              s = fold (copy_kernel_entry kernel_cr3 new_pml4) [256..<512] s
          in (Some new_pml4,
              vm_set_entry new_pml4 RECURSIVE_ENTRY
                (pte_set_address new_pml4 (PRESENT OR WRITABLE OR NO_EXECUTE)) s))"

section \<open>A uniform walk\<close>

definition va_index :: "u64 \<Rightarrow> nat \<Rightarrow> nat" where
  "va_index v n = unat (drop_bit (39 - 9 * n) v AND mask 9)"

function walk :: "(u64 \<Rightarrow> nat \<Rightarrow> u64) \<Rightarrow> u64 \<Rightarrow> u64 \<Rightarrow> nat \<Rightarrow> u64 option" where
  "walk m v f n =
     (let e = m f (va_index v n)
      in if \<not> pte_is_present e then None
         else if 3 \<le> n \<or> pte_huge e \<and> 0 < n
         then Some (pte_physical_address e + (v AND mask (39 - 9 * n)))
         else walk m v (pte_physical_address e) (Suc n))"
  by pat_completeness auto
termination
  by (relation "measure (\<lambda>(m, v, f, n). 3 - n)") auto

declare walk.simps [simp del]

lemma va_index_levels:
  "pml4_index v = va_index v 0" "pdpt_index v = va_index v (Suc 0)" "pd_index v = va_index v 2" "pt_index v = va_index v 3"
  by (simp_all add: index_defs va_index_def mask9)

lemma va_index_less [simp]: "va_index v n < 512"
  by (simp add: va_index_def unat_and_mask)

lemma offset_masks: "(0x3FFFFFFF :: u64) = mask 30" "(0x1FFFFF :: u64) = mask 21" "(0xFFF :: u64) = mask 12"
  by (simp_all add: mask_eq_decr_exp)

lemma translate_walk: "translate pml4 s v = walk (vm_mem s) v pml4 0"
proof -
  have levels: "Suc (Suc 0) = 2" "Suc 2 = 3" by simp_all
  show ?thesis
    unfolding translate_def va_index_levels offset_masks pte_huge_def [symmetric] Let_def
    by (simp add: walk.simps [of _ _ _ 0] walk.simps [of _ _ _ "Suc 0"] walk.simps [of _ _ _ 2]
        walk.simps [of _ _ _ 3] levels Let_def)
qed

section \<open>Roles\<close>

text \<open>
  The tables of all address spaces form a forest.  Each table in use has one role: the address
  space that owns it, or none when it belongs to the kernel half that the spaces share, and the
  indices that lead to it from a root.  Slot 510 of a root, the recursive mapping, is no edge.
\<close>

type_synonym role = "u64 option \<times> nat list"
type_synonym roles = "u64 \<Rightarrow> role option"

definition child_role :: "role \<Rightarrow> nat \<Rightarrow> role" where
  "child_role ro i = (if snd ro = [] \<and> 256 \<le> i then None else fst ro, snd ro @ [i])"

definition role_at :: "u64 \<Rightarrow> u64 \<Rightarrow> nat \<Rightarrow> role" where
  "role_at root v n = (if 0 < n \<and> 256 \<le> va_index v 0 then None else Some root, map (va_index v) [0..<n])"

definition edge :: "role \<Rightarrow> nat \<Rightarrow> bool" where
  "edge ro i \<longleftrightarrow> length (snd ro) < 3 \<and> \<not> (snd ro = [] \<and> i = RECURSIVE_ENTRY)"

definition entry_ok :: "roles \<Rightarrow> role \<Rightarrow> nat \<Rightarrow> u64 \<Rightarrow> bool" where
  "entry_ok role ro i e \<longleftrightarrow>
     (edge ro i \<and> pte_is_present e \<longrightarrow>
       (if pte_huge e \<and> snd ro \<noteq> []
        then aligned_bits (39 - 9 * length (snd ro)) (pte_physical_address e)
        else role (pte_physical_address e) = Some (child_role ro i)))"

definition table_ok :: "roles \<Rightarrow> Vm \<Rightarrow> u64 \<Rightarrow> role \<Rightarrow> bool" where
  "table_ok role s f ro \<longleftrightarrow>
     length (snd ro) \<le> 3 \<and> page_of f \<notin> pmm_free_pages (vm_pmm s)
     \<and> (\<forall>i < 512. entry_ok role ro i (vm_mem s f i))"

definition vm_wf :: "roles \<Rightarrow> u64 set \<Rightarrow> Vm \<Rightarrow> bool" where
  "vm_wf role roots s \<longleftrightarrow>
     pmm_wf (vm_pmm s) \<and> (\<forall>r \<in> roots. role r = Some (Some r, []))
     \<and> (\<forall>f ro. role f = Some ro \<longrightarrow> table_ok role s f ro)"

lemma role_at_0 [simp]: "role_at root v 0 = (Some root, [])"
  by (simp add: role_at_def)

lemma length_role_at [simp]: "length (snd (role_at root v n)) = n"
  by (simp add: role_at_def)

lemma role_at_Nil [simp]: "snd (role_at root v n) = [] \<longleftrightarrow> n = 0"
  by (simp add: role_at_def)

lemma child_role_at: "child_role (role_at root v n) (va_index v n) = role_at root v (Suc n)"
  by (auto simp: child_role_def role_at_def)

lemma edge_role_at: "edge (role_at root v n) (va_index v n) \<longleftrightarrow> n < 3 \<and> \<not> (n = 0 \<and> va_index v 0 = RECURSIVE_ENTRY)"
  by (auto simp: edge_def)

lemma entry_ok_mono:
  assumes "entry_ok role ro i e" "\<And>f r. role f = Some r \<Longrightarrow> role' f = Some r"
  shows "entry_ok role' ro i e"
  using assms by (auto simp: entry_ok_def split: if_splits)

lemma entry_ok_zero [simp]: "entry_ok role ro i 0"
  by (simp add: entry_ok_def)

lemma wf_entry:
  assumes "vm_wf role roots s" "role f = Some ro" "i < 512"
  shows "entry_ok role ro i (vm_mem s f i)"
  using assms unfolding vm_wf_def table_ok_def by blast

lemma wf_child:
  assumes "vm_wf role roots s" "role f = Some (role_at r v n)" "n < 3" "va_index v 0 \<noteq> RECURSIVE_ENTRY"
    "pte_is_present (vm_mem s f (va_index v n))" "\<not> (pte_huge (vm_mem s f (va_index v n)) \<and> 0 < n)"
  shows "role (pte_physical_address (vm_mem s f (va_index v n))) = Some (role_at r v (Suc n))"
  using wf_entry [OF assms(1,2), of "va_index v n"] assms(3-6)
  by (auto simp: entry_ok_def edge_role_at child_role_at split: if_splits)

section \<open>Memory updates\<close>

lemma vm_mem_set: "vm_mem (vm_set_entry t i e s) h j = (if h = t \<and> j = i then e else vm_mem s h j)"
  by (simp add: vm_set_entry_def)

lemma vm_mem_zero: "vm_mem (vm_zero_page t s) h j = (if h = t then 0 else vm_mem s h j)"
  by (simp add: vm_zero_page_def)

lemma vm_mem_zero_tables:
  "vm_mem (vm_zero_tables t n s) h j = (if \<exists>k < n. h = t + of_nat k * 4096 then 0 else vm_mem s h j)"
  by (induction n) (auto simp: vm_zero_tables_def vm_mem_zero less_Suc_eq)

lemma vm_mem_fill_upto:
  "vm_mem (fold (\<lambda>i. vm_set_entry t i (e i)) [0..<n] s) h j = (if h = t \<and> j < n then e j else vm_mem s h j)"
  by (induction n) (auto simp: vm_mem_set less_Suc_eq)

lemma vm_mem_fill:
  "vm_mem (vm_fill_table t e s) h j = (if h = t \<and> j < 512 then e j else vm_mem s h j)"
  unfolding vm_fill_table_def by (rule vm_mem_fill_upto)

lemma vm_pmm_set [simp]: "vm_pmm (vm_set_entry t i e s) = vm_pmm s"
  by (simp add: vm_set_entry_def)

lemma vm_pmm_zero [simp]: "vm_pmm (vm_zero_page t s) = vm_pmm s"
  by (simp add: vm_zero_page_def)

lemma vm_pmm_fold [simp]:
  "vm_pmm (fold (\<lambda>i. vm_set_entry t i (e i)) xs s) = vm_pmm s"
  "vm_pmm (fold (\<lambda>k. vm_zero_page (g k)) ks s) = vm_pmm s"
  by (induction xs arbitrary: s, simp_all, induction ks arbitrary: s, simp_all)

lemma vm_pmm_tables [simp]: "vm_pmm (vm_zero_tables t n s) = vm_pmm s" "vm_pmm (vm_fill_table t e s) = vm_pmm s"
  by (simp_all add: vm_zero_tables_def vm_fill_table_def)

lemmas vm_mems = vm_mem_set vm_mem_zero vm_mem_zero_tables vm_mem_fill

lemma vm_alloc_page_cases:
  assumes "vm_wf role roots s"
  obtains (oom) "vm_alloc_page err s = (Inl err, s)" "pmm_free_pages (vm_pmm s) = {}"
  | (ok) a p where "vm_alloc_page err s = (Inr a, s\<lparr>vm_pmm := p\<rparr>)" "role a = None" "pte_physical_address a = a"
      "pmm_wf p" "pmm_free_pages p \<subseteq> pmm_free_pages (vm_pmm s)" "page_of a \<notin> pmm_free_pages p"
      "card (pmm_free_pages (vm_pmm s)) \<le> Suc (card (pmm_free_pages p))" "page_of a \<in> pmm_free_pages (vm_pmm s)"
proof -
  have pw: "pmm_wf (vm_pmm s)"
    using assms by (simp add: vm_wf_def)
  show thesis
  proof (cases "fst (alloc_page (vm_pmm s))")
    case None
    then have "alloc_page (vm_pmm s) = (None, vm_pmm s)"
      using alloc_page_none(2) [OF pw None] by (metis prod.collapse)
    then show thesis
      using alloc_page_none(1) [OF pw] oom by (simp add: vm_alloc_page_def)
  next
    case (Some a)
    then obtain page where page: "a = of_nat (page * PAGE_SIZE)" "page \<in> pmm_free_pages (vm_pmm s)"
      "pmm_free_pages (snd (alloc_page (vm_pmm s))) = pmm_free_pages (vm_pmm s) - {page}"
      "pmm_wf (snd (alloc_page (vm_pmm s)))"
      using alloc_page_some [OF pw Some] by blast
    have small: "page < MAX_PAGES"
      using page(2) by (simp add: free_set_def)
    then have pa: "page_of a = page" "unat a = page * 4096"
      unfolding page(1) by (rule page_of_addr, simp del: of_nat_mult add: PAGE_SIZE_def)
        (use small unat_page_addr [OF small] in \<open>simp add: PAGE_SIZE_def\<close>)
    have "role a = None"
      using assms page(2) pa(1) unfolding vm_wf_def table_ok_def by (cases "role a") auto
    moreover have "pte_physical_address a = a"
      using small pa(2) by (intro pte_address_aligned) (simp_all add: MAX_PAGES_def)
    moreover have "vm_alloc_page err s = (Inr a, s\<lparr>vm_pmm := snd (alloc_page (vm_pmm s))\<rparr>)"
      using Some by (cases "alloc_page (vm_pmm s)") (simp add: vm_alloc_page_def)
    moreover have "card (pmm_free_pages (vm_pmm s)) \<le> Suc (card (pmm_free_pages (vm_pmm s) - {page}))"
      using diff_card_le_card_Diff [of "{page}" "pmm_free_pages (vm_pmm s)"] by simp
    ultimately show thesis
      using ok page(2-4) pa(1) by auto
  qed
qed

section \<open>Preservation\<close>

text \<open>Memory changes outside every table in use, but for one entry of one table.\<close>

definition only_entry :: "roles \<Rightarrow> u64 \<Rightarrow> nat \<Rightarrow> Vm \<Rightarrow> Vm \<Rightarrow> bool" where
  "only_entry role f i s s' \<longleftrightarrow>
     (\<forall>h j. role h \<noteq> None \<longrightarrow> (h, j) \<noteq> (f, i) \<longrightarrow> vm_mem s' h j = vm_mem s h j)"

lemma wf_set_entry:
  assumes "vm_wf role roots s" "role f = Some ro" "entry_ok role ro i e"
  shows "vm_wf role roots (vm_set_entry f i e s)"
  using assms unfolding vm_wf_def table_ok_def by (auto simp: vm_mem_set)

lemma wf_install:
  assumes wf: "vm_wf role roots s" and f: "role f = Some ro" and edge: "edge ro i"
    and g: "role g = None" and pmm: "pmm_wf (vm_pmm s')"
      "pmm_free_pages (vm_pmm s') \<subseteq> pmm_free_pages (vm_pmm s)" "page_of g \<notin> pmm_free_pages (vm_pmm s')"
    and mem: "only_entry role f i s s'"
    and entry: "pte_physical_address (vm_mem s' f i) = g" "\<not> pte_huge (vm_mem s' f i)"
    and new: "\<And>j. j < 512 \<Longrightarrow> entry_ok (role(g \<mapsto> child_role ro i)) (child_role ro i) j (vm_mem s' g j)"
  shows "vm_wf (role(g \<mapsto> child_role ro i)) roots s'"
proof -
  let ?role = "role(g \<mapsto> child_role ro i)"
  have mono: "?role h = Some r" if "role h = Some r" for h r
    using that g by auto
  have "table_ok ?role s' g (child_role ro i)"
    using edge pmm(3) new by (auto simp: table_ok_def child_role_def edge_def)
  moreover have "table_ok ?role s' h r" if h: "role h = Some r" for h r
  proof -
    have "entry_ok ?role r j (vm_mem s' h j)" if "j < 512" for j
    proof (cases "(h, j) = (f, i)")
      case True
      then show ?thesis
        using f h entry by (auto simp: entry_ok_def)
    next
      case False
      then have "vm_mem s' h j = vm_mem s h j"
        using mem h by (simp add: only_entry_def)
      moreover have "entry_ok ?role r j (vm_mem s h j)"
        by (rule entry_ok_mono [OF wf_entry [OF wf h that]]) (rule mono)
      ultimately show ?thesis by simp
    qed
    then show ?thesis
      using wf h pmm(2) unfolding vm_wf_def table_ok_def by blast
  qed
  ultimately show ?thesis
    using wf pmm(1) g unfolding vm_wf_def by auto
qed

lemma walk_update:
  assumes wf: "vm_wf role roots s" and mem: "only_entry role f0 i0 s s'"
    and here: "\<And>n. n \<le> 3 \<Longrightarrow> role f0 = Some (role_at r v n) \<Longrightarrow> i0 = va_index v n \<Longrightarrow>
        (\<And>f. n < 3 \<Longrightarrow> role f = Some (role_at r v (Suc n)) \<Longrightarrow>
           walk (vm_mem s') v f (Suc n) = walk (vm_mem s) v f (Suc n)) \<Longrightarrow>
        walk (vm_mem s') v f0 n = walk (vm_mem s) v f0 n"
    and v: "va_index v 0 \<noteq> RECURSIVE_ENTRY"
  shows "n \<le> 3 \<Longrightarrow> role f = Some (role_at r v n) \<Longrightarrow> walk (vm_mem s') v f n = walk (vm_mem s) v f n"
proof (induction "3 - n" arbitrary: n f)
  case 0
  then show ?case
  proof (cases "(f, va_index v n) = (f0, i0)")
    case False
    then have "vm_mem s' f (va_index v n) = vm_mem s f (va_index v n)"
      using mem 0(3) by (simp add: only_entry_def)
    then show ?thesis
      using 0(1) by (simp add: walk.simps [of _ _ _ n] Let_def)
  qed (use here 0 in auto)
next
  case (Suc d)
  have IH: "walk (vm_mem s') v f (Suc n) = walk (vm_mem s) v f (Suc n)"
    if "role f = Some (role_at r v (Suc n))" for f
    using Suc.hyps that by simp
  show ?case
  proof (cases "(f, va_index v n) = (f0, i0)")
    case True
    then show ?thesis
      using here [of n] Suc.prems IH by auto
  next
    case False
    let ?e = "vm_mem s f (va_index v n)"
    have e: "vm_mem s' f (va_index v n) = ?e"
      using mem Suc.prems False by (simp add: only_entry_def)
    have "walk (vm_mem s') v (pte_physical_address ?e) (Suc n) = walk (vm_mem s) v (pte_physical_address ?e) (Suc n)"
      if "pte_is_present ?e" "\<not> (pte_huge ?e \<and> 0 < n)"
      using wf_child [OF wf Suc.prems(2) _ v that] Suc.hyps(2) IH by simp
    then show ?thesis
      unfolding walk.simps [of _ _ _ n] Let_def e by auto
  qed
qed

text \<open>No address of any space translates differently.\<close>

definition same_translation :: "u64 set \<Rightarrow> Vm \<Rightarrow> Vm \<Rightarrow> bool" where
  "same_translation roots s s' \<longleftrightarrow>
     (\<forall>r \<in> roots. \<forall>v. va_index v 0 \<noteq> RECURSIVE_ENTRY \<longrightarrow> walk (vm_mem s') v r 0 = walk (vm_mem s) v r 0)"

lemma same_translation_refl [simp]: "same_translation roots s s"
  by (simp add: same_translation_def)

lemma same_translation_trans:
  "same_translation roots s s' \<Longrightarrow> same_translation roots s' s'' \<Longrightarrow> same_translation roots s s''"
  by (simp add: same_translation_def)

lemma same_translationI:
  assumes "vm_wf role roots s" "only_entry role f0 i0 s s'"
    "\<And>r v n. n \<le> 3 \<Longrightarrow> role f0 = Some (role_at r v n) \<Longrightarrow> i0 = va_index v n \<Longrightarrow>
       va_index v 0 \<noteq> RECURSIVE_ENTRY \<Longrightarrow>
       (\<And>f. n < 3 \<Longrightarrow> role f = Some (role_at r v (Suc n)) \<Longrightarrow>
          walk (vm_mem s') v f (Suc n) = walk (vm_mem s) v f (Suc n)) \<Longrightarrow>
       walk (vm_mem s') v f0 n = walk (vm_mem s) v f0 n"
  shows "same_translation roots s s'"
  unfolding same_translation_def
proof (intro ballI allI impI)
  fix r v
  assume "r \<in> roots" and v: "va_index v 0 \<noteq> RECURSIVE_ENTRY"
  then have "role r = Some (role_at r v 0)"
    using assms(1) by (simp add: vm_wf_def)
  then show "walk (vm_mem s') v r 0 = walk (vm_mem s) v r 0"
    by (intro walk_update [OF assms(1,2) _ v, of r 0 r]) (use assms(3) v in blast, simp_all)
qed

text \<open>The three ways in which \<open>get_or_create_table\<close> hands over a fresh table have one shape: a frame
  outside every table, written, then linked from the entry that led nowhere or to a large page.\<close>

lemma install_step:
  assumes wf: "vm_wf role roots s" and f: "role f = Some (role_at r v n)" and n: "n < 3"
    and v: "va_index v 0 \<noteq> RECURSIVE_ENTRY" and g: "role g = None"
    and pmm: "pmm_wf (vm_pmm s')" "pmm_free_pages (vm_pmm s') \<subseteq> pmm_free_pages (vm_pmm s)"
      "page_of g \<notin> pmm_free_pages (vm_pmm s')"
    and mem: "only_entry role f (va_index v n) s s'"
    and entry: "pte_is_present (vm_mem s' f (va_index v n))" "pte_physical_address (vm_mem s' f (va_index v n)) = g"
      "\<not> pte_huge (vm_mem s' f (va_index v n))"
    and new: "\<And>j. j < 512 \<Longrightarrow>
       entry_ok (role(g \<mapsto> role_at r v (Suc n))) (role_at r v (Suc n)) j (vm_mem s' g j)"
    and same: "\<And>w. va_index w n = va_index v n \<Longrightarrow>
       walk (vm_mem s') w g (Suc n) = walk (vm_mem s) w f n"
  shows "vm_wf (role(g \<mapsto> role_at r v (Suc n))) roots s'" "same_translation roots s s'"
proof -
  have "edge (role_at r v n) (va_index v n)"
    using n v by (simp add: edge_role_at)
  then show "vm_wf (role(g \<mapsto> role_at r v (Suc n))) roots s'"
    using wf_install [OF wf f _ g pmm mem entry(2,3)] new by (simp add: child_role_at)
  show "same_translation roots s s'"
  proof (rule same_translationI [OF wf mem])
    fix r' w k
    assume *: "role f = Some (role_at r' w k)" "va_index v n = va_index w k"
    then have "k = n"
      using f by (metis length_role_at option.inject)
    then show "walk (vm_mem s') w f k = walk (vm_mem s) w f k"
      using entry n same [of w] *(2) by (subst walk.simps) (simp add: Let_def)
  qed
qed

abbreviation wiped :: "u64 \<Rightarrow> u64 set" where
  "wiped a \<equiv> (\<lambda>k. a + of_nat k * 4096) ` {1..<4096}"

definition wipe_safe :: "roles \<Rightarrow> Vm \<Rightarrow> bool" where
  "wipe_safe role s \<longleftrightarrow>
     (case fst (alloc_page (vm_pmm s)) of None \<Rightarrow> True | Some a \<Rightarrow> \<forall>h \<in> wiped a. role h = None)"

lemma bit_intermediate:
  "bit (PRESENT OR WRITABLE OR (fl AND USER)) 0" "\<not> bit (PRESENT OR WRITABLE OR (fl AND USER)) 7"
  by (auto simp: bit_or_iff bit_and_iff bit_flag_consts)

lemma walk_zero_table: "(\<And>i. vm_mem s g i = 0) \<Longrightarrow> walk (vm_mem s) v g n = None"
  by (simp add: walk.simps [of _ _ _ n] Let_def)

lemma create_table:
  fixes fl :: u64
  assumes wf: "vm_wf role roots s" and f: "role f = Some (role_at r v n)" "n < 3" "va_index v 0 \<noteq> RECURSIVE_ENTRY"
    and absent: "\<not> pte_is_present (vm_mem s f (va_index v n))"
    and g: "role g = None" "pte_physical_address g = g" "pmm_wf p"
      "pmm_free_pages p \<subseteq> pmm_free_pages (vm_pmm s)" "page_of g \<notin> pmm_free_pages p"
  defines "s' \<equiv> vm_set_entry f (va_index v n) (pte_set_address g (PRESENT OR WRITABLE OR (fl AND USER)))
      (vm_zero_page g (s\<lparr>vm_pmm := p\<rparr>))"
  shows "vm_wf (role(g \<mapsto> role_at r v (Suc n))) roots s'" "same_translation roots s s'"
proof -
  have fg: "f \<noteq> g"
    using f(1) g(1) by auto
  have mem: "vm_mem s' h j = (if h = f \<and> j = va_index v n then pte_set_address g (PRESENT OR WRITABLE OR (fl AND USER))
      else if h = g then 0 else vm_mem s h j)" for h j
    by (simp add: s'_def vm_mems)
  have pmm: "vm_pmm s' = p"
    by (simp add: s'_def)
  have walk: "walk (vm_mem s') w g (Suc n) = walk (vm_mem s) w f n" if "va_index w n = va_index v n" for w
    using that absent fg by (simp add: walk.simps [of _ w f n] walk_zero_table mem Let_def)
  show "vm_wf (role(g \<mapsto> role_at r v (Suc n))) roots s'" "same_translation roots s s'"
    by (rule install_step [OF wf f g(1)];
        use g fg walk in \<open>auto simp: mem pmm only_entry_def pte_present_set pte_huge_set bit_intermediate\<close>)+
qed

lemma split_table:
  fixes fl cf :: u64
  assumes wf: "vm_wf role roots s" and f: "role f = Some (role_at r v n)" "n < 3" "va_index v 0 \<noteq> RECURSIVE_ENTRY"
    and n: "0 < n" "k = 39 - 9 * Suc n"
    and huge: "pte_is_present (vm_mem s f (va_index v n))" "pte_huge (vm_mem s f (va_index v n))"
    and g: "role g = None" "pte_physical_address g = g" "pmm_wf p"
      "pmm_free_pages p \<subseteq> pmm_free_pages (vm_pmm s)" "page_of g \<notin> pmm_free_pages p"
    and safe: "\<forall>h \<in> wiped g. role h = None"
    and cf: "bit cf 0" "n = 1 \<Longrightarrow> bit cf 7"
    and base: "base = pte_physical_address (vm_mem s f (va_index v n))"
    and s': "s' = vm_set_entry f (va_index v n) (pte_set_address g (PRESENT OR WRITABLE OR (fl AND USER)))
      (vm_fill_table g (\<lambda>i. pte_set_address (base + of_nat i * 2 ^ k) cf) (vm_zero_tables g 4096 (s\<lparr>vm_pmm := p\<rparr>)))"
  shows "vm_wf (role(g \<mapsto> role_at r v (Suc n))) roots s'" "same_translation roots s s'"
proof -
  have fg: "f \<noteq> g"
    using f(1) g(1) by auto
  have kept: "\<not> (\<exists>k < 4096. h = g + of_nat k * 4096)" if "role h \<noteq> None" for h
  proof
    assume "\<exists>k < 4096. h = g + of_nat k * 4096"
    then obtain k where "k < 4096" "h = g + of_nat k * 4096" by blast
    then show False
      using safe that g(1) by (cases "k = 0") auto
  qed
  have mem_g: "vm_mem s' g j = pte_set_address (base + of_nat j * 2 ^ k) cf" if "j < 512" for j
    using that fg by (simp add: s' vm_mems)
  have entry: "vm_mem s' f (va_index v n) = pte_set_address g (PRESENT OR WRITABLE OR (fl AND USER))"
    by (simp add: s' vm_mems)
  have pmm: "vm_pmm s' = p"
    by (simp add: s')
  have k: "12 \<le> k" "k + 9 \<le> 52" "39 - 9 * n = k + 9" "n = 1 \<or> n = 2" "30 - 9 * n = k"
    using n f(2) by auto
  have al: "aligned_bits (k + 9) base"
    using wf_entry [OF wf f(1), of "va_index v n"] f(2,3) n(1) huge
    by (simp add: entry_ok_def edge_role_at base k(3))
  have child: "pte_physical_address (base + of_nat j * 2 ^ k) = base + of_nat j * 2 ^ k"
    "aligned_bits k (base + of_nat j * 2 ^ k)" if "j < 512" for j
    using split_no_carry [OF _ that k(1,2)] split_aligned [OF al that] al unfolding base by blast+
  have only: "only_entry role f (va_index v n) s s'"
    using kept g(1) by (auto simp: only_entry_def s' vm_mems)
  have stop: "3 \<le> Suc n \<or> bit cf 7"
    using k(4) cf(2) by auto
  have walk: "walk (vm_mem s') w g (Suc n) = walk (vm_mem s) w f n" if w: "va_index w n = va_index v n" for w
  proof -
    have "walk (vm_mem s) w f n = Some (base + (w AND mask (k + 9)))"
      using huge n(1) by (simp add: walk.simps [of _ w f n] w Let_def base k(3))
    also have "base + (w AND mask (k + 9)) = base + of_nat (va_index w (Suc n)) * 2 ^ k + (w AND mask k)"
      using split_offset [OF al, of "va_index w (Suc n)" w] by (simp add: va_index_def n(2))
    also have "Some \<dots> = walk (vm_mem s') w g (Suc n)"
      using stop
      by (subst walk.simps) (auto simp: Let_def mem_g pte_present_set pte_huge_set child cf(1) k(5))
    finally show ?thesis by simp
  qed
  have new: "entry_ok (role(g \<mapsto> role_at r v (Suc n))) (role_at r v (Suc n)) j (vm_mem s' g j)" if "j < 512" for j
    using k(4) cf child [OF that] n(2)
    by (auto simp: entry_ok_def edge_def mem_g [OF that] pte_huge_set)
  show "vm_wf (role(g \<mapsto> role_at r v (Suc n))) roots s'" "same_translation roots s s'"
    by (rule install_step [OF wf f g(1) _ _ _ only];
        use g walk new in \<open>auto simp: pmm entry pte_present_set pte_huge_set bit_intermediate\<close>)+
qed

text \<open>Whether the walk towards the last table of an address meets a large page.\<close>

function meets_huge :: "(u64 \<Rightarrow> nat \<Rightarrow> u64) \<Rightarrow> u64 \<Rightarrow> u64 \<Rightarrow> nat \<Rightarrow> bool" where
  "meets_huge m v f n =
     (if n < 3 \<and> pte_is_present (m f (va_index v n))
      then pte_huge (m f (va_index v n)) \<or> meets_huge m v (pte_physical_address (m f (va_index v n))) (Suc n)
      else False)"
  by pat_completeness auto
termination
  by (relation "measure (\<lambda>(m, v, f, n). 3 - n)") auto

declare meets_huge.simps [simp del]

lemma meets_huge_update:
  assumes "vm_wf role roots s" "only_entry role f0 i0 s s'" "role f0 = Some (role_at r v n0)"
    "va_index v 0 \<noteq> RECURSIVE_ENTRY"
  shows "n0 < n \<Longrightarrow> role f = Some (role_at r v n) \<Longrightarrow> meets_huge (vm_mem s') v f n = meets_huge (vm_mem s) v f n"
proof (induction "3 - n" arbitrary: n f)
  case 0
  then show ?case by (simp add: meets_huge.simps [of _ _ _ n])
next
  case (Suc d)
  let ?e = "vm_mem s f (va_index v n)"
  have "f \<noteq> f0"
    using Suc.prems assms(3) by (metis length_role_at nat_neq_iff option.inject)
  then have "vm_mem s' f (va_index v n) = vm_mem s f (va_index v n)"
    using assms(2) Suc.prems(2) by (simp add: only_entry_def)
  moreover have "meets_huge (vm_mem s') v (pte_physical_address ?e) (Suc n) = meets_huge (vm_mem s) v (pte_physical_address ?e) (Suc n)"
    if "pte_is_present ?e" "\<not> pte_huge ?e"
    using wf_child [OF assms(1) Suc.prems(2) _ assms(4) that(1)] that(2) Suc.hyps Suc.prems(1) by simp
  ultimately show ?case
    by (auto simp: meets_huge.simps [of _ _ _ n])
qed

lemma flag_update:
  assumes wf: "vm_wf role roots s" and f: "role f = Some (role_at r v n)" "n < 3" "va_index v 0 \<noteq> RECURSIVE_ENTRY"
    and e: "pte_is_present (vm_mem s f (va_index v n))" "\<not> pte_huge (vm_mem s f (va_index v n))"
    and fl: "bit fl 0" "\<not> bit fl 7"
    and s': "s' = vm_set_entry f (va_index v n) (pte_set_address (pte_physical_address (vm_mem s f (va_index v n))) fl) s"
  shows "vm_wf role roots s'" "same_translation roots s s'" "only_entry role f (va_index v n) s s'"
proof -
  let ?e = "vm_mem s f (va_index v n)"
  show "vm_wf role roots s'"
    unfolding s' using wf_entry [OF wf f(1), of "va_index v n"] e fl
    by (intro wf_set_entry [OF wf f(1)]) (simp add: entry_ok_def pte_present_set pte_huge_set)
  show only: "only_entry role f (va_index v n) s s'"
    by (simp add: only_entry_def s' vm_mem_set)
  show "same_translation roots s s'"
  proof (rule same_translationI [OF wf only])
    fix r' w k
    assume *: "role f = Some (role_at r' w k)" "va_index v n = va_index w k" "va_index w 0 \<noteq> RECURSIVE_ENTRY"
      and IH: "\<And>h. k < 3 \<Longrightarrow> role h = Some (role_at r' w (Suc k)) \<Longrightarrow>
          walk (vm_mem s') w h (Suc k) = walk (vm_mem s) w h (Suc k)"
    have k: "k = n"
      using f(1) *(1) by (metis length_role_at option.inject)
    have "role (pte_physical_address ?e) = Some (role_at r' w (Suc k))"
      using wf_child [OF wf *(1) _ *(3)] f(2) e *(2) k by simp
    then show "walk (vm_mem s') w f k = walk (vm_mem s) w f k"
      using IH [of "pte_physical_address ?e"] f(2) e fl k *(2)
      by (simp add: walk.simps [of _ w f n] s' vm_mem_set pte_present_set pte_huge_set Let_def)
  qed
qed

text \<open>No frame becomes free, frames in use that hold no table keep their contents, and a space without large pages
  stays so.\<close>

definition keeps_frames :: "roles \<Rightarrow> Vm \<Rightarrow> roles \<Rightarrow> Vm \<Rightarrow> bool" where
  "keeps_frames role s role' s' \<longleftrightarrow>
     pmm_free_pages (vm_pmm s') \<subseteq> pmm_free_pages (vm_pmm s)
     \<and> (\<forall>d. role d = None \<longrightarrow> page_of d \<notin> pmm_free_pages (vm_pmm s) \<longrightarrow>
          role' d = None \<and> page_of d \<notin> pmm_free_pages (vm_pmm s') \<and> vm_mem s' d = vm_mem s d)"

definition plain :: "roles \<Rightarrow> u64 \<Rightarrow> Vm \<Rightarrow> bool" where
  "plain role r s \<longleftrightarrow>
     (\<forall>f path i. role f = Some (Some r, path) \<longrightarrow> length path < 3 \<longrightarrow> i < 512 \<longrightarrow> (path = [] \<longrightarrow> i < 256) \<longrightarrow>
        pte_is_present (vm_mem s f i) \<longrightarrow> \<not> pte_huge (vm_mem s f i))"

lemma keeps_frames_refl [simp]: "keeps_frames role s role s"
  by (simp add: keeps_frames_def)

lemma keeps_frames_trans:
  "keeps_frames role s role' s' \<Longrightarrow> keeps_frames role' s' role'' s'' \<Longrightarrow> keeps_frames role s role'' s''"
  unfolding keeps_frames_def by (metis order_trans)

lemma plain_step:
  assumes "plain role r s" "only_entry role f i s s'" "\<not> pte_huge (vm_mem s' f i)"
    and "\<forall>h ro. role' h = Some ro \<longrightarrow> role h = Some ro \<or> (\<forall>j. vm_mem s' h j = 0)"
  shows "plain role' r s'"
  unfolding plain_def
proof (intro allI impI)
  fix h path j
  assume h: "role' h = Some (Some r, path)" "length path < 3" "j < 512" "path = [] \<longrightarrow> j < 256" "pte_is_present (vm_mem s' h j)"
  then have "role h = Some (Some r, path)"
    using assms(4) by fastforce
  then show "\<not> pte_huge (vm_mem s' h j)"
    using assms(1-3) h(2-5) unfolding plain_def only_entry_def by (cases "(h, j) = (f, i)") auto
qed

text \<open>One level of the walk.\<close>

lemma get_or_create_step:
  assumes wf: "vm_wf role roots s" and f: "role f = Some (role_at r v n)" "n < 3" "va_index v 0 \<noteq> RECURSIVE_ENTRY"
    and no_huge: "\<not> meets_huge (vm_mem s) v f n"
  obtains (err) msg where "get_or_create_table f (va_index v n) fl (Suc n) s = (Inl msg, s)"
      "pmm_free_pages (vm_pmm s) = {}"
  | (ok) g s' role' where "get_or_create_table f (va_index v n) fl (Suc n) s = (Inr g, s')"
      "vm_wf role' roots s'" "role' g = Some (role_at r v (Suc n))" "same_translation roots s s'"
      "\<not> meets_huge (vm_mem s') v g (Suc n)" "pte_is_present (vm_mem s' f (va_index v n))"
      "pte_physical_address (vm_mem s' f (va_index v n)) = g" "\<not> pte_huge (vm_mem s' f (va_index v n))"
      "\<forall>h ro. role h = Some ro \<longrightarrow> role' h = Some ro" "only_entry role f (va_index v n) s s'"
      "card (pmm_free_pages (vm_pmm s)) \<le> Suc (card (pmm_free_pages (vm_pmm s')))"
      "keeps_frames role s role' s'" "\<forall>p. plain role p s \<longrightarrow> plain role' p s'"
proof -
  let ?i = "va_index v n"
  let ?e = "vm_mem s f ?i"
  show thesis
  proof (cases "pte_is_present ?e")
    case True
    then have nh: "\<not> pte_huge ?e" "\<not> meets_huge (vm_mem s) v (pte_physical_address ?e) (Suc n)"
      using no_huge f(2) by (auto simp: meets_huge.simps [of _ _ _ n])
    have child: "role (pte_physical_address ?e) = Some (role_at r v (Suc n))"
      using wf_child [OF wf f True] nh(1) by simp
    define need where "need = fl AND (USER OR WRITABLE)"
    define s' where "s' = (if pte_flags ?e AND need \<noteq> need
        then vm_set_entry f ?i (pte_set_address (pte_physical_address ?e) (pte_flags ?e OR need)) s else s)"
    have go: "get_or_create_table f ?i fl (Suc n) s = (Inr (pte_physical_address (vm_mem s' f ?i)), s')"
      using True nh(1) by (simp add: get_or_create_table_def pte_huge_def Let_def s'_def need_def)
    have bits: "bit (pte_flags ?e OR need) 0" "\<not> bit (pte_flags ?e OR need) 7"
      using True nh(1)
      by (simp_all add: need_def bit_or_iff bit_and_iff bit_pte_flags bit_flag_consts pte_is_present_bit pte_huge_bit)
    have s': "vm_wf role roots s'" "same_translation roots s s'" "only_entry role f ?i s s'"
      using flag_update [OF wf f True nh(1) bits] wf by (auto simp: s'_def only_entry_def)
    have e': "pte_physical_address (vm_mem s' f ?i) = pte_physical_address ?e"
      "pte_is_present (vm_mem s' f ?i)" "\<not> pte_huge (vm_mem s' f ?i)"
      using True nh(1) bits by (simp_all add: s'_def vm_mem_set pte_present_set pte_huge_set)
    have "\<not> meets_huge (vm_mem s') v (pte_physical_address ?e) (Suc n)"
      using meets_huge_update [OF wf s'(3) f(1,3) _ child] nh(2) by simp
    moreover have "vm_pmm s' = vm_pmm s"
      by (simp add: s'_def)
    moreover have "keeps_frames role s role s'"
      using f(1) by (auto simp: keeps_frames_def s'_def vm_set_entry_def)
    moreover have "\<forall>p. plain role p s \<longrightarrow> plain role p s'"
      using plain_step [OF _ s'(3) e'(3), of _ role] by blast
    ultimately show thesis
      using ok [OF go s'(1)] child s' e' by simp
  next
    case False
    show thesis
    proof (cases rule: vm_alloc_page_cases [OF wf, of "''OOM''", case_names oom ok])
      case oom
      then show thesis
        using err False by (simp add: get_or_create_table_def Let_def try_then_def)
    next
      case (ok a p)
      define s' where "s' = vm_set_entry f ?i (pte_set_address a (PRESENT OR WRITABLE OR (fl AND USER)))
          (vm_zero_page a (s\<lparr>vm_pmm := p\<rparr>))"
      note c = create_table [OF wf f False ok(2-6), of fl, folded s'_def]
      have "f \<noteq> a"
        using f(1) ok(2) by auto
      then have m: "vm_mem s' a j = 0" "vm_mem s' f ?i = pte_set_address a (PRESENT OR WRITABLE OR (fl AND USER))" for j
        by (simp_all add: s'_def vm_mems)
      have go: "get_or_create_table f ?i fl (Suc n) s = (Inr a, s')"
        using False ok(1) by (simp add: get_or_create_table_def Let_def try_then_def s'_def)
      have only: "only_entry role f ?i s s'"
        using ok(2) by (auto simp: only_entry_def s'_def vm_mems)
      have s'_pmm: "vm_pmm s' = p"
        by (simp add: s'_def)
      have "page_of a \<in> pmm_free_pages (vm_pmm s)"
        by (rule ok(8))
      then have keeps: "keeps_frames role s (role(a \<mapsto> role_at r v (Suc n))) s'"
        using f(1) ok(5) unfolding keeps_frames_def s'_pmm by (auto simp: s'_def vm_set_entry_def vm_zero_page_def)
      have "\<not> pte_huge (vm_mem s' f ?i)"
        by (simp add: m pte_huge_set bit_intermediate)
      then have plain: "\<forall>p. plain role p s \<longrightarrow> plain (role(a \<mapsto> role_at r v (Suc n))) p s'"
        using plain_step [OF _ only, of _ "role(a \<mapsto> role_at r v (Suc n))"] m(1) by (simp add: all_conj_distrib)
      show thesis
        by (intro that(2) [OF go c(1)])
          (use only keeps plain c(2) ok(2,3,7) in \<open>auto simp: s'_pmm m pte_present_set pte_huge_set bit_intermediate meets_huge.simps [of _ _ a]\<close>)
    qed
  qed
qed

text \<open>The three levels together: either an error that leaves every translation alone, or the last
  table of the address, linked from the root.\<close>

lemma walk_last:
  assumes "role_at r v n = role_at r' w 3" "n \<le> 3"
  shows "n = 3" "va_index v 0 = va_index w 0" "va_index v 1 = va_index w 1" "va_index v 2 = va_index w 2"
    "r = r' \<or> 256 \<le> va_index w 0"
proof -
  show n: "n = 3"
    using assms(1) by (metis length_role_at)
  then show "va_index v 0 = va_index w 0" "va_index v 1 = va_index w 1" "va_index v 2 = va_index w 2"
    using assms(1) by (simp_all add: role_at_def upt_rec numeral_2_eq_2 split: if_splits)
  show "r = r' \<or> 256 \<le> va_index w 0"
    using assms(1) n by (auto simp: role_at_def split: if_splits)
qed

lemma only_entry_keeps:
  assumes "only_entry role f i s s'" "role h = Some (role_at r v k)" "role f = Some (role_at r' v' n)" "k \<noteq> n"
  shows "vm_mem s' h j = vm_mem s h j"
proof -
  have "h \<noteq> f"
    using assms(2-4) by (metis length_role_at option.inject)
  then show ?thesis
    using assms(1,2) by (simp add: only_entry_def)
qed

definition linked :: "(u64 \<Rightarrow> nat \<Rightarrow> u64) \<Rightarrow> u64 \<Rightarrow> nat \<Rightarrow> u64 \<Rightarrow> bool" where
  "linked m f i g \<longleftrightarrow> pte_is_present (m f i) \<and> pte_physical_address (m f i) = g \<and> \<not> pte_huge (m f i)"

text \<open>The last table of an address, when every entry on the way is present.\<close>

function pt_table :: "(u64 \<Rightarrow> nat \<Rightarrow> u64) \<Rightarrow> u64 \<Rightarrow> u64 \<Rightarrow> nat \<Rightarrow> u64 option" where
  "pt_table m v f n =
     (if 3 \<le> n then Some f
      else if pte_is_present (m f (va_index v n))
      then pt_table m v (pte_physical_address (m f (va_index v n))) (Suc n)
      else None)"
  by pat_completeness auto
termination
  by (relation "measure (\<lambda>(m, v, f, n). 3 - n)") auto

declare pt_table.simps [simp del]

lemma pt_table_role:
  assumes wf: "vm_wf role roots s" and v: "va_index v 0 \<noteq> RECURSIVE_ENTRY"
  shows "n \<le> 3 \<Longrightarrow> role f = Some (role_at r v n) \<Longrightarrow> \<not> meets_huge (vm_mem s) v f n \<Longrightarrow>
     pt_table (vm_mem s) v f n = Some pt \<Longrightarrow> (\<And>h j. role h \<noteq> None \<Longrightarrow> h \<noteq> pt \<Longrightarrow> m h j = vm_mem s h j) \<Longrightarrow>
     role pt = Some (role_at r v 3) \<and> walk m v f n = walk m v pt 3
       \<and> pt_table m v f n = Some pt \<and> \<not> meets_huge m v f n"
proof (induction "3 - n" arbitrary: n f)
  case 0
  then have "n = 3" by simp
  with 0 show ?case
    by (simp add: pt_table.simps [of _ _ _ 3] meets_huge.simps [of _ _ _ 3])
next
  case (Suc d)
  let ?e = "vm_mem s f (va_index v n)"
  have n: "n < 3"
    using Suc.hyps(2) by simp
  have p: "pte_is_present ?e" "pt_table (vm_mem s) v (pte_physical_address ?e) (Suc n) = Some pt"
    using Suc.prems(4) n by (simp_all add: pt_table.simps [of _ _ _ n] split: if_splits)
  then have h: "\<not> pte_huge ?e" "\<not> meets_huge (vm_mem s) v (pte_physical_address ?e) (Suc n)"
    using Suc.prems(3) n by (auto simp: meets_huge.simps [of _ _ _ n])
  have "role (pte_physical_address ?e) = Some (role_at r v (Suc n))"
    using wf_child [OF wf Suc.prems(2) n v p(1)] h(1) by simp
  then have IH: "role pt = Some (role_at r v 3)" "walk m v (pte_physical_address ?e) (Suc n) = walk m v pt 3"
    "pt_table m v (pte_physical_address ?e) (Suc n) = Some pt" "\<not> meets_huge m v (pte_physical_address ?e) (Suc n)"
    using Suc.hyps(1) [of "Suc n" "pte_physical_address ?e"] Suc.hyps(2) Suc.prems(5) n h(2) p(2) by auto
  have "f \<noteq> pt"
    using IH(1) Suc.prems(2) n by (metis length_role_at less_irrefl option.inject)
  then have "m f (va_index v n) = ?e"
    using Suc.prems(2,5) by simp
  then show ?case
    using IH n p(1) h(1)
    by (simp add: walk.simps [of _ _ f] pt_table.simps [of _ _ f] meets_huge.simps [of _ _ f] Let_def)
qed

lemma walk_to_pt_cases:
  assumes wf: "vm_wf role roots s" and r: "r \<in> roots" and v: "va_index v 0 \<noteq> RECURSIVE_ENTRY"
    and no_huge: "\<not> meets_huge (vm_mem s) v r 0"
  obtains (err) msg s' role' where "walk_to_pt r v fl s = (Inl msg, s')" "vm_wf role' roots s'"
      "same_translation roots s s'" "card (pmm_free_pages (vm_pmm s)) < 3"
  | (ok) pt s' role' where "walk_to_pt r v fl s = (Inr pt, s')" "vm_wf role' roots s'"
      "role' pt = Some (role_at r v 3)" "same_translation roots s s'"
      "pt_table (vm_mem s') v r 0 = Some pt" "\<not> meets_huge (vm_mem s') v r 0"
      "keeps_frames role s role' s'" "\<forall>p. plain role p s \<longrightarrow> plain role' p s'"
      "card (pmm_free_pages (vm_pmm s)) \<le> card (pmm_free_pages (vm_pmm s')) + 3"
proof -
  have root: "role r = Some (role_at r v 0)"
    using wf r by (simp add: vm_wf_def)
  note go = walk_to_pt_def va_index_levels try_then_def numeral_2_eq_2 numeral_3_eq_3
  show thesis
  proof (cases rule: get_or_create_step [OF wf root _ v no_huge, of fl, case_names bound e0 k0])
    case (e0 msg)
    then show thesis
      using err [OF _ wf] e0(2) by (simp add: go)
  next
    case (k0 t1 s1 role1)
    note s1 = k0
    show thesis
    proof (cases rule: get_or_create_step [OF s1(2,3) _ v s1(5), of fl, case_names bound e1 k1])
      case (e1 msg)
      then show thesis
        using err [OF _ s1(2,4)] s1(1,11) e1(2) by (simp add: go)
    next
      case (k1 t2 s2 role2)
      note s2 = k1
      have sm: "same_translation roots s s2"
        using s1(4) s2(4) by (rule same_translation_trans)
      show thesis
      proof (cases rule: get_or_create_step [OF s2(2,3) _ v s2(5), of fl, case_names bound e2 k2])
        case (e2 msg)
        then show thesis
          using err [OF _ s2(2) sm] s1(1,11) s2(1,11) e2(2) by (simp add: go)
      next
        case (k2 t3 s3 role3)
        note s3 = k2
        have walks: "walk_to_pt r v fl s = (Inr t3, s3)"
          using s1(1) s2(1) s3(1) by (simp add: go)
        have roles: "role1 r = Some (role_at r v 0)" "role2 r = Some (role_at r v 0)" "role3 r = Some (role_at r v 0)"
          "role2 t1 = Some (role_at r v 1)" "role3 t1 = Some (role_at r v 1)" "role3 t2 = Some (role_at r v 2)"
          using root s1(3,9) s2(3,9) s3(3,9) unfolding numeral_2_eq_2 One_nat_def by blast+
        have l0: "linked (vm_mem s3) r (va_index v 0) t1"
          using s1(6-8) only_entry_keeps [OF s2(10) roles(1) s1(3)] only_entry_keeps [OF s3(10) roles(2) s2(3)]
          by (simp add: linked_def)
        have l1: "linked (vm_mem s3) t1 (va_index v 1) t2"
          using s2(6-8) only_entry_keeps [OF s3(10) roles(4) s2(3)] by (simp add: linked_def)
        have l2: "linked (vm_mem s3) t2 (va_index v 2) t3"
          using s3(6-8) by (simp add: linked_def numeral_2_eq_2)
        show thesis
        proof (rule ok [OF walks s3(2)])
          show "role3 t3 = Some (role_at r v 3)"
            using s3(3) by (simp add: numeral_3_eq_3)
          show "same_translation roots s s3"
            using sm s3(4) by (rule same_translation_trans)
          show "pt_table (vm_mem s3) v r 0 = Some t3" "\<not> meets_huge (vm_mem s3) v r 0"
            using l0 l1 l2 s3(5)
            by (simp_all add: linked_def numeral_2_eq_2 pt_table.simps meets_huge.simps [of _ _ r] meets_huge.simps [of _ _ t1] meets_huge.simps [of _ _ t2])
          show "keeps_frames role s role3 s3"
            using s1(12) s2(12) s3(12) keeps_frames_trans by blast
          show "\<forall>p. plain role p s \<longrightarrow> plain role3 p s3"
            using s1(13) s2(13) s3(13) by blast
          show "card (pmm_free_pages (vm_pmm s)) \<le> card (pmm_free_pages (vm_pmm s3)) + 3"
            using s1(11) s2(11) s3(11) by linarith
        qed
      qed simp
    qed simp
  qed simp
qed

lemma translates_pt: "walk m v f n = Some a \<Longrightarrow> \<not> meets_huge m v f n \<Longrightarrow> \<exists>pt. pt_table m v f n = Some pt"
proof (induction m v f n rule: pt_table.induct)
  case (1 m v f n)
  show ?case
  proof (cases "3 \<le> n")
    case False
    then have p: "pte_is_present (m f (va_index v n))" "\<not> pte_huge (m f (va_index v n))"
      "\<not> meets_huge m v (pte_physical_address (m f (va_index v n))) (Suc n)"
      using 1(2,3) by (auto simp: walk.simps [of _ _ f n] meets_huge.simps [of _ _ f n] Let_def split: if_splits)
    then have "walk m v (pte_physical_address (m f (va_index v n))) (Suc n) = Some a"
      using 1(2) False by (simp add: walk.simps [of _ _ f n] Let_def)
    then show ?thesis
      using 1(1) False p by (simp add: pt_table.simps [of _ _ f n])
  qed (simp add: pt_table.simps [of _ _ f n])
qed

section \<open>Writing the last entry\<close>

definition same_page :: "u64 \<Rightarrow> u64 \<Rightarrow> bool" where
  "same_page v w \<longleftrightarrow> pml4_index v = pml4_index w \<and> pdpt_index v = pdpt_index w
     \<and> pd_index v = pd_index w \<and> pt_index v = pt_index w"

text \<open>The addresses that a change of the page of \<open>v\<close> in the space \<open>r\<close> may reach: the same page of the
  same space, or of any space when the page is in the kernel half.\<close>

definition touched :: "u64 \<Rightarrow> u64 \<Rightarrow> u64 \<Rightarrow> u64 \<Rightarrow> bool" where
  "touched r v r' w \<longleftrightarrow> same_page v w \<and> (r' = r \<or> 256 \<le> pml4_index v)"

definition same_elsewhere :: "u64 set \<Rightarrow> u64 \<Rightarrow> u64 \<Rightarrow> Vm \<Rightarrow> Vm \<Rightarrow> bool" where
  "same_elsewhere roots r v s s' \<longleftrightarrow>
     (\<forall>r' \<in> roots. \<forall>w. pml4_index w \<noteq> RECURSIVE_ENTRY \<longrightarrow> \<not> touched r v r' w \<longrightarrow>
        translate r' s' w = translate r' s w)"

lemma same_translation_iff:
  "same_translation roots s s' \<longleftrightarrow>
     (\<forall>r \<in> roots. \<forall>w. pml4_index w \<noteq> RECURSIVE_ENTRY \<longrightarrow> translate r s' w = translate r s w)"
  by (simp add: same_translation_def translate_walk va_index_levels)

lemma same_elsewhere_trans:
  "same_translation roots s s' \<Longrightarrow> same_elsewhere roots r v s' s'' \<Longrightarrow> same_elsewhere roots r v s s''"
  by (simp add: same_translation_iff same_elsewhere_def)

lemma leaf_write:
  assumes wf: "vm_wf role roots s" and r: "r \<in> roots" and v: "pml4_index v \<noteq> RECURSIVE_ENTRY"
    and nh: "\<not> meets_huge (vm_mem s) v r 0" and pt: "pt_table (vm_mem s) v r 0 = Some pt"
    and s': "s' = vm_set_entry pt (pt_index v) e s"
  shows "vm_wf role roots s'" "same_elsewhere roots r v s s'"
    "translate r s' v = (if pte_is_present e then Some (pte_physical_address e + (v AND 0xFFF)) else None)"
    "pt_table (vm_mem s') v r 0 = Some pt" "\<not> meets_huge (vm_mem s') v r 0"
proof -
  have root: "role r = Some (role_at r v 0)"
    using wf r by (simp add: vm_wf_def)
  have v0: "va_index v 0 \<noteq> RECURSIVE_ENTRY"
    using v by (simp add: va_index_levels)
  note * = pt_table_role [OF wf v0 _ root nh pt, of "vm_mem s'"]
  have pt_role: "role pt = Some (role_at r v 3)" and path: "walk (vm_mem s') v r 0 = walk (vm_mem s') v pt 3"
    using * by (simp_all add: s' vm_mem_set)
  show "pt_table (vm_mem s') v r 0 = Some pt" "\<not> meets_huge (vm_mem s') v r 0"
    using * by (simp_all add: s' vm_mem_set)
  show "vm_wf role roots s'"
    unfolding s' by (rule wf_set_entry [OF wf pt_role]) (simp add: entry_ok_def edge_def)
  show "translate r s' v = (if pte_is_present e then Some (pte_physical_address e + (v AND 0xFFF)) else None)"
    unfolding translate_walk path offset_masks
    by (simp add: walk.simps [of _ _ _ 3] s' vm_mem_set va_index_levels Let_def)
  have only: "only_entry role pt (va_index v 3) s s'"
    by (simp add: only_entry_def s' vm_mem_set va_index_levels)
  show "same_elsewhere roots r v s s'"
    unfolding same_elsewhere_def translate_walk
  proof (intro ballI allI impI)
    fix r' w
    assume r': "r' \<in> roots" and w: "pml4_index w \<noteq> RECURSIVE_ENTRY" and off: "\<not> touched r v r' w"
    show "walk (vm_mem s') w r' 0 = walk (vm_mem s) w r' 0"
    proof (rule walk_update [OF wf only])
      fix n
      assume n: "n \<le> 3" "role pt = Some (role_at r' w n)" "va_index v 3 = va_index w n"
      then have "role_at r' w n = role_at r v 3"
        using pt_role by simp
      note walk_last [OF this n(1)]
      then have "touched r v r' w"
        using n(3) by (auto simp: touched_def same_page_def va_index_levels)
      then show "walk (vm_mem s') w pt n = walk (vm_mem s) w pt n"
        using off by contradiction
    qed (use wf r' w in \<open>simp_all add: vm_wf_def va_index_levels\<close>)
  qed
qed

section \<open>Properties\<close>

lemma map_leaf:
  assumes wf: "vm_wf role roots s" and r: "r \<in> roots" and v: "pml4_index v \<noteq> RECURSIVE_ENTRY"
    and nh: "\<not> meets_huge (vm_mem s) v r 0"
  shows "case try_then (walk_to_pt r v fl)
      (\<lambda>pt s. (Inr (), vm_set_entry pt (pt_index v) (pte_set_address phys fl) s)) s of
     (Inl _, s') \<Rightarrow> (\<exists>role'. vm_wf role' roots s') \<and> same_translation roots s s' \<and> card (pmm_free_pages (vm_pmm s)) < 3
   | (Inr (), s') \<Rightarrow> (\<exists>role'. vm_wf role' roots s') \<and> same_elsewhere roots r v s s'
       \<and> translate r s' v = (if fl AND PRESENT \<noteq> 0 then Some (pte_physical_address phys + (v AND 0xFFF)) else None)
       \<and> \<not> meets_huge (vm_mem s') v r 0
       \<and> (\<exists>pt. pt_table (vm_mem s') v r 0 = Some pt \<and> vm_mem s' pt (pt_index v) = pte_set_address phys fl)"
proof -
  have v0: "va_index v 0 \<noteq> RECURSIVE_ENTRY"
    using v by (simp add: va_index_levels)
  have pres: "fl AND PRESENT \<noteq> 0 \<longleftrightarrow> pte_is_present (pte_set_address phys fl)"
    unfolding pte_present_set PRESENT_def by (rule and_flag_iff) simp
  show ?thesis
  proof (cases rule: walk_to_pt_cases [OF wf r v0 nh, of fl, case_names err ok])
    case (err msg s' role')
    then show ?thesis
      by (auto simp: try_then_def)
  next
    case (ok pt s' role')
    note * = leaf_write [OF ok(2) r v ok(6,5) refl, of "pte_set_address phys fl"]
    let ?s = "vm_set_entry pt (pt_index v) (pte_set_address phys fl) s'"
    have eq: "try_then (walk_to_pt r v fl) (\<lambda>pt s. (Inr (), vm_set_entry pt (pt_index v) (pte_set_address phys fl) s)) s
        = (Inr (), ?s)"
      using ok(1) by (simp add: try_then_def)
    have "vm_mem ?s pt (pt_index v) = pte_set_address phys fl"
      by (simp add: vm_mem_set)
    moreover note same_elsewhere_trans [OF ok(4) *(2)]
    ultimately show ?thesis
      unfolding pres eq prod.case sum.case unit.case using *(1,3-5) pte_address_set by metis
  qed
qed

text \<open>C2: \<open>map_page_with_flags\<close> on an address whose walk meets no large page keeps the page tables a
  forest.  When it succeeds, the last entry of the walk holds the frame and the flags given, so that the
  page translates to the frame (and faults if the flags lack PRESENT), and no other page of any
  address space translates differently; a page of the lower half of one process is never visible to
  another.  It fails only with fewer than three free frames, and then no translation has changed.\<close>

theorem map_page_with_flags_spec:
  assumes "vm_wf role roots s" "r \<in> roots" "pml4_index v \<noteq> RECURSIVE_ENTRY" "\<not> meets_huge (vm_mem s) v r 0"
  shows "case map_page_with_flags r v phys fl s of
     (Inl _, s') \<Rightarrow> (\<exists>role'. vm_wf role' roots s') \<and> card (pmm_free_pages (vm_pmm s)) < 3
        \<and> (\<forall>r' \<in> roots. \<forall>w. pml4_index w \<noteq> RECURSIVE_ENTRY \<longrightarrow> translate r' s' w = translate r' s w)
   | (Inr (), s') \<Rightarrow> (\<exists>role'. vm_wf role' roots s')
        \<and> (\<exists>pt. pt_table (vm_mem s') v r 0 = Some pt
             \<and> pte_physical_address (vm_mem s' pt (pt_index v)) = pte_physical_address phys
             \<and> pte_flags (vm_mem s' pt (pt_index v)) = pte_flags fl)
        \<and> translate r s' v = (if fl AND PRESENT \<noteq> 0 then Some (pte_physical_address phys + (v AND 0xFFF)) else None)
        \<and> (\<forall>r' \<in> roots. \<forall>w. pml4_index w \<noteq> RECURSIVE_ENTRY \<longrightarrow>
             \<not> (same_page v w \<and> (r' = r \<or> 256 \<le> pml4_index v)) \<longrightarrow> translate r' s' w = translate r' s w)"
  using map_leaf [OF assms, of fl phys] pte_address_set [of phys fl] pte_flags_set [of phys fl]
  by (auto simp: map_page_with_flags_def same_translation_iff same_elsewhere_def touched_def
      split: prod.splits sum.splits unit.splits)

text \<open>The instance of the witnesses: one empty address space and four free frames.\<close>

definition vm_example :: Vm where
  "vm_example = \<lparr>vm_mem = (\<lambda>_ _. 0), vm_pmm = pmm_example\<rparr>"

lemma vm_example_wf: "vm_wf [0x1000 \<mapsto> (Some 0x1000, [])] {0x1000} vm_example"
  unfolding vm_wf_def table_ok_def vm_example_def
  by (auto simp: pmm_example_wf pmm_example_free page_of_def PAGE_SIZE_def split: if_splits)

lemma vm_example_no_huge: "\<not> meets_huge (vm_mem vm_example) v f n"
  by (simp add: meets_huge.simps vm_example_def)

lemma index_example: "pml4_index 0x400000 = 0"
  by (simp add: pml4_index_def)

theorem map_page_with_flags_spec_witness:
  "\<exists>s'. map_page_with_flags 0x1000 0x400000 0x200000 7 vm_example = (Inr (), s') \<and> translate 0x1000 s' 0x400000 = Some 0x200000"
proof -
  have "pml4_index 0x400000 \<noteq> RECURSIVE_ENTRY"
    by (simp add: index_example RECURSIVE_ENTRY_def)
  note * = map_page_with_flags_spec [OF vm_example_wf insertI1 this vm_example_no_huge, of "0x200000" 7]
  obtain res s' where eq: "map_page_with_flags 0x1000 0x400000 0x200000 7 vm_example = (res, s')"
    by fastforce
  have "card (pmm_free_pages (vm_pmm vm_example)) = 4"
    by (simp add: vm_example_def pmm_example_free)
  then have res: "res = Inr ()"
    using * unfolding eq by (cases res) auto
  have fl: "(7 :: u64) AND PRESENT \<noteq> 0" and phys: "pte_physical_address 0x200000 + ((0x400000 :: u64) AND 0xFFF) = 0x200000"
    by (simp_all add: PRESENT_def pte_physical_address_def)
  have "translate 0x1000 s' 0x400000 = Some 0x200000"
    using * [unfolded eq res prod.case sum.case unit.case, THEN conjunct2, THEN conjunct2, THEN conjunct1] fl
    unfolding phys by (simp only: if_True not_False_eq_True)
  then show ?thesis
    using eq res by blast
qed

lemma handle_fault_pt:
  assumes "pt_table (vm_mem s) v r 0 = Some pt"
  shows "handle_fault r v s =
    (if \<not> pte_is_present (vm_mem s pt (pt_index v)) \<and> pte_flags (vm_mem s pt (pt_index v)) AND ON_DEMAND \<noteq> 0
     then try_then (vm_alloc_page ''OOM: cannot allocate physical page for fault'') (\<lambda>phys s.
            let s = vm_zero_page phys s;
                flags = (pte_flags (vm_mem s pt (pt_index v)) AND NOT ON_DEMAND OR PRESENT) AND NOT NO_EXECUTE
            in (Inr (), vm_set_entry pt (pt_index v) (pte_set_address phys flags) s)) s
     else (Inl ''Not an on-demand page'', s))"
  using assms
  by (simp add: handle_fault_def va_index_levels pt_table.simps numeral_2_eq_2 Let_def split: if_splits)

lemma unmap_page_pt:
  assumes "pt_table (vm_mem s) v r 0 = Some pt"
  shows "unmap_page r v s =
    (if \<not> pte_is_present (vm_mem s pt (pt_index v)) \<and> pte_flags (vm_mem s pt (pt_index v)) AND ON_DEMAND = 0
     then (Inl ''PT not present'', s)
     else (Inr (pte_physical_address (vm_mem s pt (pt_index v))),
           vm_set_entry pt (pt_index v) (pte_set_address 0 0) s))"
  using assms
  by (simp add: unmap_page_def va_index_levels pt_table.simps numeral_2_eq_2 Let_def split: if_splits)

lemma fault_flags:
  "bit ((fl AND NOT ON_DEMAND OR PRESENT) AND NOT NO_EXECUTE) 0"
  by (simp add: bit_or_iff bit_and_iff bit_not_iff bit_flag_consts)

lemma vm_zero_free:
  assumes "vm_wf role roots s" "role a = None" "pmm_wf p" "pmm_free_pages p \<subseteq> pmm_free_pages (vm_pmm s)"
  shows "vm_wf role roots (vm_zero_page a (s\<lparr>vm_pmm := p\<rparr>))"
    "same_translation roots s (vm_zero_page a (s\<lparr>vm_pmm := p\<rparr>))"
proof -
  let ?s = "vm_zero_page a (s\<lparr>vm_pmm := p\<rparr>)"
  have mem: "vm_mem ?s h j = vm_mem s h j" if "role h \<noteq> None" for h j
    using that assms(2) by (auto simp: vm_mem_zero)
  show "vm_wf role roots ?s"
    using assms mem unfolding vm_wf_def table_ok_def by (auto 4 3)
  show "same_translation roots s ?s"
  proof (rule same_translationI [OF assms(1), of a 0])
    show "only_entry role a 0 s ?s"
      using mem by (simp add: only_entry_def)
  qed (use assms(2) in simp)
qed

text \<open>C15: On-demand paging.  A page mapped with \<open>map_user_page(virt, true)\<close> does not translate; the first
  fault on it gives it a zeroed frame that was free, and only that page of that space (or of the
  shared kernel half) translates differently.  Without a free frame the fault reports it and
  changes nothing.\<close>

theorem on_demand_fault:
  assumes "vm_wf role roots s" "r \<in> roots" "pml4_index v \<noteq> RECURSIVE_ENTRY" "\<not> meets_huge (vm_mem s) v r 0"
    and "map_user_page r v True s = (Inr (), s1)"
  shows "translate r s1 v = None
    \<and> (case handle_fault r v s1 of
         (Inl msg, s2) \<Rightarrow> msg = ''OOM: cannot allocate physical page for fault'' \<and> s2 = s1
            \<and> pmm_free_pages (vm_pmm s1) = {}
       | (Inr (), s2) \<Rightarrow> \<exists>a. fst (alloc_page (vm_pmm s1)) = Some a
            \<and> translate r s2 v = Some (a + (v AND 0xFFF)) \<and> (\<forall>i. vm_mem s2 a i = 0)
            \<and> (\<forall>r' \<in> roots. \<forall>w. pml4_index w \<noteq> RECURSIVE_ENTRY \<longrightarrow>
                 \<not> (same_page v w \<and> (r' = r \<or> 256 \<le> pml4_index v)) \<longrightarrow> translate r' s2 w = translate r' s w))"
proof -
  let ?fl = "USER OR WRITABLE OR ON_DEMAND"
  have "\<not> bit ?fl 0" "bit ?fl 9"
    by (simp_all add: bit_or_iff bit_flag_consts ON_DEMAND_def bit_push_bit_iff)
  then have fl: "?fl AND PRESENT = 0" "\<not> bit ?fl 0" "bit ?fl 9"
    using and_flag_iff [of 0 ?fl] by (simp_all add: PRESENT_def)
  have eq: "try_then (walk_to_pt r v ?fl) (\<lambda>pt s. (Inr (), vm_set_entry pt (pt_index v) (pte_set_address 0 ?fl) s)) s
      = (Inr (), s1)"
    using assms(5) by (simp add: map_user_page_def Let_def)
  obtain role1 pt where 1: "vm_wf role1 roots s1" "same_elsewhere roots r v s s1" "translate r s1 v = None"
    "\<not> meets_huge (vm_mem s1) v r 0" "pt_table (vm_mem s1) v r 0 = Some pt"
    "vm_mem s1 pt (pt_index v) = pte_set_address 0 ?fl"
    using map_leaf [OF assms(1-4), of ?fl 0, unfolded eq prod.case sum.case unit.case] fl(1) by auto
  have od: "\<not> pte_is_present (vm_mem s1 pt (pt_index v))" "pte_flags (vm_mem s1 pt (pt_index v)) AND ON_DEMAND \<noteq> 0"
    using fl and_flag_iff [of 9 "pte_flags ?fl"] by (simp_all add: 1(6) pte_present_set ON_DEMAND_def bit_pte_flags)
  show ?thesis
  proof (cases rule: vm_alloc_page_cases [OF 1(1), of "''OOM: cannot allocate physical page for fault''", case_names oom ok])
    case oom
    then show ?thesis
      using 1(3) od by (simp add: handle_fault_pt [OF 1(5)] try_then_def)
  next
    case (ok a p)
    let ?s = "vm_zero_page a (s1\<lparr>vm_pmm := p\<rparr>)"
    define e where "e = pte_set_address a
        ((pte_flags (vm_mem ?s pt (pt_index v)) AND NOT ON_DEMAND OR PRESENT) AND NOT NO_EXECUTE)"
    define s2 where "s2 = vm_set_entry pt (pt_index v) e ?s"
    note z = vm_zero_free [OF 1(1) ok(2,4,5)]
    have v0: "va_index v 0 \<noteq> RECURSIVE_ENTRY"
      using assms(3) by (simp add: va_index_levels)
    have root: "role1 r = Some (role_at r v 0)"
      using 1(1) assms(2) by (simp add: vm_wf_def)
    have "vm_mem ?s h j = vm_mem s1 h j" if "role1 h \<noteq> None" for h j
      using that ok(2) by (auto simp: vm_mem_zero)
    then have path: "pt_table (vm_mem ?s) v r 0 = Some pt" "\<not> meets_huge (vm_mem ?s) v r 0" "role1 pt \<noteq> None"
      using pt_table_role [OF 1(1) v0 _ root 1(4,5), of "vm_mem ?s"] by auto
    note w = leaf_write [OF z(1) assms(2,3) path(2,1) s2_def]
    have "pt \<noteq> a"
      using path(3) ok(2) by auto
    then have zero: "vm_mem s2 a i = 0" for i
      by (simp add: s2_def vm_mem_set vm_mem_zero)
    have fault: "handle_fault r v s1 = (Inr (), s2)"
      using ok(1) od by (simp add: handle_fault_pt [OF 1(5)] try_then_def s2_def e_def Let_def)
    have tr: "translate r s2 v = Some (a + (v AND 0xFFF))"
      using w(3) ok(3) by (simp add: e_def pte_present_set fault_flags)
    have "same_elsewhere roots r v s1 s2"
      using z(2) w(2) by (rule same_elsewhere_trans)
    then have "same_elsewhere roots r v s s2"
      using 1(2) by (simp add: same_elsewhere_def)
    moreover have "fst (alloc_page (vm_pmm s1)) = Some a"
      using ok(1) by (auto simp: vm_alloc_page_def split: prod.splits option.splits)
    ultimately show ?thesis
      unfolding fault prod.case sum.case unit.case same_elsewhere_def touched_def using 1(3) tr zero by blast
  qed
qed

theorem on_demand_fault_witness:
  "\<exists>s1. map_user_page 0x1000 0x400000 True vm_example = (Inr (), s1) \<and> translate 0x1000 s1 0x400000 = None"
proof -
  let ?fl = "USER OR WRITABLE OR ON_DEMAND"
  have v: "pml4_index 0x400000 \<noteq> RECURSIVE_ENTRY"
    by (simp add: index_example RECURSIVE_ENTRY_def)
  obtain res s1 where eq: "map_user_page 0x1000 0x400000 True vm_example = (res, s1)"
    by fastforce
  then have eq': "try_then (walk_to_pt 0x1000 0x400000 ?fl)
      (\<lambda>pt s. (Inr (), vm_set_entry pt (pt_index 0x400000) (pte_set_address 0 ?fl) s)) vm_example = (res, s1)"
    by (simp add: map_user_page_def Let_def)
  have "card (pmm_free_pages (vm_pmm vm_example)) = 4"
    by (simp add: vm_example_def pmm_example_free)
  then have "res = Inr ()"
    using map_leaf [OF vm_example_wf insertI1 v vm_example_no_huge, of ?fl 0, unfolded eq'] by (cases res) auto
  then show ?thesis
    using on_demand_fault [OF vm_example_wf insertI1 v vm_example_no_huge] eq by blast
qed

text \<open>C16: Unmapping.  \<open>unmap_page\<close> on a page that translates, and on whose walk no large page lies, returns the
  frame it was mapped to; afterwards the page does not translate, a second \<open>unmap_page\<close> reports that it is
  not present, and no other page changes.  (The code does not test for large pages.)\<close>

theorem unmap_page_spec:
  assumes "vm_wf role roots s" "r \<in> roots" "pml4_index v \<noteq> RECURSIVE_ENTRY" "\<not> meets_huge (vm_mem s) v r 0"
    and "translate r s v = Some a"
  shows "case unmap_page r v s of
     (Inl _, _) \<Rightarrow> False
   | (Inr phys, s') \<Rightarrow> a = phys + (v AND 0xFFF) \<and> vm_wf role roots s' \<and> translate r s' v = None
       \<and> unmap_page r v s' = (Inl ''PT not present'', s')
       \<and> (\<forall>r' \<in> roots. \<forall>w. pml4_index w \<noteq> RECURSIVE_ENTRY \<longrightarrow>
            \<not> (same_page v w \<and> (r' = r \<or> 256 \<le> pml4_index v)) \<longrightarrow> translate r' s' w = translate r' s w)"
proof -
  have v0: "va_index v 0 \<noteq> RECURSIVE_ENTRY"
    using assms(3) by (simp add: va_index_levels)
  have root: "role r = Some (role_at r v 0)"
    using assms(1,2) by (simp add: vm_wf_def)
  obtain pt where pt: "pt_table (vm_mem s) v r 0 = Some pt"
    using assms(4,5) translates_pt [of "vm_mem s" v r 0] by (auto simp: translate_walk)
  have walk: "walk (vm_mem s) v r 0 = walk (vm_mem s) v pt 3"
    using pt_table_role [OF assms(1) v0 _ root assms(4) pt, of "vm_mem s"] by simp
  let ?e = "vm_mem s pt (pt_index v)" and ?s = "vm_set_entry pt (pt_index v) (pte_set_address 0 0) s"
  have e: "pte_is_present ?e" "a = pte_physical_address ?e + (v AND 0xFFF)"
    using assms(5) unfolding translate_walk walk offset_masks
    by (auto simp: walk.simps [of _ _ pt 3] va_index_levels Let_def split: if_splits)
  have un: "unmap_page r v s = (Inr (pte_physical_address ?e), ?s)"
    using e(1) by (simp add: unmap_page_pt [OF pt])
  note w = leaf_write [OF assms(1-4) pt refl, of "pte_set_address 0 0"]
  have "pte_flags (pte_set_address 0 0) = 0" "\<not> pte_is_present (pte_set_address 0 0)"
    by (simp_all add: pte_present_set) (simp add: pte_flags_def)
  then have "unmap_page r v ?s = (Inl ''PT not present'', ?s)" "translate r ?s v = None"
    using w(3) by (simp_all add: unmap_page_pt [OF w(4)] vm_mem_set)
  then show ?thesis
    unfolding un prod.case sum.case using e(2) w(1,2) by (simp add: same_elsewhere_def touched_def)
qed

theorem unmap_page_spec_witness:
  "\<exists>s a. translate 0x1000 s 0x400000 = Some a \<and> fst (unmap_page 0x1000 0x400000 s) = Inr 0x200000"
proof -
  have v: "pml4_index 0x400000 \<noteq> RECURSIVE_ENTRY"
    by (simp add: index_example RECURSIVE_ENTRY_def)
  have n3: "card (pmm_free_pages (vm_pmm vm_example)) = 4"
    by (simp add: vm_example_def pmm_example_free)
  let ?k = "\<lambda>pt s. (Inr (), vm_set_entry pt (pt_index 0x400000) (pte_set_address 0x200000 PRESENT) s)"
  obtain res s' where eq: "try_then (walk_to_pt 0x1000 0x400000 PRESENT) ?k vm_example = (res, s')"
    by fastforce
  note * = map_leaf [OF vm_example_wf insertI1 v vm_example_no_huge, of PRESENT "0x200000", unfolded eq]
  have res: "res = Inr ()"
    using * n3 by (cases res) auto
  have phys: "PRESENT AND PRESENT \<noteq> 0" "pte_physical_address 0x200000 = 0x200000"
    by (simp_all add: PRESENT_def pte_physical_address_def)
  obtain role' where wf: "vm_wf role' {0x1000} s'"
    and tr: "translate 0x1000 s' 0x400000 = Some (0x200000 + (0x400000 AND 0xFFF))"
    and nh: "\<not> meets_huge (vm_mem s') 0x400000 0x1000 0"
    using * phys unfolding res prod.case sum.case unit.case by (auto simp only: if_True not_False_eq_True simp_thms)
  show ?thesis
    using unmap_page_spec [OF wf insertI1 v nh tr] tr
    by (cases "unmap_page 0x1000 0x400000 s'"; cases "fst (unmap_page 0x1000 0x400000 s')") auto
qed

section \<open>Large pages\<close>

lemma pte_present_flags: "pte_is_present e \<Longrightarrow> bit ((pte_flags e OR x) AND NOT HUGE_PAGE) 0"
  by (simp add: bit_or_iff bit_and_iff bit_not_iff bit_pte_flags bit_flag_consts pte_is_present_bit)

text \<open>C26: Splitting a 1 GiB or a 2 MiB page into a table of 512 smaller pages changes no translation of
  any address space, provided that none of the 4095 frames after the new table holds a page
  table.\<close>

theorem split_keeps_translation:
  assumes "vm_wf role roots s" "role f = Some (role_at r v n)" "n = 1 \<or> n = 2" "pml4_index v \<noteq> RECURSIVE_ENTRY"
    and "pte_is_present (vm_mem s f (va_index v n))" "pte_huge (vm_mem s f (va_index v n))" "wipe_safe role s"
    and "get_or_create_table f (va_index v n) fl (Suc n) s = (Inr g, s')"
  shows "(\<exists>role'. vm_wf role' roots s')
    \<and> (\<forall>r' \<in> roots. \<forall>w. pml4_index w \<noteq> RECURSIVE_ENTRY \<longrightarrow> translate r' s' w = translate r' s w)"
proof -
  let ?e = "vm_mem s f (va_index v n)"
  have v0: "va_index v 0 \<noteq> RECURSIVE_ENTRY" and n: "n < 3" "0 < n"
    using assms(3,4) by (auto simp: va_index_levels)
  have "vm_wf (role(g \<mapsto> role_at r v (Suc n))) roots s' \<and> same_translation roots s s'"
  proof (cases rule: vm_alloc_page_cases [OF assms(1), of "''OOM''", case_names oom ok])
    case oom
    then have False
      using assms(3,5,6,8)
      by (auto simp: get_or_create_table_def pte_huge_def split_1gib_page_def split_2mib_page_def try_then_def Let_def)
    then show ?thesis ..
  next
    case (ok a p)
    have "fst (alloc_page (vm_pmm s)) = Some a"
      using ok(1) by (auto simp: vm_alloc_page_def split: prod.splits option.splits)
    then have safe: "\<forall>h \<in> wiped a. role h = None"
      using assms(7) by (simp add: wipe_safe_def)
    note step = split_table [OF assms(1,2) n(1) v0 n(2) refl assms(5,6) ok(2-6) safe]
    show ?thesis
      using assms(3)
    proof
      assume 1: "n = 1"
      have "g = a" "s' = vm_set_entry f (va_index v n) (pte_set_address a (PRESENT OR WRITABLE OR (fl AND USER)))
          (vm_fill_table a (\<lambda>i. pte_set_address (pte_physical_address ?e + of_nat i * 2 ^ (39 - 9 * Suc n))
             ((pte_flags ?e OR (fl AND (USER OR WRITABLE))) AND NOT HUGE_PAGE OR HUGE_PAGE))
            (vm_zero_tables a 4096 (s\<lparr>vm_pmm := p\<rparr>)))"
        using assms(5,6,8) ok(1) unfolding 1
        by (auto simp: get_or_create_table_def pte_huge_def split_1gib_page_def try_then_def Let_def)
      then show ?thesis
        using step [OF _ _ refl, of "(pte_flags ?e OR (fl AND (USER OR WRITABLE))) AND NOT HUGE_PAGE OR HUGE_PAGE" s' fl]
          pte_present_flags [OF assms(5)] by (simp add: bit_or_iff bit_flag_consts)
    next
      assume 2: "n = 2"
      have "g = a" "s' = vm_set_entry f (va_index v n) (pte_set_address a (PRESENT OR WRITABLE OR (fl AND USER)))
          (vm_fill_table a (\<lambda>i. pte_set_address (pte_physical_address ?e + of_nat i * 2 ^ (39 - 9 * Suc n))
             ((pte_flags ?e OR (fl AND (USER OR WRITABLE))) AND NOT HUGE_PAGE))
            (vm_zero_tables a 4096 (s\<lparr>vm_pmm := p\<rparr>)))"
        using assms(5,6,8) ok(1) unfolding 2
        by (auto simp: get_or_create_table_def pte_huge_def split_2mib_page_def try_then_def Let_def)
      then show ?thesis
        using step [OF _ _ refl, of "(pte_flags ?e OR (fl AND (USER OR WRITABLE))) AND NOT HUGE_PAGE" s' fl]
          pte_present_flags [OF assms(5)] 2 by simp
    qed
  qed
  then show ?thesis
    by (auto simp: same_translation_iff)
qed

text \<open>The instance: one space whose first GiB is a large page mapped to physical address 0.\<close>

definition vm_large :: Vm where
  "vm_large = \<lparr>vm_mem = (\<lambda>f i. if f = 0x1000 \<and> i = 0 then 0x2003 else if f = 0x2000 \<and> i = 0 then 0x81 else 0),
               vm_pmm = pmm_example\<rparr>"

abbreviation large_roles :: roles where
  "large_roles \<equiv> [0x1000 \<mapsto> (Some 0x1000, []), 0x2000 \<mapsto> (Some 0x1000, [0])]"

lemma vm_large_entries:
  "pte_is_present 0x2003" "pte_physical_address 0x2003 = 0x2000" "\<not> pte_huge 0x2003"
  "pte_is_present 0x81" "pte_physical_address 0x81 = 0" "pte_huge 0x81"
  by (simp_all add: pte_is_present_def PRESENT_def pte_physical_address_def pte_huge_def pte_flags_def HUGE_PAGE_def)

lemma vm_large_wf: "vm_wf large_roles {0x1000} vm_large"
  unfolding vm_wf_def table_ok_def entry_ok_def vm_large_def
  by (auto simp: pmm_example_wf pmm_example_free page_of_def PAGE_SIZE_def vm_large_entries edge_def
      child_role_def aligned_bits_def split: if_splits)

lemma pmm_example_first: "fst (alloc_page pmm_example) = Some 0x100000"
proof -
  obtain a where a: "fst (alloc_page pmm_example) = Some a"
    using alloc_page_none(1) [OF pmm_example_wf] by (cases "fst (alloc_page pmm_example)") (auto simp: pmm_example_free)
  then obtain page where "a = of_nat (page * PAGE_SIZE)" "page \<in> {256..<260}" "\<And>q. q \<in> {256..<260} \<Longrightarrow> page \<le> q"
    using alloc_page_some [OF pmm_example_wf a] unfolding pmm_example_free by blast
  moreover have "256 \<in> {256..<260 :: nat}" by simp
  with calculation(2,3) have "page = 256" by fastforce
  ultimately show ?thesis
    using a by (simp add: PAGE_SIZE_def)
qed

theorem split_keeps_translation_witness:
  "\<exists>g s'. get_or_create_table 0x2000 0 2 2 vm_large = (Inr g, s') \<and> translate 0x1000 s' 0x3FFFFFFF = Some 0x3FFFFFFF"
proof -
  have idx: "va_index 0x3FFFFFFF 0 = 0" "va_index 0x3FFFFFFF 1 = 0" "va_index 0 n = 0" for n
    by (simp_all add: va_index_def mask_eq_decr_exp)
  have ro: "large_roles 0x2000 = Some (role_at 0x1000 0 1)"
    by (simp add: role_at_def idx)
  have e: "vm_mem vm_large 0x2000 (va_index 0 1) = 0x81"
    by (simp add: vm_large_def idx)
  obtain res s' where eq: "get_or_create_table 0x2000 0 2 2 vm_large = (res, s')"
    by fastforce
  obtain g where g: "res = Inr g"
    using eq pmm_example_first e vm_large_entries(4,6)
    by (cases "alloc_page pmm_example")
      (auto simp: get_or_create_table_def split_1gib_page_def vm_alloc_page_def try_then_def vm_large_def idx Let_def pte_huge_def)
  have "large_roles (0x100000 + of_nat k * 4096) = None" if "k < 4096" for k
  proof -
    have "unat (of_nat (0x100000 + k * 4096) :: u64) = 0x100000 + k * 4096"
      using that by (intro unat_of_nat_small) simp
    then have un: "unat (0x100000 + of_nat k * 4096 :: u64) = 0x100000 + k * 4096"
      by simp
    have "0x100000 + of_nat k * 4096 \<noteq> (0x1000 :: u64)" "0x100000 + of_nat k * 4096 \<noteq> (0x2000 :: u64)"
      unfolding word_unat_eq_iff un by simp_all
    then show ?thesis
      by (simp only: fun_upd_apply if_False)
  qed
  then have safe: "wipe_safe large_roles vm_large"
    using pmm_example_first by (auto simp: wipe_safe_def vm_large_def)
  have v: "pml4_index 0 \<noteq> RECURSIVE_ENTRY" "pml4_index 0x3FFFFFFF \<noteq> RECURSIVE_ENTRY"
    by (simp_all add: pml4_index_def RECURSIVE_ENTRY_def)
  have "translate 0x1000 vm_large 0x3FFFFFFF = Some 0x3FFFFFFF"
    using vm_large_entries idx(1,2)
    by (simp add: translate_walk walk.simps [of _ _ "0x1000"] walk.simps [of _ _ "0x2000"] vm_large_def mask_eq_decr_exp Let_def)
  then show ?thesis
    using split_keeps_translation [OF vm_large_wf ro _ v(1) _ _ safe, of 2 g s'] eq g v(2) e vm_large_entries(4,6)
    by (auto simp: idx simp flip: numeral_2_eq_2)
qed

text \<open>C38: When a split succeeds, all 4095 frames after the new table are zero, but for the entry just
  written if the parent table is one of them: \<open>write_bytes\<close> on a \<open>*mut PageTable\<close> counts 4096 tables
  (16 MiB), not 4096 bytes.\<close>

theorem split_zeroes_following_frames:
  assumes "split_1gib_page f i fl s = (Inr g, s') \<or> split_2mib_page f i fl s = (Inr g, s')"
    and "k \<in> {1..<4096}" "h = g + of_nat k * 4096"
  shows "vm_mem s' h j = 0 \<or> h = f \<and> j = i"
proof -
  have "(of_nat k :: u64) * 4096 \<noteq> 0"
  proof -
    have "unat (of_nat (k * 4096) :: u64) = k * 4096"
      using assms(2) by (intro unat_of_nat_small) simp
    then show ?thesis
      using assms(2) by (metis atLeastLessThan_iff mult_is_0 not_one_le_zero numeral_eq_iff of_nat_mult of_nat_numeral unsigned_0 zero_neq_numeral)
  qed
  then have "h \<noteq> g" "\<exists>k < 4096. h = g + of_nat k * 4096"
    using assms(2,3) by auto
  then show ?thesis
    using assms(1)
    by (auto simp: split_1gib_page_def split_2mib_page_def try_then_def Let_def vm_mems
        split: prod.splits sum.splits if_splits)
qed

theorem split_zeroes_following_frames_witness:
  "\<exists>s'. split_1gib_page 0x2000 0 2 (vm_set_entry 0x200000 5 0x1234 vm_large) = (Inr 0x100000, s')
     \<and> vm_mem (vm_set_entry 0x200000 5 0x1234 vm_large) 0x200000 5 = 0x1234 \<and> vm_mem s' 0x200000 5 = 0"
proof -
  let ?s = "vm_set_entry 0x200000 5 0x1234 vm_large"
  have "vm_pmm ?s = pmm_example"
    by (simp add: vm_large_def)
  then obtain s' where eq: "split_1gib_page 0x2000 0 2 ?s = (Inr 0x100000, s')"
    using pmm_example_first
    by (cases "alloc_page pmm_example") (auto simp: split_1gib_page_def vm_alloc_page_def try_then_def Let_def)
  have "vm_mem s' 0x200000 5 = 0 \<or> (0x200000 :: u64) = 0x2000 \<and> 5 = (0 :: nat)"
    by (rule split_zeroes_following_frames [OF disjI1 [OF eq], of 256]) simp_all
  then show ?thesis
    using eq by (simp add: vm_mem_set)
qed

section \<open>New address spaces\<close>

lemma copy_entry_mem:
  "vm_mem (copy_kernel_entry k new i s) h j =
     (if h = new \<and> j = i \<and> pte_is_present (vm_mem s k i) then vm_mem s k i else vm_mem s h j)"
  by (simp add: copy_kernel_entry_def Let_def vm_mem_set)

lemma copy_kernel_mem:
  assumes "k \<noteq> new"
  shows "vm_mem (fold (copy_kernel_entry k new) [a..<b] s) h j =
    (if h = new \<and> a \<le> j \<and> j < b \<and> pte_is_present (vm_mem s k j) then vm_mem s k j else vm_mem s h j)"
  by (induction b arbitrary: h j) (use assms in \<open>auto simp: copy_entry_mem less_Suc_eq\<close>)

lemma copy_kernel_pmm: "vm_pmm (fold (copy_kernel_entry k new) xs s) = vm_pmm s"
  by (induction xs arbitrary: s) (simp_all add: copy_kernel_entry_def Let_def)

lemma walk_shared:
  fixes s' :: Vm
  assumes wf: "vm_wf role roots s" and new: "role new = None"
    and mem: "\<And>h j. h \<noteq> new \<Longrightarrow> vm_mem s' h j = vm_mem s h j"
    and v: "va_index v 0 \<noteq> RECURSIVE_ENTRY" "n \<le> 3" "role f = Some (role_at r v n)"
  shows "walk (vm_mem s') v f n = walk (vm_mem s) v f n"
proof (rule walk_update [OF wf, where ?f0.0 = new and ?i0.0 = 0])
  show "only_entry role new 0 s s'"
    using mem new unfolding only_entry_def by metis
qed (use v new in auto)

lemma create_space_steps:
  assumes wf: "vm_wf role roots s" and k: "k \<in> roots" and create: "create_user_page_table k s = (Some new, s')"
  shows "role new = None" "new \<notin> roots" "k \<noteq> new" "page_of new \<notin> pmm_free_pages (vm_pmm s')" "page_of new \<in> pmm_free_pages (vm_pmm s)"
    "pmm_wf (vm_pmm s')" "pmm_free_pages (vm_pmm s') \<subseteq> pmm_free_pages (vm_pmm s)"
    "card (pmm_free_pages (vm_pmm s)) \<le> Suc (card (pmm_free_pages (vm_pmm s')))"
    "vm_mem s' h j = (if h = new then
        if j = 510 then pte_set_address new (PRESENT OR WRITABLE OR NO_EXECUTE)
        else if 256 \<le> j \<and> j < 512 \<and> pte_is_present (vm_mem s k j) then vm_mem s k j else 0
      else vm_mem s h j)"
proof -
  obtain p where al: "alloc_page (vm_pmm s) = (Some new, p)"
  proof (cases "alloc_page (vm_pmm s)")
    case (Pair a p)
    then show thesis
      using create that by (cases a) (simp_all add: create_user_page_table_def Let_def del: upt_rec_numeral)
  qed
  then have st: "vm_alloc_page '''' s = (Inr new, s\<lparr>vm_pmm := p\<rparr>)"
    by (simp add: vm_alloc_page_def)
  have eq: "p' = p" if "s\<lparr>vm_pmm := p\<rparr> = s\<lparr>vm_pmm := p'\<rparr>" for p'
    using arg_cong [OF that, of vm_pmm] by simp
  have ok: "role new = None" "pmm_wf p" "pmm_free_pages p \<subseteq> pmm_free_pages (vm_pmm s)" "page_of new \<notin> pmm_free_pages p"
      "card (pmm_free_pages (vm_pmm s)) \<le> Suc (card (pmm_free_pages p))" "page_of new \<in> pmm_free_pages (vm_pmm s)"
    by (rule vm_alloc_page_cases [OF wf, of "''''"]; use st eq in force)+
  show kn: "k \<noteq> new" "new \<notin> roots"
    using wf k ok(1) by (auto simp: vm_wf_def)
  have s': "s' = vm_set_entry new RECURSIVE_ENTRY (pte_set_address new (PRESENT OR WRITABLE OR NO_EXECUTE))
      (fold (copy_kernel_entry k new) [256..<512] (vm_zero_page new (s\<lparr>vm_pmm := p\<rparr>)))"
    using create by (auto simp: create_user_page_table_def al Let_def simp del: upt_rec_numeral)
  show "vm_mem s' h j = (if h = new then
        if j = 510 then pte_set_address new (PRESENT OR WRITABLE OR NO_EXECUTE)
        else if 256 \<le> j \<and> j < 512 \<and> pte_is_present (vm_mem s k j) then vm_mem s k j else 0
      else vm_mem s h j)"
    using kn(1) unfolding s' RECURSIVE_ENTRY_def vm_mem_set copy_kernel_mem [OF kn(1)]
    by (simp add: vm_mem_zero)
  have "vm_pmm s' = p"
    unfolding s' by (simp add: copy_kernel_pmm del: upt_rec_numeral)
  then show "role new = None" "page_of new \<notin> pmm_free_pages (vm_pmm s')" "page_of new \<in> pmm_free_pages (vm_pmm s)"
    "pmm_wf (vm_pmm s')" "pmm_free_pages (vm_pmm s') \<subseteq> pmm_free_pages (vm_pmm s)"
    "card (pmm_free_pages (vm_pmm s)) \<le> Suc (card (pmm_free_pages (vm_pmm s')))"
    using ok by simp_all
qed

lemma create_space_wf:
  assumes wf: "vm_wf role roots s" and k: "k \<in> roots" and create: "create_user_page_table k s = (Some new, s')"
  obtains role' where "vm_wf role' (insert new roots) s'" "plain role' new s'" "keeps_frames role s role' s'"
proof -
  note c = create_space_steps [OF wf k create]
  have kr: "role k = Some (Some k, [])"
    using wf k by (auto simp: vm_wf_def)
  define role' where
    "role' = (\<lambda>f. case role f of None \<Rightarrow> None | Some ro \<Rightarrow> if fst ro = Some new then None else Some ro)(new \<mapsto> (Some new, []))"
  have mono: "role' f = Some ro" if "role f = Some ro" "fst ro \<noteq> Some new" for f ro
    using that c(1) by (auto simp: role'_def)
  have old: "role f = Some ro \<and> fst ro \<noteq> Some new \<and> f \<noteq> new" if "role' f = Some ro" "f \<noteq> new" for f ro
    using that by (auto simp: role'_def split: option.splits if_splits)
  have new: "role' new = Some (Some new, [])"
    by (simp add: role'_def)
  have new_ok: "entry_ok role' (Some new, []) j (vm_mem s' new j)" if "j < 512" for j
  proof (cases "j \<noteq> 510 \<and> 256 \<le> j \<and> pte_is_present (vm_mem s k j)")
    case True
    then have "role (pte_physical_address (vm_mem s k j)) = Some (None, [j])"
      using wf_entry [OF wf kr that] by (simp add: entry_ok_def edge_def child_role_def RECURSIVE_ENTRY_def)
    then show ?thesis
      using True that mono by (simp add: c(9) entry_ok_def child_role_def)
  next
    case False
    then show ?thesis
      by (auto simp: c(9) entry_ok_def edge_def RECURSIVE_ENTRY_def)
  qed
  have old_ok: "table_ok role' s' f ro" if f: "role f = Some ro" "fst ro \<noteq> Some new" "f \<noteq> new" for f ro
  proof -
    have "fst (child_role ro i) \<noteq> Some new" for i
      using f(2) by (simp add: child_role_def)
    then have "entry_ok role' ro i (vm_mem s' f i)" if "i < 512" for i
      using wf_entry [OF wf f(1) that] mono f(3) by (auto simp: c(9) entry_ok_def split: if_splits)
    then show ?thesis
      using wf f(1) c(7) unfolding vm_wf_def table_ok_def by blast
  qed
  have "vm_wf role' (insert new roots) s'"
    unfolding vm_wf_def
  proof (intro conjI ballI allI impI)
    fix r
    assume "r \<in> insert new roots"
    then show "role' r = Some (Some r, [])"
      using wf new mono [of r "(Some r, [])"] c(2) unfolding vm_wf_def by auto
  next
    fix f ro
    assume "role' f = Some ro"
    then show "table_ok role' s' f ro"
      using old_ok [of f ro] old [of f ro] new_ok new c(4) by (cases "f = new") (auto simp: table_ok_def)
  qed (rule c(6))
  moreover have "plain role' new s'"
    unfolding plain_def
  proof (intro allI impI)
    fix f path i
    assume "role' f = Some (Some new, path)" "path = [] \<longrightarrow> i < 256" "pte_is_present (vm_mem s' f i)"
    then show "\<not> pte_huge (vm_mem s' f i)"
      using old [of f "(Some new, path)"] new by (cases "f = new") (simp_all add: c(9))
  qed
  moreover have "keeps_frames role s role' s'"
    unfolding keeps_frames_def
  proof (intro allI impI conjI)
    fix d
    assume d: "role d = None" "page_of d \<notin> pmm_free_pages (vm_pmm s)"
    then have "d \<noteq> new"
      using c(5) by blast
    then show "role' d = None" "vm_mem s' d = vm_mem s d"
      using d(1) by (simp_all add: role'_def c(9) fun_eq_iff)
    show "page_of d \<notin> pmm_free_pages (vm_pmm s')"
      using d(2) c(7) by blast
  qed (rule c(7))
  ultimately show thesis
    by (rule that)
qed

lemma create_space_translate:
  assumes wf: "vm_wf role roots s" and k: "k \<in> roots" and create: "create_user_page_table k s = (Some new, s')"
  shows "pml4_index w < 256 \<Longrightarrow> translate new s' w = None"
    "256 \<le> pml4_index w \<Longrightarrow> pml4_index w \<noteq> RECURSIVE_ENTRY \<Longrightarrow> translate new s' w = translate k s w"
    "r \<in> roots \<Longrightarrow> pml4_index w \<noteq> RECURSIVE_ENTRY \<Longrightarrow> translate r s' w = translate r s w"
proof -
  note c = create_space_steps [OF assms]
  have mem: "vm_mem s' h j = vm_mem s h j" if "h \<noteq> new" for h j
    using that by (simp add: c(9))
  show "translate new s' w = None" if "pml4_index w < 256"
    using that by (simp add: translate_walk walk.simps [of _ _ new] c(9) va_index_levels Let_def)
  show "translate r s' w = translate r s w" if "r \<in> roots" "pml4_index w \<noteq> RECURSIVE_ENTRY"
    unfolding translate_walk
    by (rule walk_shared [OF wf c(1), of _ w 0 r r]) (use that wf mem in \<open>auto simp: va_index_levels vm_wf_def\<close>)
  show "translate new s' w = translate k s w" if "256 \<le> pml4_index w" "pml4_index w \<noteq> RECURSIVE_ENTRY"
  proof -
    let ?e = "vm_mem s k (va_index w 0)"
    have kr: "role k = Some (Some k, [])"
      using wf k by (auto simp: vm_wf_def)
    have i: "256 \<le> va_index w 0" "va_index w 0 \<noteq> RECURSIVE_ENTRY"
      using that by (simp_all add: va_index_levels)
    have "walk (vm_mem s') w (pte_physical_address ?e) 1 = walk (vm_mem s) w (pte_physical_address ?e) 1"
      if "pte_is_present ?e"
      using walk_shared [OF wf c(1), of s' w 1 "pte_physical_address ?e" k] wf_child [OF wf, of k k w 0] i kr that mem
      by simp
    then show ?thesis
      using i by (simp add: translate_walk walk.simps [of _ _ _ 0] c(9) RECURSIVE_ENTRY_def Let_def)
  qed
qed

text \<open>C21: \<open>create_user_page_table\<close>.  The new address space has nothing mapped in its lower half, sees in
  its upper half exactly what the kernel's space maps there, and leaves every existing space as it
  was; the page tables stay a forest with the new root.\<close>

theorem create_user_page_table_spec:
  assumes wf: "vm_wf role roots s" and k: "k \<in> roots" and create: "create_user_page_table k s = (Some new, s')"
  shows "(\<exists>role'. vm_wf role' (insert new roots) s') \<and> new \<notin> roots
    \<and> (\<forall>w. pml4_index w < 256 \<longrightarrow> translate new s' w = None)
    \<and> (\<forall>w. 256 \<le> pml4_index w \<and> pml4_index w \<noteq> RECURSIVE_ENTRY \<longrightarrow> translate new s' w = translate k s w)
    \<and> (\<forall>r \<in> roots. \<forall>w. pml4_index w \<noteq> RECURSIVE_ENTRY \<longrightarrow> translate r s' w = translate r s w)"
proof -
  obtain role' where "vm_wf role' (insert new roots) s'"
    by (rule create_space_wf [OF assms])
  then show ?thesis
    using create_space_steps(2) [OF assms] create_space_translate [OF assms] by auto
qed

theorem create_user_page_table_spec_witness:
  "\<exists>new s'. create_user_page_table 0x1000 vm_example = (Some new, s') \<and> new \<noteq> 0x1000 \<and> translate new s' 0x400000 = None"
proof -
  have "fst (alloc_page pmm_example) \<noteq> None"
    using alloc_page_none(1) [OF pmm_example_wf] by (simp add: pmm_example_free)
  then obtain new s' where create: "create_user_page_table 0x1000 vm_example = (Some new, s')"
    by (cases "alloc_page pmm_example") (auto simp: create_user_page_table_def vm_example_def Let_def simp del: upt_rec_numeral)
  have "pml4_index 0x400000 < 256"
    by (simp add: index_example)
  then show ?thesis
    using create_user_page_table_spec [OF vm_example_wf insertI1 create] create by blast
qed

end
