(* ===== verification/Sched.thy ===== *)
theory Sched
  imports Mlfq Vmm
begin

text \<open>
  \<open>kernel/src/scheduler/mod.rs\<close>: the operations on the global scheduler.  Each runs under the
  scheduler lock.  \<open>check_reschedule\<close> raises interrupt 49, whose handler is \<open>reschedule\<close>; an
  operation that ends with it is composed with \<open>reschedule\<close>, as the code runs when it is entered by
  a system call (interrupts are masked until the return).  The register restore at the end of
  \<open>reschedule\<close> and \<open>run\<close> is assembly; the model returns the state in which it runs.
\<close>

section \<open>Operations\<close>

record AllRegisters =
  r_rax :: u64
  r_rbx :: u64
  r_rcx :: u64
  r_rdx :: u64
  r_rbp :: u64
  r_rsi :: u64
  r_rdi :: u64
  r_r8 :: u64
  r_r9 :: u64
  r_r10 :: u64
  r_r11 :: u64
  r_r12 :: u64
  r_r13 :: u64
  r_r14 :: u64
  r_r15 :: u64
  r_error_code :: u64
  r_rip :: u64
  r_cs :: u64
  r_rflags :: u64
  r_rsp :: u64
  r_ss :: u64

text \<open>\<open>run\<close>: the first task.  With nothing to run the kernel panics.\<close>

definition sched_run :: "'f Scheduler \<Rightarrow> 'f Scheduler or_panic" where
  "sched_run s =
     (let (slot, s) = pick_next s
      in if slot = NO_TASK then None
         else case task_at s slot of
                None \<Rightarrow> None
              | Some task \<Rightarrow> Some (set_task slot (task\<lparr>t_state := Running\<rparr>) (s\<lparr>sc_current := slot\<rparr>)))"

text \<open>The registers saved for the task that leaves the CPU; \<open>frame_ptr\<close> is the address of the frame.\<close>

definition save_context :: "AllRegisters \<Rightarrow> u64 \<Rightarrow> Context" where
  "save_context regs frame_ptr =
     (let was_cpl0 = (r_cs regs AND 3 = 0)
      in \<lparr>c_rax = r_rax regs, c_rbx = r_rbx regs, c_rcx = r_rcx regs, c_rdx = r_rdx regs,
          c_rbp = r_rbp regs, c_rsi = r_rsi regs, c_rdi = r_rdi regs, c_r8 = r_r8 regs,
          c_r9 = r_r9 regs, c_r10 = r_r10 regs, c_r11 = r_r11 regs, c_r12 = r_r12 regs,
          c_r13 = r_r13 regs, c_r14 = r_r14 regs, c_r15 = r_r15 regs, c_rip = r_rip regs,
          c_cs = r_cs regs, c_rflags = r_rflags regs,
          c_rsp = (if was_cpl0 then frame_ptr + 152 else r_rsp regs),
          c_ss = (if was_cpl0 then 0x10 else r_ss regs)\<rparr>)"

text \<open>The first half of \<open>reschedule\<close>: save the old task and queue it again if it was running.\<close>

definition save_current :: "AllRegisters \<Rightarrow> u64 \<Rightarrow> 'f Scheduler \<Rightarrow> 'f Scheduler" where
  "save_current regs frame_ptr s =
     (let old_slot = sc_current s
      in case task_at s old_slot of
           None \<Rightarrow> s
         | Some task \<Rightarrow>
             if t_state task = Running
             then upd_queue (t_priority task) (\<lambda>q. tq_push_back q old_slot)
                    (set_task old_slot (task\<lparr>t_state := Ready, t_context := save_context regs frame_ptr\<rparr>) s)
             else set_task old_slot (task\<lparr>t_context := save_context regs frame_ptr\<rparr>) s)"

definition reschedule :: "AllRegisters \<Rightarrow> u64 \<Rightarrow> 'f Scheduler \<Rightarrow> 'f Scheduler or_panic" where
  "reschedule regs frame_ptr s =
     (let old_slot = sc_current s
      in if MAX_TASKS \<le> old_slot then None
         else let (new_slot, s) = pick_next (save_current regs frame_ptr s)
              in if new_slot = NO_TASK \<or> new_slot = old_slot
                 then Some (case task_at s old_slot of
                              None \<Rightarrow> s
                            | Some t \<Rightarrow> set_task old_slot (t\<lparr>t_state := Running\<rparr>) s)
                 else case task_at s new_slot of
                        None \<Rightarrow> None
                      | Some task \<Rightarrow>
                          Some (set_task new_slot (task\<lparr>t_state := Running\<rparr>) (s\<lparr>sc_current := new_slot\<rparr>)))"

definition timer_tick :: "AllRegisters \<Rightarrow> u64 \<Rightarrow> 'f Scheduler \<Rightarrow> 'f Scheduler or_panic" where
  "timer_tick regs frame_ptr s =
     (let (expired, s) = sched_tick s in if expired then reschedule regs frame_ptr s else Some s)"

definition current_slot :: "'f Scheduler \<Rightarrow> nat" where
  "current_slot s = sc_current s"

definition current_pid :: "'f Scheduler \<Rightarrow> nat or_panic" where
  "current_pid s =
     (if MAX_TASKS \<le> sc_current s then None
      else Some (case task_at s (sc_current s) of None \<Rightarrow> 0 | Some t \<Rightarrow> t_id t))"

definition yield_now :: "bool \<Rightarrow> AllRegisters \<Rightarrow> u64 \<Rightarrow> 'f Scheduler \<Rightarrow> 'f Scheduler or_panic" where
  "yield_now active regs frame_ptr s = (if \<not> active then Some s else reschedule regs frame_ptr s)"

definition block_mark :: "BlockReason \<Rightarrow> 'f Scheduler \<Rightarrow> 'f Scheduler or_panic" where
  "block_mark reason s =
     (let slot = sc_current s
      in if MAX_TASKS \<le> slot then None
         else case task_at s slot of
                None \<Rightarrow> Some s
              | Some task \<Rightarrow> boost_for_reason slot reason (set_task slot (task\<lparr>t_state := Blocked\<rparr>) s))"

definition block_current ::
  "BlockReason \<Rightarrow> AllRegisters \<Rightarrow> u64 \<Rightarrow> 'f Scheduler \<Rightarrow> 'f Scheduler or_panic" where
  "block_current reason regs frame_ptr s =
     Option.bind (block_mark reason s) (reschedule regs frame_ptr)"

text \<open>The share of ready and running tasks, scaled to 32 bits.\<close>

definition task_pressure :: "'f Scheduler \<Rightarrow> nat" where
  "task_pressure s =
     (let live = filter (\<lambda>t. t \<noteq> None) (sc_tasks s);
          total = length live;
          ready = length (filter (\<lambda>t. t_state (the t) = Ready \<or> t_state (the t) = Running) live)
      in if total = 0 then 0
         else (min (ready * (2 ^ 32 - 1)) (2 ^ 64 - 1) div total) mod 2 ^ 32)"

definition find_task :: "TaskId \<Rightarrow> 'f Scheduler \<Rightarrow> nat option" where
  "find_task task_id s = position (\<lambda>t. case t of None \<Rightarrow> False | Some x \<Rightarrow> t_id x = task_id) (sc_tasks s)"

definition wake_task :: "TaskId \<Rightarrow> 'f Scheduler \<Rightarrow> 'f Scheduler" where
  "wake_task task_id s =
     (case find_task task_id s of
        None \<Rightarrow> s
      | Some slot \<Rightarrow>
          (case task_at s slot of
             None \<Rightarrow> s
           | Some task \<Rightarrow>
               if t_state task = Blocked
               then upd_queue (t_priority task) (\<lambda>q. tq_push_back q slot) (set_task slot (task\<lparr>t_state := Ready\<rparr>) s)
               else set_task slot (task\<lparr>t_awake_pending := True\<rparr>) s))"

text \<open>The loop of \<open>wait_task\<close> returns when the task is not in the table any more.\<close>

definition wait_task_done :: "TaskId \<Rightarrow> 'f Scheduler \<Rightarrow> bool" where
  "wait_task_done task_id s \<longleftrightarrow> find_task task_id s = None"

definition exit_current :: "AllRegisters \<Rightarrow> u64 \<Rightarrow> 'f Scheduler \<Rightarrow> 'f Scheduler or_panic" where
  "exit_current regs frame_ptr s = Option.bind (kill (sc_current s) s) (reschedule regs frame_ptr)"

text \<open>Spawning a user task.  The priority is not clamped: beyond the last level the queue index
  panics.\<close>

definition spawn_user_with_trampoline ::
  "u64 \<Rightarrow> u64 \<Rightarrow> u64 \<Rightarrow> u64 \<Rightarrow> u8 list \<Rightarrow> u8 \<Rightarrow> u64 \<Rightarrow> u64 \<Rightarrow> 'f Scheduler \<times> Pmm \<Rightarrow>
   (TaskId option \<times> 'f Scheduler \<times> Pmm) or_panic" where
  "spawn_user_with_trampoline hhdm kernel_trampoline entry user_stack_top name priority page_table trampoline sp =
     (let (s, p) = sp
      in case find_free_slot s of
           None \<Rightarrow> Some (None, s, p)
         | Some slot \<Rightarrow>
             let tid = sc_next_id s;
                 s = s\<lparr>sc_next_id := sc_next_id s + 1\<rparr>
             in case task_new_user hhdm kernel_trampoline tid entry user_stack_top name (unat priority) page_table p of
                  (None, p') \<Rightarrow> Some (None, s, p')
                | (Some task, p') \<Rightarrow>
                    let task = (if trampoline \<noteq> 0 then task\<lparr>t_context := t_context task\<lparr>c_rip := trampoline\<rparr>\<rparr> else task);
                        s = set_task slot task s
                    in if PRIORITY_LEVELS \<le> unat priority then None
                       else Some (Some tid, upd_queue (unat priority) (\<lambda>q. tq_push_back q slot) s, p'))"

definition spawn_user_with_page_table ::
  "u64 \<Rightarrow> u64 \<Rightarrow> u64 \<Rightarrow> u64 \<Rightarrow> u8 list \<Rightarrow> u8 \<Rightarrow> u64 \<Rightarrow> 'f Scheduler \<times> Pmm \<Rightarrow>
   (TaskId option \<times> 'f Scheduler \<times> Pmm) or_panic" where
  "spawn_user_with_page_table hhdm kernel_trampoline entry user_stack_top name priority page_table sp =
     spawn_user_with_trampoline hhdm kernel_trampoline entry user_stack_top name priority page_table 0 sp"

definition spawn_user ::
  "u64 \<Rightarrow> u64 \<Rightarrow> u64 \<Rightarrow> u64 \<Rightarrow> u64 \<Rightarrow> u8 list \<Rightarrow> u8 \<Rightarrow> 'f Scheduler \<times> Vm \<Rightarrow>
   (TaskId option \<times> 'f Scheduler \<times> Vm) or_panic" where
  "spawn_user hhdm kernel_cr3 kernel_trampoline entry user_stack_top name priority sv =
     (let (s, vm) = sv
      in case create_user_page_table kernel_cr3 vm of
           (None, vm') \<Rightarrow> Some (None, s, vm')
         | (Some page_table, vm') \<Rightarrow>
             map_option (\<lambda>(r, s', p'). (r, s', vm'\<lparr>vm_pmm := p'\<rparr>))
               (spawn_user_with_page_table hhdm kernel_trampoline entry user_stack_top name priority page_table
                 (s, vm_pmm vm')))"

text \<open>\<open>exec\<close>: the current task's control block is replaced by a fresh one with the same id and working
  directory, at priority 1.\<close>

definition replace_current_task ::
  "u64 \<Rightarrow> u64 \<Rightarrow> u64 \<Rightarrow> u64 \<Rightarrow> u8 list \<Rightarrow> u64 \<Rightarrow> u64 \<Rightarrow> u64 \<Rightarrow> 'f Scheduler \<times> Pmm \<Rightarrow>
   ('f Scheduler \<times> Pmm) or_panic" where
  "replace_current_task hhdm kernel_trampoline entry user_stack_top name page_table argc argv sp =
     (let (s, p) = sp
      in if MAX_TASKS \<le> sc_current s then None
         else case task_at s (sc_current s) of
                None \<Rightarrow> None
              | Some old_task \<Rightarrow>
                  (case task_new_user hhdm kernel_trampoline (t_id old_task) entry user_stack_top name 1 page_table p of
                     (None, _) \<Rightarrow> None
                   | (Some new_task, p') \<Rightarrow>
                       Some (set_task (sc_current s)
                         (new_task\<lparr>t_cwd := t_cwd old_task, t_state := Running,
                            t_context := t_context new_task\<lparr>c_r14 := argc, c_r15 := argv\<rparr>\<rparr>) s, p')))"

section \<open>The invariant\<close>

definition sched_base :: "'f Scheduler \<Rightarrow> bool" where
  "sched_base s \<longleftrightarrow> queues_ok s \<and> 0 < sc_boost_countdown s \<and> sc_boost_countdown s \<le> BOOST_INTERVAL"

definition sched_inv :: "'f Scheduler \<Rightarrow> bool" where
  "sched_inv s \<longleftrightarrow> sched_base s
     \<and> (sc_current s = NO_TASK \<or> sc_current s < MAX_TASKS \<and> states s (sc_current s) = Some Running)
     \<and> (\<forall>k. k \<noteq> sc_current s \<longrightarrow> states s k \<noteq> Some Running)"

section \<open>Dispatching\<close>

lemma states_set_task:
  "slot < length (sc_tasks s) \<Longrightarrow> states (set_task slot t s) = (states s)(slot := Some (t_state t))"
  by (auto simp: states_def task_at_set_task fun_eq_iff)

lemma states_upd_queue [simp]: "states (upd_queue l f s) = states s"
  by (rule states_cong) simp

text \<open>What \<open>pick_next\<close> returns, and that running it keeps the queues in order.\<close>

lemma pick_next_ready:
  assumes ok: "queues_ok s" and pick: "pick_next s = (slot, s')" and some: "\<not> (\<forall>l < PRIORITY_LEVELS. run_queue s l = [])"
  obtains t where "slot < MAX_TASKS" "task_at s slot = Some t" "t_state t = Ready"
    "\<And>k. k < t_priority t \<Longrightarrow> run_queue s k = []" "run_queue s (t_priority t) = slot # run_queue s' (t_priority t)"
    "\<And>t'. t_state t' \<noteq> Ready \<Longrightarrow> t_priority t' < PRIORITY_LEVELS \<Longrightarrow> queues_ok (set_task slot t' s')"
proof -
  note sp = pick_next_spec [OF ok pick]
  obtain l where l: "l < PRIORITY_LEVELS" "\<forall>k < l. run_queue s k = []" "run_queue s l = slot # run_queue s' l"
    "\<forall>k < PRIORITY_LEVELS. k \<noteq> l \<longrightarrow> run_queue s' k = run_queue s k"
    using sp(7) [OF some] by blast
  note lev = queues_ok_level [OF ok l(1)]
  have "slot \<in> ready_set (sc_tasks s) l"
    using lev(3) l(3) by (metis list.set_intros(1))
  then obtain t where t: "task_at s slot = Some t" "t_state t = Ready" "t_priority t = l"
    by (auto simp: ready_set_mem)
  have slot: "slot < MAX_TASKS"
    using task_at_bound [OF t(1)] queues_ok_len [OF ok] by simp
  have "queues_ok (set_task slot t' s')" if t': "t_state t' \<noteq> Ready" "t_priority t' < PRIORITY_LEVELS" for t'
  proof (rule queues_ok_set_task [OF ok slot t'(2)])
    fix k
    assume k: "k < PRIORITY_LEVELS"
    have "slot \<notin> set (run_queue s k)" if "k \<noteq> l"
      using queues_ok_level(3) [OF ok k] t that by (auto simp: ready_set_mem)
    then show "tq_wf (sc_queues (set_task slot t' s') ! k) \<and> distinct (run_queue (set_task slot t' s') k)
        \<and> set (run_queue (set_task slot t' s') k) = (if t_state t' = Ready \<and> t_priority t' = k
            then insert slot (set (run_queue s k)) else set (run_queue s k) - {slot})"
      using queues_ok_level(2) [OF ok k] sp(5) [OF k] l(3) spec [OF l(4), of k] k t'(1)
      by (cases "k = l") simp_all
  qed (use sp in simp_all)
  then show thesis
    using that [OF slot t(1,2)] l(2,3) t(3) by simp
qed

lemma pick_next_none:
  assumes ok: "queues_ok s" and pick: "pick_next s = (slot, s')" and none: "\<forall>l < PRIORITY_LEVELS. run_queue s l = []"
  shows "slot = NO_TASK" "queues_ok s'" "\<not> is_ready s k"
proof -
  note sp = pick_next_spec [OF ok pick]
  show "slot = NO_TASK"
    using sp(6) [OF none] by simp
  show "queues_ok s'"
    using ok sp(1,4,5) sp(6) [OF none] by (simp add: queues_ok_def queue_ok_def)
  show "\<not> is_ready s k"
  proof
    assume "is_ready s k"
    then obtain t where t: "task_at s k = Some t" "t_state t = Ready"
      by (auto simp: is_ready_def split: option.splits)
    then have "k \<in> set (run_queue s (t_priority t))"
      using queues_ok_level(3) [OF ok queues_ok_prio [OF ok t(1)]] by (auto simp: ready_set_mem)
    then show False
      using none queues_ok_prio [OF ok t(1)] by simp
  qed
qed

lemma save_current_ok:
  assumes "queues_ok s"
  shows "queues_ok (save_current regs fp s)" "sc_current (save_current regs fp s) = sc_current s"
    "sc_boost_countdown (save_current regs fp s) = sc_boost_countdown s"
    "states (save_current regs fp s) =
      (if states s (sc_current s) = Some Running then (states s)(sc_current s := Some Ready) else states s)"
    "map_option t_context (task_at (save_current regs fp s) (sc_current s)) =
      map_option (\<lambda>_. save_context regs fp) (task_at s (sc_current s))"
proof -
  let ?c = "sc_current s" and ?s = "save_current regs fp s"
  have "queues_ok ?s \<and> sc_current ?s = ?c \<and> sc_boost_countdown ?s = sc_boost_countdown s
      \<and> states ?s = (if states s ?c = Some Running then (states s)(?c := Some Ready) else states s)
      \<and> map_option t_context (task_at ?s ?c) = map_option (\<lambda>_. save_context regs fp) (task_at s ?c)"
  proof (cases "task_at s ?c")
    case None
    then show ?thesis
      using assms by (simp add: save_current_def states_def Let_def)
  next
    case (Some t)
    have c: "?c < MAX_TASKS" "?c < length (sc_tasks s)"
      using task_at_bound [OF Some] queues_ok_len [OF assms] by simp_all
    note prio = queues_ok_prio [OF assms Some]
    show ?thesis
    proof (cases "t_state t = Running")
      case True
      define t' where "t' = t\<lparr>t_state := Ready, t_context := save_context regs fp\<rparr>"
      have s: "?s = upd_queue (t_priority t) (\<lambda>q. tq_push_back q ?c) (set_task ?c t' s)"
        using Some True by (simp add: save_current_def t'_def Let_def)
      have "queues_ok ?s"
        unfolding s using True Some prio c
        by (intro queues_ok_enqueue [OF assms]) (simp_all add: is_ready_def t'_def)
      then show ?thesis
        using True Some c by (simp add: s states_set_task task_at_set_task t'_def) (simp add: states_def)
    next
      case False
      define t' where "t' = t\<lparr>t_context := save_context regs fp\<rparr>"
      have s: "?s = set_task ?c t' s"
        using Some False by (simp add: save_current_def t'_def Let_def)
      have "queues_ok ?s"
        unfolding s using prio by (intro queues_ok_keep [OF assms Some]) (simp_all add: t'_def)
      then show ?thesis
        using False Some c by (simp add: s states_set_task task_at_set_task t'_def) (auto simp: states_def)
    qed
  qed
  then show "queues_ok ?s" "sc_current ?s = ?c" "sc_boost_countdown ?s = sc_boost_countdown s"
    "states ?s = (if states s ?c = Some Running then (states s)(?c := Some Ready) else states s)"
    "map_option t_context (task_at ?s ?c) = map_option (\<lambda>_. save_context regs fp) (task_at s ?c)"
    by blast+
qed

text \<open>Whatever state the current task is in, \<open>reschedule\<close> returns and restores the invariant.\<close>

definition dispatchable :: "'f Scheduler \<Rightarrow> bool" where
  "dispatchable s \<longleftrightarrow> sched_base s \<and> sc_current s < MAX_TASKS \<and> task_at s (sc_current s) \<noteq> None
     \<and> (\<forall>k. k \<noteq> sc_current s \<longrightarrow> states s k \<noteq> Some Running)"

lemma sched_inv_running:
  assumes "queues_ok s'" "sc_boost_countdown s' = sc_boost_countdown s" "sched_base s" "sc_current s' < MAX_TASKS"
    "states s' = f(sc_current s' := Some Running)" "\<And>k. f k \<noteq> Some Running"
  shows "sched_inv s'"
  using assms(1-4) assms(6) by (auto simp: sched_inv_def sched_base_def assms(5))

lemma reschedule_ok:
  assumes "dispatchable s"
  obtains s' where "reschedule regs fp s = Some s'" "sched_inv s'" "sc_current s' < MAX_TASKS"
    "\<And>k. k \<noteq> sc_current s' \<Longrightarrow> states s' k = states (save_current regs fp s) k"
    "if \<forall>l < PRIORITY_LEVELS. run_queue (save_current regs fp s) l = [] then sc_current s' = sc_current s
     else \<exists>l < PRIORITY_LEVELS. \<exists>xs. run_queue (save_current regs fp s) l = sc_current s' # xs
         \<and> (\<forall>k < l. run_queue (save_current regs fp s) k = [])
         \<and> states (save_current regs fp s) (sc_current s') = Some Ready"
proof -
  define s1 where "s1 = save_current regs fp s"
  have base: "queues_ok s" "0 < sc_boost_countdown s" "sc_boost_countdown s \<le> BOOST_INTERVAL"
    and cur: "sc_current s < MAX_TASKS" "task_at s (sc_current s) \<noteq> None"
    and run: "\<And>k. k \<noteq> sc_current s \<Longrightarrow> states s k \<noteq> Some Running"
    using assms by (auto simp: dispatchable_def sched_base_def)
  note sv = save_current_ok [OF base(1), of regs fp, folded s1_def]
  have no_run: "states s1 k \<noteq> Some Running" for k
  proof
    assume "states s1 k = Some Running"
    then have "states s k = Some Running \<and> (states s (sc_current s) \<noteq> Some Running \<or> k \<noteq> sc_current s)"
      by (auto simp: sv(4) split: if_splits)
    then show False
      using run by metis
  qed
  have len1: "length (sc_tasks s1) = MAX_TASKS"
    using queues_ok_len [OF sv(1)] by simp
  obtain new s2 where pick: "pick_next s1 = (new, s2)"
    by fastforce
  note sp = pick_next_spec [OF sv(1) pick]
  have at2: "task_at s2 = task_at s1" and st2: "states s2 = states s1" and len2: "length (sc_tasks s2) = MAX_TASKS"
    using task_at_cong [OF sp(1)] states_cong [OF sp(1)] sp(1) len1 by simp_all
  show thesis
  proof (cases "\<forall>l < PRIORITY_LEVELS. run_queue s1 l = []")
    case True
    note none = pick_next_none [OF sv(1) pick True]
    obtain t where t: "task_at s2 (sc_current s) = Some t"
      using sv(5) cur(2) at2 by (cases "task_at s1 (sc_current s)") auto
    let ?t = "t\<lparr>t_state := Running\<rparr>"
    have eq: "reschedule regs fp s = Some (set_task (sc_current s) ?t s2)"
      using cur(1) t none(1) pick by (simp add: reschedule_def Let_def flip: s1_def)
    have "t_state t \<noteq> Ready"
      using none(3) [of "sc_current s"] t at2 by (simp add: is_ready_def)
    then have "queues_ok (set_task (sc_current s) ?t s2)"
      using queues_ok_keep [OF none(2) t, of ?t] queues_ok_prio [OF none(2) t] by simp
    moreover have st': "states (set_task (sc_current s) ?t s2) = (states s1)(sc_current s := Some Running)"
      using cur(1) len2 st2 by (simp add: states_set_task)
    moreover have cur': "sc_current (set_task (sc_current s) ?t s2) = sc_current s"
      "sc_boost_countdown (set_task (sc_current s) ?t s2) = sc_boost_countdown s"
      using sp(2,3) sv(2,3) by simp_all
    ultimately have "sched_inv (set_task (sc_current s) ?t s2)"
      using sched_inv_running [OF _ cur'(2) assms(1) [unfolded dispatchable_def, THEN conjunct1], of "states s1"]
        cur(1) no_run by simp
    then show thesis
      using that [OF eq] True cur(1) cur' st' by (simp flip: s1_def)
  next
    case False
    from pick_next_ready [OF sv(1) pick False] obtain t where t: "new < MAX_TASKS" "task_at s1 new = Some t"
      "t_state t = Ready" "\<And>k. k < t_priority t \<Longrightarrow> run_queue s1 k = []" "run_queue s1 (t_priority t) = new # run_queue s2 (t_priority t)"
      "\<And>t'. t_state t' \<noteq> Ready \<Longrightarrow> t_priority t' < PRIORITY_LEVELS \<Longrightarrow> queues_ok (set_task new t' s2)"
      by blast
    let ?t = "t\<lparr>t_state := Running\<rparr>"
    define s' where "s' = (set_task new ?t s2)\<lparr>sc_current := new\<rparr>"
    have "new \<noteq> NO_TASK"
      using t(1) by auto
    then have eq: "reschedule regs fp s = Some s'"
      using cur(1) t(2) at2 pick sp(2) sv(2)
      by (auto simp: reschedule_def Let_def s'_def set_task_def simp flip: s1_def)
    have prio: "t_priority t < PRIORITY_LEVELS"
      using queues_ok_prio [OF sv(1) t(2)] .
    have "queues_ok (set_task new ?t s2)"
      using t(6) [of ?t] prio by simp
    then have ok: "queues_ok s'"
      using queues_ok_cong [of s' "set_task new ?t s2"] by (simp add: s'_def)
    have st: "states s' = (states s1)(new := Some Running)"
      using t(1) len2 st2 states_set_task [of new s2 ?t] states_cong [of s' "set_task new ?t s2"] by (simp add: s'_def)
    have "states s1 new = Some Ready"
      using t(2,3) by (simp add: states_def)
    then have ex: "\<exists>l < PRIORITY_LEVELS. \<exists>xs. run_queue s1 l = new # xs \<and> (\<forall>k < l. run_queue s1 k = []) \<and> states s1 new = Some Ready"
      using t(4,5) prio by blast
    have "sched_inv s'"
      using sched_inv_running [OF ok _ assms [unfolded dispatchable_def, THEN conjunct1], of "states s1"]
        st t(1) no_run sp(3) sv(3) by (simp add: s'_def)
    then show thesis
      using that [OF eq] False t(1) st ex by (simp add: s'_def flip: s1_def)
  qed
qed

lemma inv_dispatchable:
  assumes "sched_inv s" "sc_current s \<noteq> NO_TASK"
  shows "dispatchable s"
  using assms by (auto simp: sched_inv_def dispatchable_def states_def)

lemma inv_base: "sched_inv s \<Longrightarrow> sched_base s" "sched_inv s \<Longrightarrow> queues_ok s"
  by (simp_all add: sched_inv_def sched_base_def)

lemma inv_current_not_ready: "sched_inv s \<Longrightarrow> \<not> is_ready s (sc_current s)"
  using task_at_NO_TASK [of s] by (auto simp: sched_inv_def sched_base_def is_ready_states states_def)

lemma sched_new_inv: "sched_inv (sched_new :: 'f Scheduler)"
proof -
  have "states (sched_new :: 'f Scheduler) k = None" for k :: nat
    by (simp add: states_def task_at_def sched_new_def)
  moreover have "sc_boost_countdown (sched_new :: 'f Scheduler) = BOOST_INTERVAL" "sc_current (sched_new :: 'f Scheduler) = NO_TASK"
    by (simp_all add: sched_new_def)
  ultimately show ?thesis
    using sched_new_ok by (simp add: sched_inv_def sched_base_def BOOST_INTERVAL_def)
qed

lemma timer_tick_inv:
  assumes "sched_inv s"
  obtains s' where "timer_tick regs fp s = Some s'" "sched_inv s'" "sc_current s < MAX_TASKS \<Longrightarrow> sc_current s' < MAX_TASKS"
proof -
  obtain b s1 where tick: "sched_tick s = (b, s1)"
    by fastforce
  note t = sched_tick_ok [OF _ _ _ inv_current_not_ready [OF assms] tick]
  have base: "queues_ok s" "0 < sc_boost_countdown s" "sc_boost_countdown s \<le> BOOST_INTERVAL"
    using assms by (simp_all add: sched_inv_def sched_base_def)
  have inv1: "sched_inv s1"
    using assms t [OF base] base by (auto simp: sched_inv_def sched_base_def BOOST_INTERVAL_def)
  show thesis
  proof (cases b)
    case True
    have "sc_current s1 \<noteq> NO_TASK"
      using t(3,5) [OF base] True task_at_NO_TASK [OF base(1)] by auto
    then obtain s' where "reschedule regs fp s1 = Some s'" "sched_inv s'" "sc_current s' < MAX_TASKS"
      using reschedule_ok [OF inv_dispatchable [OF inv1]] by metis
    then show thesis
      using that tick True by (simp add: timer_tick_def)
  next
    case False
    then show thesis
      using that inv1 tick t(3) [OF base] by (simp add: timer_tick_def)
  qed
qed

lemma wake_task_inv:
  assumes "sched_inv s"
  shows "sched_inv (wake_task task_id s)" "sc_current (wake_task task_id s) = sc_current s"
proof -
  note ok = inv_base(2) [OF assms]
  have "sched_inv (wake_task task_id s) \<and> sc_current (wake_task task_id s) = sc_current s"
  proof (cases "find_task task_id s")
    case None
    then show ?thesis
      using assms by (simp add: wake_task_def)
  next
    case (Some slot)
    then obtain t where t: "task_at s slot = Some t" "slot < MAX_TASKS" "slot < length (sc_tasks s)"
      using queues_ok_len [OF ok] by (auto simp: find_task_def position_Some task_at_def split: option.splits)
    note prio = queues_ok_prio [OF ok t(1)]
    show ?thesis
    proof (cases "t_state t = Blocked")
      case True
      define t' where "t' = t\<lparr>t_state := Ready\<rparr>"
      define s' where "s' = upd_queue (t_priority t) (\<lambda>q. tq_push_back q slot) (set_task slot t' s)"
      have eq: "wake_task task_id s = s'"
        using Some t(1) True by (simp add: wake_task_def s'_def t'_def)
      have "queues_ok s'"
        unfolding s'_def using True t prio by (intro queues_ok_enqueue [OF ok]) (simp_all add: is_ready_def t'_def)
      moreover have "states s' = (states s)(slot := Some Ready)"
        using t(3) by (simp add: s'_def states_set_task t'_def)
      moreover have "states s slot = Some Blocked"
        using t(1) True by (simp add: states_def)
      ultimately show ?thesis
        unfolding eq using assms by (auto simp: sched_inv_def sched_base_def s'_def)
    next
      case False
      define s' where "s' = set_task slot (t\<lparr>t_awake_pending := True\<rparr>) s"
      have eq: "wake_task task_id s = s'"
        using Some t(1) False by (simp add: wake_task_def s'_def)
      have "queues_ok s'"
        unfolding s'_def using prio by (intro queues_ok_keep [OF ok t(1)]) simp_all
      moreover have "states s' = states s"
        using t by (simp add: s'_def states_set_task fun_upd_idem states_def)
      ultimately show ?thesis
        unfolding eq using assms by (simp add: sched_inv_def sched_base_def s'_def)
    qed
  qed
  then show "sched_inv (wake_task task_id s)" "sc_current (wake_task task_id s) = sc_current s" by simp_all
qed

text \<open>A block reason names slots of the task table.\<close>

definition reason_ok :: "BlockReason \<Rightarrow> bool" where
  "reason_ok reason = (case reason of SpscRingEmpty p \<Rightarrow> p < MAX_TASKS | SpscRingFull p \<Rightarrow> p < MAX_TASKS | _ \<Rightarrow> True)"

lemma boost_for_reason_total:
  assumes "reason_ok reason" "slot < MAX_TASKS"
  shows "\<exists>s'. boost_for_reason slot reason s = Some s'"
  using assms by (cases reason) (auto simp: boost_for_reason_def boost_peer_def reason_ok_def)

lemma block_mark_ok:
  assumes inv: "sched_inv s" and cur: "sc_current s \<noteq> NO_TASK" and reason: "reason_ok reason"
  obtains s' where "block_mark reason s = Some s'" "dispatchable s'" "sc_current s' = sc_current s"
    "states s' = (states s)(sc_current s := Some Blocked)"
proof -
  let ?c = "sc_current s"
  note ok = inv_base(2) [OF inv]
  obtain t where t: "task_at s ?c = Some t" "t_state t = Running" and c: "?c < MAX_TASKS"
    using inv cur by (auto simp: sched_inv_def states_def)
  define s1 where "s1 = set_task ?c (t\<lparr>t_state := Blocked\<rparr>) s"
  have ok1: "queues_ok s1"
    unfolding s1_def using t queues_ok_prio [OF ok t(1)] by (intro queues_ok_keep [OF ok t(1)]) simp_all
  have st1: "states s1 = (states s)(?c := Some Blocked)"
    using c queues_ok_len [OF ok] by (simp add: s1_def states_set_task)
  obtain s' where s': "boost_for_reason ?c reason s1 = Some s'"
    using boost_for_reason_total [OF reason c] by blast
  have "\<not> is_ready s1 ?c"
    by (simp add: is_ready_states st1)
  note b = boost_for_reason_ok [OF ok1 this s']
  have st: "states s' = (states s)(?c := Some Blocked)" and c': "sc_current s' = ?c"
    "sc_boost_countdown s' = sc_boost_countdown s"
    using same_states_states [OF b(2)] b(2) st1 by (simp_all add: same_states_def s1_def)
  have "task_at s' ?c \<noteq> None"
    using st by (metis fun_upd_same map_option_is_None option.distinct(1) states_def)
  then have "dispatchable s'"
    using b(1) st c c' inv by (auto simp: dispatchable_def sched_base_def sched_inv_def)
  then show thesis
    using that c' st t(1) c s' by (simp add: block_mark_def s1_def Let_def)
qed

lemma block_current_inv:
  assumes "sched_inv s" "sc_current s \<noteq> NO_TASK" "reason_ok reason"
  obtains s' where "block_current reason regs fp s = Some s'" "sched_inv s'" "sc_current s' < MAX_TASKS"
proof -
  obtain s1 where s1: "block_mark reason s = Some s1" "dispatchable s1"
    using block_mark_ok [OF assms] by metis
  obtain s' where "reschedule regs fp s1 = Some s'" "sched_inv s'" "sc_current s' < MAX_TASKS"
    using reschedule_ok [OF s1(2)] by metis
  then show thesis
    using that s1(1) by (simp add: block_current_def)
qed

lemma exit_current_inv:
  assumes "sched_inv s" "sc_current s \<noteq> NO_TASK"
  obtains s1 s' where "kill (sc_current s) s = Some s1" "dispatchable s1" "states s1 = (states s)(sc_current s := Some Dead)"
    "sc_current s1 = sc_current s" "exit_current regs fp s = reschedule regs fp s1"
    "exit_current regs fp s = Some s'" "sched_inv s'" "sc_current s' < MAX_TASKS"
proof -
  let ?c = "sc_current s"
  have c: "?c < MAX_TASKS" and st: "states s ?c = Some Running"
    using assms by (auto simp: sched_inv_def)
  then obtain s1 where s1: "kill ?c s = Some s1"
    by (simp add: kill_def)
  note k = kill_ok [OF inv_base(2) [OF assms(1)] s1]
  have st1: "states s1 = (states s)(?c := Some Dead)"
    using st by (auto simp: states_def k(4) fun_eq_iff)
  have "dispatchable s1"
    using assms(1) k(1-3) st1 c st by (auto simp: dispatchable_def sched_base_def sched_inv_def k(4) states_def)
  moreover obtain s' where "reschedule regs fp s1 = Some s'" "sched_inv s'" "sc_current s' < MAX_TASKS"
    using reschedule_ok [OF calculation] by metis
  ultimately show thesis
    using that [OF s1 _ st1 k(2)] s1 by (simp add: exit_current_def)
qed

lemma yield_now_inv:
  assumes "sched_inv s" "sc_current s \<noteq> NO_TASK"
  obtains s' where "yield_now active regs fp s = Some s'" "sched_inv s'" "sc_current s' < MAX_TASKS"
proof (cases active)
  case True
  obtain s' where "reschedule regs fp s = Some s'" "sched_inv s'" "sc_current s' < MAX_TASKS"
    using reschedule_ok [OF inv_dispatchable [OF assms]] by metis
  then show thesis
    using that True by (simp add: yield_now_def)
qed (use assms that in \<open>auto simp: yield_now_def sched_inv_def\<close>)

lemma spawned_inv:
  assumes "sched_inv s" "queues_ok s'" "sc_current s' = sc_current s" "sc_boost_countdown s' = sc_boost_countdown s"
    "\<And>slot t. task_at s slot = Some t \<Longrightarrow> task_at s' slot = Some t"
    "\<And>slot t. task_at s' slot = Some t \<Longrightarrow> task_at s slot = Some t \<or> t_state t = Ready"
  shows "sched_inv s'"
proof -
  have "states s' k = states s k \<or> states s' k = Some Ready" for k
    using assms(5) [of k] assms(6) [of k] by (cases "task_at s' k"; cases "task_at s k") (auto simp: states_def)
  moreover have "states s k = Some Running \<Longrightarrow> states s' k = Some Running" for k
    using assms(5) by (auto simp: states_def)
  ultimately show ?thesis
    using assms(1-4) unfolding sched_inv_def sched_base_def by (metis TaskState.distinct(1) option.inject)
qed

lemma sched_spawn_inv:
  assumes "sched_inv s" "sched_spawn hhdm tr cr3 entry name prio (s, p) = (r, s', p')"
  shows "sched_inv s'" "sc_current s' = sc_current s"
  using spawned_inv [OF assms(1)] sched_spawn_ok [OF inv_base(2) [OF assms(1)] assms(2)] by blast+

lemma spawn_user_inv:
  fixes s :: "'f Scheduler"
  assumes "sched_inv s" "unat priority < PRIORITY_LEVELS"
  obtains r s' p' where "spawn_user_with_trampoline hhdm tr entry ust name priority pt tramp (s, p) = Some (r, s', p')"
    "sched_inv s'" "sc_current s' = sc_current s"
proof (cases "find_free_slot s")
  case None
  then show thesis
    using that [OF _ assms(1)] by (simp add: spawn_user_with_trampoline_def)
next
  case (Some slot)
  note ok = inv_base(2) [OF assms(1)]
  note free = find_free_slot_spec [OF ok Some]
  let ?s = "s\<lparr>sc_next_id := sc_next_id s + 1\<rparr>" and ?prio = "unat priority"
  have oks: "queues_ok ?s" and at: "task_at ?s = task_at s"
    using ok by (simp_all add: queues_ok_def task_at_def fun_eq_iff)
  have inv: "sched_inv ?s"
    using spawned_inv [OF assms(1) oks] at by simp
  obtain res :: "'f Task option" and p' where new: "task_new_user hhdm tr (sc_next_id s) entry ust name ?prio pt p = (res, p')"
    by fastforce
  show thesis
  proof (cases res)
    case None
    then show thesis
      using that [OF _ inv] new Some by (simp add: spawn_user_with_trampoline_def Let_def)
  next
    case (Some t0)
    define t where "t = (if tramp \<noteq> 0 then t0\<lparr>t_context := t_context t0\<lparr>c_rip := tramp\<rparr>\<rparr> else t0)"
    have t: "t_state t = Ready" "t_priority t = ?prio"
      using task_new_user_fresh [OF new [unfolded Some]] by (simp_all add: fresh_task_def t_def)
    define s' where "s' = upd_queue ?prio (\<lambda>q. tq_push_back q slot) (set_task slot t ?s)"
    have "queues_ok s'"
      unfolding s'_def using free t at assms(2) by (intro queues_ok_enqueue [OF oks]) (simp_all add: is_ready_def)
    then have "sched_inv s'"
      by (rule spawned_inv [OF assms(1)]) (use free(2) t at in \<open>auto simp: s'_def task_at_set_task split: if_splits\<close>)
    moreover have "spawn_user_with_trampoline hhdm tr entry ust name priority pt tramp (s, p) =
        Some (Some (sc_next_id s), s', p')"
      using new Some assms(2) \<open>find_free_slot s = Some slot\<close>
      by (simp add: spawn_user_with_trampoline_def Let_def t_def s'_def)
    ultimately show thesis
      using that by (simp add: s'_def)
  qed
qed

text \<open>The countdown to the next boost: only ticks change it.\<close>

lemma reschedule_countdown:
  assumes "queues_ok s" "reschedule regs fp s = Some s'"
  shows "sc_boost_countdown s' = sc_boost_countdown s"
proof -
  obtain new s2 where pick: "pick_next (save_current regs fp s) = (new, s2)"
    by fastforce
  have "sc_boost_countdown s2 = sc_boost_countdown s"
    using pick_next_spec(3) [OF save_current_ok(1) [OF assms(1)] pick] save_current_ok(3) [OF assms(1), of regs fp] by simp
  then show ?thesis
    using assms(2) pick by (auto simp: reschedule_def Let_def split: if_splits option.splits)
qed

lemma wake_task_countdown: "sc_boost_countdown (wake_task task_id s) = sc_boost_countdown s"
  by (simp add: wake_task_def split: option.splits)

lemma spawn_user_countdown:
  "spawn_user_with_trampoline hhdm tr entry ust name priority pt tramp (s, p) = Some (r, s', p') \<Longrightarrow>
   sc_boost_countdown s' = sc_boost_countdown s"
  by (auto simp: spawn_user_with_trampoline_def Let_def split: option.splits prod.splits if_splits)

lemma timer_tick_countdown:
  assumes "sched_inv s" "timer_tick regs fp s = Some s'"
  shows "sc_boost_countdown s' = (if sc_boost_countdown s = 1 then BOOST_INTERVAL else sc_boost_countdown s - 1)"
proof -
  obtain b s1 where tick: "sched_tick s = (b, s1)"
    by fastforce
  have base: "queues_ok s" "0 < sc_boost_countdown s" "sc_boost_countdown s \<le> BOOST_INTERVAL"
    using assms by (simp_all add: sched_inv_def sched_base_def)
  note t = sched_tick_ok [OF base inv_current_not_ready [OF assms(1)] tick]
  show ?thesis
    using assms(2) tick t(4) reschedule_countdown [OF t(1), of regs fp s'] by (auto simp: timer_tick_def split: if_splits)
qed

section \<open>Sequences of operations\<close>

text \<open>What reaches the scheduler once \<open>run\<close> has started the first task.\<close>

datatype sched_op =
    SpawnOp u64 "u8 list" nat
  | SpawnUserOp u64 u64 "u8 list" u8 u64 u64
  | TickOp AllRegisters u64
  | YieldOp AllRegisters u64
  | BlockOp BlockReason AllRegisters u64
  | WakeOp TaskId
  | ExitOp AllRegisters u64

fun sched_step :: "u64 \<Rightarrow> u64 \<Rightarrow> u64 \<Rightarrow> sched_op \<Rightarrow> 'f Scheduler \<times> Pmm \<Rightarrow> ('f Scheduler \<times> Pmm) or_panic" where
  "sched_step hhdm tr cr3 (SpawnOp entry name priority) (s, p) = Some (snd (sched_spawn hhdm tr cr3 entry name priority (s, p)))"
| "sched_step hhdm tr cr3 (SpawnUserOp entry ust name priority pt tramp) (s, p) =
     map_option snd (spawn_user_with_trampoline hhdm tr entry ust name priority pt tramp (s, p))"
| "sched_step hhdm tr cr3 (TickOp regs fp) (s, p) = map_option (\<lambda>s. (s, p)) (timer_tick regs fp s)"
| "sched_step hhdm tr cr3 (YieldOp regs fp) (s, p) = map_option (\<lambda>s. (s, p)) (yield_now True regs fp s)"
| "sched_step hhdm tr cr3 (BlockOp reason regs fp) (s, p) = map_option (\<lambda>s. (s, p)) (block_current reason regs fp s)"
| "sched_step hhdm tr cr3 (WakeOp task_id) (s, p) = Some (wake_task task_id s, p)"
| "sched_step hhdm tr cr3 (ExitOp regs fp) (s, p) = map_option (\<lambda>s. (s, p)) (exit_current regs fp s)"

fun sched_exec :: "u64 \<Rightarrow> u64 \<Rightarrow> u64 \<Rightarrow> sched_op list \<Rightarrow> 'f Scheduler \<times> Pmm \<Rightarrow> ('f Scheduler \<times> Pmm) or_panic" where
  "sched_exec hhdm tr cr3 [] sp = Some sp"
| "sched_exec hhdm tr cr3 (op # ops) sp = Option.bind (sched_step hhdm tr cr3 op sp) (sched_exec hhdm tr cr3 ops)"

text \<open>The arguments for which no operation indexes out of range.\<close>

definition op_ok :: "sched_op \<Rightarrow> bool" where
  "op_ok op = (case op of
     SpawnUserOp _ _ _ priority _ _ \<Rightarrow> unat priority < PRIORITY_LEVELS | BlockOp reason _ _ \<Rightarrow> reason_ok reason | _ \<Rightarrow> True)"

definition is_tick :: "sched_op \<Rightarrow> bool" where
  "is_tick op = (case op of TickOp _ _ \<Rightarrow> True | _ \<Rightarrow> False)"

definition started :: "'f Scheduler \<Rightarrow> bool" where
  "started s \<longleftrightarrow> sched_inv s \<and> sc_current s < MAX_TASKS"

lemma started_cur: "started s \<Longrightarrow> sched_inv s" "started s \<Longrightarrow> sc_current s \<noteq> NO_TASK"
  by (auto simp: started_def)

lemma block_current_countdown:
  assumes "started s" "reason_ok reason" "block_current reason regs fp s = Some s'"
  shows "sc_boost_countdown s' = sc_boost_countdown s"
proof -
  obtain s1 where s1: "block_mark reason s = Some s1" "dispatchable s1"
    using block_mark_ok [OF started_cur [OF assms(1)] assms(2)] by metis
  obtain t where t: "task_at s (sc_current s) = Some t" "t_state t = Running"
    using assms(1) by (auto simp: started_def sched_inv_def states_def)
  define s0 where "s0 = set_task (sc_current s) (t\<lparr>t_state := Blocked\<rparr>) s"
  note ok = inv_base(2) [OF started_cur(1) [OF assms(1)]]
  have b: "boost_for_reason (sc_current s) reason s0 = Some s1"
    using s1(1) t by (simp add: block_mark_def Let_def s0_def split: if_splits)
  have ok0: "queues_ok s0"
    unfolding s0_def using t queues_ok_prio [OF ok t(1)] by (intro queues_ok_keep [OF ok t(1)]) simp_all
  have nr: "\<not> is_ready s0 (sc_current s)"
    using task_at_bound [OF t(1)] by (simp add: s0_def is_ready_def task_at_set_task)
  have "sc_boost_countdown s1 = sc_boost_countdown s"
    using boost_for_reason_ok(2) [OF ok0 nr b] by (simp add: same_states_def s0_def)
  moreover have "reschedule regs fp s1 = Some s'"
    using assms(3) s1(1) by (simp add: block_current_def)
  ultimately show ?thesis
    using reschedule_countdown [of s1 regs fp s'] s1(2) by (auto simp: dispatchable_def sched_base_def)
qed

lemma sched_step_started:
  assumes "started s" "op_ok op"
  obtains s' p' where "sched_step hhdm tr cr3 op (s, p) = Some (s', p')" "started s'"
    "sc_boost_countdown s' =
       (if is_tick op then if sc_boost_countdown s = 1 then BOOST_INTERVAL else sc_boost_countdown s - 1
        else sc_boost_countdown s)"
proof (cases op)
  note cur = started_cur [OF assms(1)]
  have slot: "sc_current s < MAX_TASKS"
    using assms(1) by (simp add: started_def)
  {
    case (SpawnOp entry name priority)
    obtain r s' p' where sp: "sched_spawn hhdm tr cr3 entry name priority (s, p) = (r, s', p')"
      using prod_cases3 by blast
    then show thesis
      using that [of s' p'] SpawnOp slot sched_spawn_inv [OF cur(1) sp] sched_spawn_ok(3) [OF inv_base(2) [OF cur(1)] sp]
      by (simp add: started_def is_tick_def)
  next
    case (SpawnUserOp entry ust name priority pt tramp)
    then have "unat priority < PRIORITY_LEVELS"
      using assms(2) by (simp add: op_ok_def)
    from spawn_user_inv [OF cur(1) this, of hhdm tr entry ust name pt tramp p] obtain r s' p' where
      "spawn_user_with_trampoline hhdm tr entry ust name priority pt tramp (s, p) = Some (r, s', p')"
      "sched_inv s'" "sc_current s' = sc_current s" .
    then show thesis
      using that [of s' p'] SpawnUserOp slot spawn_user_countdown by (fastforce simp: started_def is_tick_def)
  next
    case (TickOp regs fp)
    from timer_tick_inv [OF cur(1), of regs fp] slot obtain s' where
      "timer_tick regs fp s = Some s'" "sched_inv s'" "sc_current s' < MAX_TASKS"
      by metis
    then show thesis
      using that [of s' p] TickOp slot timer_tick_countdown [OF cur(1)] by (simp add: started_def is_tick_def)
  next
    case (YieldOp regs fp)
    from yield_now_inv [OF cur, of True regs fp] obtain s' where
      s': "yield_now True regs fp s = Some s'" "sched_inv s'" "sc_current s' < MAX_TASKS" .
    then show thesis
      using that [of s' p] YieldOp reschedule_countdown [OF inv_base(2) [OF cur(1)], of regs fp s']
      by (simp add: started_def is_tick_def yield_now_def)
  next
    case (BlockOp reason regs fp)
    then have ok: "reason_ok reason"
      using assms(2) by (simp add: op_ok_def)
    from block_current_inv [OF cur ok, of regs fp] obtain s' where
      s': "block_current reason regs fp s = Some s'" "sched_inv s'" "sc_current s' < MAX_TASKS" .
    then show thesis
      using that [of s' p] BlockOp block_current_countdown [OF assms(1) ok s'(1)] by (simp add: started_def is_tick_def)
  next
    case (WakeOp task_id)
    then show thesis
      using that [of "wake_task task_id s" p] wake_task_inv [OF cur(1), of task_id] slot
      by (simp add: started_def is_tick_def wake_task_countdown)
  next
    case (ExitOp regs fp)
    from exit_current_inv [OF cur, of regs fp] obtain s1 s' where s': "kill (sc_current s) s = Some s1" "dispatchable s1"
      "exit_current regs fp s = reschedule regs fp s1" "exit_current regs fp s = Some s'" "sched_inv s'" "sc_current s' < MAX_TASKS" .
    have "sc_boost_countdown s' = sc_boost_countdown s"
      using reschedule_countdown [of s1 regs fp s'] kill_ok(1,3) [OF inv_base(2) [OF cur(1)] s'(1)] s'(3,4) by simp
    then show thesis
      using that [of s' p] ExitOp s' by (simp add: started_def is_tick_def)
  }
qed

text \<open>A run of operations with at most as many ticks as the countdown has left.\<close>

lemma sched_exec_started:
  assumes "started s" "list_all op_ok ops"
  obtains s' p' where "sched_exec hhdm tr cr3 ops (s, p) = Some (s', p')" "started s'"
    "length (filter is_tick ops) < sc_boost_countdown s \<Longrightarrow>
       sc_boost_countdown s' = sc_boost_countdown s - length (filter is_tick ops)"
  using assms
proof (induction ops arbitrary: s p thesis)
  case Nil
  then show ?case
    by simp
next
  case (Cons op ops)
  from Cons.prems(3) have ok: "op_ok op" "list_all op_ok ops"
    by simp_all
  from sched_step_started [OF Cons.prems(2) ok(1), of hhdm tr cr3 p] obtain s1 p1 where s1:
    "sched_step hhdm tr cr3 op (s, p) = Some (s1, p1)" "started s1"
    "sc_boost_countdown s1 = (if is_tick op then if sc_boost_countdown s = 1 then BOOST_INTERVAL else sc_boost_countdown s - 1
        else sc_boost_countdown s)" .
  show ?case
  proof (rule Cons.IH [OF _ s1(2) ok(2), of p1])
    fix s' p'
    assume "sched_exec hhdm tr cr3 ops (s1, p1) = Some (s', p')" "started s'"
      "length (filter is_tick ops) < sc_boost_countdown s1 \<Longrightarrow>
       sc_boost_countdown s' = sc_boost_countdown s1 - length (filter is_tick ops)"
    then show thesis
      using s1(1,3) Cons.prems(1) [of s' p'] by (auto split: if_splits)
  qed
qed

text \<open>Booting: kernel tasks are spawned, then \<open>run\<close> dispatches the first.\<close>

fun boot_spawns :: "u64 \<Rightarrow> u64 \<Rightarrow> u64 \<Rightarrow> (u64 \<times> u8 list \<times> nat) list \<Rightarrow> 'f Scheduler \<times> Pmm \<Rightarrow> 'f Scheduler \<times> Pmm" where
  "boot_spawns hhdm tr cr3 [] sp = sp"
| "boot_spawns hhdm tr cr3 ((entry, name, priority) # tasks) sp =
     boot_spawns hhdm tr cr3 tasks (snd (sched_spawn hhdm tr cr3 entry name priority sp))"

lemma boot_spawns_inv:
  assumes "sched_inv (fst sp)"
  shows "sched_inv (fst (boot_spawns hhdm tr cr3 tasks sp)) \<and> sc_current (fst (boot_spawns hhdm tr cr3 tasks sp)) = sc_current (fst sp)"
  using assms
proof (induction tasks arbitrary: sp)
  case (Cons task tasks)
  obtain entry name priority where task: "task = (entry, name, priority)"
    by (cases task) auto
  obtain s p r s1 p1 where sp: "sp = (s, p)" and
    spawn: "sched_spawn hhdm tr cr3 entry name priority (s, p) = (r, s1, p1)"
    by (metis prod.exhaust)
  show ?case
    using Cons.IH [of "(s1, p1)"] sched_spawn_inv [OF _ spawn] Cons.prems by (simp add: task sp spawn)
qed simp

lemma sched_run_ok:
  assumes inv: "sched_inv s" and cur: "sc_current s = NO_TASK"
  shows "(\<forall>l < PRIORITY_LEVELS. run_queue s l = []) \<Longrightarrow> sched_run s = None"
    "\<not> (\<forall>l < PRIORITY_LEVELS. run_queue s l = []) \<Longrightarrow> \<exists>s'. sched_run s = Some s' \<and> started s'"
proof -
  note ok = inv_base(2) [OF inv]
  obtain slot s1 where pick: "pick_next s = (slot, s1)"
    by fastforce
  note sp = pick_next_spec [OF ok pick]
  show "(\<forall>l < PRIORITY_LEVELS. run_queue s l = []) \<Longrightarrow> sched_run s = None"
    using sp(6) pick by (simp add: sched_run_def)
  assume some: "\<not> (\<forall>l < PRIORITY_LEVELS. run_queue s l = [])"
  from pick_next_ready [OF ok pick some] obtain t where t: "slot < MAX_TASKS" "task_at s slot = Some t"
      "\<And>t'. t_state t' \<noteq> Ready \<Longrightarrow> t_priority t' < PRIORITY_LEVELS \<Longrightarrow> queues_ok (set_task slot t' s1)"
    by blast
  let ?t = "t\<lparr>t_state := Running\<rparr>"
  define s' where "s' = set_task slot ?t (s1\<lparr>sc_current := slot\<rparr>)"
  have tasks: "sc_tasks s' = sc_tasks (set_task slot ?t s1)" "sc_queues s' = sc_queues (set_task slot ?t s1)"
    by (simp_all add: s'_def)
  have "queues_ok s'"
    unfolding queues_ok_cong [OF tasks] using t(3) queues_ok_prio [OF ok t(2)] by simp
  moreover have "states s' = (states s)(slot := Some Running)"
    using t(1) queues_ok_len(1) [OF ok] sp(1) states_cong [OF sp(1)] states_cong [OF tasks(1)] by (simp add: states_set_task)
  moreover have "states s k \<noteq> Some Running" for k
    using inv cur task_at_NO_TASK [OF ok] by (cases "k = NO_TASK") (auto simp: sched_inv_def states_def)
  ultimately have "sched_inv s'"
    using sched_inv_running [OF _ _ inv_base(1) [OF inv], of s' "states s"] t(1) sp(3) by (simp add: s'_def)
  moreover have "sched_run s = Some s'"
    using pick t(1,2) task_at_cong [OF sp(1)] by (auto simp: sched_run_def s'_def)
  ultimately show "\<exists>s'. sched_run s = Some s' \<and> started s'"
    using t(1) by (simp add: started_def s'_def)
qed

section \<open>Instances for the witnesses\<close>

definition boot_pmm :: Pmm where
  "boot_pmm = pmm_init [\<lparr>me_base = 0x100000, me_length = 0x40000, me_usable = True\<rparr>] 0 0"

lemma boot_pmm_alloc: "\<exists>a p'. alloc_contiguous TASK_STACK_PAGES boot_pmm = (Some a, p')"
proof -
  have "entry_pages \<lparr>me_base = 0x100000, me_length = 0x40000, me_usable = True\<rparr> = {256..<320}"
    by (simp add: entry_pages_def usable_pages_def page_range_def PAGE_SIZE_def del: upt_rec_numeral)
  then have "pmm_free_pages boot_pmm = {256..<320}"
    unfolding boot_pmm_def
    by (subst pmm_init_result(2)) (auto simp: kernel_pages_def page_range_def PAGE_SIZE_def MAX_PAGES_def)
  then have "pmm_is_run boot_pmm TASK_STACK_PAGES 256"
    unfolding is_run_free by (simp add: TASK_STACK_PAGES_def MAX_PAGES_def)
  then have "fst (alloc_contiguous TASK_STACK_PAGES boot_pmm) \<noteq> None"
    using alloc_contiguous_none(2) [of TASK_STACK_PAGES boot_pmm 256] by (auto simp: TASK_STACK_PAGES_def)
  then show ?thesis
    by (metis not_None_eq prod.collapse)
qed

lemma boot_example:
  "\<exists>s :: unit Scheduler. sched_run (fst (boot_spawns 0 0 0 [(0x1000, [], 1)] (sched_new, boot_pmm))) = Some s"
proof -
  obtain a p' where a: "alloc_contiguous TASK_STACK_PAGES boot_pmm = (Some a, p')"
    using boot_pmm_alloc by blast
  obtain r and s :: "unit Scheduler" and q where spawn: "sched_spawn 0 0 0 0x1000 [] 1 (sched_new, boot_pmm) = (r, s, q)"
    using prod_cases3 by blast
  note inv = sched_spawn_inv [OF sched_new_inv spawn]
  have free: "find_free_slot (sched_new :: unit Scheduler) = Some 0"
    by (simp add: find_free_slot_def sched_new_def MAX_TASKS_def replicate_Suc [of 63, simplified])
  have "\<exists>t. task_at s 0 = Some t \<and> t_state t = Ready \<and> t_priority t = 1"
    using spawn free a
    by (auto simp: sched_spawn_def Let_def task_new_def task_new_with_args_def task_at_set_task sched_new_def MAX_TASKS_def
        name_buf_def PRIORITY_LEVELS_def)
  then have "0 \<in> set (run_queue s 1)"
    using queues_ok_level(3) [OF inv_base(2) [OF inv(1)], of 1] by (auto simp: ready_set_mem PRIORITY_LEVELS_def)
  then have "\<not> (\<forall>l < PRIORITY_LEVELS. run_queue s l = [])"
    by (auto simp: PRIORITY_LEVELS_def intro: exI [of _ 1])
  moreover have "sc_current s = NO_TASK"
    using inv(2) by (simp add: sched_new_def)
  ultimately show ?thesis
    using sched_run_ok(2) [OF inv(1)] spawn by auto
qed

text \<open>Two tasks at level 1: task 0 runs, task 1 is queued.\<close>

definition example_task :: "TaskId \<Rightarrow> TaskState \<Rightarrow> unit Task" where
  "example_task tid st =
     \<lparr>t_id = tid, t_state = st, t_priority = 1, t_base_priority = 1, t_ticks = 0, t_ticks_used = 0,
      t_context = context_empty, t_page_table = 0x1000, t_kernel_stack_top = 0, t_stack_phys = 0, t_stack_virt = 0,
      t_user_entry = 0, t_user_stack_top = 0, t_name = [], t_name_len = 0, t_awake_pending = False,
      t_waiting_on = None, t_cwd = [], t_fds = [], t_brk = 0, t_latency_class = NormalLatency\<rparr>"

definition example_sched :: "unit Scheduler" where
  "example_sched =
     (set_task 0 (example_task 0 Running)
       (upd_queue 1 (\<lambda>q. tq_push_back q 1) (set_task 1 (example_task 1 Ready) sched_new)))\<lparr>sc_current := 0\<rparr>"

lemma example_task_at:
  "task_at example_sched k = (if k = 0 then Some (example_task 0 Running) else if k = 1 then Some (example_task 1 Ready) else None)"
  by (auto simp: example_sched_def task_at_def sched_new_def MAX_TASKS_def nth_list_update)

text \<open>A task that does not become ready, put into a slot whose task is not ready either.\<close>

lemma queues_ok_park:
  assumes "queues_ok s" "slot < MAX_TASKS" "\<not> is_ready s slot" "t_state t \<noteq> Ready" "t_priority t < PRIORITY_LEVELS"
  shows "queues_ok (set_task slot t s)"
proof (rule queues_ok_set_task [OF assms(1,2,5)])
  fix l
  assume l: "l < PRIORITY_LEVELS"
  have "slot \<notin> set (run_queue s l)"
    using queues_ok_level(3) [OF assms(1) l] assms(3) by (auto simp: is_ready_mem)
  then show "tq_wf (sc_queues (set_task slot t s) ! l) \<and> distinct (run_queue (set_task slot t s) l)
      \<and> set (run_queue (set_task slot t s) l) = (if t_state t = Ready \<and> t_priority t = l
          then insert slot (set (run_queue s l)) else set (run_queue s l) - {slot})"
    using queues_ok_level(1,2) [OF assms(1) l] assms(4) by simp
qed (use queues_ok_len [OF assms(1)] in simp_all)

lemma example_started: "started example_sched"
proof -
  let ?s = "upd_queue 1 (\<lambda>q. tq_push_back q 1) (set_task 1 (example_task 1 Ready) (sched_new :: unit Scheduler))"
  have ok: "queues_ok ?s"
    by (rule queues_ok_enqueue [OF sched_new_ok])
      (simp_all add: MAX_TASKS_def PRIORITY_LEVELS_def is_ready_def task_at_def sched_new_def example_task_def)
  have "queues_ok (set_task 0 (example_task 0 Running) ?s)"
    by (rule queues_ok_park [OF ok])
      (simp_all add: MAX_TASKS_def PRIORITY_LEVELS_def is_ready_def task_at_def sched_new_def example_task_def)
  then have "queues_ok example_sched"
    using queues_ok_cong [of example_sched "set_task 0 (example_task 0 Running) ?s"] by (simp add: example_sched_def)
  moreover have "sc_boost_countdown example_sched = 500" "sc_current example_sched = 0"
    by (simp_all add: example_sched_def sched_new_def BOOST_INTERVAL_def)
  ultimately show ?thesis
    by (simp add: started_def sched_inv_def sched_base_def states_def example_task_at BOOST_INTERVAL_def MAX_TASKS_def
        example_task_def)
qed

text \<open>The same two tasks with task 1 blocked.\<close>

definition blocked_sched :: "unit Scheduler" where
  "blocked_sched =
     (set_task 0 (example_task 0 Running) (set_task 1 (example_task 1 Blocked) sched_new))\<lparr>sc_current := 0\<rparr>"

lemma blocked_task_at:
  "task_at blocked_sched k = (if k = 0 then Some (example_task 0 Running) else if k = 1 then Some (example_task 1 Blocked) else None)"
  by (auto simp: blocked_sched_def task_at_def sched_new_def MAX_TASKS_def nth_list_update)

lemma blocked_started: "started blocked_sched"
proof -
  let ?s = "set_task 1 (example_task 1 Blocked) (sched_new :: unit Scheduler)"
  have "queues_ok (set_task 0 (example_task 0 Running) ?s)"
    by (rule queues_ok_park [OF queues_ok_park [OF sched_new_ok]])
      (simp_all add: MAX_TASKS_def PRIORITY_LEVELS_def is_ready_def task_at_def sched_new_def example_task_def)
  then have "queues_ok blocked_sched"
    using queues_ok_cong [of blocked_sched "set_task 0 (example_task 0 Running) ?s"] by (simp add: blocked_sched_def)
  moreover have "sc_boost_countdown blocked_sched = 500" "sc_current blocked_sched = 0"
    by (simp_all add: blocked_sched_def sched_new_def BOOST_INTERVAL_def)
  ultimately show ?thesis
    by (simp add: started_def sched_inv_def sched_base_def states_def blocked_task_at BOOST_INTERVAL_def MAX_TASKS_def
        example_task_def)
qed

lemma example_find:
  "find_task 0 example_sched = Some 0" "find_task 1 blocked_sched = Some 1"
  using example_task_at [of 0] blocked_task_at [of 0] blocked_task_at [of 1]
  by (auto simp: find_task_def position_Some task_at_def example_task_def less_Suc_eq split: if_splits)

lemma example_queue: "l < PRIORITY_LEVELS \<Longrightarrow> run_queue example_sched l = (if l = 1 then [1] else [])"
  by (simp add: example_sched_def upd_queue_nth sched_new_def tq_push_back_contents MAX_TASKS_def)

definition example_regs :: AllRegisters where
  "example_regs = \<lparr>r_rax = 0, r_rbx = 0, r_rcx = 0, r_rdx = 0, r_rbp = 0, r_rsi = 0, r_rdi = 0, r_r8 = 0, r_r9 = 0,
     r_r10 = 0, r_r11 = 0, r_r12 = 0, r_r13 = 0, r_r14 = 0, r_r15 = 0, r_error_code = 0, r_rip = 0x400000,
     r_cs = 0x23, r_rflags = 0x202, r_rsp = 0x7000, r_ss = 0x1B\<rparr>"

section \<open>Properties\<close>



lemma save_current_queue:
  assumes "started s" "task_at s (sc_current s) = Some t" "l < PRIORITY_LEVELS"
  shows "run_queue (save_current regs fp s) l = run_queue s l @ (if l = t_priority t then [sc_current s] else [])"
proof -
  note ok = inv_base(2) [OF started_cur(1) [OF assms(1)]]
  have run: "t_state t = Running" and c: "sc_current s < MAX_TASKS"
    using assms(1,2) by (auto simp: started_def sched_inv_def states_def)
  have out: "sc_current s \<notin> set (run_queue s l)"
    using queues_ok_level(3) [OF ok assms(3)] assms(2) run by (auto simp: ready_set_mem)
  have "tq_len (sc_queues s ! l) < MAX_TASKS"
    using queue_room [of "sc_tasks s" l "sc_queues s ! l"] ok c assms(3) out by (simp add: queues_ok_def)
  then show ?thesis
    using assms(2,3) run queues_ok_len [OF ok] tq_push_back_contents [OF queues_ok_level(1) [OF ok assms(3)]]
    by (cases "t_priority t = l") (simp_all add: save_current_def Let_def upd_queue_nth)
qed

text \<open>What \<open>reschedule\<close> leaves of the state after \<open>pick_next\<close>: the queues and every saved context.\<close>

lemma reschedule_keeps:
  assumes "queues_ok s" "reschedule regs fp s = Some s'" "pick_next (save_current regs fp s) = (new, s2)"
  shows "sc_queues s' = sc_queues s2" "map_option t_context (task_at s' k) = map_option t_context (task_at (save_current regs fp s) k)"
proof -
  have at: "task_at s2 = task_at (save_current regs fp s)"
    using task_at_cong [OF pick_next_spec(1) [OF save_current_ok(1) [OF assms(1)] assms(3)]] .
  have set: "map_option t_context (task_at (set_task j (t\<lparr>t_state := Running\<rparr>) s2') k) = map_option t_context (task_at s2 k)"
    if "task_at s2 j = Some t" "sc_tasks s2' = sc_tasks s2" for j t s2'
    using that task_at_cong [OF that(2)] by (auto simp: task_at_def set_task_def nth_list_update split: if_splits)
  have q: "sc_queues (set_task j t x) = sc_queues x" for j t and x :: "'a Scheduler"
    by (simp add: set_task_def)
  show "sc_queues s' = sc_queues s2"
    using assms(2) unfolding reschedule_def Let_def assms(3) by (auto simp: q split: if_splits option.splits)
  show "map_option t_context (task_at s' k) = map_option t_context (task_at (save_current regs fp s) k)"
    using assms(2) unfolding reschedule_def Let_def assms(3) by (auto simp: set at [symmetric] split: if_splits option.splits)
qed

lemma save_current_others: "k \<noteq> sc_current s \<Longrightarrow> task_at (save_current regs fp s) k = task_at s k"
  by (auto simp: save_current_def Let_def task_at_def set_task_def upd_queue_def nth_list_update split: option.splits)

lemma reschedule_after:
  assumes "started s" "task_at s (sc_current s) = Some t" "reschedule regs fp s = Some s'"
    and l: "l < PRIORITY_LEVELS" "run_queue (save_current regs fp s) l \<noteq> []" "\<forall>k < l. run_queue (save_current regs fp s) k = []"
  shows "\<forall>k < PRIORITY_LEVELS. run_queue s' k =
      (let q = run_queue s k @ (if k = t_priority t then [sc_current s] else []) in if k = l then tl q else q)"
    "map_option t_context (task_at s' (sc_current s)) = Some (save_context regs fp)"
    "\<forall>k. k \<noteq> sc_current s \<longrightarrow> map_option t_context (task_at s' k) = map_option t_context (task_at s k)"
proof -
  let ?s1 = "save_current regs fp s"
  note ok = inv_base(2) [OF started_cur(1) [OF assms(1)]]
  obtain new s2 where pick: "pick_next ?s1 = (new, s2)"
    by fastforce
  note keep = reschedule_keeps [OF ok assms(3) pick]
  have "\<not> (\<forall>l < PRIORITY_LEVELS. run_queue ?s1 l = [])"
    using l(1,2) by blast
  then obtain l' where l': "l' < PRIORITY_LEVELS" "\<forall>k < l'. run_queue ?s1 k = []" "run_queue ?s1 l' = new # run_queue s2 l'"
      "\<forall>k < PRIORITY_LEVELS. k \<noteq> l' \<longrightarrow> run_queue s2 k = run_queue ?s1 k"
    using pick_next_spec(7) [OF save_current_ok(1) [OF ok] pick] by blast
  have "l' = l"
    using l(2,3) l'(2,3) by (metis linorder_neqE_nat list.discI)
  then have "run_queue s2 k = (if k = l then tl (run_queue ?s1 k) else run_queue ?s1 k)" if "k < PRIORITY_LEVELS" for k
    using l'(3,4) that by simp
  then show "\<forall>k < PRIORITY_LEVELS. run_queue s' k =
      (let q = run_queue s k @ (if k = t_priority t then [sc_current s] else []) in if k = l then tl q else q)"
    using save_current_queue [OF assms(1,2), of _ regs fp] by (simp add: Let_def keep(1))
  show "map_option t_context (task_at s' (sc_current s)) = Some (save_context regs fp)"
      "\<forall>k. k \<noteq> sc_current s \<longrightarrow> map_option t_context (task_at s' k) = map_option t_context (task_at s k)"
    using keep(2) save_current_ok(5) [OF ok, of regs fp] assms(2) save_current_others [of _ s regs fp] by simp_all
qed

text \<open>C14: A reschedule of the running task saves its registers in its slot, puts it at the tail of its level, and
  gives the CPU to the head of the highest non-empty level; only when no level down to its own holds a
  task does the running task go on.  Afterwards every level holds what it held before, the old task is the
  last of its level, and the task dispatched is gone from the head of its own; the saved contexts of
  the other tasks are as they were.\<close>

theorem reschedule_highest_level:
  assumes "started s" "task_at s (sc_current s) = Some t"
  shows "\<exists>s' l. reschedule regs fp s = Some s' \<and> l \<le> t_priority t
    \<and> (\<forall>k < l. run_queue s k = []) \<and> (run_queue s l = [] \<longrightarrow> l = t_priority t)
    \<and> sc_current s' = hd (run_queue s l @ [sc_current s]) \<and> states s' (sc_current s') = Some Running
    \<and> (\<forall>k < PRIORITY_LEVELS. run_queue s' k =
         (let q = run_queue s k @ (if k = t_priority t then [sc_current s] else []) in if k = l then tl q else q))
    \<and> map_option t_context (task_at s' (sc_current s)) = Some (save_context regs fp)
    \<and> (\<forall>k. k \<noteq> sc_current s \<longrightarrow> map_option t_context (task_at s' k) = map_option t_context (task_at s k))"
proof -
  let ?s1 = "save_current regs fp s"
  note cur = started_cur [OF assms(1)]
  note ok = inv_base(2) [OF cur(1)]
  have p: "t_priority t < PRIORITY_LEVELS"
    using queues_ok_prio [OF ok assms(2)] .
  note q = save_current_queue [OF assms, of _ regs fp]
  have ne: "run_queue ?s1 (t_priority t) \<noteq> []"
    using q [OF p] by simp
  from reschedule_ok [OF inv_dispatchable [OF cur], of regs fp] obtain s' where s': "reschedule regs fp s = Some s'"
    "sched_inv s'" "sc_current s' < MAX_TASKS"
    "if \<forall>l < PRIORITY_LEVELS. run_queue ?s1 l = [] then sc_current s' = sc_current s
     else \<exists>l < PRIORITY_LEVELS. \<exists>xs. run_queue ?s1 l = sc_current s' # xs \<and> (\<forall>k < l. run_queue ?s1 k = [])
         \<and> states ?s1 (sc_current s') = Some Ready"
    by blast
  have "\<not> (\<forall>l < PRIORITY_LEVELS. run_queue ?s1 l = [])"
    using ne p by blast
  from s'(4) [unfolded if_not_P [OF this]] obtain l xs where
    l: "l < PRIORITY_LEVELS" "run_queue ?s1 l = sc_current s' # xs" "\<forall>k < l. run_queue ?s1 k = []"
    by blast
  have le: "l \<le> t_priority t"
    using l(3) ne by (meson not_le)
  note after = reschedule_after [OF assms s'(1) l(1) _ l(3)]
  have "run_queue s k = []" if "k < l" for k
    using l(3) that q [of k] l(1) by simp
  moreover have "sc_current s' = hd (run_queue s l @ [sc_current s])" "run_queue s l = [] \<longrightarrow> l = t_priority t"
    using q [OF l(1)] l(2) by (cases "run_queue s l"; simp split: if_splits)+
  moreover have "states s' (sc_current s') = Some Running"
    using s'(2,3) by (auto simp: sched_inv_def)
  ultimately show ?thesis
    by (intro exI [of _ s'] exI [of _ l] conjI) (use s'(1) le after l(2) in simp_all)
qed

theorem reschedule_highest_level_witness:
  "\<exists>s'. reschedule example_regs 0x1000 example_sched = Some s' \<and> sc_current s' = 1"
proof -
  have cur: "sc_current example_sched = 0"
    by (simp add: example_sched_def)
  obtain s' l where s': "reschedule example_regs 0x1000 example_sched = Some s'" "l \<le> 1"
    "run_queue example_sched l = [] \<longrightarrow> l = 1" "sc_current s' = hd (run_queue example_sched l @ [0])"
    using reschedule_highest_level [OF example_started, where t = "example_task 0 Running" and regs = example_regs and fp = "0x1000"]
    unfolding cur by (simp only: example_task_at example_task_def) auto
  then have "l = 1"
    using example_queue [of l] by (cases "l = 0") (simp_all add: PRIORITY_LEVELS_def)
  then show ?thesis
    using s' example_queue [of 1] by (simp add: PRIORITY_LEVELS_def)
qed

lemma sched_tick_queues:
  assumes "queues_ok (tick_boost s)" "sched_tick s = (b, s')"
  shows "sc_queues s' = sc_queues (tick_boost s)"
  using assms(2) unfolding sched_tick_eq [OF assms(1)]
  by (auto simp: Let_def demote_current_def split: option.splits if_splits)

text \<open>C13: No ready task starves.  Whatever happens in between, when the countdown has run out, after at most
  500 timer ticks, the tick empties every level into level 0: the new top queue is the old queues one
  after the other, and every ready task is in it.\<close>

theorem boost_within_interval:
  assumes "started s" "list_all op_ok ops" "Suc (length (filter is_tick ops)) = sc_boost_countdown s"
    and "sched_exec hhdm tr cr3 ops (s, p) = Some (s1, p1)" "sched_tick s1 = (b, s2)"
  shows "sc_boost_countdown s \<le> 500
    \<and> run_queue s2 0 = concat (map (run_queue s1) [0..<PRIORITY_LEVELS])
    \<and> (\<forall>k. states s1 k = Some Ready \<longrightarrow> states s2 k = Some Ready \<and> k \<in> set (run_queue s2 0))"
proof -
  from sched_exec_started [OF assms(1,2), of hhdm tr cr3 p] obtain s' p' where s':
    "sched_exec hhdm tr cr3 ops (s, p) = Some (s', p')" "started s'"
    "length (filter is_tick ops) < sc_boost_countdown s \<longrightarrow>
       sc_boost_countdown s' = sc_boost_countdown s - length (filter is_tick ops)"
    by metis
  then have s1: "started s1" "sc_boost_countdown s1 = 1"
    using assms(4) by (simp_all flip: assms(3))
  have base: "queues_ok s1" "0 < sc_boost_countdown s1" "sc_boost_countdown s1 \<le> BOOST_INTERVAL"
    using s1 by (simp_all add: started_def sched_inv_def sched_base_def)
  note tb = tick_boost_ok [OF base]
  note q = sched_tick_queues [OF tb(1) assms(5)]
  have st: "states s2 = states s1"
    using sched_tick_ok(2) [OF base inv_current_not_ready assms(5)] s1(1) by (simp add: started_def)
  have "k \<in> set (run_queue s2 0)" if ready: "states s1 k = Some Ready" for k
  proof -
    obtain t where t: "task_at s1 k = Some t" "t_state t = Ready"
      using ready by (auto simp: states_def)
    then have "k \<in> set (run_queue s1 (t_priority t))" "t_priority t < PRIORITY_LEVELS"
      using queues_ok_prio [OF base(1) t(1)] queues_ok_level(3) [OF base(1)] by (auto simp: ready_set_mem)
    then show ?thesis
      using tb(6) s1(2) q by auto
  qed
  moreover have "sc_boost_countdown s \<le> 500"
    using assms(1) by (simp add: started_def sched_inv_def sched_base_def BOOST_INTERVAL_def)
  ultimately show ?thesis
    using tb(6) s1(2) q st by simp
qed

theorem boost_within_interval_witness:
  "\<exists>s2 b. sched_tick (example_sched\<lparr>sc_boost_countdown := 1\<rparr>) = (b, s2) \<and> run_queue s2 0 = [1]"
proof -
  let ?s = "example_sched\<lparr>sc_boost_countdown := 1\<rparr>"
  have st: "started ?s"
    using example_started queues_ok_cong [of ?s example_sched] states_cong [of ?s example_sched]
    by (auto simp: started_def sched_inv_def sched_base_def BOOST_INTERVAL_def)
  obtain b s2 where tick: "sched_tick ?s = (b, s2)"
    by fastforce
  have "run_queue s2 0 = concat (map (run_queue ?s) [0..<PRIORITY_LEVELS])"
    using boost_within_interval [OF st _ _ _ tick, of "[]"] by simp
  then have "run_queue s2 0 = [1]"
    using example_queue by (simp add: PRIORITY_LEVELS_def upt_rec)
  then show ?thesis
    using tick by blast
qed

text \<open>Blocking while another task is ready: the CPU goes to the other task.\<close>

lemma block_current_blocks:
  assumes st: "started s" and reason: "reason_ok reason" and ready: "\<exists>k. states s k = Some Ready"
  obtains s' where "block_current reason regs fp s = Some s'" "states s' (sc_current s) = Some Blocked"
    "sc_current s' \<noteq> sc_current s" "started s'"
proof -
  let ?c = "sc_current s"
  note cur = started_cur [OF st]
  have run: "states s ?c = Some Running"
    using st by (auto simp: started_def sched_inv_def)
  from block_mark_ok [OF cur reason] obtain s2 where s2: "block_mark reason s = Some s2" "dispatchable s2"
    "sc_current s2 = ?c" "states s2 = (states s)(?c := Some Blocked)"
    by metis
  note ok2 = s2(2) [unfolded dispatchable_def sched_base_def]
  have sv: "states (save_current regs fp s2) = states s2" and okv: "queues_ok (save_current regs fp s2)"
    using save_current_ok(1,4) [of s2 regs fp] ok2 s2(3,4) by simp_all
  obtain k where k: "states s2 k = Some Ready"
    using ready s2(4) run by (metis TaskState.distinct(1) fun_upd_other option.inject)
  have some: "\<not> (\<forall>l < PRIORITY_LEVELS. run_queue (save_current regs fp s2) l = [])"
    using pick_next_none(3) [OF okv _, of _ _ k] k sv by (metis is_ready_states prod.exhaust)
  from reschedule_ok [OF s2(2), of regs fp] obtain s' where s': "reschedule regs fp s2 = Some s'"
    "\<And>k. k \<noteq> sc_current s' \<Longrightarrow> states s' k = states (save_current regs fp s2) k"
    "states (save_current regs fp s2) (sc_current s') = Some Ready" "sched_inv s'" "sc_current s' < MAX_TASKS"
    using some by metis
  have "sc_current s' \<noteq> ?c"
    using s'(3) sv s2(4) by auto
  then show thesis
    using that s'(1,2,4,5) s2(1,4) sv by (simp add: block_current_def started_def)
qed

lemma wake_task_not_blocked:
  assumes "find_task task_id s = Some slot" "states s slot \<noteq> Some Blocked"
  shows "states (wake_task task_id s) = states s" "sc_current (wake_task task_id s) = sc_current s"
  using assms task_at_bound [of s slot]
  by (auto simp: wake_task_def states_def fun_eq_iff task_at_set_task split: option.splits)

lemma wake_task_blocked:
  assumes "find_task task_id s = Some slot" "states s slot = Some Blocked"
  shows "states (wake_task task_id s) = (states s)(slot := Some Ready)"
  using assms task_at_bound [of s slot] by (auto simp: wake_task_def states_def fun_eq_iff task_at_set_task)

lemma wake_task_started: "started s \<Longrightarrow> started (wake_task task_id s)"
  using wake_task_inv [of s task_id] by (simp add: started_def)

text \<open>C32: A wake-up that arrives before its task blocks is lost.  \<open>wake_task\<close> records it in
  \<open>awake_pending\<close>, which nothing reads: if another task can run, the task that blocks next stays
  \<open>Blocked\<close>.\<close>

theorem early_wake_up_lost:
  assumes "started s" "find_task task_id s = Some (sc_current s)" "reason_ok reason" "\<exists>k. states s k = Some Ready"
  shows "\<exists>s'. block_current reason regs fp (wake_task task_id s) = Some s'
    \<and> states s' (sc_current s) = Some Blocked \<and> sc_current s' \<noteq> sc_current s"
proof -
  have "states s (sc_current s) \<noteq> Some Blocked"
    using assms(1) by (auto simp: started_def sched_inv_def)
  note w = wake_task_not_blocked [OF assms(2) this]
  show ?thesis
    using block_current_blocks [OF wake_task_started [OF assms(1)] assms(3), of task_id regs fp] assms(4) w by metis
qed

theorem early_wake_up_lost_witness:
  "\<exists>s'. block_current Waiting example_regs 0x1000 (wake_task 0 example_sched) = Some s' \<and> states s' 0 = Some Blocked"
proof -
  have cur: "sc_current example_sched = 0"
    by (simp add: example_sched_def)
  have find: "find_task 0 example_sched = Some (sc_current example_sched)"
    by (simp add: cur example_find)
  have ready: "\<exists>k. states example_sched k = Some Ready"
    by (rule exI [of _ 1]) (simp add: states_def example_task_at example_task_def)
  show ?thesis
    using early_wake_up_lost [OF example_started find _ ready, where reason = Waiting and regs = example_regs and fp = "0x1000"]
    by (auto simp: reason_ok_def cur)
qed

text \<open>The last runnable task cannot exit.  When no other task is ready, \<open>exit_current\<close> marks the task
  \<open>Dead\<close> and \<open>reschedule\<close>, finding nothing to switch to, marks it \<open>Running\<close> again and returns to it.\<close>

theorem exit_without_successor:
  assumes "started s" "\<forall>k. states s k \<noteq> Some Ready"
  shows "\<exists>s'. exit_current regs fp s = Some s' \<and> sc_current s' = sc_current s \<and> states s' (sc_current s) = Some Running"
proof -
  let ?c = "sc_current s"
  obtain s1 s' where s1: "dispatchable s1" "states s1 = (states s)(?c := Some Dead)" "sc_current s1 = ?c"
    "exit_current regs fp s = reschedule regs fp s1" "exit_current regs fp s = Some s'" "sched_inv s'" "sc_current s' < MAX_TASKS"
    using exit_current_inv [OF started_cur [OF assms(1)], of regs fp] by metis
  have ok: "queues_ok s1"
    using s1(1) by (simp add: dispatchable_def sched_base_def)
  have st: "states (save_current regs fp s1) = states s1"
    using save_current_ok(4) [OF ok, of regs fp] s1(2,3) by simp
  have "run_queue (save_current regs fp s1) l = []" if "l < PRIORITY_LEVELS" for l
  proof -
    have "k \<notin> ready_set (sc_tasks (save_current regs fp s1)) l" for k
      using assms(2) is_ready_mem [of "save_current regs fp s1" k] st s1(2) by (auto simp: is_ready_states split: if_splits)
    then show ?thesis
      using queues_ok_level(3) [OF save_current_ok(1) [OF ok, of regs fp] that] by (metis equals0I set_empty)
  qed
  then have "sc_current s' = ?c"
    using reschedule_ok [OF s1(1), of regs fp] s1(3-5) by (metis option.inject)
  then show ?thesis
    using s1(5-7) by (auto simp: sched_inv_def)
qed

definition lone_sched :: "unit Scheduler" where
  "lone_sched = the (kill 1 example_sched)"

theorem exit_without_successor_witness:
  "\<exists>s'. exit_current example_regs 0x1000 lone_sched = Some s' \<and> states s' 0 = Some Running"
proof -
  have kill: "kill 1 example_sched = Some lone_sched"
    by (simp add: lone_sched_def kill_def MAX_TASKS_def)
  note k = kill_ok [OF inv_base(2) [OF started_cur(1) [OF example_started]] kill]
  have cur: "sc_current example_sched = 0"
    by (simp add: example_sched_def)
  have st: "states lone_sched k = (if k = 0 then Some Running else if k = 1 then Some Dead else None)" for k
    by (simp add: states_def k(4) example_task_at example_task_def)
  have "started lone_sched"
    using example_started k(1-3) st by (simp add: started_def sched_inv_def sched_base_def cur)
  moreover have "\<forall>k. states lone_sched k \<noteq> Some Ready"
    by (simp add: st)
  ultimately show ?thesis
    using exit_without_successor [of lone_sched example_regs "0x1000"] k(2) cur by auto
qed

lemma boost_peer_front:
  assumes ok: "queues_ok s" and t: "task_at s peer = Some t" "t_state t = Ready" "t_priority t \<noteq> 0"
  obtains s' where "boost_peer peer s = Some s'" "run_queue s' 0 = peer # run_queue s 0"
proof -
  have peer: "peer < MAX_TASKS"
    using task_at_bound [OF t(1)] queues_ok_len [OF ok] by simp
  have l: "0 < PRIORITY_LEVELS"
    by (simp add: PRIORITY_LEVELS_def)
  have "peer \<notin> set (run_queue s 0)"
    using queues_ok_level(3) [OF ok l] t by (auto simp: ready_set_mem)
  then have room: "tq_len (sc_queues s ! 0) < MAX_TASKS"
    using queue_room [of "sc_tasks s" 0 "sc_queues s ! 0"] ok peer l by (simp add: queues_ok_def)
  show thesis
    using that t peer l queues_ok_len [OF ok] tq_push_front_contents(1) [OF queues_ok_level(1) [OF ok l] room, of peer]
    by (simp add: boost_peer_def Let_def upd_queue_nth)
qed

text \<open>A task that blocks on an empty ring hands the CPU to the producer: if the producer is ready below
  the top level, it moves to the head of level 0 and is the next task to run.\<close>

theorem empty_ring_runs_producer:
  assumes st: "started s" and t: "task_at s producer = Some t" "t_state t = Ready" "t_priority t \<noteq> 0"
  shows "\<exists>s'. block_current (SpscRingEmpty producer) regs fp s = Some s' \<and> sc_current s' = producer
    \<and> states s' (sc_current s) = Some Blocked"
proof -
  let ?c = "sc_current s" and ?r = "SpscRingEmpty producer"
  note cur = started_cur [OF st]
  note ok = inv_base(2) [OF cur(1)]
  have peer: "producer < MAX_TASKS"
    using task_at_bound [OF t(1)] queues_ok_len [OF ok] by simp
  obtain tc where tc: "task_at s ?c = Some tc" "t_state tc = Running" and c: "?c < MAX_TASKS"
    using st by (auto simp: started_def sched_inv_def states_def)
  have ne: "?c \<noteq> producer"
    using tc t(1,2) by auto
  define s0 where "s0 = set_task ?c (tc\<lparr>t_state := Blocked\<rparr>) s"
  have ok0: "queues_ok s0"
    unfolding s0_def using tc queues_ok_prio [OF ok tc(1)] by (intro queues_ok_keep [OF ok tc(1)]) simp_all
  have "task_at s0 producer = Some t"
    using t(1) ne by (simp add: s0_def task_at_set_task)
  from boost_peer_front [OF ok0 this t(2,3)] obtain s1 where
    s1: "boost_peer producer s0 = Some s1" "run_queue s1 0 = producer # run_queue s0 0" .
  obtain s2 where s2: "block_mark ?r s = Some s2" "dispatchable s2" "sc_current s2 = ?c"
    "states s2 = (states s)(?c := Some Blocked)"
    using block_mark_ok [OF cur, of ?r] peer by (auto simp: reason_ok_def)
  have "sc_queues s2 = sc_queues s1"
    using s2(1) tc(1) c s1(1) by (auto simp: block_mark_def boost_for_reason_def Let_def simp flip: s0_def split: option.splits)
  moreover have "states s2 ?c = Some Blocked"
    by (simp add: s2(4))
  then obtain t2 where "task_at s2 ?c = Some t2" "t_state t2 = Blocked"
    by (auto simp: states_def)
  ultimately have q: "run_queue (save_current regs fp s2) 0 = producer # run_queue s0 0"
    using s1(2) s2(3) by (simp add: save_current_def Let_def)
  have sv: "states (save_current regs fp s2) = states s2"
    using save_current_ok(4) [of s2 regs fp] s2(2-4) by (simp add: dispatchable_def sched_base_def)
  have "\<not> (\<forall>l < PRIORITY_LEVELS. run_queue (save_current regs fp s2) l = [])"
    using q by (auto simp: PRIORITY_LEVELS_def intro!: exI [of _ 0])
  then obtain s' l xs where s': "reschedule regs fp s2 = Some s'"
    "\<And>k. k \<noteq> sc_current s' \<Longrightarrow> states s' k = states (save_current regs fp s2) k"
    "run_queue (save_current regs fp s2) l = sc_current s' # xs" "\<forall>k < l. run_queue (save_current regs fp s2) k = []"
    using reschedule_ok [OF s2(2), of regs fp] by metis
  have "l = 0"
    using s'(4) q by (metis gr0I list.distinct(1))
  then show ?thesis
    using s' q s2(1,4) sv ne by (auto simp: block_current_def)
qed

theorem empty_ring_runs_producer_witness:
  "\<exists>s'. block_current (SpscRingEmpty 1) example_regs 0x1000 example_sched = Some s' \<and> sc_current s' = 1"
  using empty_ring_runs_producer [OF example_started, of 1 "example_task 1 Ready" example_regs "0x1000"]
  by (auto simp: example_task_at example_task_def)

end
