(* ===== verification/TaskIds.thy ===== *)
theory TaskIds
  imports Sched
begin

text \<open>
  The identities of the tasks under the scheduler's operations: none of them changes the id of a task
  or frees its slot.  \<open>wake_task\<close> therefore finds a task for as long as the kernel runs, and so does
  \<open>wait_task\<close>.
\<close>

text \<open>No operation changes the id of a task or frees its slot.\<close>

definition task_ids :: "'f Scheduler \<Rightarrow> TaskId option list" where
  "task_ids s = map (map_option t_id) (sc_tasks s)"

lemma position_map: "position P (map f xs) = position (P \<circ> f) xs"
  by (induction xs) simp_all

lemma find_task_ids: "find_task task_id s = position (\<lambda>i. i = Some task_id) (task_ids s)"
  unfolding find_task_def task_ids_def position_map
  by (rule arg_cong [of _ _ "\<lambda>P. position P (sc_tasks s)"]) (auto simp: fun_eq_iff split: option.splits)

lemma wait_task_done_ids: "wait_task_done task_id s \<longleftrightarrow> Some task_id \<notin> set (task_ids s)"
  by (auto simp: wait_task_done_def find_task_ids position_None)

lemma task_ids_set_task:
  assumes "task_at s slot = Some t0" "t_id t = t_id t0"
  shows "task_ids (set_task slot t s) = task_ids s"
proof -
  have "sc_tasks s ! slot = Some t0" "slot < length (sc_tasks s)"
    using assms(1) by (simp_all add: task_at_def split: if_splits)
  then show ?thesis
    using assms(2) list_update_id [of "map (map_option t_id) (sc_tasks s)" slot] by (simp add: task_ids_def map_update)
qed

lemma task_ids_upd_queue [simp]: "task_ids (upd_queue l f s) = task_ids s"
  by (simp add: task_ids_def)

lemma task_ids_cong: "sc_tasks s' = sc_tasks s \<Longrightarrow> task_ids s' = task_ids s"
  by (simp add: task_ids_def)

lemma task_ids_spawn:
  assumes "task_at s slot = None"
  shows "set (task_ids s) \<subseteq> set (task_ids (set_task slot t s)) \<union> {None}"
proof
  fix i
  assume "i \<in> set (task_ids s)"
  then obtain k where k: "k < length (sc_tasks s)" "i = map_option t_id (sc_tasks s ! k)"
    by (auto simp: task_ids_def in_set_conv_nth)
  show "i \<in> set (task_ids (set_task slot t s)) \<union> {None}"
  proof (cases "k = slot")
    case True
    then show ?thesis
      using assms k by (simp add: task_at_def)
  next
    case False
    then have "task_ids (set_task slot t s) ! k = i" "k < length (task_ids (set_task slot t s))"
      using k by (simp_all add: task_ids_def)
    then show ?thesis
      by (metis UnI1 nth_mem)
  qed
qed

lemma boost_peer_ids: "boost_peer peer s = Some s' \<Longrightarrow> task_ids s' = task_ids s"
  by (auto simp: boost_peer_def Let_def task_ids_set_task split: if_splits option.splits)

lemma boost_for_reason_ids:
  assumes "boost_for_reason slot reason s = Some s'"
  shows "task_ids s' = task_ids s"
proof (cases reason)
  case (SpscRingEmpty peer)
  obtain s1 where s1: "boost_peer peer s = Some s1"
    "s' = (case task_at s1 slot of None \<Rightarrow> s1 | Some t \<Rightarrow> set_task slot (t\<lparr>t_priority := 0, t_ticks_used := 0\<rparr>) s1)"
    using assms SpscRingEmpty by (auto simp: boost_for_reason_def split: option.splits if_splits)
  then show ?thesis
    using boost_peer_ids [OF s1(1)] by (cases "task_at s1 slot") (simp_all add: task_ids_set_task)
next
  case (SpscRingFull peer)
  then show ?thesis
    using assms boost_peer_ids [of peer s s'] by (simp add: boost_for_reason_def)
next
  case MutexContention
  then show ?thesis
    using assms by (cases "task_at s slot") (auto simp: boost_for_reason_def Let_def task_ids_set_task split: if_splits)
next
  case FileRead
  then show ?thesis
    using assms by (cases "task_at s slot") (auto simp: boost_for_reason_def Let_def task_ids_set_task split: if_splits)
qed (use assms in \<open>simp_all add: boost_for_reason_def\<close>)

lemma save_current_ids: "task_ids (save_current regs fp s) = task_ids s"
  by (auto simp: save_current_def Let_def task_ids_set_task split: option.splits)

lemma reschedule_ids:
  assumes "queues_ok s" "reschedule regs fp s = Some s'"
  shows "task_ids s' = task_ids s"
proof -
  obtain new s1 where pick: "pick_next (save_current regs fp s) = (new, s1)"
    by fastforce
  have ids: "task_ids s1 = task_ids s"
    using pick_next_spec(1) [OF save_current_ok(1) [OF assms(1)] pick] save_current_ids [of regs fp s]
    by (simp add: task_ids_def)
  have keep: "task_ids (set_task k (t\<lparr>t_state := Running\<rparr>) s1) = task_ids s" if "task_at s1 k = Some t" for k t
    using task_ids_set_task [OF that, of "t\<lparr>t_state := Running\<rparr>"] ids by simp
  have switch: "task_ids (set_task k (t\<lparr>t_state := Running\<rparr>) (s1\<lparr>sc_current := c\<rparr>)) = task_ids s"
    if "task_at s1 k = Some t" for k t c
    using keep [OF that] by (simp add: task_ids_def)
  have c: "sc_current s < MAX_TASKS"
    using assms(2) by (auto simp: reschedule_def intro: ccontr)
  show ?thesis
  proof (cases "new = NO_TASK \<or> new = sc_current s")
    case True
    then have "s' = (case task_at s1 (sc_current s) of None \<Rightarrow> s1
        | Some t \<Rightarrow> set_task (sc_current s) (t\<lparr>t_state := Running\<rparr>) s1)"
      using assms(2) pick c by (simp add: reschedule_def Let_def)
    then show ?thesis
      using ids keep by (cases "task_at s1 (sc_current s)") simp_all
  next
    case False
    then have "(case task_at s1 new of None \<Rightarrow> None
        | Some t \<Rightarrow> Some (set_task new (t\<lparr>t_state := Running\<rparr>) (s1\<lparr>sc_current := new\<rparr>))) = Some s'"
      using assms(2) pick c by (simp add: reschedule_def Let_def)
    then show ?thesis
      using switch by (cases "task_at s1 new") auto
  qed
qed

lemma wake_task_ids: "task_ids (wake_task task_id s) = task_ids s"
  by (auto simp: wake_task_def task_ids_set_task split: option.splits)

lemma block_current_ids:
  assumes "started s" "reason_ok reason" "block_current reason regs fp s = Some s'"
  shows "task_ids s' = task_ids s"
proof -
  obtain s1 where s1: "block_mark reason s = Some s1" "dispatchable s1"
    using block_mark_ok [OF started_cur [OF assms(1)] assms(2)] by metis
  have "task_ids s1 = task_ids s"
    using s1(1) boost_for_reason_ids by (fastforce simp: block_mark_def Let_def task_ids_set_task split: if_splits option.splits)
  then show ?thesis
    using reschedule_ids [of s1 regs fp s'] s1 assms(3) by (simp add: block_current_def dispatchable_def sched_base_def)
qed

section \<open>Ticks and spawns\<close>

lemma drain_queue_ids:
  "map (map_option t_id) (fst (snd (drain_queue q st))) = map (map_option t_id) (fst st)"
proof (induction q st rule: drain_queue.induct)
  case (1 q st)
  have step: "map (map_option t_id) (fst (boost_slot st slot)) = map (map_option t_id) (fst st)" for slot
  proof (cases "slot < length (fst st)")
    case True
    then show ?thesis
      using list_update_id [of "map (map_option t_id) (fst st)" slot]
      by (simp add: boost_slot_def map_update option.map_comp comp_def)
  qed (simp add: boost_slot_def list_update_beyond)
  show ?case
    using 1 step by (subst drain_queue.simps) (auto split: prod.splits option.splits)
qed

lemma boost_level_ids: "task_ids (boost_level l s) = task_ids s"
  using drain_queue_ids [of "sc_queues s ! l" "(sc_tasks s, sc_queues s ! 0)"]
  by (simp add: boost_level_def task_ids_def split_beta)

lemma boost_all_ids: "task_ids (boost_all s) = task_ids s"
proof -
  have "task_ids (fold boost_level ls s) = task_ids s" for ls
    by (induction ls arbitrary: s) (simp_all add: boost_level_ids)
  then show ?thesis
    by (simp add: boost_all_def)
qed

lemma tick_boost_ids: "task_ids (tick_boost s) = task_ids s"
proof -
  have "task_ids (boost_all (s\<lparr>sc_tick_count := a, sc_boost_countdown := b\<rparr>)) = task_ids s" for a b
    using boost_all_ids [of "s\<lparr>sc_tick_count := a, sc_boost_countdown := b\<rparr>"] by (simp add: task_ids_def)
  then show ?thesis
    by (simp add: tick_boost_def Let_def task_ids_def)
qed

lemma demote_current_ids: "task_ids (demote_current s) = task_ids s"
  by (auto simp: demote_current_def task_ids_set_task split: option.splits)

lemma sched_tick_ids:
  assumes "queues_ok (tick_boost s)" "sched_tick s = (b, s')"
  shows "task_ids s' = task_ids s"
proof (cases "task_at (tick_boost s) (sc_current (tick_boost s))")
  case None
  then show ?thesis
    using assms(2) tick_boost_ids [of s] by (simp add: sched_tick_eq [OF assms(1)])
next
  case (Some t)
  then have "task_ids (set_task (sc_current (tick_boost s)) (t\<lparr>t_ticks_used := t_ticks_used t + 1\<rparr>) (tick_boost s)) = task_ids s"
    by (simp add: task_ids_set_task tick_boost_ids)
  then show ?thesis
    using assms(2) Some by (auto simp: sched_tick_eq [OF assms(1)] Let_def demote_current_ids split: if_splits)
qed

lemma timer_tick_ids:
  assumes "sched_inv s" "timer_tick regs fp s = Some s'"
  shows "task_ids s' = task_ids s"
proof -
  obtain b s1 where tick: "sched_tick s = (b, s1)"
    by fastforce
  have base: "queues_ok s" "0 < sc_boost_countdown s" "sc_boost_countdown s \<le> BOOST_INTERVAL"
    using assms(1) by (simp_all add: sched_inv_def sched_base_def)
  have ok1: "queues_ok s1"
    using sched_tick_ok(1) [OF base inv_current_not_ready [OF assms(1)] tick] .
  have "task_ids s1 = task_ids s"
    using sched_tick_ids [OF tick_boost_ok(1) [OF base] tick] .
  then show ?thesis
    using assms(2) tick reschedule_ids [OF ok1, of regs fp s'] by (simp add: timer_tick_def split: if_splits)
qed

lemma kill_ids: "kill slot s = Some s' \<Longrightarrow> task_ids s' = task_ids s"
  by (auto simp: kill_def task_ids_set_task split: if_splits option.splits)

lemma task_ids_spawned:
  assumes "queues_ok s" "find_free_slot s = Some slot"
    and "s' = s\<lparr>sc_next_id := i\<rparr> \<or> (\<exists>t l. s' = upd_queue l (\<lambda>q. tq_push_back q slot) (set_task slot t (s\<lparr>sc_next_id := i\<rparr>)))"
  shows "set (task_ids s) \<subseteq> set (task_ids s') \<union> {None}"
proof -
  let ?s = "s\<lparr>sc_next_id := i\<rparr>"
  have at: "task_at ?s slot = None" and ids: "task_ids ?s = task_ids s"
    using find_free_slot_spec(2) [OF assms(1,2)] by (simp_all add: task_at_def task_ids_def split: if_splits)
  from assms(3) show ?thesis
  proof
    assume "\<exists>t l. s' = upd_queue l (\<lambda>q. tq_push_back q slot) (set_task slot t ?s)"
    then obtain t l where "s' = upd_queue l (\<lambda>q. tq_push_back q slot) (set_task slot t ?s)"
      by blast
    then show ?thesis
      using task_ids_spawn [OF at, of t] ids by simp
  qed (simp add: ids subset_insertI)
qed

lemma sched_spawn_ids:
  assumes "queues_ok s" "sched_spawn hhdm tr cr3 entry name prio (s, p) = (r, s', p')"
  shows "set (task_ids s) \<subseteq> set (task_ids s') \<union> {None}"
proof (cases "find_free_slot s")
  case None
  then show ?thesis
    using assms(2) by (auto simp: sched_spawn_def)
next
  case (Some slot)
  show ?thesis
    by (rule task_ids_spawned [OF assms(1) Some, of _ "sc_next_id s + 1"])
      (use assms(2) Some in \<open>auto simp: sched_spawn_def Let_def split: prod.splits option.splits\<close>)
qed

lemma spawn_user_ids:
  assumes "queues_ok s" "spawn_user_with_trampoline hhdm tr entry ust name priority pt tramp (s, p) = Some (r, s', p')"
  shows "set (task_ids s) \<subseteq> set (task_ids s') \<union> {None}"
proof (cases "find_free_slot s")
  case None
  then show ?thesis
    using assms(2) by (auto simp: spawn_user_with_trampoline_def)
next
  case (Some slot)
  show ?thesis
    by (rule task_ids_spawned [OF assms(1) Some, of _ "sc_next_id s + 1"])
      (use assms(2) Some in \<open>auto simp: spawn_user_with_trampoline_def Let_def split: prod.splits option.splits if_splits\<close>)
qed

section \<open>Properties\<close>

lemma sched_step_ids:
  assumes "started s" "op_ok op" "sched_step hhdm tr cr3 op (s, p) = Some (s', p')"
  shows "set (task_ids s) \<subseteq> set (task_ids s') \<union> {None}"
proof -
  note inv = started_cur(1) [OF assms(1)]
  note ok = inv_base(2) [OF inv]
  show ?thesis
  proof (cases op)
    case (SpawnOp entry name priority)
    then show ?thesis
      using assms(3) sched_spawn_ids [OF ok, of hhdm tr cr3 entry name priority p _ s' p']
      by (cases "sched_spawn hhdm tr cr3 entry name priority (s, p)") auto
  next
    case (SpawnUserOp entry ust name priority pt tramp)
    then show ?thesis
      using assms(3) spawn_user_ids [OF ok, of hhdm tr entry ust name priority pt tramp p _ s' p'] by auto
  next
    case (TickOp regs fp)
    then show ?thesis
      using assms(3) timer_tick_ids [OF inv, of regs fp s'] by auto
  next
    case (YieldOp regs fp)
    then show ?thesis
      using assms(3) reschedule_ids [OF ok, of regs fp s'] by (auto simp: yield_now_def)
  next
    case (BlockOp reason regs fp)
    then show ?thesis
      using assms(2,3) block_current_ids [OF assms(1), of reason regs fp s'] by (auto simp: op_ok_def)
  next
    case (WakeOp task_id)
    then show ?thesis
      using assms(3) wake_task_ids [of task_id s] by auto
  next
    case (ExitOp regs fp)
    then obtain s1 where s1: "kill (sc_current s) s = Some s1" "reschedule regs fp s1 = Some s'"
      using assms(3) by (auto simp: exit_current_def bind_eq_Some_conv)
    then show ?thesis
      using kill_ids [OF s1(1)] reschedule_ids [OF kill_ok(1) [OF ok s1(1)] s1(2)] by auto
  qed
qed

text \<open>C33: \<open>wait_task\<close> never returns for a task that has been spawned: an exited task keeps its slot and its
  id, so whatever the kernel does afterwards the loop of \<open>wait_task\<close> still finds it.\<close>

theorem wait_task_never_done:
  assumes "started s" "list_all op_ok ops" "\<not> wait_task_done task_id s"
    and "sched_exec hhdm tr cr3 ops (s, p) = Some (s', p')"
  shows "\<not> wait_task_done task_id s'"
  using assms
proof (induction ops arbitrary: s p)
  case Nil
  then show ?case by simp
next
  case (Cons op ops)
  then have ok: "op_ok op" "list_all op_ok ops"
    by simp_all
  obtain s1 p1 where s1: "sched_step hhdm tr cr3 op (s, p) = Some (s1, p1)" "started s1"
    using sched_step_started [OF Cons.prems(1) ok(1), of hhdm tr cr3 p] by metis
  have "\<not> wait_task_done task_id s1"
    using sched_step_ids [OF Cons.prems(1) ok(1) s1(1)] Cons.prems(3) by (auto simp: wait_task_done_ids)
  then show ?case
    using Cons.IH [OF s1(2) ok(2)] Cons.prems(4) s1(1) by simp
qed

theorem wait_task_never_done_witness:
  "\<exists>s' p'. sched_exec 0 0 0 [ExitOp example_regs 0x1000] (example_sched, boot_pmm) = Some (s', p') \<and> \<not> wait_task_done 0 s'"
proof -
  have ok: "list_all op_ok [ExitOp example_regs 0x1000]"
    by (simp add: op_ok_def)
  obtain s' p' where run: "sched_exec 0 0 0 [ExitOp example_regs 0x1000] (example_sched, boot_pmm) = Some (s', p')"
    using sched_exec_started [OF example_started ok] by metis
  show ?thesis
    using wait_task_never_done [OF example_started ok _ run, of 0] run by (simp add: wait_task_done_def example_find)
qed

end
