(* ===== verification/BoostRing.thy ===== *)
theory BoostRing
  imports SpscRing Sched
begin

text \<open>
  \<open>kernel/src/ipc/spsc_with_boost.rs\<close>: the ring that wakes its consumer.  The producer counter is
  \<open>br_tail\<close> and the consumer counter \<open>br_head\<close>, the reverse of the ring of \<open>SpscRing\<close>; the
  abstraction \<open>boost_ring\<close> swaps them back, and the operations refine those of that ring.
\<close>

section \<open>The ring and its operations\<close>

record 'a BeastSPSCRing =
  br_buffer :: "'a list"
  br_head :: usize
  br_tail :: usize
  br_consumer_task :: TaskId
  br_waiting :: bool

text \<open>\<open>new\<close> does not check that \<open>N\<close> is a power of two; \<open>z\<close> is the zeroed value.\<close>

definition boost_new :: "usize \<Rightarrow> 'a \<Rightarrow> 'a BeastSPSCRing" where
  "boost_new n z =
     \<lparr>br_buffer = replicate (unat n) z, br_head = 0, br_tail = 0, br_consumer_task = NO_TASK, br_waiting = False\<rparr>"

definition boost_set_consumer :: "'a BeastSPSCRing \<Rightarrow> TaskId \<Rightarrow> 'a BeastSPSCRing" where
  "boost_set_consumer r task_id = r\<lparr>br_consumer_task := task_id\<rparr>"

text \<open>\<open>enqueue\<close>: the second component is the scheduler, which a wake-up changes.\<close>

definition enqueue :: "'a \<Rightarrow> 'a BeastSPSCRing \<times> 'f Scheduler \<Rightarrow> ('a + unit) \<times> 'a BeastSPSCRing \<times> 'f Scheduler" where
  "enqueue value rs =
     (let (r, s) = rs;
          n = of_nat (length (br_buffer r)) :: usize;
          tail = br_tail r;
          head = br_head r
      in if tail - head \<ge> n then (Inl value, r, s)
         else let idx = unat (tail AND (n - 1));
                  r = r\<lparr>br_buffer := (br_buffer r)[idx := value], br_tail := tail + 1\<rparr>;
                  was_waiting = br_waiting r;
                  r = r\<lparr>br_waiting := False\<rparr>;
                  s = (if was_waiting \<and> br_consumer_task r \<noteq> NO_TASK then wake_task (br_consumer_task r) s else s)
              in (Inr (), r, s))"

definition try_dequeue :: "'a BeastSPSCRing \<Rightarrow> 'a option \<times> 'a BeastSPSCRing" where
  "try_dequeue r =
     (let head = br_head r; tail = br_tail r
      in if head = tail then (None, r\<lparr>br_waiting := True\<rparr>)
         else let n = of_nat (length (br_buffer r)) :: usize;
                  idx = unat (head AND (n - 1))
              in (Some (br_buffer r ! idx), r\<lparr>br_head := head + 1\<rparr>))"

text \<open>One round of the loop of \<open>wait_dequeue\<close>: a value, or the state after the task has blocked.\<close>

definition wait_dequeue_round ::
  "AllRegisters \<Rightarrow> u64 \<Rightarrow> 'a BeastSPSCRing \<times> 'f Scheduler \<Rightarrow> ('a option \<times> 'a BeastSPSCRing \<times> 'f Scheduler) or_panic" where
  "wait_dequeue_round regs fp rs =
     (case try_dequeue (fst rs) of
        (Some value, r) \<Rightarrow> Some (Some value, r, snd rs)
      | (None, r) \<Rightarrow> map_option (\<lambda>s. (None, r, s)) (block_current (SpscRingEmpty NO_TASK) regs fp (snd rs)))"

section \<open>Refinement of the plain ring\<close>

definition boost_ring :: "'a BeastSPSCRing \<Rightarrow> 'a SpscRing" where
  "boost_ring r = \<lparr>sr_head = br_tail r, sr_tail = br_head r, sr_buffer = br_buffer r\<rparr>"

lemma enqueue_refines:
  "fst (enqueue v (r, s)) = fst (try_push (boost_ring r) v)"
  "boost_ring (fst (snd (enqueue v (r, s)))) = snd (try_push (boost_ring r) v)"
  by (simp_all add: enqueue_def try_push_def boost_ring_def spsc_capacity_def spsc_index_def Let_def)

lemma try_dequeue_refines:
  "fst (try_dequeue r) = fst (try_pop (boost_ring r))"
  "boost_ring (snd (try_dequeue r)) = snd (try_pop (boost_ring r))"
  by (simp_all add: try_dequeue_def try_pop_def boost_ring_def spsc_capacity_def spsc_index_def Let_def)

lemma boost_new_ring: "spsc_capacity_ok n \<Longrightarrow> spsc_new n z = Some (boost_ring (boost_new n z))"
  by (simp add: spsc_new_def boost_ring_def boost_new_def)

text \<open>With the scheduler left aside the ring meets the queue contract.\<close>

interpretation boost: bounded_fifo "\<lambda>r. spsc_wf (boost_ring r)" "\<lambda>r. spsc_contents (boost_ring r)"
  "\<lambda>r. length (sr_buffer (boost_ring r))" "\<lambda>r v. fst (enqueue v (r, s)) = Inr ()"
  "\<lambda>r v. fst (snd (enqueue v (r, s)))" try_dequeue
  for s
  by unfold_locales
    (simp_all add: enqueue_refines try_dequeue_refines spsc.contents_bound spsc.accepts_iff spsc.inv_push spsc.cap_push
      spsc.contents_push spsc.inv_pop spsc.cap_pop spsc.result_pop spsc.contents_pop)

section \<open>Properties\<close>

text \<open>The waking ring refines the plain ring: whatever the scheduler does, \<open>enqueue\<close> and
  \<open>try_dequeue\<close> accept, reject and return exactly what \<open>try_push\<close> and \<open>try_pop\<close> do on the ring with
  the two counters swapped, and lead to corresponding rings.\<close>

theorem boost_ring_refines_spsc:
  "(case enqueue v (r, s) of (res, r', _) \<Rightarrow> (res, boost_ring r')) = try_push (boost_ring r) v
   \<and> (case try_dequeue r of (res, r') \<Rightarrow> (res, boost_ring r')) = try_pop (boost_ring r)"
  using enqueue_refines [of v r s] try_dequeue_refines [of r] by (auto simp: split_beta prod_eq_iff)

text \<open>An \<open>enqueue\<close> that is accepted while the consumer is blocked on the ring makes the consumer
  ready, and the value is the last one the ring holds.\<close>

theorem enqueue_wakes_consumer:
  assumes "started s" "spsc_wf (boost_ring r)" "length (spsc_contents (boost_ring r)) < length (br_buffer r)"
    and "br_waiting r" "find_task (br_consumer_task r) s = Some slot" "states s slot = Some Blocked"
    and "br_consumer_task r \<noteq> NO_TASK"
  shows "\<exists>r' s'. enqueue v (r, s) = (Inr (), r', s') \<and> states s' slot = Some Ready \<and> started s'
    \<and> spsc_contents (boost_ring r') = spsc_contents (boost_ring r) @ [v] \<and> \<not> br_waiting r'"
proof -
  let ?e = "enqueue v (r, s)"
  have "length (br_buffer r) = length (sr_buffer (boost_ring r))"
    by (simp add: boost_ring_def)
  then have p: "fst (try_push (boost_ring r) v) = Inr ()"
    "spsc_contents (snd (try_push (boost_ring r) v)) = spsc_contents (boost_ring r) @ [v]"
    using try_push_ok [OF assms(2), of v] assms(3) by simp_all
  have s': "snd (snd ?e) = wake_task (br_consumer_task r) s" "\<not> br_waiting (fst (snd ?e))"
    using p(1) assms(4,7) enqueue_refines(1) [of v r s] by (auto simp: enqueue_def Let_def split: if_splits)
  have "?e = (Inr (), fst (snd ?e), snd (snd ?e))"
    using p(1) enqueue_refines(1) [of v r s] by (simp add: prod_eq_iff)
  moreover have "states (snd (snd ?e)) slot = Some Ready" "started (snd (snd ?e))"
    using wake_task_blocked [OF assms(5,6)] wake_task_started [OF assms(1)] s'(1) by simp_all
  ultimately show ?thesis
    using s'(2) p(2) enqueue_refines(2) [of v r s] by metis
qed

lemma example_ring: "spsc_wf (boost_ring (boost_new 4 z))" "spsc_contents (boost_ring (boost_new 4 z)) = []"
  using spsc_new_wf [OF boost_new_ring [of 4 z]] by (simp_all add: spsc_capacity_ok_def)

theorem enqueue_wakes_consumer_witness:
  "\<exists>r' s'. enqueue 7 ((boost_new 4 (0 :: nat))\<lparr>br_consumer_task := 1, br_waiting := True\<rparr>, blocked_sched) = (Inr (), r', s')
     \<and> states s' 1 = Some Ready \<and> spsc_contents (boost_ring r') = [7]"
proof -
  let ?r = "(boost_new 4 (0 :: nat))\<lparr>br_consumer_task := 1, br_waiting := True\<rparr>"
  have r: "boost_ring ?r = boost_ring (boost_new 4 0)"
    by (simp add: boost_ring_def)
  have st: "states blocked_sched 1 = Some Blocked"
    by (simp add: states_def blocked_task_at example_task_def)
  have fields: "length (br_buffer ?r) = 4" "br_waiting ?r" "br_consumer_task ?r = 1" "br_consumer_task ?r \<noteq> NO_TASK"
    by (simp_all add: boost_new_def NO_TASK_def)
  obtain r' s' where "enqueue 7 (?r, blocked_sched) = (Inr (), r', s')" "states s' 1 = Some Ready"
    "spsc_contents (boost_ring r') = spsc_contents (boost_ring ?r) @ [7]"
    using enqueue_wakes_consumer [OF blocked_started _ _ fields(2) _ st fields(4), of 7] fields(1,3) example_ring [of "0 :: nat"]
      example_find(2) r by auto
  then show ?thesis
    using example_ring(2) [of "0 :: nat"] r by auto
qed

text \<open>Waiting on an empty ring panics.  \<open>wait_dequeue\<close> blocks with \<open>NO_TASK\<close> as the producer slot, and
  \<open>boost_for_reason\<close> indexes the task table with it.\<close>

theorem wait_dequeue_empty_panics:
  fixes s :: "'f Scheduler"
  assumes "started s" "spsc_contents (boost_ring r) = []"
  shows "wait_dequeue_round regs fp (r, s) = None"
proof -
  have "fst (try_dequeue r) = None"
    using try_dequeue_refines(1) [of r] try_pop_empty [OF assms(2)] by simp
  then obtain r' where d: "try_dequeue r = (None, r')"
    by (cases "try_dequeue r") simp
  have "boost_for_reason slot (SpscRingEmpty NO_TASK) x = None" for slot and x :: "'f Scheduler"
    by (simp add: boost_for_reason_def boost_peer_def leI)
  then have "block_mark (SpscRingEmpty NO_TASK) s = None"
    using assms(1) by (auto simp: block_mark_def Let_def started_def sched_inv_def states_def)
  then show ?thesis
    by (simp add: wait_dequeue_round_def d block_current_def)
qed

theorem wait_dequeue_empty_panics_witness:
  "wait_dequeue_round example_regs 0 (boost_new 4 (0 :: nat), example_sched) = None"
  using wait_dequeue_empty_panics [OF example_started example_ring(2)] .

end
