(* ===== verification/Channel.thy ===== *)
theory Channel
  imports SpscRing TaskIds
begin

text \<open>
  \<open>kernel/src/ipc/channel.rs\<close>: a ring with a blocking \<open>send\<close> and \<open>recv\<close>.  The blocking loops are
  modelled round by round, and a round in two parts: the part up to the second check of the ring,
  and the call of \<open>block_current\<close>, because another task or an interrupt handler may run between.
\<close>

section \<open>The channel and its operations\<close>

record 'a Channel =
  ch_ring :: "'a SpscRing"
  ch_consumer_slot :: TaskId
  ch_producer_slot :: TaskId
  ch_consumer_waiting :: bool
  ch_producer_waiting :: bool

definition channel_new :: "usize \<Rightarrow> 'a \<Rightarrow> 'a Channel or_panic" where
  "channel_new n z =
     map_option (\<lambda>ring. \<lparr>ch_ring = ring, ch_consumer_slot = NO_TASK, ch_producer_slot = NO_TASK,
       ch_consumer_waiting = False, ch_producer_waiting = False\<rparr>) (spsc_new n z)"

definition channel_set_producer :: "TaskId \<Rightarrow> 'a Channel \<Rightarrow> 'a Channel" where
  "channel_set_producer slot c = c\<lparr>ch_producer_slot := slot\<rparr>"

definition channel_set_consumer :: "TaskId \<Rightarrow> 'a Channel \<Rightarrow> 'a Channel" where
  "channel_set_consumer slot c = c\<lparr>ch_consumer_slot := slot\<rparr>"

definition maybe_wake_consumer :: "'a Channel \<times> 'f Scheduler \<Rightarrow> 'a Channel \<times> 'f Scheduler" where
  "maybe_wake_consumer cs =
     (let (c, s) = cs
      in if ch_consumer_waiting c
         then let consumer = ch_consumer_slot c
              in (c\<lparr>ch_consumer_waiting := False\<rparr>, if consumer \<noteq> NO_TASK then wake_task consumer s else s)
         else (c, s))"

definition maybe_wake_producer :: "'a Channel \<times> 'f Scheduler \<Rightarrow> 'a Channel \<times> 'f Scheduler" where
  "maybe_wake_producer cs =
     (let (c, s) = cs
      in if ch_producer_waiting c
         then let producer = ch_producer_slot c
              in (c\<lparr>ch_producer_waiting := False\<rparr>, if producer \<noteq> NO_TASK then wake_task producer s else s)
         else (c, s))"

definition try_send :: "'a \<Rightarrow> 'a Channel \<times> 'f Scheduler \<Rightarrow> ('a + unit) \<times> 'a Channel \<times> 'f Scheduler" where
  "try_send value cs =
     (let (c, s) = cs
      in case try_push (ch_ring c) value of
           (Inr _, ring) \<Rightarrow> (Inr (), maybe_wake_consumer (c\<lparr>ch_ring := ring\<rparr>, s))
         | (Inl v, ring) \<Rightarrow> (Inl v, c\<lparr>ch_ring := ring\<rparr>, s))"

definition try_recv :: "'a Channel \<times> 'f Scheduler \<Rightarrow> 'a option \<times> 'a Channel \<times> 'f Scheduler" where
  "try_recv cs =
     (let (c, s) = cs
      in case try_pop (ch_ring c) of
           (Some v, ring) \<Rightarrow> (Some v, maybe_wake_producer (c\<lparr>ch_ring := ring\<rparr>, s))
         | (None, ring) \<Rightarrow> (None, c\<lparr>ch_ring := ring\<rparr>, s))"

text \<open>A round of \<open>send\<close>: \<open>True\<close> when the value has been sent, \<open>False\<close> when the producer must block.\<close>

definition send_prepare :: "'a \<Rightarrow> 'a Channel \<times> 'f Scheduler \<Rightarrow> bool \<times> 'a Channel \<times> 'f Scheduler" where
  "send_prepare value cs =
     (case try_send value cs of
        (Inr _, cs') \<Rightarrow> (True, cs')
      | (Inl _, c, s) \<Rightarrow>
          (case try_send value (c\<lparr>ch_producer_waiting := True\<rparr>, s) of
             (Inr _, c', s') \<Rightarrow> (True, c'\<lparr>ch_producer_waiting := False\<rparr>, s')
           | (Inl _, cs') \<Rightarrow> (False, cs')))"

definition send_round ::
  "AllRegisters \<Rightarrow> u64 \<Rightarrow> 'a \<Rightarrow> 'a Channel \<times> 'f Scheduler \<Rightarrow> (bool \<times> 'a Channel \<times> 'f Scheduler) or_panic" where
  "send_round regs fp value cs =
     (case send_prepare value cs of
        (True, cs') \<Rightarrow> Some (True, cs')
      | (False, c, s) \<Rightarrow>
          map_option (\<lambda>s'. (False, c, s')) (block_current (SpscRingFull (ch_consumer_slot c)) regs fp s))"

definition recv_prepare :: "'a Channel \<times> 'f Scheduler \<Rightarrow> 'a option \<times> 'a Channel \<times> 'f Scheduler" where
  "recv_prepare cs =
     (case try_recv cs of
        (Some v, cs') \<Rightarrow> (Some v, cs')
      | (None, c, s) \<Rightarrow>
          (case try_recv (c\<lparr>ch_consumer_waiting := True\<rparr>, s) of
             (Some v, c', s') \<Rightarrow> (Some v, c'\<lparr>ch_consumer_waiting := False\<rparr>, s')
           | (None, cs') \<Rightarrow> (None, cs')))"

definition recv_round ::
  "AllRegisters \<Rightarrow> u64 \<Rightarrow> 'a Channel \<times> 'f Scheduler \<Rightarrow> ('a option \<times> 'a Channel \<times> 'f Scheduler) or_panic" where
  "recv_round regs fp cs =
     (case recv_prepare cs of
        (Some v, cs') \<Rightarrow> Some (Some v, cs')
      | (None, c, s) \<Rightarrow>
          map_option (\<lambda>s'. (None, c, s')) (block_current (SpscRingEmpty (ch_producer_slot c)) regs fp s))"

definition channel_len :: "'a Channel \<Rightarrow> usize" where
  "channel_len c = spsc_len (ch_ring c)"

definition channel_is_empty :: "'a Channel \<Rightarrow> bool" where
  "channel_is_empty c = spsc_is_empty (ch_ring c)"

section \<open>Lemmas\<close>

abbreviation ch_contents :: "'a Channel \<Rightarrow> 'a list" where
  "ch_contents c \<equiv> spsc_contents (ch_ring c)"

abbreviation ch_wf :: "'a Channel \<Rightarrow> bool" where
  "ch_wf c \<equiv> spsc_wf (ch_ring c)"

abbreviation ch_cap :: "'a Channel \<Rightarrow> nat" where
  "ch_cap c \<equiv> length (sr_buffer (ch_ring c))"

lemma maybe_wake_ring [simp]:
  "ch_ring (fst (maybe_wake_consumer cs)) = ch_ring (fst cs)" "ch_ring (fst (maybe_wake_producer cs)) = ch_ring (fst cs)"
  by (simp_all add: maybe_wake_consumer_def maybe_wake_producer_def Let_def split: prod.splits)

lemma try_send_full:
  assumes "ch_wf c" "length (ch_contents c) = ch_cap c"
  shows "try_send v (c, s) = (Inl v, c, s)"
  using try_push_full [OF assms] by (simp add: try_send_def)

lemma try_send_room:
  assumes "ch_wf c" "length (ch_contents c) < ch_cap c"
  shows "try_send v (c, s) = (Inr (), maybe_wake_consumer (c\<lparr>ch_ring := snd (try_push (ch_ring c) v)\<rparr>, s))"
    "ch_wf (fst (snd (try_send v (c, s))))" "ch_contents (fst (snd (try_send v (c, s)))) = ch_contents c @ [v]"
proof -
  note p = try_push_ok [OF assms, of v]
  then obtain ring where "try_push (ch_ring c) v = (Inr (), ring)"
    by (cases "try_push (ch_ring c) v") auto
  then show eq: "try_send v (c, s) = (Inr (), maybe_wake_consumer (c\<lparr>ch_ring := snd (try_push (ch_ring c) v)\<rparr>, s))"
    by (simp add: try_send_def)
  show "ch_wf (fst (snd (try_send v (c, s))))" "ch_contents (fst (snd (try_send v (c, s)))) = ch_contents c @ [v]"
    using p by (simp_all add: eq)
qed

lemma try_recv_empty: "ch_contents c = [] \<Longrightarrow> try_recv (c, s) = (None, c, s)"
  by (simp add: try_recv_def try_pop_empty)

lemma try_recv_some:
  assumes "ch_wf c" "ch_contents c = x # xs"
  shows "try_recv (c, s) = (Some x, maybe_wake_producer (c\<lparr>ch_ring := snd (try_pop (ch_ring c))\<rparr>, s))"
    "ch_wf (fst (snd (try_recv (c, s))))" "ch_contents (fst (snd (try_recv (c, s)))) = xs"
proof -
  note p = try_pop_ok [OF assms]
  then obtain ring where "try_pop (ch_ring c) = (Some x, ring)"
    by (cases "try_pop (ch_ring c)") auto
  then show eq: "try_recv (c, s) = (Some x, maybe_wake_producer (c\<lparr>ch_ring := snd (try_pop (ch_ring c))\<rparr>, s))"
    by (simp add: try_recv_def)
  show "ch_wf (fst (snd (try_recv (c, s))))" "ch_contents (fst (snd (try_recv (c, s)))) = xs"
    using p by (simp_all add: eq)
qed

lemma recv_prepare_empty:
  assumes "ch_contents c = []"
  shows "recv_prepare (c, s) = (None, c\<lparr>ch_consumer_waiting := True\<rparr>, s)"
  using assms by (simp add: recv_prepare_def try_recv_empty)

lemma send_prepare_full:
  assumes "ch_wf c" "length (ch_contents c) = ch_cap c"
  shows "send_prepare v (c, s) = (False, c\<lparr>ch_producer_waiting := True\<rparr>, s)"
  using assms by (simp add: send_prepare_def try_send_full)

section \<open>Properties\<close>

lemma wf_room: "ch_wf c \<Longrightarrow> ch_contents c = [] \<Longrightarrow> length (ch_contents c) < ch_cap c"
  by (auto simp: spsc_wf_def)

lemma send_to_waiting:
  assumes "ch_wf c" "ch_contents c = []" "ch_consumer_waiting c" "ch_consumer_slot c \<noteq> NO_TASK"
  obtains c' where "try_send v (c, s) = (Inr (), c', wake_task (ch_consumer_slot c) s)" "ch_wf c'" "ch_contents c' = [v]"
    "\<not> ch_consumer_waiting c'"
proof -
  note t = try_send_room [OF assms(1) wf_room [OF assms(1,2)], of v s]
  let ?c = "c\<lparr>ch_ring := snd (try_push (ch_ring c) v), ch_consumer_waiting := False\<rparr>"
  have "try_send v (c, s) = (Inr (), ?c, wake_task (ch_consumer_slot c) s)"
    using t(1) assms(3,4) by (simp add: maybe_wake_consumer_def)
  then show thesis
    using that [of ?c] t(2,3) assms(2) by simp
qed

text \<open>C28: A receiver that finds the channel empty blocks, and the next \<open>try_send\<close> makes it ready again with
  the value waiting for it: \<open>recv\<close> and \<open>send\<close> hand over a value when they do not overlap.  The producer must be
  registered with a slot of the table, the consumer's slot must be the id under which the receiver is found, and another
  task must be ready to run.\<close>

theorem recv_blocks_send_wakes:
  assumes "started s" "ch_wf c" "ch_contents c = []" "ch_producer_slot c < MAX_TASKS" "\<exists>k. states s k = Some Ready"
    and "ch_consumer_slot c \<noteq> NO_TASK" "find_task (ch_consumer_slot c) s = Some (sc_current s)"
  shows "\<exists>c1 s1 c2 s2. recv_round regs fp (c, s) = Some (None, c1, s1) \<and> states s1 (sc_current s) = Some Blocked
    \<and> try_send v (c1, s1) = (Inr (), c2, s2) \<and> states s2 (sc_current s) = Some Ready
    \<and> fst (try_recv (c2, s2)) = Some v"
proof -
  define c1 where "c1 = c\<lparr>ch_consumer_waiting := True\<rparr>"
  have r: "reason_ok (SpscRingEmpty (ch_producer_slot c))"
    using assms(4) by (simp add: reason_ok_def)
  obtain s1 where s1: "block_current (SpscRingEmpty (ch_producer_slot c)) regs fp s = Some s1"
    "states s1 (sc_current s) = Some Blocked" "started s1"
    using block_current_blocks [OF assms(1) r assms(5), of regs fp] by metis
  have rr: "recv_round regs fp (c, s) = Some (None, c1, s1)"
    using s1(1) recv_prepare_empty [OF assms(3), of s] by (simp add: recv_round_def c1_def)
  have c1: "ch_wf c1" "ch_contents c1 = []" "ch_consumer_waiting c1" "ch_consumer_slot c1 \<noteq> NO_TASK"
    using assms(2,3,6) by (simp_all add: c1_def)
  from send_to_waiting [OF c1, of v s1] obtain c2 where
    c2: "try_send v (c1, s1) = (Inr (), c2, wake_task (ch_consumer_slot c1) s1)" "ch_wf c2" "ch_contents c2 = [v]" .
  have "find_task (ch_consumer_slot c1) s1 = Some (sc_current s)"
    using assms(7) block_current_ids [OF assms(1) r s1(1)] by (simp add: find_task_ids c1_def)
  then have "states (wake_task (ch_consumer_slot c1) s1) (sc_current s) = Some Ready"
    using wake_task_blocked s1(2) by (metis fun_upd_same)
  moreover have "fst (try_recv (c2, wake_task (ch_consumer_slot c1) s1)) = Some v"
    using try_recv_some(1) [OF c2(2,3), of "wake_task (ch_consumer_slot c1) s1"] by simp
  ultimately show ?thesis
    using rr s1(2) c2(1) by blast
qed

text \<open>The second check of the ring does not close the window.  If the value is sent after the
  receiver has looked twice and before it is marked \<open>Blocked\<close>, the wake-up finds a task that is not
  blocked and is dropped: the receiver blocks with the value in the ring and \<open>consumer_waiting\<close>
  cleared, so no later \<open>send\<close> wakes it either.\<close>

theorem recv_wake_up_race:
  assumes "started s" "ch_wf c" "ch_contents c = []" "ch_producer_slot c < MAX_TASKS" "\<exists>k. states s k = Some Ready"
    and "ch_consumer_slot c \<noteq> NO_TASK" "find_task (ch_consumer_slot c) s = Some (sc_current s)"
  shows "\<exists>c1 c2 s2 s3. recv_prepare (c, s) = (None, c1, s) \<and> try_send v (c1, s) = (Inr (), c2, s2)
    \<and> block_current (SpscRingEmpty (ch_producer_slot c)) regs fp s2 = Some s3
    \<and> states s3 (sc_current s) = Some Blocked \<and> ch_contents c2 = [v] \<and> \<not> ch_consumer_waiting c2"
proof -
  define c1 where "c1 = c\<lparr>ch_consumer_waiting := True\<rparr>"
  let ?s = "wake_task (ch_consumer_slot c1) s"
  have r: "reason_ok (SpscRingEmpty (ch_producer_slot c))"
    using assms(4) by (simp add: reason_ok_def)
  have prep: "recv_prepare (c, s) = (None, c1, s)"
    using recv_prepare_empty [OF assms(3), of s] by (simp add: c1_def)
  have c1: "ch_wf c1" "ch_contents c1 = []" "ch_consumer_waiting c1" "ch_consumer_slot c1 \<noteq> NO_TASK"
    using assms(2,3,6) by (simp_all add: c1_def)
  from send_to_waiting [OF c1, of v s] obtain c2 where
    c2: "try_send v (c1, s) = (Inr (), c2, ?s)" "ch_contents c2 = [v]" "\<not> ch_consumer_waiting c2" .
  have "states s (sc_current s) \<noteq> Some Blocked"
    using assms(1) by (auto simp: started_def sched_inv_def)
  then have w: "states ?s = states s" "sc_current ?s = sc_current s"
    using wake_task_not_blocked [OF assms(7)] by (simp_all add: c1_def)
  obtain s3 where "block_current (SpscRingEmpty (ch_producer_slot c)) regs fp ?s = Some s3"
    "states s3 (sc_current s) = Some Blocked"
    using block_current_blocks [OF wake_task_started [OF assms(1)] r, of "ch_consumer_slot c1" regs fp] assms(5) w by metis
  then show ?thesis
    using prep c2 by blast
qed

definition example_channel :: "nat Channel" where
  "example_channel = channel_set_consumer 0 (channel_set_producer 1 (the (channel_new 4 0)))"

lemma example_channel_facts:
  "ch_wf example_channel" "ch_contents example_channel = []" "ch_producer_slot example_channel = 1"
  "ch_consumer_slot example_channel = 0"
proof -
  have n: "spsc_new 4 (0 :: nat) = Some \<lparr>sr_head = 0, sr_tail = 0, sr_buffer = replicate 4 0\<rparr>"
    by (simp add: spsc_new_def spsc_capacity_ok_def)
  show "ch_wf example_channel" "ch_contents example_channel = []"
    using spsc_new_wf [OF n] by (simp_all add: example_channel_def channel_new_def channel_set_consumer_def
        channel_set_producer_def n)
  show "ch_producer_slot example_channel = 1" "ch_consumer_slot example_channel = 0"
    by (simp_all add: example_channel_def channel_new_def channel_set_consumer_def channel_set_producer_def n)
qed

lemma example_sched_facts:
  "sc_current example_sched = 0" "\<exists>k. states example_sched k = Some Ready"
  "find_task (ch_consumer_slot example_channel) example_sched = Some (sc_current example_sched)"
  "ch_producer_slot example_channel < MAX_TASKS" "ch_consumer_slot example_channel \<noteq> NO_TASK"
proof -
  show "sc_current example_sched = 0"
    by (simp add: example_sched_def)
  then show "find_task (ch_consumer_slot example_channel) example_sched = Some (sc_current example_sched)"
    by (simp add: example_channel_facts example_find)
  show "\<exists>k. states example_sched k = Some Ready"
    by (rule exI [of _ 1]) (simp add: states_def example_task_at example_task_def)
qed (simp_all add: example_channel_facts MAX_TASKS_def NO_TASK_def)

theorem recv_blocks_send_wakes_witness:
  "\<exists>c1 s1 c2 s2. recv_round example_regs 0 (example_channel, example_sched) = Some (None, c1, s1)
     \<and> try_send 5 (c1, s1) = (Inr (), c2, s2) \<and> states s2 0 = Some Ready"
  using recv_blocks_send_wakes [OF example_started example_channel_facts(1,2) example_sched_facts(4,2,5,3)]
  unfolding example_sched_facts(1) by blast

theorem recv_wake_up_race_witness:
  "\<exists>c1 c2 s2 s3. recv_prepare (example_channel, example_sched) = (None, c1, example_sched)
     \<and> try_send 5 (c1, example_sched) = (Inr (), c2, s2) \<and> block_current (SpscRingEmpty 1) example_regs 0 s2 = Some s3
     \<and> states s3 0 = Some Blocked \<and> ch_contents c2 = [5]"
  using recv_wake_up_race [OF example_started example_channel_facts(1,2) example_sched_facts(4,2,5,3)]
  unfolding example_sched_facts(1) example_channel_facts(3) by blast

end
