(* ===== verification/Pressure.thy ===== *)
theory Pressure
  imports Sched
begin

text \<open>
  \<open>kernel/src/pressure.rs\<close>: the smoothed load of the system and the phase derived from it.  The
  statics are the fields of a record; their 32-bit values are naturals.  The code compares
  \<open>pressure as f64 / u32::MAX as f64\<close> with decimal constants.  Each constant is a fraction with
  denominator 4 or 20, and \<open>u32::MAX\<close> is odd, so the exact quotient differs from the constant by at
  least \<open>1 / (20 * u32::MAX)\<close>, far above the rounding of a 53-bit division: the comparison is the
  exact one, written here over the integers.
\<close>

section \<open>State and operations\<close>

abbreviation U32_MAX :: nat where
  "U32_MAX \<equiv> 2 ^ 32 - 1"

definition EWMA_ALPHA_NUM :: nat where
  "EWMA_ALPHA_NUM = 1"

definition EWMA_ALPHA_DEN :: nat where
  "EWMA_ALPHA_DEN = 8"

definition OSC_HISTORY_SIZE :: nat where
  "OSC_HISTORY_SIZE = 4"

record PressureState =
  pr_pressure :: nat
  pr_history :: "nat list"
  pr_osc_idx :: nat
  pr_dir_changes :: nat
  pr_batching_disabled :: nat
  pr_current_phase :: nat

definition pressure_init :: PressureState where
  "pressure_init = \<lparr>pr_pressure = 0, pr_history = [0, 0, 0, 0], pr_osc_idx = 0, pr_dir_changes = 0,
     pr_batching_disabled = 0, pr_current_phase = 0\<rparr>"

datatype Phase = Idle | Light | NormalPhase | Heavy | Storm

definition memory_pressure :: "Pmm \<Rightarrow> nat" where
  "memory_pressure p =
     (let total = unat (total_count p);
          free = unat (free_count p);
          used = total - free
      in if total = 0 then 0 else (min (used * U32_MAX) (2 ^ 64 - 1) div total) mod 2 ^ 32)"

definition update_oscillation :: "nat \<Rightarrow> PressureState \<Rightarrow> PressureState" where
  "update_oscillation pressure st =
     (let idx = pr_osc_idx st mod OSC_HISTORY_SIZE;
          prev = pr_history st ! idx;
          st = st\<lparr>pr_osc_idx := (pr_osc_idx st + 1) mod 2 ^ 32, pr_history := (pr_history st)[idx := pressure]\<rparr>
      in if prev = 0 then st
         else let dir = (if pressure > prev then 1 else if pressure < prev then 2 else 0)
              in if dir \<noteq> 0
                 then let last_dir = pr_history st ! ((idx + OSC_HISTORY_SIZE - 1) mod OSC_HISTORY_SIZE)
                      in if last_dir \<noteq> 0 \<and> last_dir \<noteq> dir
                         then let changes = pr_dir_changes st + 1;
                                  st = st\<lparr>pr_dir_changes := changes mod 2 ^ 32\<rparr>
                              in if changes \<ge> 4 then st\<lparr>pr_batching_disabled := 1\<rparr> else st
                         else st
                 else st)"

definition batching_disabled :: "PressureState \<Rightarrow> bool" where
  "batching_disabled st \<longleftrightarrow> pr_batching_disabled st \<noteq> 0"

definition reset_oscillation :: "PressureState \<Rightarrow> PressureState" where
  "reset_oscillation st = st\<lparr>pr_batching_disabled := 0, pr_dir_changes := 0\<rparr>"

text \<open>\<open>p > n / d\<close> and \<open>p < n / d\<close> for \<open>p = pressure / u32::MAX\<close>.\<close>

definition above :: "nat \<Rightarrow> nat \<Rightarrow> nat \<Rightarrow> bool" where
  "above pressure n d \<longleftrightarrow> n * U32_MAX < d * pressure"

definition below :: "nat \<Rightarrow> nat \<Rightarrow> nat \<Rightarrow> bool" where
  "below pressure n d \<longleftrightarrow> d * pressure < n * U32_MAX"

definition update_phase :: "nat \<Rightarrow> PressureState \<Rightarrow> PressureState" where
  "update_phase p st =
     (let cur = pr_current_phase st
      in st\<lparr>pr_current_phase :=
        (if cur = 0 \<and> above p 1 4 then 1
         else if cur = 1 \<and> above p 9 20 then 2
         else if cur = 1 \<and> below p 3 20 then 0
         else if cur = 2 \<and> above p 13 20 then 3
         else if cur = 2 \<and> below p 7 20 then 1
         else if cur = 3 \<and> above p 17 20 then 4
         else if cur = 3 \<and> below p 11 20 then 2
         else if cur = 4 \<and> below p 3 4 then 3
         else cur)\<rparr>)"

definition pressure_update :: "'f Scheduler \<Rightarrow> Pmm \<Rightarrow> PressureState \<Rightarrow> PressureState" where
  "pressure_update s p st =
     (let task_p = task_pressure s;
          mem_p = memory_pressure p;
          raw = (task_p + mem_p) div 2;
          prev = pr_pressure st;
          smoothed = (prev * (EWMA_ALPHA_DEN - EWMA_ALPHA_NUM) + raw * EWMA_ALPHA_NUM) div EWMA_ALPHA_DEN;
          new_val = min smoothed U32_MAX
      in update_phase new_val (update_oscillation new_val (st\<lparr>pr_pressure := new_val\<rparr>)))"

definition current_phase :: "PressureState \<Rightarrow> Phase" where
  "current_phase st =
     (case pr_current_phase st of
        0 \<Rightarrow> Idle | Suc 0 \<Rightarrow> Light | Suc (Suc 0) \<Rightarrow> NormalPhase | Suc (Suc (Suc 0)) \<Rightarrow> Heavy
      | Suc (Suc (Suc (Suc 0))) \<Rightarrow> Storm | _ \<Rightarrow> NormalPhase)"

definition recommended_batch_size :: "PressureState \<Rightarrow> nat" where
  "recommended_batch_size st =
     (case current_phase st of Idle \<Rightarrow> 32 | Light \<Rightarrow> 64 | NormalPhase \<Rightarrow> 128 | Heavy \<Rightarrow> 256 | Storm \<Rightarrow> 256)"

definition pressure_get_raw :: "PressureState \<Rightarrow> nat" where
  "pressure_get_raw st = pr_pressure st"

section \<open>Bounds\<close>

lemma update_oscillation_frame [simp]:
  "pr_pressure (update_oscillation v st) = pr_pressure st"
  "pr_current_phase (update_oscillation v st) = pr_current_phase st"
  by (simp_all add: update_oscillation_def Let_def)

lemma update_phase_frame [simp]:
  "pr_pressure (update_phase v st) = pr_pressure st" "pr_history (update_phase v st) = pr_history st"
  by (simp_all add: update_phase_def Let_def)

lemma task_pressure_bound: "task_pressure s \<le> U32_MAX"
  unfolding task_pressure_def Let_def using mod_less_divisor [of "2 ^ 32"] by (auto simp: less_Suc_eq_le simp flip: less_Suc_eq_le)

lemma memory_pressure_bound: "memory_pressure p \<le> U32_MAX"
  unfolding memory_pressure_def Let_def using mod_less_divisor [of "2 ^ 32"] by (auto simp flip: less_Suc_eq_le)

lemma ewma_between:
  fixes a b :: nat
  shows "min a b \<le> (a * 7 + b) div 8" "(a * 7 + b) div 8 \<le> max a b"
  by linarith+

section \<open>Properties\<close>

text \<open>One update keeps the pressure between its old value and the new measurement (so never above
  \<open>u32::MAX\<close>), and moves the phase by at most one step, within the five phases.\<close>

theorem pressure_update_bounds:
  assumes "pr_pressure st \<le> U32_MAX" "pr_current_phase st \<le> 4"
  shows "let raw = (task_pressure s + memory_pressure p) div 2; st' = pressure_update s p st
    in min (pr_pressure st) raw \<le> pr_pressure st' \<and> pr_pressure st' \<le> max (pr_pressure st) raw
     \<and> pr_pressure st' \<le> U32_MAX \<and> pr_current_phase st' \<le> 4
     \<and> pr_current_phase st' \<le> pr_current_phase st + 1 \<and> pr_current_phase st \<le> pr_current_phase st' + 1"
proof -
  define raw where "raw = (task_pressure s + memory_pressure p) div 2"
  define v where "v = (pr_pressure st * 7 + raw) div 8"
  have raw: "raw \<le> U32_MAX"
    using task_pressure_bound [of s] memory_pressure_bound [of p] by (simp add: raw_def)
  then have v: "v \<le> U32_MAX"
    using ewma_between(2) [of "pr_pressure st" raw] assms(1) by (simp add: v_def)
  have eq: "pressure_update s p st = update_phase v (update_oscillation v (st\<lparr>pr_pressure := v\<rparr>))"
    using v by (simp add: pressure_update_def Let_def EWMA_ALPHA_DEN_def EWMA_ALPHA_NUM_def min_def flip: raw_def v_def)
  have ph: "pr_current_phase (update_phase v x) \<le> 4 \<and> pr_current_phase (update_phase v x) \<le> pr_current_phase x + 1
      \<and> pr_current_phase x \<le> pr_current_phase (update_phase v x) + 1" if "pr_current_phase x \<le> 4" for x
    using that by (simp add: update_phase_def Let_def)
  have "pr_current_phase (update_oscillation v (st\<lparr>pr_pressure := v\<rparr>)) = pr_current_phase st"
    by simp
  then show ?thesis
    using ph [of "update_oscillation v (st\<lparr>pr_pressure := v\<rparr>)"] assms(2) v ewma_between [of "pr_pressure st" raw]
    unfolding Let_def raw_def [symmetric] eq by (simp add: v_def)
qed

theorem pressure_update_bounds_witness:
  "pr_current_phase (pressure_update example_sched boot_pmm pressure_init) \<le> 1"
  using pressure_update_bounds [of pressure_init example_sched boot_pmm] by (simp add: pressure_init_def Let_def)

text \<open>The oscillation detector fires without oscillation.  It compares the direction of the change, 1 or
  2, with the pressure recorded one update earlier, so eight strictly rising values, which never
  change direction, disable batching.\<close>

theorem rising_pressure_disables_batching:
  assumes "2 < a" "a < b" "b < c" "c < d" "d < e" "e < f" "f < g" "g < h"
  shows "batching_disabled (fold update_oscillation [a, b, c, d, e, f, g, h] pressure_init)"
proof -
  define st where "st = \<lparr>pr_pressure = 0, pr_history = [a, b, c, d], pr_osc_idx = 4, pr_dir_changes = 0,
     pr_batching_disabled = 0, pr_current_phase = 0\<rparr>"
  have fill: "fold update_oscillation [a, b, c, d] pressure_init = st"
    by (simp add: pressure_init_def update_oscillation_def Let_def OSC_HISTORY_SIZE_def st_def)
  define st1 where "st1 = st\<lparr>pr_history := [e, b, c, d], pr_osc_idx := 5, pr_dir_changes := 1\<rparr>"
  define st2 where "st2 = st\<lparr>pr_history := [e, f, c, d], pr_osc_idx := 6, pr_dir_changes := 2\<rparr>"
  define st3 where "st3 = st\<lparr>pr_history := [e, f, g, d], pr_osc_idx := 7, pr_dir_changes := 3\<rparr>"
  have "update_oscillation e st = st1" "update_oscillation f st1 = st2" "update_oscillation g st2 = st3"
    using assms by (simp_all add: update_oscillation_def Let_def OSC_HISTORY_SIZE_def st_def st1_def st2_def st3_def)
  moreover have "batching_disabled (update_oscillation h st3)"
    using assms by (simp add: update_oscillation_def Let_def OSC_HISTORY_SIZE_def st_def st3_def batching_disabled_def)
  ultimately show ?thesis
    using fill by simp
qed

theorem rising_pressure_disables_batching_witness:
  "batching_disabled (fold update_oscillation [3, 4, 5, 6, 7, 8, 9, 10] pressure_init)"
  by (rule rising_pressure_disables_batching) simp_all

end
