(* ===== verification/BTreeMap.thy ===== *)
theory BTreeMap
  imports Prelude "HOL-Library.List_Lexorder" "HOL-Library.Char_ord"
begin

text \<open>
  Rust's \<open>BTreeMap\<close> as the file-system code uses it: an association list sorted by key, so that
  iteration is in key order.  The dictionary contract is a locale; the clients' lemmas follow from its
  laws and are interpreted on the sorted lists.  A \<open>String\<close> is a list of characters, compared
  lexicographically as Rust compares its bytes.
\<close>

section \<open>Sorted association lists\<close>

type_synonym ('k, 'v) btree = "('k \<times> 'v) list"

definition bt_get :: "('k, 'v) btree \<Rightarrow> 'k \<Rightarrow> 'v option" where
  "bt_get m k = map_of m k"

fun bt_insert :: "'k::linorder \<Rightarrow> 'v \<Rightarrow> ('k, 'v) btree \<Rightarrow> ('k, 'v) btree" where
  "bt_insert k v [] = [(k, v)]"
| "bt_insert k v ((k', v') # m) =
     (if k < k' then (k, v) # (k', v') # m
      else if k = k' then (k, v) # m
      else (k', v') # bt_insert k v m)"

definition bt_remove :: "'k \<Rightarrow> ('k, 'v) btree \<Rightarrow> ('k, 'v) btree" where
  "bt_remove k m = filter (\<lambda>e. fst e \<noteq> k) m"

definition bt_keys :: "('k, 'v) btree \<Rightarrow> 'k list" where
  "bt_keys m = map fst m"

definition bt_values :: "('k, 'v) btree \<Rightarrow> 'v list" where
  "bt_values m = map snd m"

definition bt_wf :: "('k::linorder, 'v) btree \<Rightarrow> bool" where
  "bt_wf m \<longleftrightarrow> sorted_wrt (<) (map fst m)"

section \<open>The dictionary contract\<close>

datatype ('k, 'v) dict_op = Insert 'k 'v | Remove 'k

text \<open>A sequence of updates, on an implementation and on a finite map.\<close>

fun dict_run :: "('k \<Rightarrow> 'v \<Rightarrow> 'm \<Rightarrow> 'm) \<Rightarrow> ('k \<Rightarrow> 'm \<Rightarrow> 'm) \<Rightarrow> ('k, 'v) dict_op list \<Rightarrow> 'm \<Rightarrow> 'm" where
  "dict_run ins del [] m = m"
| "dict_run ins del (Insert k v # ops) m = dict_run ins del ops (ins k v m)"
| "dict_run ins del (Remove k # ops) m = dict_run ins del ops (del k m)"

fun dict_spec :: "('k, 'v) dict_op list \<Rightarrow> ('k \<rightharpoonup> 'v) \<Rightarrow> 'k \<rightharpoonup> 'v" where
  "dict_spec [] f = f"
| "dict_spec (Insert k v # ops) f = dict_spec ops (f(k \<mapsto> v))"
| "dict_spec (Remove k # ops) f = dict_spec ops (f(k := None))"

locale dictionary =
  fixes inv :: "'m \<Rightarrow> bool"
    and empty :: 'm
    and lookup :: "'m \<Rightarrow> 'k \<Rightarrow> 'v option"
    and insert :: "'k \<Rightarrow> 'v \<Rightarrow> 'm \<Rightarrow> 'm"
    and remove :: "'k \<Rightarrow> 'm \<Rightarrow> 'm"
  assumes inv_empty: "inv empty"
    and inv_insert: "inv m \<Longrightarrow> inv (insert k v m)"
    and inv_remove: "inv m \<Longrightarrow> inv (remove k m)"
    and lookup_empty: "lookup empty k = None"
    and lookup_insert: "inv m \<Longrightarrow> lookup (insert k v m) k' = (if k = k' then Some v else lookup m k')"
    and lookup_remove: "inv m \<Longrightarrow> lookup (remove k m) k' = (if k = k' then None else lookup m k')"
begin

text \<open>Any sequence of updates refines the same sequence on a finite map.\<close>

lemma run_refines:
  "inv m \<Longrightarrow> inv (dict_run insert remove ops m) \<and> lookup (dict_run insert remove ops m) = dict_spec ops (lookup m)"
proof (induction ops arbitrary: m)
  case (Cons op ops)
  have "lookup (insert k v m) = (lookup m)(k \<mapsto> v)" "lookup (remove k m) = (lookup m)(k := None)" for k v
    using lookup_insert [OF Cons.prems] lookup_remove [OF Cons.prems] by (auto simp: fun_eq_iff)
  then show ?case
    using Cons.IH [OF inv_insert [OF Cons.prems]] Cons.IH [OF inv_remove [OF Cons.prems]] by (cases op) (simp_all add: fun_upd_def)
qed simp

lemma lookup_insert_same: "inv m \<Longrightarrow> lookup (insert k v m) k = Some v"
  by (simp add: lookup_insert)

lemma lookup_insert_other: "inv m \<Longrightarrow> k \<noteq> k' \<Longrightarrow> lookup (insert k v m) k' = lookup m k'"
  by (simp add: lookup_insert)

end

section \<open>The sorted lists meet the contract\<close>

lemma bt_insert_keys: "fst ` set (bt_insert k v m) = insert k (fst ` set m)"
  by (induction k v m rule: bt_insert.induct) auto

lemma bt_insert_wf [wf_intros]: "bt_wf m \<Longrightarrow> bt_wf (bt_insert k v m)"
proof (induction m)
  case (Cons e m)
  obtain k' v' where e: "e = (k', v')"
    by force
  have "\<forall>x \<in> fst ` set (bt_insert k v m). k' < x" if "k' < k"
    using Cons.prems that unfolding bt_insert_keys by (auto simp: bt_wf_def e)
  then show ?case
    using Cons e by (auto simp: bt_wf_def)
qed (simp add: bt_wf_def)

lemma bt_remove_wf [wf_intros]: "bt_wf m \<Longrightarrow> bt_wf (bt_remove k m)"
  by (simp add: bt_wf_def bt_remove_def sorted_wrt_map sorted_wrt_filter)

lemma bt_empty [simp]: "bt_wf []" "bt_get [] k = None"
  by (simp_all add: bt_wf_def bt_get_def)

lemma bt_wf_distinct: "bt_wf m \<Longrightarrow> distinct (map fst m)"
  unfolding bt_wf_def by (simp add: strict_sorted_iff)

lemma bt_get_insert: "bt_wf m \<Longrightarrow> bt_get (bt_insert k v m) k' = (if k = k' then Some v else bt_get m k')"
  by (induction m) (auto simp: bt_get_def bt_wf_def)

lemma bt_get_remove: "bt_get (bt_remove k m) k' = (if k = k' then None else bt_get m k')"
  by (induction m) (auto simp: bt_get_def bt_remove_def)

interpretation btree: dictionary bt_wf "[]" bt_get bt_insert bt_remove
  by unfold_locales (simp_all add: bt_insert_wf bt_remove_wf bt_get_insert bt_get_remove)

lemma bt_keys_get: "bt_wf m \<Longrightarrow> k \<in> set (bt_keys m) \<longleftrightarrow> bt_get m k \<noteq> None"
  unfolding bt_keys_def bt_get_def by (metis map_of_eq_None_iff set_map)

text \<open>Sums over the stored values follow an insertion and a removal.\<close>

lemma bt_sum_insert:
  fixes f :: "'v \<Rightarrow> nat"
  assumes "bt_wf m" "bt_get m k = None"
  shows "(\<Sum>v \<leftarrow> bt_values (bt_insert k v m). f v) = f v + (\<Sum>v \<leftarrow> bt_values m. f v)"
  using assms by (induction m) (auto simp: bt_values_def bt_get_def bt_wf_def split: if_splits)

lemma bt_sum_remove:
  fixes f :: "'v \<Rightarrow> nat"
  assumes "bt_wf m" "bt_get m k = Some v"
  shows "(\<Sum>v \<leftarrow> bt_values m. f v) = f v + (\<Sum>v \<leftarrow> bt_values (bt_remove k m). f v)"
  using assms
proof (induction m)
  case (Cons e m)
  obtain k' v' where e: "e = (k', v')"
    by force
  have wf: "bt_wf m" "k' \<notin> fst ` set m"
    using Cons.prems(1) bt_wf_distinct [OF Cons.prems(1)] by (simp_all add: bt_wf_def e)
  show ?case
  proof (cases "k' = k")
    case True
    then have "bt_remove k m = m"
      using wf(2) by (auto simp: bt_remove_def filter_id_conv)
    then show ?thesis
      using Cons.prems(2) True by (simp add: e bt_values_def bt_get_def bt_remove_def)
  next
    case False
    then show ?thesis
      using Cons.IH [OF wf(1)] Cons.prems(2) by (simp add: e bt_values_def bt_get_def bt_remove_def)
  qed
qed simp

lemma bt_sum_replace:
  fixes f :: "'v \<Rightarrow> nat"
  assumes "bt_wf m" "bt_get m k = Some v0" "f v = f v0"
  shows "(\<Sum>v \<leftarrow> bt_values (bt_insert k v m). f v) = (\<Sum>v \<leftarrow> bt_values m. f v)"
  using assms
proof (induction m)
  case (Cons e m)
  obtain k' v' where e: "e = (k', v')"
    by force
  have wf: "bt_wf m" "\<And>x. x \<in> fst ` set m \<Longrightarrow> k' < x"
    using Cons.prems(1) by (auto simp: bt_wf_def e)
  have "k' < k" if "k \<noteq> k'"
    using Cons.prems(2) that wf(2) [of k] by (force simp: e bt_get_def dest: map_of_SomeD)
  then show ?case
    using Cons.IH [OF wf(1)] Cons.prems(2,3) by (cases "k = k'") (auto simp: e bt_values_def bt_get_def)
qed simp

end
