(* ===== verification/Storage.thy ===== *)
theory Storage
  imports BTreeMap
begin

text \<open>
  \<open>kernel/src/storage/hash.rs\<close> and \<open>kernel/src/storage/cas.rs\<close>: the placeholder hash and the store of
  objects addressed by it.  The tick counter of the timer is an argument of the operations that read
  the clock.  The statistics' ratio, a floating-point number that nothing reads, is left out.
\<close>

section \<open>Hashes\<close>

type_synonym Hash = "u8 list"

definition hash_zero :: Hash where
  "hash_zero = replicate 32 0"

text \<open>The loop of \<open>of_data\<close>: byte \<open>i\<close> of the data is stored at index \<open>i\<close> while \<open>i < 32\<close>.\<close>

fun of_data_loop :: "nat \<Rightarrow> u8 list \<Rightarrow> Hash \<Rightarrow> Hash" where
  "of_data_loop i [] hash = hash"
| "of_data_loop i (byte # data) hash = of_data_loop (Suc i) data (if i < 32 then hash[i := byte] else hash)"

definition of_data :: "u8 list \<Rightarrow> Hash" where
  "of_data data = of_data_loop 0 data (replicate 32 0)"

definition of_chunks :: "Hash list \<Rightarrow> Hash" where
  "of_chunks chunks = foldl (\<lambda>combined chunk. map2 (XOR) combined chunk) (replicate 32 0) chunks"

definition of_typed :: "string \<Rightarrow> u8 list \<Rightarrow> Hash" where
  "of_typed obj_type data = of_data data"

definition as_bytes :: "Hash \<Rightarrow> u8 list" where
  "as_bytes h = h"

definition from_bytes :: "u8 list \<Rightarrow> Hash" where
  "from_bytes bytes = bytes"

lemma of_data_loop_nth:
  "length hash = 32 \<Longrightarrow> k < 32 \<Longrightarrow>
   of_data_loop i data hash ! k = (if i \<le> k \<and> k < i + length data then data ! (k - i) else hash ! k)"
  by (induction i data hash rule: of_data_loop.induct) (auto simp: nth_list_update nth_Cons' split: if_splits)

lemma of_data_loop_length [simp]: "length (of_data_loop i data hash) = length hash"
  by (induction i data hash rule: of_data_loop.induct) simp_all

lemma of_data_eq: "of_data data = take 32 data @ replicate (32 - length data) 0"
  by (rule nth_equalityI) (auto simp: of_data_def of_data_loop_nth nth_append min_def)

lemma of_data_length [simp]: "length (of_data data) = 32"
  by (simp add: of_data_def)

section \<open>The store\<close>

record StoredObject =
  so_data :: "u8 list"
  so_ref_count :: u64
  so_created :: u64
  so_last_accessed :: u64

record ContentAddressableStorage =
  cas_objects :: "(Hash, StoredObject) btree"
  cas_total_bytes :: u64
  cas_max_bytes :: u64

datatype StorageError = OutOfSpace | NotFound

abbreviation data_len :: "u8 list \<Rightarrow> u64" where
  "data_len data \<equiv> of_nat (length data)"

definition cas_new :: ContentAddressableStorage where
  "cas_new = \<lparr>cas_objects = [], cas_total_bytes = 0, cas_max_bytes = 0\<rparr>"

definition set_max_bytes :: "u64 \<Rightarrow> ContentAddressableStorage \<Rightarrow> ContentAddressableStorage" where
  "set_max_bytes m c = c\<lparr>cas_max_bytes := m\<rparr>"

definition current_time :: "u64 \<Rightarrow> u64" where
  "current_time ticks = ticks div 100"

text \<open>The removal loop of \<open>garbage_collect\<close>: it returns the bytes freed and stops once they suffice.\<close>

fun gc_remove :: "u64 \<Rightarrow> Hash list \<Rightarrow> u64 \<Rightarrow> (Hash, StoredObject) btree \<Rightarrow> u64 \<times> (Hash, StoredObject) btree" where
  "gc_remove needed [] freed objects = (freed, objects)"
| "gc_remove needed (hash # to_remove) freed objects =
     (case bt_get objects hash of
        None \<Rightarrow> gc_remove needed to_remove freed objects
      | Some obj \<Rightarrow>
          let freed = freed + data_len (so_data obj); objects = bt_remove hash objects
          in if freed \<ge> needed then (freed, objects) else gc_remove needed to_remove freed objects)"

definition garbage_collect :: "u64 \<Rightarrow> u64 \<Rightarrow> ContentAddressableStorage \<Rightarrow> ContentAddressableStorage" where
  "garbage_collect ticks needed c =
     (let cutoff = current_time ticks - 30 * 24 * 60 * 60;
          to_remove = map fst (filter (\<lambda>(_, obj). so_ref_count obj = 0 \<and> so_last_accessed obj < cutoff) (cas_objects c));
          (freed, objects) = gc_remove needed to_remove 0 (cas_objects c)
      in c\<lparr>cas_objects := objects, cas_total_bytes := cas_total_bytes c - freed\<rparr>)"

definition cas_put ::
  "u64 \<Rightarrow> u8 list \<Rightarrow> ContentAddressableStorage \<Rightarrow> (StorageError + Hash) \<times> ContentAddressableStorage" where
  "cas_put ticks data c =
     (let hash = of_data data
      in case bt_get (cas_objects c) hash of
           Some existing \<Rightarrow>
             (Inr hash, c\<lparr>cas_objects := bt_insert hash (existing\<lparr>so_ref_count := so_ref_count existing + 1\<rparr>) (cas_objects c)\<rparr>)
         | None \<Rightarrow>
             let c = (if cas_max_bytes c > 0 \<and> cas_total_bytes c + data_len data > cas_max_bytes c
                      then garbage_collect ticks (data_len data) c else c)
             in if cas_max_bytes c > 0 \<and> cas_total_bytes c + data_len data > cas_max_bytes c
                then (Inl OutOfSpace, c)
                else (Inr hash,
                      c\<lparr>cas_total_bytes := cas_total_bytes c + data_len data,
                        cas_objects := bt_insert hash
                          \<lparr>so_data = data, so_ref_count = 1, so_created = current_time ticks,
                           so_last_accessed = current_time ticks\<rparr> (cas_objects c)\<rparr>))"

definition cas_get :: "u64 \<Rightarrow> Hash \<Rightarrow> ContentAddressableStorage \<Rightarrow> u8 list option \<times> ContentAddressableStorage" where
  "cas_get ticks hash c =
     (case bt_get (cas_objects c) hash of
        Some obj \<Rightarrow>
          (Some (so_data obj),
           c\<lparr>cas_objects := bt_insert hash (obj\<lparr>so_last_accessed := current_time ticks\<rparr>) (cas_objects c)\<rparr>)
      | None \<Rightarrow> (None, c))"

definition ref_inc :: "Hash \<Rightarrow> ContentAddressableStorage \<Rightarrow> (StorageError + unit) \<times> ContentAddressableStorage" where
  "ref_inc hash c =
     (case bt_get (cas_objects c) hash of
        Some obj \<Rightarrow>
          (Inr (), c\<lparr>cas_objects := bt_insert hash (obj\<lparr>so_ref_count := so_ref_count obj + 1\<rparr>) (cas_objects c)\<rparr>)
      | None \<Rightarrow> (Inl NotFound, c))"

definition ref_dec :: "Hash \<Rightarrow> ContentAddressableStorage \<Rightarrow> (StorageError + unit) \<times> ContentAddressableStorage" where
  "ref_dec hash c =
     (case bt_get (cas_objects c) hash of
        Some obj \<Rightarrow>
          let new_count = so_ref_count obj - 1
          in (Inr (),
              if new_count = 0
              then c\<lparr>cas_total_bytes := cas_total_bytes c - data_len (so_data obj),
                     cas_objects := bt_remove hash (cas_objects c)\<rparr>
              else c\<lparr>cas_objects := bt_insert hash (obj\<lparr>so_ref_count := new_count\<rparr>) (cas_objects c)\<rparr>)
      | None \<Rightarrow> (Inl NotFound, c))"

definition cas_exists :: "Hash \<Rightarrow> ContentAddressableStorage \<Rightarrow> bool" where
  "cas_exists hash c \<longleftrightarrow> bt_get (cas_objects c) hash \<noteq> None"

definition ref_count :: "Hash \<Rightarrow> ContentAddressableStorage \<Rightarrow> u64" where
  "ref_count hash c = (case bt_get (cas_objects c) hash of Some obj \<Rightarrow> so_ref_count obj | None \<Rightarrow> 0)"

definition all_hashes :: "ContentAddressableStorage \<Rightarrow> Hash list" where
  "all_hashes c = bt_keys (cas_objects c)"

definition cas_remove :: "Hash \<Rightarrow> ContentAddressableStorage \<Rightarrow> bool \<times> ContentAddressableStorage" where
  "cas_remove hash c =
     (case bt_get (cas_objects c) hash of
        Some obj \<Rightarrow>
          (True, c\<lparr>cas_objects := bt_remove hash (cas_objects c),
                   cas_total_bytes := cas_total_bytes c - data_len (so_data obj)\<rparr>)
      | None \<Rightarrow> (False, c))"

section \<open>The invariant of the store\<close>

text \<open>Every object is stored under the hash of its data, and the byte counter is the sum of the sizes
  (modulo the width of the counter).\<close>

definition cas_bytes :: "(Hash, StoredObject) btree \<Rightarrow> nat" where
  "cas_bytes objects = (\<Sum>obj \<leftarrow> bt_values objects. length (so_data obj))"

definition cas_wf :: "ContentAddressableStorage \<Rightarrow> bool" where
  "cas_wf c \<longleftrightarrow> bt_wf (cas_objects c)
     \<and> (\<forall>hash obj. bt_get (cas_objects c) hash = Some obj \<longrightarrow> hash = of_data (so_data obj))
     \<and> cas_total_bytes c = of_nat (cas_bytes (cas_objects c))"

lemma cas_wf_max [simp]: "cas_wf (c\<lparr>cas_max_bytes := m\<rparr>) = cas_wf c"
  by (simp add: cas_wf_def)

text \<open>The three changes of the object table: an entry whose data stays, a removal, a new entry.\<close>

lemma cas_wf_touch:
  assumes "cas_wf c" "bt_get (cas_objects c) hash = Some obj" "so_data obj' = so_data obj"
    and "cas_objects c' = bt_insert hash obj' (cas_objects c)" "cas_total_bytes c' = cas_total_bytes c"
  shows "cas_wf c'"
  using assms bt_sum_replace [of "cas_objects c" hash obj "\<lambda>obj. length (so_data obj)" obj']
  by (simp add: cas_wf_def bt_insert_wf bt_get_insert cas_bytes_def)

lemma cas_wf_update:
  "cas_wf c \<Longrightarrow> bt_get (cas_objects c) hash = Some obj \<Longrightarrow> so_data obj' = so_data obj \<Longrightarrow>
   cas_wf (c\<lparr>cas_objects := bt_insert hash obj' (cas_objects c)\<rparr>)"
  by (erule (2) cas_wf_touch) simp_all

lemma cas_wf_drop:
  assumes "cas_wf c" "bt_get (cas_objects c) hash = Some obj"
    and "cas_objects c' = bt_remove hash (cas_objects c)" "cas_total_bytes c' = cas_total_bytes c - data_len (so_data obj)"
  shows "cas_wf c'"
  using assms bt_sum_remove [of "cas_objects c" hash obj "\<lambda>obj. length (so_data obj)"]
  by (simp add: cas_wf_def bt_remove_wf bt_get_remove cas_bytes_def)

lemma cas_wf_add:
  assumes "cas_wf c" "bt_get (cas_objects c) (of_data (so_data obj)) = None"
    and "cas_objects c' = bt_insert (of_data (so_data obj)) obj (cas_objects c)"
    and "cas_total_bytes c' = cas_total_bytes c + data_len (so_data obj)"
  shows "cas_wf c'"
  using assms bt_sum_insert [of "cas_objects c" "of_data (so_data obj)" "\<lambda>obj. length (so_data obj)" obj]
  by (simp add: cas_wf_def bt_insert_wf bt_get_insert cas_bytes_def)

lemma gc_remove_wf:
  assumes "cas_wf (c\<lparr>cas_objects := objects, cas_total_bytes := t - freed\<rparr>)" "gc_remove needed hs freed objects = (freed', objects')"
  shows "cas_wf (c\<lparr>cas_objects := objects', cas_total_bytes := t - freed'\<rparr>)"
    "bt_get objects k = None \<Longrightarrow> bt_get objects' k = None"
proof -
  have "cas_wf (c\<lparr>cas_objects := objects', cas_total_bytes := t - freed'\<rparr>) \<and> (bt_get objects k = None \<longrightarrow> bt_get objects' k = None)"
    using assms
  proof (induction needed hs freed objects rule: gc_remove.induct)
    case (2 needed hash hs freed objects)
    show ?case
    proof (cases "bt_get objects hash")
      case None
      then show ?thesis
        using 2 by simp
    next
      case (Some obj)
      let ?c = "c\<lparr>cas_objects := bt_remove hash objects, cas_total_bytes := t - (freed + data_len (so_data obj))\<rparr>"
      have "cas_wf ?c"
        using Some by (intro cas_wf_drop [OF 2(3)]) (simp_all add: algebra_simps)
      moreover have "bt_get (bt_remove hash objects) k = None" if "bt_get objects k = None"
        using that by (simp add: bt_get_remove)
      ultimately show ?thesis
        using 2(2) [OF Some refl refl] 2(4) Some by (cases "needed \<le> freed + data_len (so_data obj)") auto
    qed
  qed simp
  then show "cas_wf (c\<lparr>cas_objects := objects', cas_total_bytes := t - freed'\<rparr>)"
    "bt_get objects k = None \<Longrightarrow> bt_get objects' k = None"
    by simp_all
qed

lemma garbage_collect_ok:
  assumes "cas_wf c"
  shows "cas_wf (garbage_collect ticks needed c)"
    "bt_get (cas_objects c) k = None \<Longrightarrow> bt_get (cas_objects (garbage_collect ticks needed c)) k = None"
proof -
  define hs where "hs = map fst (filter (\<lambda>(_, obj). so_ref_count obj = 0
    \<and> so_last_accessed obj < current_time ticks - 30 * 24 * 60 * 60) (cas_objects c))"
  obtain freed objects where gc: "gc_remove needed hs 0 (cas_objects c) = (freed, objects)"
    by force
  have eq: "garbage_collect ticks needed c = c\<lparr>cas_objects := objects, cas_total_bytes := cas_total_bytes c - freed\<rparr>"
    using gc by (simp add: garbage_collect_def Let_def hs_def)
  show "cas_wf (garbage_collect ticks needed c)"
    "bt_get (cas_objects c) k = None \<Longrightarrow> bt_get (cas_objects (garbage_collect ticks needed c)) k = None"
    using gc_remove_wf [OF _ gc, where c = c and t = "cas_total_bytes c"] assms by (simp_all add: eq)
qed

lemma cas_put_cases:
  assumes "cas_wf c"
  obtains (known) obj where "bt_get (cas_objects c) (of_data data) = Some obj"
      "cas_put ticks data c = (Inr (of_data data),
         c\<lparr>cas_objects := bt_insert (of_data data) (obj\<lparr>so_ref_count := so_ref_count obj + 1\<rparr>) (cas_objects c)\<rparr>)"
  | (full) c1 where "bt_get (cas_objects c) (of_data data) = None" "cas_wf c1" "cas_put ticks data c = (Inl OutOfSpace, c1)"
  | (stored) c1 obj where "bt_get (cas_objects c) (of_data data) = None" "cas_wf c1"
      "bt_get (cas_objects c1) (of_data data) = None" "so_data obj = data"
      "cas_put ticks data c = (Inr (of_data data),
         c1\<lparr>cas_total_bytes := cas_total_bytes c1 + data_len data, cas_objects := bt_insert (of_data data) obj (cas_objects c1)\<rparr>)"
proof (cases "bt_get (cas_objects c) (of_data data)")
  case None
  define c1 where "c1 = (if cas_max_bytes c > 0 \<and> cas_total_bytes c + data_len data > cas_max_bytes c
                      then garbage_collect ticks (data_len data) c else c)"
  have c1: "cas_wf c1" "bt_get (cas_objects c1) (of_data data) = None"
    using assms None by (simp_all add: c1_def garbage_collect_ok)
  show thesis
  proof (cases "cas_max_bytes c1 > 0 \<and> cas_total_bytes c1 + data_len data > cas_max_bytes c1")
    case True
    then show thesis
      using full [OF None c1(1)] None by (simp add: cas_put_def Let_def flip: c1_def)
  next
    case False
    then show thesis
      using None by (intro stored [OF None c1, of "\<lparr>so_data = data, so_ref_count = 1, so_created = current_time ticks,
          so_last_accessed = current_time ticks\<rparr>"]) (simp_all add: cas_put_def Let_def flip: c1_def)
  qed
next
  case (Some obj)
  then show thesis
    using known by (simp add: cas_put_def Let_def)
qed

lemma cas_put_wf:
  assumes "cas_wf c"
  shows "cas_wf (snd (cas_put ticks data c))"
proof (cases rule: cas_put_cases [OF assms, of data ticks, case_names known full stored])
  case (known obj)
  then show ?thesis
    by (intro cas_wf_touch [OF assms known(1)]) simp_all
next
  case (stored c1 obj)
  then show ?thesis
    using cas_wf_add [of c1 obj] by simp
qed simp

section \<open>Properties\<close>

datatype cas_op = Put u64 "u8 list" | Get u64 Hash | RefInc Hash | RefDec Hash | Delete Hash | SetMax u64

fun cas_step :: "cas_op \<Rightarrow> ContentAddressableStorage \<Rightarrow> ContentAddressableStorage" where
  "cas_step (Put ticks data) c = snd (cas_put ticks data c)"
| "cas_step (Get ticks hash) c = snd (cas_get ticks hash c)"
| "cas_step (RefInc hash) c = snd (ref_inc hash c)"
| "cas_step (RefDec hash) c = snd (ref_dec hash c)"
| "cas_step (Delete hash) c = snd (cas_remove hash c)"
| "cas_step (SetMax m) c = set_max_bytes m c"

lemma ref_dec_wf:
  assumes "cas_wf c"
  shows "cas_wf (snd (ref_dec hash c))"
proof (cases "bt_get (cas_objects c) hash")
  case (Some obj)
  then show ?thesis
    using cas_wf_drop [OF assms Some] by (simp add: ref_dec_def Let_def cas_wf_update [OF assms Some])
qed (simp add: ref_dec_def assms)

lemma cas_step_wf:
  assumes "cas_wf c"
  shows "cas_wf (cas_step op c)"
proof (cases op)
  case (Get ticks hash)
  then show ?thesis
    using assms by (cases "bt_get (cas_objects c) hash") (simp_all add: cas_get_def cas_wf_update)
next
  case (RefInc hash)
  then show ?thesis
    using assms by (cases "bt_get (cas_objects c) hash") (simp_all add: ref_inc_def cas_wf_update)
next
  case (Delete hash)
  show ?thesis
  proof (cases "bt_get (cas_objects c) hash")
    case (Some obj)
    then show ?thesis
      using cas_wf_drop [OF assms Some] Delete by (simp add: cas_remove_def)
  qed (simp add: Delete cas_remove_def assms)
qed (simp_all add: assms cas_put_wf ref_dec_wf set_max_bytes_def)

text \<open>After any sequence of operations on a new store, every object is stored under the hash of its own
  data and the byte counter is the sum of the sizes of the objects, modulo the width of the counter.\<close>

theorem cas_accounting:
  "let c = fold cas_step ops cas_new
   in (\<forall>hash obj. bt_get (cas_objects c) hash = Some obj \<longrightarrow> hash = of_data (so_data obj))
    \<and> unat (cas_total_bytes c) = (\<Sum>obj \<leftarrow> bt_values (cas_objects c). length (so_data obj)) mod 2 ^ 64"
proof -
  have keep: "cas_wf (fold cas_step ops c)" if "cas_wf c" for c
    using that by (induction ops arbitrary: c) (simp_all add: cas_step_wf)
  have "cas_wf cas_new"
    by (simp add: cas_wf_def cas_new_def cas_bytes_def bt_values_def)
  from keep [OF this] show ?thesis
    unfolding Let_def cas_wf_def cas_bytes_def by (auto simp: unat_of_nat)
qed

theorem cas_accounting_witness:
  "unat (cas_total_bytes (fold cas_step [Put 0 [1, 2, 3], Put 5 [1, 2, 3]] cas_new)) =
     (\<Sum>obj \<leftarrow> bt_values (cas_objects (fold cas_step [Put 0 [1, 2, 3], Put 5 [1, 2, 3]] cas_new)). length (so_data obj)) mod 2 ^ 64"
  using cas_accounting [of "[Put 0 [1, 2, 3], Put 5 [1, 2, 3]]"] unfolding Let_def by (rule conjunct2)

text \<open>Data whose hash is not yet taken comes back: a successful \<open>put\<close> returns the hash under which
  \<open>get\<close> finds exactly these bytes.\<close>

theorem cas_put_get:
  assumes "cas_wf c" "bt_get (cas_objects c) (of_data data) = None" "cas_put ticks data c = (Inr hash, c')"
  shows "fst (cas_get ticks' hash c') = Some data"
  using assms(2,3)
proof (cases rule: cas_put_cases [OF assms(1), of data ticks, case_names known full stored])
  case (stored c1 obj)
  then show ?thesis
    using assms(3) by (auto simp: cas_get_def cas_wf_def bt_get_insert)
qed simp_all

theorem cas_put_get_witness:
  "\<exists>c'. cas_put 0 [1, 2, 3] cas_new = (Inr (of_data [1, 2, 3]), c') \<and> fst (cas_get 9 (of_data [1, 2, 3]) c') = Some [1, 2, 3]"
proof -
  have wf: "cas_wf cas_new" "bt_get (cas_objects cas_new) (of_data [1, 2, 3]) = None"
    by (simp_all add: cas_wf_def cas_new_def cas_bytes_def bt_values_def)
  obtain c' where put: "cas_put 0 [1, 2, 3] cas_new = (Inr (of_data [1, 2, 3]), c')"
    using wf(2) by (simp add: cas_put_def Let_def) (simp add: cas_new_def)
  then show ?thesis
    using cas_put_get [OF wf put] by blast
qed

text \<open>C39: The hash is the first 32 bytes, so content addressing confuses files.  Two different contents
  that agree on their first 32 bytes get the same hash: the second \<open>put\<close> reports success and its data
  is lost, \<open>get\<close> returns the first.\<close>

theorem cas_prefix_collision:
  assumes "cas_wf c" "bt_get (cas_objects c) (of_data data1) = None" "cas_put t1 data1 c = (Inr hash, c1)"
    and "32 \<le> length data1" "32 \<le> length data2" "take 32 data1 = take 32 data2"
  shows "\<exists>c2. cas_put t2 data2 c1 = (Inr hash, c2) \<and> fst (cas_get t3 hash c2) = Some data1"
proof -
  have same: "of_data data2 = of_data data1"
    using assms(4-6) by (simp add: of_data_eq)
  show ?thesis
    using assms(2,3)
  proof (cases rule: cas_put_cases [OF assms(1), of data1 t1, case_names known full stored])
    case (stored c' obj)
    have wf1: "cas_wf c1"
      using cas_put_wf [OF assms(1), of t1 data1] assms(3) by simp
    have get: "bt_get (cas_objects c1) (of_data data1) = Some obj" "hash = of_data data1"
      using stored assms(3) by (auto simp: cas_wf_def bt_get_insert)
    then show ?thesis
      using same wf1 stored(4) by (simp add: cas_put_def Let_def cas_get_def cas_wf_def bt_get_insert bt_insert_wf)
  qed simp_all
qed

theorem cas_prefix_collision_witness:
  "\<exists>c1 c2 hash. cas_put 0 (replicate 32 7 @ [1]) cas_new = (Inr hash, c1)
     \<and> cas_put 0 (replicate 32 7 @ [2]) c1 = (Inr hash, c2) \<and> fst (cas_get 0 hash c2) = Some (replicate 32 7 @ [1])"
proof -
  let ?a = "replicate 32 7 @ [1] :: u8 list" and ?b = "replicate 32 7 @ [2] :: u8 list"
  have wf: "cas_wf cas_new" "bt_get (cas_objects cas_new) (of_data ?a) = None"
    by (simp_all add: cas_wf_def cas_new_def cas_bytes_def bt_values_def)
  obtain c1 where put: "cas_put 0 ?a cas_new = (Inr (of_data ?a), c1)"
    using wf(2) by (simp add: cas_put_def Let_def) (simp add: cas_new_def)
  then show ?thesis
    using cas_prefix_collision [OF wf put, of ?b] by auto
qed

end
