(* ===== verification/Token.thy ===== *)
theory Token
  imports Storage
begin

text \<open>
  \<open>kernel/src/fs/token.rs\<close> and \<open>kernel/src/fs/permissions.rs\<close>: capability tokens, their registry, and
  the access control lists.  The registry is passed explicitly; the random words, the tick counter
  and the timer frequency are arguments.
\<close>

section \<open>Token ids and permissions\<close>

type_synonym TokenId = "128 word"

definition token_from_raw :: "u64 \<Rightarrow> u64 \<Rightarrow> TokenId" where
  "token_from_raw high low = push_bit 64 (ucast high) OR ucast low"

text \<open>\<open>random\<close>: the two words come from the \<open>rdrand\<close> instruction.\<close>

definition token_random :: "u64 \<times> u64 \<Rightarrow> TokenId" where
  "token_random rdrand = (let (high, low) = rdrand in push_bit 64 (ucast high) OR ucast low)"

definition token_high :: "TokenId \<Rightarrow> u64" where
  "token_high t = ucast (drop_bit 64 t)"

definition token_low :: "TokenId \<Rightarrow> u64" where
  "token_low t = ucast t"

type_synonym Permissions = u8

definition PERM_NONE :: Permissions where "PERM_NONE = 0"
definition PERM_READ :: Permissions where "PERM_READ = 1"
definition PERM_WRITE :: Permissions where "PERM_WRITE = 2"
definition PERM_EXECUTE :: Permissions where "PERM_EXECUTE = 4"
definition PERM_DELETE :: Permissions where "PERM_DELETE = 8"
definition PERM_ADMIN :: Permissions where "PERM_ADMIN = 16"
definition PERM_SHARE :: Permissions where "PERM_SHARE = 32"
definition PERM_READ_WRITE :: Permissions where "PERM_READ_WRITE = PERM_READ OR PERM_WRITE"
definition PERM_READ_ONLY :: Permissions where "PERM_READ_ONLY = PERM_READ"
definition PERM_ALL :: Permissions where "PERM_ALL = 0x3F"

definition perm_has :: "Permissions \<Rightarrow> Permissions \<Rightarrow> bool" where
  "perm_has p perm \<longleftrightarrow> p AND perm \<noteq> 0"

definition perm_add :: "Permissions \<Rightarrow> Permissions \<Rightarrow> Permissions" where
  "perm_add p perm = p OR perm"

definition perm_remove :: "Permissions \<Rightarrow> Permissions \<Rightarrow> Permissions" where
  "perm_remove p perm = p AND NOT perm"

section \<open>Tokens and their registry\<close>

datatype TokenType = File | Folder | Share | Move

record Token =
  tk_id :: TokenId
  tk_path :: string
  tk_content_hash :: Hash
  tk_token_type :: TokenType
  tk_permissions :: Permissions
  tk_owner :: u64
  tk_size :: u64
  tk_created :: u64
  tk_modified :: u64
  tk_parent :: "TokenId option"
  tk_expires :: "u64 option"
  tk_children :: "TokenId list"

type_synonym Registry = "(TokenId, Token) btree"

definition token_new_file :: "TokenId \<Rightarrow> string \<Rightarrow> Hash \<Rightarrow> u64 \<Rightarrow> u64 \<Rightarrow> Permissions \<Rightarrow> Token" where
  "token_new_file rid path content_hash owner sz permissions =
     \<lparr>tk_id = rid, tk_path = path, tk_content_hash = content_hash, tk_token_type = File,
      tk_permissions = permissions, tk_owner = owner, tk_size = sz, tk_created = 0, tk_modified = 0,
      tk_parent = None, tk_expires = None, tk_children = []\<rparr>"

definition token_new_folder :: "TokenId \<Rightarrow> string \<Rightarrow> u64 \<Rightarrow> Permissions \<Rightarrow> Token" where
  "token_new_folder rid path owner permissions =
     \<lparr>tk_id = rid, tk_path = path, tk_content_hash = hash_zero, tk_token_type = Folder,
      tk_permissions = permissions, tk_owner = owner, tk_size = 0, tk_created = 0, tk_modified = 0,
      tk_parent = None, tk_expires = None, tk_children = []\<rparr>"

definition token_new_share :: "TokenId \<Rightarrow> u64 \<Rightarrow> u64 \<Rightarrow> TokenId \<Rightarrow> u64 \<Rightarrow> Permissions \<Rightarrow> Token" where
  "token_new_share rid ticks hz target_token expires_in_seconds allowed_permissions =
     (let deadline = ticks + expires_in_seconds * hz
      in \<lparr>tk_id = rid, tk_path = '''', tk_content_hash = hash_zero, tk_token_type = Share,
          tk_permissions = allowed_permissions, tk_owner = 0, tk_size = 0, tk_created = 0, tk_modified = 0,
          tk_parent = Some target_token, tk_expires = Some deadline, tk_children = []\<rparr>)"

definition token_register :: "Token \<Rightarrow> Registry \<Rightarrow> Registry" where
  "token_register t reg = bt_insert (tk_id t) t reg"

definition token_lookup :: "TokenId \<Rightarrow> Registry \<Rightarrow> Token option" where
  "token_lookup i reg = bt_get reg i"

definition token_revoke :: "TokenId \<Rightarrow> Registry \<Rightarrow> bool \<times> Registry" where
  "token_revoke i reg = (bt_get reg i \<noteq> None, bt_remove i reg)"

definition token_all_ids :: "Registry \<Rightarrow> TokenId list" where
  "token_all_ids reg = bt_keys reg"

definition is_expired :: "u64 \<Rightarrow> Token \<Rightarrow> bool" where
  "is_expired ticks t = (case tk_expires t of Some deadline \<Rightarrow> ticks \<ge> deadline | None \<Rightarrow> False)"

text \<open>\<open>check_permission\<close> follows the parents of share tokens; \<open>None\<close> is a recursion that does not end.\<close>

partial_function (option) check_permission ::
  "u64 \<Rightarrow> Registry \<Rightarrow> Token \<Rightarrow> Permissions \<Rightarrow> u64 \<Rightarrow> bool option" where
  "check_permission ticks reg t required user_id =
     (if is_expired ticks t then Some False
      else if tk_owner t = user_id then Some (perm_has (tk_permissions t) required)
      else if tk_token_type t = Share
      then (case tk_parent t of
              None \<Rightarrow> Some False
            | Some parent \<Rightarrow>
                (case token_lookup parent reg of
                   None \<Rightarrow> Some False
                 | Some parent_token \<Rightarrow> check_permission ticks reg parent_token required user_id))
      else Some False)"

section \<open>Access control lists\<close>

record AclEntry =
  acl_user_id :: u64
  acl_permissions :: Permissions

type_synonym PermissionManager = "(TokenId, AclEntry list) btree"

definition acl_new :: PermissionManager where
  "acl_new = []"

definition set_permission :: "TokenId \<Rightarrow> u64 \<Rightarrow> Permissions \<Rightarrow> PermissionManager \<Rightarrow> PermissionManager" where
  "set_permission token_id user_id perms acls =
     (let entries = (case bt_get acls token_id of None \<Rightarrow> [] | Some es \<Rightarrow> es);
          entries = filter (\<lambda>e. acl_user_id e \<noteq> user_id) entries
      in bt_insert token_id (entries @ [\<lparr>acl_user_id = user_id, acl_permissions = perms\<rparr>]) acls)"

definition acl_check :: "Registry \<Rightarrow> TokenId \<Rightarrow> u64 \<Rightarrow> Permissions \<Rightarrow> PermissionManager \<Rightarrow> bool" where
  "acl_check reg token_id user_id required acls =
     (let by_acl = (case bt_get acls token_id of
                      None \<Rightarrow> False
                    | Some entries \<Rightarrow> list_ex (\<lambda>e. acl_user_id e = user_id \<and> perm_has (acl_permissions e) required) entries)
      in case token_lookup token_id reg of
           Some token \<Rightarrow> if tk_owner token = user_id then perm_has (tk_permissions token) required else by_acl
         | None \<Rightarrow> by_acl)"

section \<open>Properties\<close>

text \<open>The two words of a token id can be read back, and an id is determined by them.\<close>

theorem token_words_roundtrip:
  "token_high (token_from_raw high low) = high \<and> token_low (token_from_raw high low) = low
   \<and> token_from_raw (token_high t) (token_low t) = t"
proof (intro conjI)
  show "token_high (token_from_raw high low) = high"
    by (rule bit_word_eqI)
      (auto simp: token_high_def token_from_raw_def bit_ucast_iff bit_drop_bit_eq bit_or_iff bit_push_bit_iff dest: bit_imp_le_length)
  show "token_low (token_from_raw high low) = low"
    by (rule bit_word_eqI)
      (auto simp: token_low_def token_from_raw_def bit_ucast_iff bit_or_iff bit_push_bit_iff dest: bit_imp_le_length)
  show "token_from_raw (token_high t) (token_low t) = t"
    by (rule bit_word_eqI)
      (auto simp: token_high_def token_low_def token_from_raw_def bit_ucast_iff bit_drop_bit_eq bit_or_iff bit_push_bit_iff
        dest: bit_imp_le_length)
qed

text \<open>\<open>has\<close> asks for any of the requested permissions, not for all of them: a token that may only be read
  passes a check for reading and writing.\<close>

theorem perm_has_any:
  "perm_has p (a OR b) \<longleftrightarrow> perm_has p a \<or> perm_has p b"
  unfolding perm_has_def by (simp add: bit.conj_disj_distrib or_eq_0_iff)

text \<open>A share grants nothing.  For a user who does not own the share token, the answer does not depend on
  the permissions the share was created with: the question is passed on to the shared token with the
  same user.\<close>

theorem share_permissions_ignored:
  assumes "tk_token_type t = Share" "tk_owner t \<noteq> user_id"
  shows "check_permission ticks reg (t\<lparr>tk_permissions := p\<rparr>) required user_id = check_permission ticks reg t required user_id"
proof -
  have "is_expired ticks (t\<lparr>tk_permissions := p\<rparr>) = is_expired ticks t"
    by (simp add: is_expired_def)
  then show ?thesis
    using assms by (subst (1 2) check_permission.simps) simp
qed

theorem share_permissions_ignored_witness:
  "check_permission 0 [] ((token_new_share 1 0 100 2 60 PERM_ALL)\<lparr>tk_permissions := PERM_NONE\<rparr>) PERM_READ 7 =
   check_permission 0 [] (token_new_share 1 0 100 2 60 PERM_ALL) PERM_READ 7"
  by (rule share_permissions_ignored) (simp_all add: token_new_share_def)

lemma register_all_get:
  assumes "distinct (map tk_id ts)"
  shows "bt_wf (fold token_register ts [])"
    "bt_get (fold token_register ts []) i = find (\<lambda>t. tk_id t = i) ts"
proof -
  have "bt_wf (fold token_register ts reg)
      \<and> bt_get (fold token_register ts reg) i = (case find (\<lambda>t. tk_id t = i) ts of Some t \<Rightarrow> Some t | None \<Rightarrow> bt_get reg i)"
    if "bt_wf reg" for reg
    using that assms
  proof (induction ts arbitrary: reg)
    case (Cons t ts)
    then have "bt_wf (token_register t reg)" "distinct (map tk_id ts)" "tk_id t \<notin> tk_id ` set ts"
      by (simp_all add: token_register_def bt_insert_wf)
    moreover from this(3) have "find (\<lambda>x. tk_id x = tk_id t) ts = None"
      unfolding find_None_iff by (metis image_eqI)
    ultimately show ?case
      using Cons.IH [of "token_register t reg"] Cons.prems(1)
      by (auto simp: token_register_def bt_get_insert split: option.splits)
  qed simp
  from this [of "[]"] show "bt_wf (fold token_register ts [])" "bt_get (fold token_register ts []) i = find (\<lambda>t. tk_id t = i) ts"
    by (simp_all split: option.splits)
qed

text \<open>A permission check ends.  When every token was registered under a fresh id and the parent of a
  share, if it is registered at all, was registered before the share, following the parents reaches an
  answer for every registered token.\<close>

theorem check_permission_terminates:
  assumes "distinct (map tk_id ts)" "i < length ts"
    and order: "\<And>j p. j < length ts \<Longrightarrow> tk_parent (ts ! j) = Some p \<Longrightarrow> p \<notin> set (map tk_id (drop j ts))"
  shows "\<exists>answer. check_permission ticks (fold token_register ts []) (ts ! i) required user_id = Some answer"
  using assms(2)
proof (induction i rule: less_induct)
  case (less i)
  let ?reg = "fold token_register ts []" and ?t = "ts ! i"
  show ?case
  proof (cases "\<exists>p pt. tk_parent ?t = Some p \<and> token_lookup p ?reg = Some pt")
    case True
    then obtain p pt where p: "tk_parent ?t = Some p" "token_lookup p ?reg = Some pt"
      by blast
    then have f: "find (\<lambda>t. tk_id t = p) ts = Some pt"
      using register_all_get(2) [OF assms(1), of p] by (simp add: token_lookup_def)
    then obtain j where j: "j < length ts" "ts ! j = pt" "tk_id pt = p"
      by (auto simp: find_Some_iff)
    have "j < i"
    proof (rule ccontr)
      assume "\<not> j < i"
      then have "pt \<in> set (drop i ts)"
        using j(1,2) by (auto simp: in_set_conv_nth intro!: exI [of _ "j - i"])
      then show False
        using order [OF less.prems p(1)] j(3) by auto
    qed
    then obtain a where a: "check_permission ticks ?reg pt required user_id = Some a"
      using less.IH [OF _ j(1)] j(2) by blast
    show ?thesis
      by (subst check_permission.simps) (simp add: p a ex_bool_eq)
  next
    case False
    then show ?thesis
      by (subst check_permission.simps) (auto split: option.splits)
  qed
qed

theorem check_permission_terminates_witness:
  "\<exists>answer. check_permission 0 (fold token_register [token_new_file 1 ''/a'' hash_zero 5 0 PERM_READ, token_new_share 2 0 100 1 60 PERM_READ] [])
     ([token_new_file 1 ''/a'' hash_zero 5 0 PERM_READ, token_new_share 2 0 100 1 60 PERM_READ] ! 1) PERM_READ 5 = Some answer"
  by (rule check_permission_terminates) (auto simp: token_new_file_def token_new_share_def less_Suc_eq nth_Cons')

text \<open>Setting a permission decides every later check of that user on that token, unless the user owns the
  token, and changes nothing for the other users or tokens.\<close>

theorem acl_set_check:
  assumes "bt_wf acls"
  shows "acl_check reg token_id user_id required (set_permission tok user perms acls) =
    (if token_id = tok \<and> user_id = user \<and> (\<forall>t. token_lookup tok reg = Some t \<longrightarrow> tk_owner t \<noteq> user)
     then perm_has perms required else acl_check reg token_id user_id required acls)"
  using assms
  by (auto simp: acl_check_def set_permission_def Let_def bt_get_insert list_ex_iff split: option.splits)

theorem acl_set_check_witness:
  "acl_check [] 3 9 PERM_READ (set_permission 3 9 PERM_READ acl_new) \<and> \<not> acl_check [] 3 8 PERM_READ (set_permission 3 9 PERM_READ acl_new)"
  using acl_set_check [of acl_new "[]" 3 9 PERM_READ 3 9 PERM_READ] acl_set_check [of acl_new "[]" 3 8 PERM_READ 3 9 PERM_READ]
  by (simp add: acl_new_def token_lookup_def perm_has_def PERM_READ_def acl_check_def)

end
