(* ===== verification/Strings.thy ===== *)
theory Strings
  imports Prelude "HOL-Library.Char_ord"
begin

text \<open>
  The functions of Rust's \<open>str\<close> that the file-system code calls.  A string is the list of its bytes, as
  characters; \<open>from_utf8\<close> accepts the byte sequences that encode scalar values.
\<close>

section \<open>Splitting strings\<close>

text \<open>Rust's \<open>str::split\<close> on a character, which always yields at least one part, and \<open>str::rfind\<close>.\<close>

fun str_split :: "char \<Rightarrow> string \<Rightarrow> string list" where
  "str_split c [] = [[]]"
| "str_split c (x # xs) =
     (if x = c then [] # str_split c xs
      else case str_split c xs of [] \<Rightarrow> [[x]] | p # ps \<Rightarrow> (x # p) # ps)"

fun str_rfind :: "char \<Rightarrow> string \<Rightarrow> nat option" where
  "str_rfind c [] = None"
| "str_rfind c (x # xs) =
     (case str_rfind c xs of Some i \<Rightarrow> Some (Suc i) | None \<Rightarrow> if x = c then Some 0 else None)"

definition ends_with :: "string \<Rightarrow> char \<Rightarrow> bool" where
  "ends_with s c \<longleftrightarrow> s \<noteq> [] \<and> last s = c"

definition starts_with :: "string \<Rightarrow> string \<Rightarrow> bool" where
  "starts_with s p \<longleftrightarrow> take (length p) s = p"

text \<open>\<open>str::trim_start_matches\<close> and \<open>str::trim_matches\<close> with a predicate on characters.\<close>

definition trim_start :: "(char \<Rightarrow> bool) \<Rightarrow> string \<Rightarrow> string" where
  "trim_start P s = dropWhile P s"

definition trim_both :: "(char \<Rightarrow> bool) \<Rightarrow> string \<Rightarrow> string" where
  "trim_both P s = rev (dropWhile P (rev (dropWhile P s)))"

section \<open>Bytes and characters\<close>

definition byte_char :: "u8 \<Rightarrow> char" where
  "byte_char b = char_of (unat b)"

text \<open>\<open>str::as_bytes\<close>.\<close>

definition str_bytes :: "string \<Rightarrow> u8 list" where
  "str_bytes s = map (\<lambda>c. of_nat (of_char c)) s"

definition utf8_cont :: "u8 \<Rightarrow> bool" where
  "utf8_cont b \<longleftrightarrow> 0x80 \<le> b \<and> b \<le> 0xBF"

text \<open>The table of well-formed byte sequences: one to four bytes, no overlong forms, no surrogates.\<close>

fun utf8_valid :: "u8 list \<Rightarrow> bool" where
  "utf8_valid [] = True"
| "utf8_valid (a # bs) =
     (if a < 0x80 then utf8_valid bs
      else case bs of
        [] \<Rightarrow> False
      | b # bs \<Rightarrow>
          if 0xC2 \<le> a \<and> a \<le> 0xDF then utf8_cont b \<and> utf8_valid bs
          else case bs of
            [] \<Rightarrow> False
          | c # bs \<Rightarrow>
              if 0xE0 \<le> a \<and> a \<le> 0xEF
              then (if a = 0xE0 then 0xA0 \<le> b \<and> b \<le> 0xBF else if a = 0xED then 0x80 \<le> b \<and> b \<le> 0x9F else utf8_cont b)
                   \<and> utf8_cont c \<and> utf8_valid bs
              else case bs of
                [] \<Rightarrow> False
              | d # bs \<Rightarrow>
                  0xF0 \<le> a \<and> a \<le> 0xF4
                  \<and> (if a = 0xF0 then 0x90 \<le> b \<and> b \<le> 0xBF else if a = 0xF4 then 0x80 \<le> b \<and> b \<le> 0x8F else utf8_cont b)
                  \<and> utf8_cont c \<and> utf8_cont d \<and> utf8_valid bs)"

definition from_utf8 :: "u8 list \<Rightarrow> string option" where
  "from_utf8 bs = (if utf8_valid bs then Some (map byte_char bs) else None)"

section \<open>Numbers in base eight\<close>

definition octal_digit :: "char \<Rightarrow> nat option" where
  "octal_digit c = (if CHR ''0'' \<le> c \<and> c \<le> CHR ''7'' then Some (of_char c - of_char (CHR ''0'')) else None)"

fun octal_digits :: "nat \<Rightarrow> string \<Rightarrow> nat option" where
  "octal_digits acc [] = Some acc"
| "octal_digits acc (c # cs) = (case octal_digit c of None \<Rightarrow> None | Some d \<Rightarrow> octal_digits (8 * acc + d) cs)"

text \<open>\<open>usize::from_str_radix(s, 8)\<close> on at most 21 digits, which cannot overflow: an optional plus sign and
  at least one digit.\<close>

definition from_octal :: "string \<Rightarrow> nat option" where
  "from_octal s =
     (let digits = (case s of c # cs \<Rightarrow> if c = CHR ''+'' \<and> cs \<noteq> [] then cs else s | [] \<Rightarrow> s)
      in if digits = [] then None else octal_digits 0 digits)"

section \<open>UTF-16, and trimming at the end\<close>

text \<open>The encoding of a scalar value in UTF-8.\<close>

definition utf8_encode :: "nat \<Rightarrow> string" where
  "utf8_encode c =
     map char_of
       (if c < 0x80 then [c]
        else if c < 0x800 then [0xC0 + c div 0x40, 0x80 + c mod 0x40]
        else if c < 0x10000 then [0xE0 + c div 0x1000, 0x80 + c div 0x40 mod 0x40, 0x80 + c mod 0x40]
        else [0xF0 + c div 0x40000, 0x80 + c div 0x1000 mod 0x40, 0x80 + c div 0x40 mod 0x40, 0x80 + c mod 0x40])"

text \<open>\<open>String::from_utf16_lossy\<close>: a surrogate without its partner becomes U+FFFD.\<close>

fun utf16_scalars :: "u16 list \<Rightarrow> nat list" where
  "utf16_scalars [] = []"
| "utf16_scalars (u # us) =
     (if u < 0xD800 \<or> 0xE000 \<le> u then unat u # utf16_scalars us
      else if 0xDC00 \<le> u then 0xFFFD # utf16_scalars us
      else case us of
        [] \<Rightarrow> [0xFFFD]
      | v # vs \<Rightarrow>
          if 0xDC00 \<le> v \<and> v < 0xE000
          then (0x10000 + (unat u - 0xD800) * 0x400 + (unat v - 0xDC00)) # utf16_scalars vs
          else 0xFFFD # utf16_scalars (v # vs))"

definition from_utf16_lossy :: "u16 list \<Rightarrow> string" where
  "from_utf16_lossy us = concat (map utf8_encode (utf16_scalars us))"

text \<open>Removing characters, given by their encodings, from the end of a string.\<close>

fun trim_end_of :: "nat \<Rightarrow> string list \<Rightarrow> string \<Rightarrow> string" where
  "trim_end_of 0 cs s = s"
| "trim_end_of (Suc n) cs s =
     (case find (\<lambda>c. c \<noteq> [] \<and> length c \<le> length s \<and> drop (length s - length c) s = c) cs of
        None \<Rightarrow> s
      | Some c \<Rightarrow> trim_end_of n cs (take (length s - length c) s))"

definition trim_end_matches :: "nat list \<Rightarrow> string \<Rightarrow> string" where
  "trim_end_matches cs s = trim_end_of (length s) (map utf8_encode cs) s"

text \<open>The characters of the property \<open>White_Space\<close>.\<close>

definition white_space :: "nat list" where
  "white_space = [0x09, 0x0A, 0x0B, 0x0C, 0x0D, 0x20, 0x85, 0xA0, 0x1680, 0x2000, 0x2001, 0x2002, 0x2003, 0x2004, 0x2005,
     0x2006, 0x2007, 0x2008, 0x2009, 0x200A, 0x2028, 0x2029, 0x202F, 0x205F, 0x3000]"

definition trim_end :: "string \<Rightarrow> string" where
  "trim_end s = trim_end_matches white_space s"

definition ascii_lower :: "char \<Rightarrow> char" where
  "ascii_lower c = (if CHR ''A'' \<le> c \<and> c \<le> CHR ''Z'' then char_of (of_char c + (32 :: nat)) else c)"

definition eq_ignore_ascii_case :: "string \<Rightarrow> string \<Rightarrow> bool" where
  "eq_ignore_ascii_case a b \<longleftrightarrow> map ascii_lower a = map ascii_lower b"

section \<open>Lemmas\<close>

lemma str_split_ne [simp]: "str_split c s \<noteq> []"
  by (induction s) (auto split: list.splits)

lemma str_split_no_sep: "p \<in> set (str_split c s) \<Longrightarrow> c \<notin> set p"
  by (induction s arbitrary: p) (auto split: if_splits list.splits)

lemma str_split_plain: "c \<notin> set s \<Longrightarrow> str_split c s = [s]"
  by (induction s) auto

lemma str_split_append: "str_split c (s @ c # t) = str_split c s @ str_split c t"
  by (induction s) (auto split: list.splits)

lemma str_rfind_none: "c \<notin> set t \<Longrightarrow> str_rfind c t = None"
  by (induction t) auto

lemma str_rfind_last: "c \<notin> set t \<Longrightarrow> str_rfind c (s @ c # t) = Some (length s)"
  by (induction s) (simp_all add: str_rfind_none)

end
