(* ===== verification/PathCache.thy ===== *)
theory PathCache
  imports Token Strings
begin

text \<open>
  \<open>kernel/src/fs/path_cache.rs\<close>: the map from paths to tokens with its reverse map and hit counters, and
  the path normaliser.  The hit ratio, a floating-point statistic, is left out.
\<close>

section \<open>The path normaliser\<close>

text \<open>One step of the loop over the components.\<close>

definition norm_step :: "string list \<Rightarrow> string \<Rightarrow> string list" where
  "norm_step components part =
     (if part = '''' \<or> part = ''.'' then components
      else if part = ''..'' then butlast components
      else components @ [part])"

definition norm_components :: "string \<Rightarrow> string list" where
  "norm_components path = foldl norm_step [] (str_split (CHR ''/'') path)"

definition render :: "string list \<Rightarrow> string" where
  "render components = (if components = [] then ''/'' else concat (map (\<lambda>c. CHR ''/'' # c) components))"

definition normalize :: "string \<Rightarrow> string" where
  "normalize path = render (norm_components path)"

definition path_join :: "string \<Rightarrow> string \<Rightarrow> string" where
  "path_join base child =
     (let full = (if ends_with base (CHR ''/'') then base else base @ ''/'') in normalize (full @ child))"

definition path_parent :: "string \<Rightarrow> string option" where
  "path_parent path =
     (let normalized = normalize path
      in if normalized = ''/'' then None
         else case str_rfind (CHR ''/'') normalized of
                None \<Rightarrow> None
              | Some last_slash \<Rightarrow> if last_slash = 0 then Some ''/'' else Some (take last_slash normalized))"

definition basename :: "string \<Rightarrow> string" where
  "basename path =
     (let normalized = normalize path
      in if normalized = ''/'' then ''/'' else last (str_split (CHR ''/'') normalized))"

section \<open>The cache\<close>

record PathCache =
  pc_path_to_token :: "(string, TokenId) btree"
  pc_token_to_path :: "(TokenId, string) btree"
  pc_hits :: u64
  pc_misses :: u64

definition pc_new :: PathCache where
  "pc_new = \<lparr>pc_path_to_token = [], pc_token_to_path = [], pc_hits = 0, pc_misses = 0\<rparr>"

definition pc_resolve :: "string \<Rightarrow> PathCache \<Rightarrow> TokenId option \<times> PathCache" where
  "pc_resolve path pc =
     (case bt_get (pc_path_to_token pc) path of
        Some token_id \<Rightarrow> (Some token_id, pc\<lparr>pc_hits := pc_hits pc + 1\<rparr>)
      | None \<Rightarrow> (None, pc\<lparr>pc_misses := pc_misses pc + 1\<rparr>))"

definition pc_insert :: "string \<Rightarrow> TokenId \<Rightarrow> PathCache \<Rightarrow> PathCache" where
  "pc_insert path token_id pc =
     pc\<lparr>pc_path_to_token := bt_insert path token_id (pc_path_to_token pc),
        pc_token_to_path := bt_insert token_id path (pc_token_to_path pc)\<rparr>"

definition pc_remove :: "string \<Rightarrow> PathCache \<Rightarrow> TokenId option \<times> PathCache" where
  "pc_remove path pc =
     (case bt_get (pc_path_to_token pc) path of
        Some token_id \<Rightarrow>
          (Some token_id, pc\<lparr>pc_path_to_token := bt_remove path (pc_path_to_token pc),
                             pc_token_to_path := bt_remove token_id (pc_token_to_path pc)\<rparr>)
      | None \<Rightarrow> (None, pc))"

definition update_path :: "string \<Rightarrow> string \<Rightarrow> PathCache \<Rightarrow> bool \<times> PathCache" where
  "update_path old_path new_path pc =
     (case bt_get (pc_path_to_token pc) old_path of
        Some token_id \<Rightarrow>
          (True, pc\<lparr>pc_path_to_token := bt_insert new_path token_id (bt_remove old_path (pc_path_to_token pc)),
                    pc_token_to_path := bt_insert token_id new_path (pc_token_to_path pc)\<rparr>)
      | None \<Rightarrow> (False, pc))"

definition invalidate_entry :: "string \<Rightarrow> PathCache \<Rightarrow> PathCache" where
  "invalidate_entry path pc =
     (case bt_get (pc_path_to_token pc) path of
        Some token \<Rightarrow>
          pc\<lparr>pc_path_to_token := bt_remove path (pc_path_to_token pc),
             pc_token_to_path := bt_remove token (pc_token_to_path pc)\<rparr>
      | None \<Rightarrow> pc)"

definition invalidate_subtree :: "string \<Rightarrow> PathCache \<Rightarrow> nat \<times> PathCache" where
  "invalidate_subtree pfx pc =
     (let to_remove = filter (\<lambda>path. starts_with path pfx) (bt_keys (pc_path_to_token pc))
      in (length to_remove, fold invalidate_entry to_remove pc))"

definition pc_contains :: "string \<Rightarrow> PathCache \<Rightarrow> bool" where
  "pc_contains path pc \<longleftrightarrow> bt_get (pc_path_to_token pc) path \<noteq> None"

definition get_or_resolve :: "string \<Rightarrow> (string \<Rightarrow> TokenId option) \<Rightarrow> PathCache \<Rightarrow> TokenId option \<times> PathCache" where
  "get_or_resolve path resolver pc =
     (case pc_resolve path pc of
        (Some token, pc) \<Rightarrow> (Some token, pc)
      | (None, pc) \<Rightarrow>
          (case resolver path of
             Some token \<Rightarrow> (Some token, pc_insert path token pc)
           | None \<Rightarrow> (None, pc)))"

definition pc_stats :: "PathCache \<Rightarrow> u64 \<times> u64 \<times> nat" where
  "pc_stats pc = (pc_hits pc, pc_misses pc, length (pc_path_to_token pc))"

definition pc_clear :: "PathCache \<Rightarrow> PathCache" where
  "pc_clear pc = pc\<lparr>pc_path_to_token := [], pc_token_to_path := [], pc_hits := 0, pc_misses := 0\<rparr>"

section \<open>Normal forms\<close>

definition clean :: "string \<Rightarrow> bool" where
  "clean c \<longleftrightarrow> c \<noteq> '''' \<and> c \<noteq> ''.'' \<and> c \<noteq> ''..'' \<and> CHR ''/'' \<notin> set c"

lemma norm_step_clean:
  "list_all clean cs \<Longrightarrow> CHR ''/'' \<notin> set p \<Longrightarrow> list_all clean (norm_step cs p)"
  by (auto simp: norm_step_def clean_def list_all_iff dest: in_set_butlastD)

lemma norm_components_clean: "list_all clean (norm_components path)"
proof -
  have "list_all clean (foldl norm_step cs ps)" if "list_all clean cs" "\<forall>p \<in> set ps. CHR ''/'' \<notin> set p" for cs ps
    using that by (induction ps arbitrary: cs) (simp_all add: norm_step_clean)
  then show ?thesis
    using str_split_no_sep by (auto simp: norm_components_def)
qed

lemma foldl_norm_clean: "list_all clean cs \<Longrightarrow> foldl norm_step acc cs = acc @ cs"
  by (induction cs arbitrary: acc) (auto simp: norm_step_def clean_def)

lemma render_append: "cs \<noteq> [] \<Longrightarrow> render (cs @ ds) = render cs @ concat (map (\<lambda>c. CHR ''/'' # c) ds)"
  by (simp add: render_def)

lemma split_render:
  assumes "list_all clean cs"
  shows "str_split (CHR ''/'') (concat (map (\<lambda>c. CHR ''/'' # c) cs)) = [] # cs"
  using assms
proof (induction cs rule: rev_induct)
  case (snoc c cs)
  then have "CHR ''/'' \<notin> set c"
    by (simp add: clean_def)
  then show ?case
    using snoc by (simp add: str_split_append str_split_plain)
qed simp

lemma norm_render: "list_all clean cs \<Longrightarrow> norm_components (render cs) = cs"
  by (cases "cs = []") (simp_all add: norm_components_def render_def split_render norm_step_def foldl_norm_clean)

lemma render_root: "list_all clean cs \<Longrightarrow> render cs = ''/'' \<longleftrightarrow> cs = []"
  using norm_render [of cs] norm_render [of "[]"] by (auto simp: render_def)

lemma normal_path_cases:
  obtains (root) "normalize path = ''/''" "path_parent path = None" "basename path = ''/''"
  | (child) cs c where "norm_components path = cs @ [c]" "list_all clean cs" "clean c"
      "path_parent path = Some (render cs)" "basename path = c"
proof (cases "norm_components path" rule: rev_cases)
  case Nil
  then show thesis
    using root by (simp add: normalize_def render_def path_parent_def basename_def)
next
  case (snoc cs c)
  have ok: "list_all clean (cs @ [c])"
    using norm_components_clean [of path] snoc by simp
  then have c: "clean c" "CHR ''/'' \<notin> set c" "list_all clean cs"
    by (simp_all add: clean_def)
  let ?r = "concat (map (\<lambda>c. CHR ''/'' # c) cs)"
  have n: "normalize path = ?r @ CHR ''/'' # c" "normalize path \<noteq> ''/''"
    using snoc render_root [OF ok] by (simp_all add: normalize_def render_def)
  have "path_parent path = Some (render cs)"
    using n(2) by (auto simp: path_parent_def Let_def n(1) str_rfind_last [OF c(2)] render_def)
  moreover have "basename path = c"
    using n(2) by (simp add: basename_def Let_def n(1) str_split_append split_render [OF c(3)] str_split_plain [OF c(2)])
  ultimately show thesis
    using child [OF snoc c(3,1)] by blast
qed

section \<open>The cache as a finite map\<close>

definition pc_wf :: "PathCache \<Rightarrow> bool" where
  "pc_wf pc \<longleftrightarrow> bt_wf (pc_path_to_token pc) \<and> bt_wf (pc_token_to_path pc)"

abbreviation pc_lookup :: "PathCache \<Rightarrow> string \<rightharpoonup> TokenId" where
  "pc_lookup pc \<equiv> bt_get (pc_path_to_token pc)"

datatype cache_op = CacheInsert string TokenId | CacheRemove string | CacheMove string string
  | CacheInvalidate string | CacheResolve string | CacheClear

fun cache_step :: "cache_op \<Rightarrow> PathCache \<Rightarrow> PathCache" where
  "cache_step (CacheInsert path token_id) pc = pc_insert path token_id pc"
| "cache_step (CacheRemove path) pc = snd (pc_remove path pc)"
| "cache_step (CacheMove old_path new_path) pc = snd (update_path old_path new_path pc)"
| "cache_step (CacheInvalidate pfx) pc = snd (invalidate_subtree pfx pc)"
| "cache_step (CacheResolve path) pc = snd (pc_resolve path pc)"
| "cache_step CacheClear pc = pc_clear pc"

fun cache_spec :: "cache_op \<Rightarrow> (string \<rightharpoonup> TokenId) \<Rightarrow> string \<rightharpoonup> TokenId" where
  "cache_spec (CacheInsert path token_id) m = m(path \<mapsto> token_id)"
| "cache_spec (CacheRemove path) m = m(path := None)"
| "cache_spec (CacheMove old_path new_path) m =
     (case m old_path of None \<Rightarrow> m | Some token_id \<Rightarrow> (m(old_path := None))(new_path \<mapsto> token_id))"
| "cache_spec (CacheInvalidate pfx) m = (\<lambda>path. if starts_with path pfx then None else m path)"
| "cache_spec (CacheResolve path) m = m"
| "cache_spec CacheClear m = Map.empty"

lemma invalidate_entry_spec:
  assumes "pc_wf pc"
  shows "pc_wf (invalidate_entry path pc)" "pc_lookup (invalidate_entry path pc) = (pc_lookup pc)(path := None)"
  using assms by (auto simp: invalidate_entry_def pc_wf_def bt_remove_wf bt_get_remove fun_eq_iff split: option.splits)

lemma invalidate_all_spec:
  assumes "pc_wf pc"
  shows "pc_wf (fold invalidate_entry ps pc)
    \<and> pc_lookup (fold invalidate_entry ps pc) = (\<lambda>path. if path \<in> set ps then None else pc_lookup pc path)"
  using assms by (induction ps arbitrary: pc) (auto simp: invalidate_entry_spec fun_eq_iff)

lemma cache_step_refines:
  assumes "pc_wf pc"
  shows "pc_wf (cache_step op pc) \<and> pc_lookup (cache_step op pc) = cache_spec op (pc_lookup pc)"
proof (cases op)
  case (CacheInvalidate pfx)
  have "bt_wf (pc_path_to_token pc)"
    using assms by (simp add: pc_wf_def)
  then show ?thesis
    using CacheInvalidate invalidate_all_spec [OF assms, of "filter (\<lambda>path. starts_with path pfx) (bt_keys (pc_path_to_token pc))"]
    by (auto simp: invalidate_subtree_def Let_def fun_eq_iff bt_keys_get)
qed (use assms in \<open>auto simp: pc_insert_def pc_remove_def update_path_def pc_resolve_def pc_clear_def pc_wf_def
      bt_insert_wf bt_remove_wf bt_get_insert bt_get_remove fun_eq_iff split: option.splits\<close>)

section \<open>Properties\<close>

text \<open>Normalisation computes a normal form: the components of the result are not empty, not \<open>.\<close> and not
  \<open>..\<close>, so no path leaves the root, and normalising again changes nothing.\<close>

theorem normalize_normal_form:
  "normalize (normalize path) = normalize path
   \<and> (normalize path = ''/'' \<or> (\<exists>cs. str_split (CHR ''/'') (normalize path) = [] # cs \<and> cs \<noteq> [] \<and> list_all clean cs))"
proof -
  note clean = norm_components_clean [of path]
  have "normalize (normalize path) = normalize path"
    by (simp add: normalize_def norm_render [OF clean])
  moreover have "str_split (CHR ''/'') (normalize path) = [] # norm_components path" if "norm_components path \<noteq> []"
    using that split_render [OF clean] by (simp add: normalize_def render_def)
  ultimately show ?thesis
    using clean by (cases "norm_components path = []") (auto simp: normalize_def render_def)
qed

text \<open>Every normal path other than the root is its parent joined with its base name.\<close>

theorem parent_basename_join:
  assumes "normalize path \<noteq> ''/''"
  shows "\<exists>parent. path_parent path = Some parent \<and> path_join parent (basename path) = normalize path"
proof (cases rule: normal_path_cases [of path, case_names root child])
  case root
  then show ?thesis
    using assms by simp
next
  case (child cs c)
  define full where "full = (if ends_with (render cs) (CHR ''/'') then render cs else render cs @ ''/'')"
  have c: "CHR ''/'' \<notin> set c"
    using child(3) by (simp add: clean_def)
  have "norm_components (full @ c) = cs @ [c]"
  proof (cases "ends_with (render cs) (CHR ''/'')")
    case True
    have "cs = []"
    proof (rule ccontr)
      assume "cs \<noteq> []"
      then obtain ds d where ds: "cs = ds @ [d]"
        by (cases cs rule: rev_cases) auto
      then have "CHR ''/'' \<notin> set d" "d \<noteq> []"
        using child(2) by (simp_all add: clean_def)
      then have "last (render cs) \<noteq> CHR ''/''"
        by (simp add: render_def ds) (metis last_in_set)
      then show False
        using True by (simp add: ends_with_def)
    qed
    then have "full @ c = render [c]"
      using True by (simp add: full_def render_def)
    then show ?thesis
      using norm_render [of "[c]"] child(3) \<open>cs = []\<close> by simp
  next
    case False
    then have "cs \<noteq> []"
      by (auto simp: render_def ends_with_def)
    then have "full @ c = render (cs @ [c])"
      using False by (simp add: full_def render_def)
    then show ?thesis
      using norm_render [of "cs @ [c]"] child(2,3) by simp
  qed
  then have "path_join (render cs) c = normalize path"
    by (simp add: path_join_def Let_def normalize_def child(1) flip: full_def)
  then show ?thesis
    using child(4,5) by simp
qed

theorem parent_basename_join_witness:
  "\<exists>parent. path_parent ''/home//user/./doc'' = Some parent
     \<and> path_join parent (basename ''/home//user/./doc'') = normalize ''/home//user/./doc''"
  by (rule parent_basename_join) code_simp

text \<open>C27: The cache refines a finite map from paths to tokens: after any sequence of insertions, removals,
  moves and invalidations \<open>resolve\<close> answers as the same sequence on a map does, where invalidating a
  subtree removes every path that starts with the prefix, siblings with a longer name included.\<close>

theorem path_cache_refines_map:
  "fst (pc_resolve path (fold cache_step ops pc_new)) = fold cache_spec ops Map.empty path"
proof -
  have "pc_wf (fold cache_step ops pc) \<and> pc_lookup (fold cache_step ops pc) = fold cache_spec ops (pc_lookup pc)"
    if "pc_wf pc" for pc
    using that by (induction ops arbitrary: pc) (simp_all add: cache_step_refines)
  moreover have "pc_wf pc_new" "pc_lookup pc_new = Map.empty"
    by (simp_all add: pc_new_def pc_wf_def fun_eq_iff)
  ultimately have "pc_lookup (fold cache_step ops pc_new) = fold cache_spec ops Map.empty"
    by simp
  then show ?thesis
    by (simp add: pc_resolve_def split: option.splits)
qed

end
