(* ===== verification/Merkle.thy ===== *)
theory Merkle
  imports PathCache
begin

text \<open>
  \<open>kernel/src/fs/merkle.rs\<close>: the hashes of files and folders, the cache of nodes, and the snapshots of the
  root hash.  The three maps of the tree are the fields of a record.  \<open>update_hash\<close> asks for the hashes of
  a folder's children, which may compute them in turn; the recursion takes fuel, and \<open>None\<close> is a
  recursion deeper than the fuel.  Printing the tree is left out.
\<close>

section \<open>Hash functions\<close>

fun simple_hash_loop :: "nat \<Rightarrow> u8 list \<Rightarrow> u8 list \<Rightarrow> u8 list" where
  "simple_hash_loop i [] hash = hash"
| "simple_hash_loop i (byte # data) hash =
     simple_hash_loop (Suc i) data (hash[i mod 32 := hash ! (i mod 32) XOR byte])"

definition simple_hash :: "u8 list \<Rightarrow> u8 list" where
  "simple_hash data = simple_hash_loop 0 data (replicate 32 0)"

definition hash_file :: "Hash \<Rightarrow> string \<Rightarrow> Hash option \<Rightarrow> Hash" where
  "hash_file content_hash name parent_hash =
     (let combined = (case parent_hash of Some parent \<Rightarrow> as_bytes parent | None \<Rightarrow> []);
          combined = combined @ str_bytes name;
          combined = combined @ as_bytes content_hash
      in from_bytes (simple_hash combined))"

definition hash_folder :: "string \<Rightarrow> Hash option \<Rightarrow> (string, Hash) btree \<Rightarrow> Hash" where
  "hash_folder name parent_hash children =
     (let combined = (case parent_hash of Some parent \<Rightarrow> as_bytes parent | None \<Rightarrow> []);
          combined = combined @ str_bytes name;
          combined = combined @ concat (map (\<lambda>(child_name, child_hash). str_bytes child_name @ as_bytes child_hash) children)
      in from_bytes (simple_hash combined))"

section \<open>The tree\<close>

record MerkleNode =
  mn_hash :: Hash
  mn_token_id :: TokenId
  mn_name :: string
  mn_parent_hash :: "Hash option"
  mn_children :: "(string, Hash) btree"
  mn_is_directory :: bool
  mn_size :: u64

record MerkleTree =
  mt_root_hash :: "Hash option"
  mt_node_cache :: "(Hash, MerkleNode) btree"
  mt_path_to_hash :: "(string, Hash) btree"

datatype MerkleError = TokenNotFound | NodeNotFound | NoRoot | HashMismatch

definition merkle_new :: MerkleTree where
  "merkle_new = \<lparr>mt_root_hash = None, mt_node_cache = [], mt_path_to_hash = []\<rparr>"

text \<open>The part of \<open>update_hash\<close> after the hash is known.\<close>

definition record_hash :: "Token \<Rightarrow> TokenId \<Rightarrow> Hash \<Rightarrow> MerkleTree \<Rightarrow> MerkleTree" where
  "record_hash token token_id new_hash tree =
     (let node = (case bt_get (mt_node_cache tree) new_hash of
                    Some node \<Rightarrow> node\<lparr>mn_hash := new_hash\<rparr>
                  | None \<Rightarrow> \<lparr>mn_hash = new_hash, mn_token_id = token_id, mn_name = tk_path token, mn_parent_hash = None,
                             mn_children = [], mn_is_directory = (tk_token_type token = Folder), mn_size = tk_size token\<rparr>)
      in tree\<lparr>mt_node_cache := bt_insert new_hash node (mt_node_cache tree),
              mt_path_to_hash := bt_insert (tk_path token) new_hash (mt_path_to_hash tree),
              mt_root_hash := (if tk_parent token = None then Some new_hash else mt_root_hash tree)\<rparr>)"

definition cached_hash :: "TokenId \<Rightarrow> MerkleTree \<Rightarrow> Hash option" where
  "cached_hash token_id tree = map_option fst (find (\<lambda>(hash, node). mn_token_id node = token_id) (mt_node_cache tree))"

function (sequential) update_hash :: "nat \<Rightarrow> Registry \<Rightarrow> TokenId \<Rightarrow> MerkleTree \<Rightarrow> ((MerkleError + Hash) \<times> MerkleTree) option"
  and get_children_hashes ::
    "nat \<Rightarrow> Registry \<Rightarrow> TokenId list \<Rightarrow> (string, Hash) btree \<Rightarrow> MerkleTree \<Rightarrow>
     ((MerkleError + (string, Hash) btree) \<times> MerkleTree) option"
  and get_hash_for_token :: "nat \<Rightarrow> Registry \<Rightarrow> TokenId \<Rightarrow> MerkleTree \<Rightarrow> ((MerkleError + Hash) \<times> MerkleTree) option" where
  "update_hash 0 reg token_id tree = None"
| "update_hash (Suc n) reg token_id tree =
     (case token_lookup token_id reg of
        None \<Rightarrow> Some (Inl TokenNotFound, tree)
      | Some token \<Rightarrow>
          if tk_token_type token = File
          then let new_hash = hash_file (tk_content_hash token) (tk_path token) None
               in Some (Inr new_hash, record_hash token token_id new_hash tree)
          else (case get_children_hashes n reg (tk_children token) [] tree of
                  None \<Rightarrow> None
                | Some (Inl e, tree) \<Rightarrow> Some (Inl e, tree)
                | Some (Inr children_hashes, tree) \<Rightarrow>
                    let new_hash = hash_folder (tk_path token) None children_hashes
                    in Some (Inr new_hash, record_hash token token_id new_hash tree)))"
| "get_children_hashes n reg [] children_hashes tree = Some (Inr children_hashes, tree)"
| "get_children_hashes n reg (child_id # ids) children_hashes tree =
     (case token_lookup child_id reg of
        None \<Rightarrow> Some (Inl TokenNotFound, tree)
      | Some child_token \<Rightarrow>
          (case get_hash_for_token n reg child_id tree of
             None \<Rightarrow> None
           | Some (Inl e, tree) \<Rightarrow> Some (Inl e, tree)
           | Some (Inr child_hash, tree) \<Rightarrow>
               get_children_hashes n reg ids (bt_insert (tk_path child_token) child_hash children_hashes) tree))"
| "get_hash_for_token n reg token_id tree =
     (case cached_hash token_id tree of
        Some hash \<Rightarrow> Some (Inr hash, tree)
      | None \<Rightarrow> update_hash n reg token_id tree)"
  by pat_completeness auto
termination
  by (relation "inv_image (less_than <*lex*> less_than)
    (\<lambda>x. case x of Inl (n, _) \<Rightarrow> (n, 0) | Inr (Inl (n, _, ids, _)) \<Rightarrow> (n, length ids + 2) | Inr (Inr (n, _)) \<Rightarrow> (n, 1))") auto

definition merkle_root_hash :: "MerkleTree \<Rightarrow> Hash option" where
  "merkle_root_hash tree = mt_root_hash tree"

definition set_root_hash :: "Hash \<Rightarrow> MerkleTree \<Rightarrow> MerkleTree" where
  "set_root_hash hash tree = tree\<lparr>mt_root_hash := Some hash\<rparr>"

text \<open>\<open>verify_node\<close> keeps the lock of the node cache while it calls itself for a child, and the call takes the
  same lock: \<open>None\<close> is the call that waits for it for ever.\<close>

definition verify_node :: "Registry \<Rightarrow> Hash \<Rightarrow> MerkleTree \<Rightarrow> (MerkleError + bool) option" where
  "verify_node reg hash tree =
     (case bt_get (mt_node_cache tree) hash of
        None \<Rightarrow> Some (Inl NodeNotFound)
      | Some node \<Rightarrow>
          let recomputed =
                (if mn_is_directory node then Inr (hash_folder (mn_name node) (mn_parent_hash node) (mn_children node))
                 else case token_lookup (mn_token_id node) reg of
                        None \<Rightarrow> Inl TokenNotFound
                      | Some token \<Rightarrow> Inr (hash_file (tk_content_hash token) (mn_name node) (mn_parent_hash node)))
          in case recomputed of
               Inl e \<Rightarrow> Some (Inl e)
             | Inr h \<Rightarrow>
                 if h \<noteq> hash then Some (Inr False)
                 else if bt_values (mn_children node) = [] then Some (Inr True) else None)"

definition verify_integrity :: "Registry \<Rightarrow> MerkleTree \<Rightarrow> (MerkleError + bool) option" where
  "verify_integrity reg tree =
     (case mt_root_hash tree of None \<Rightarrow> Some (Inl NoRoot) | Some root_hash \<Rightarrow> verify_node reg root_hash tree)"

definition get_snapshot_root :: "MerkleTree \<Rightarrow> Hash option" where
  "get_snapshot_root tree = merkle_root_hash tree"

section \<open>Snapshots\<close>

record Snapshot =
  sn_hash :: Hash
  sn_timestamp :: u64
  sn_parent :: "Hash option"
  sn_message :: string
  sn_tags :: "string list"

record SnapshotManager =
  sm_snapshots :: "(Hash, Snapshot) btree"
  sm_tree :: MerkleTree

definition snapshots_new :: SnapshotManager where
  "snapshots_new = \<lparr>sm_snapshots = [], sm_tree = merkle_new\<rparr>"

definition take_snapshot :: "u64 \<Rightarrow> string \<Rightarrow> SnapshotManager \<Rightarrow> Hash option \<times> SnapshotManager" where
  "take_snapshot ticks message sm =
     (case merkle_root_hash (sm_tree sm) of
        None \<Rightarrow> (None, sm)
      | Some root \<Rightarrow>
          (Some root, sm\<lparr>sm_snapshots := bt_insert root
            \<lparr>sn_hash = root, sn_timestamp = current_time ticks, sn_parent = None, sn_message = message, sn_tags = []\<rparr>
            (sm_snapshots sm)\<rparr>))"

definition tag_snapshot :: "Hash \<Rightarrow> string \<Rightarrow> SnapshotManager \<Rightarrow> bool \<times> SnapshotManager" where
  "tag_snapshot snapshot_hash tag sm =
     (case bt_get (sm_snapshots sm) snapshot_hash of
        Some snapshot \<Rightarrow>
          (True, sm\<lparr>sm_snapshots := bt_insert snapshot_hash (snapshot\<lparr>sn_tags := sn_tags snapshot @ [tag]\<rparr>) (sm_snapshots sm)\<rparr>)
      | None \<Rightarrow> (False, sm))"

definition find_by_tag :: "string \<Rightarrow> SnapshotManager \<Rightarrow> Hash option" where
  "find_by_tag tag sm = map_option fst (find (\<lambda>(_, snapshot). tag \<in> set (sn_tags snapshot)) (sm_snapshots sm))"

definition list_snapshots :: "SnapshotManager \<Rightarrow> (Hash \<times> Snapshot) list" where
  "list_snapshots sm = sm_snapshots sm"

section \<open>The hash function\<close>

lemma simple_hash_loop_length [simp]: "length (simple_hash_loop i data h) = length h"
  by (induction i data h rule: simple_hash_loop.induct) simp_all

lemma simple_hash_loop_append:
  "simple_hash_loop i (a @ b) h = simple_hash_loop (i + length a) b (simple_hash_loop i a h)"
  by (induction i a h rule: simple_hash_loop.induct) simp_all

lemma simple_hash_loop_other:
  "(\<And>j. j < length c \<Longrightarrow> (i + j) mod 32 \<noteq> k) \<Longrightarrow> simple_hash_loop i c h ! k = h ! k"
proof (induction i c h rule: simple_hash_loop.induct)
  case (2 i byte data hash)
  have "(Suc i + j) mod 32 \<noteq> k" if "j < length data" for j
    using 2(2) [of "Suc j"] that by simp
  then have "simple_hash_loop (Suc i) data (hash[i mod 32 := hash ! (i mod 32) XOR byte]) ! k
      = hash[i mod 32 := hash ! (i mod 32) XOR byte] ! k"
    by (rule 2(1))
  moreover have "i mod 32 \<noteq> k"
    using 2(2) [of 0] by simp
  ultimately show ?case
    by simp
qed simp

lemma simple_hash_loop_block:
  assumes "length c \<le> 32" "length h = 32" "j < length c"
  shows "simple_hash_loop i c h ! ((i + j) mod 32) = h ! ((i + j) mod 32) XOR c ! j"
  using assms
proof (induction c arbitrary: i h j)
  case (Cons b c)
  let ?h = "h[i mod 32 := h ! (i mod 32) XOR b]"
  show ?case
  proof (cases j)
    case 0
    have "simple_hash_loop (Suc i) c ?h ! (i mod 32) = ?h ! (i mod 32)"
    proof (rule simple_hash_loop_other)
      fix k
      assume "k < length c"
      then show "(Suc i + k) mod 32 \<noteq> i mod 32"
        using ring_index_inj [of "Suc k" 32 0 i] Cons.prems(1) by auto
    qed
    then show ?thesis
      using 0 Cons.prems(2) by simp
  next
    case (Suc j')
    have "(i + j) mod 32 \<noteq> i mod 32"
      using ring_index_inj [of j 32 0 i] Suc Cons.prems(1,3) by auto
    then show ?thesis
      using Cons.IH [of ?h j' "Suc i"] Cons.prems Suc by simp
  qed
qed simp

lemma simple_hash_inj:
  assumes "simple_hash (a @ c) = simple_hash (a @ d)" "length c = 32" "length d = 32"
  shows "c = d"
proof (rule nth_equalityI)
  fix j
  assume j: "j < length c"
  let ?h = "simple_hash_loop 0 a (replicate 32 0)"
  have "?h ! ((length a + j) mod 32) XOR c ! j = ?h ! ((length a + j) mod 32) XOR d ! j"
    using assms j simple_hash_loop_block [of c ?h j "length a"] simple_hash_loop_block [of d ?h j "length a"]
    by (simp add: simple_hash_def simple_hash_loop_append)
  then show "c ! j = d ! j"
    by (metis bit.xor_left_self)
qed (use assms in simp)

lemma hash_file_inj:
  "hash_file c name p = hash_file d name p \<Longrightarrow> length c = 32 \<Longrightarrow> length d = 32 \<Longrightarrow> c = d"
  using simple_hash_inj [of "(case p of Some parent \<Rightarrow> as_bytes parent | None \<Rightarrow> []) @ str_bytes name" c d]
  by (simp add: hash_file_def from_bytes_def as_bytes_def)

section \<open>The cache of nodes\<close>

lemma record_hash_fresh:
  assumes "bt_get (mt_node_cache tree) h = None" "bt_wf (mt_node_cache tree)"
  shows "bt_get (mt_node_cache (record_hash t i h tree)) h =
    Some \<lparr>mn_hash = h, mn_token_id = i, mn_name = tk_path t, mn_parent_hash = None, mn_children = [],
          mn_is_directory = (tk_token_type t = Folder), mn_size = tk_size t\<rparr>"
  using assms by (simp add: record_hash_def bt_get_insert)

lemma record_hash_root: "tk_parent t = None \<Longrightarrow> mt_root_hash (record_hash t i h tree) = Some h"
  by (simp add: record_hash_def Let_def)

lemma verify_node_file:
  assumes "bt_get (mt_node_cache tree) h = Some node" "\<not> mn_is_directory node" "mn_children node = []"
    and "token_lookup (mn_token_id node) reg = Some t"
  shows "verify_node reg h tree = Some (Inr (hash_file (tk_content_hash t) (mn_name node) (mn_parent_hash node) = h))"
  using assms by (simp add: verify_node_def bt_values_def)

text \<open>C23: The root of the tree is tamper-evident.  After \<open>update_hash\<close> of a file without parent whose hash
  is new, \<open>verify_integrity\<close> against any state of the registry answers true exactly when the content hash of
  the token is still the one that was hashed: the folding hash loses nothing of the last 32 bytes.\<close>

theorem merkle_detects_tampering:
  assumes "token_lookup i reg = Some t" "tk_token_type t = File" "tk_parent t = None" "length (tk_content_hash t) = 32"
    and "bt_wf (mt_node_cache tree)" "bt_get (mt_node_cache tree) (hash_file (tk_content_hash t) (tk_path t) None) = None"
    and "token_lookup i reg' = Some t'" "length (tk_content_hash t') = 32"
  shows "\<exists>h tree'. update_hash (Suc n) reg i tree = Some (Inr h, tree') \<and>
    verify_integrity reg' tree' = Some (Inr (tk_content_hash t' = tk_content_hash t))"
proof -
  let ?h = "hash_file (tk_content_hash t) (tk_path t) None"
  let ?tree = "record_hash t i ?h tree"
  have "verify_node reg' ?h ?tree = Some (Inr (hash_file (tk_content_hash t') (tk_path t) None = ?h))"
    using verify_node_file [OF record_hash_fresh [OF assms(6,5)]] assms(2,7) by simp
  then have "verify_integrity reg' ?tree = Some (Inr (tk_content_hash t' = tk_content_hash t))"
    using hash_file_inj [of "tk_content_hash t'" "tk_path t" None "tk_content_hash t"] assms(4,8)
    by (auto simp: verify_integrity_def record_hash_root [OF assms(3)])
  then show ?thesis
    using assms(1,2) by (simp add: Let_def)
qed

section \<open>Termination of the recursion over children\<close>

lemma get_children_hashes_total:
  assumes "\<And>c tree. c \<in> set ids \<Longrightarrow> update_hash n reg c tree \<noteq> None"
  shows "get_children_hashes n reg ids acc tree \<noteq> None"
  using assms
proof (induction ids arbitrary: acc tree)
  case (Cons c ids)
  have "get_hash_for_token n reg c tree \<noteq> None"
    using Cons.prems [of c tree] by (simp split: option.split)
  moreover have "get_children_hashes n reg ids acc' tree' \<noteq> None" for acc' tree'
    using Cons.IH Cons.prems by simp
  ultimately show ?case
    by (auto split: option.splits sum.splits simp del: get_hash_for_token.simps)
qed simp

text \<open>\<open>update_hash\<close> returns on every registry whose folders form a forest, that is, where some ranking of
  the token identifiers decreases from a folder to its children; the rank of the token bounds the depth.\<close>

theorem update_hash_terminates:
  assumes "\<And>i t c. token_lookup i reg = Some t \<Longrightarrow> c \<in> set (tk_children t) \<Longrightarrow> rank c < (rank i :: nat)"
    and "rank i < n"
  shows "\<exists>r tree'. update_hash n reg i tree = Some (r, tree')"
proof -
  have "update_hash n reg i tree \<noteq> None"
    using assms(2)
  proof (induction n arbitrary: i tree)
    case (Suc n)
    have "get_children_hashes n reg (tk_children t) [] tree \<noteq> None" if t: "token_lookup i reg = Some t" for t
    proof (rule get_children_hashes_total)
      fix c tree'
      assume "c \<in> set (tk_children t)"
      then show "update_hash n reg c tree' \<noteq> None"
        using Suc.IH [of c tree'] assms(1) [OF t] Suc.prems by fastforce
    qed
    then show ?case
      by (auto simp: Let_def split: option.splits sum.splits)
  qed simp
  then show ?thesis
    by auto
qed

text \<open>A folder with one file, used by the witnesses below.\<close>

definition example_registry :: Registry where
  "example_registry = fold token_register
     [token_new_file 1 ''/d/a'' hash_zero 5 0 PERM_READ, (token_new_folder 2 ''/d'' 0 PERM_READ)\<lparr>tk_children := [1]\<rparr>] []"

lemma example_registry_lookup:
  "token_lookup i example_registry =
     (if i = 1 then Some (token_new_file 1 ''/d/a'' hash_zero 5 0 PERM_READ)
      else if i = 2 then Some ((token_new_folder 2 ''/d'' 0 PERM_READ)\<lparr>tk_children := [1]\<rparr>) else None)"
  unfolding example_registry_def token_lookup_def
  by (subst register_all_get) (auto simp: token_new_file_def token_new_folder_def)

theorem update_hash_terminates_witness: "\<exists>r tree'. update_hash 2 example_registry 2 merkle_new = Some (r, tree')"
  by (rule update_hash_terminates [where rank = "\<lambda>i. if i = 2 then 1 else 0"])
    (auto simp: example_registry_lookup token_new_file_def token_new_folder_def split: if_splits)

theorem merkle_detects_tampering_witness:
  "\<exists>h tree'. update_hash (Suc 0) example_registry 1 merkle_new = Some (Inr h, tree') \<and>
     verify_integrity [(1, token_new_file 1 ''/d/a'' (replicate 32 7) 5 0 PERM_READ)] tree' = Some (Inr False)"
proof -
  let ?t = "token_new_file 1 ''/d/a'' hash_zero 5 0 PERM_READ"
  let ?t' = "token_new_file 1 ''/d/a'' (replicate 32 7) 5 0 PERM_READ"
  have "\<exists>h tree'. update_hash (Suc 0) example_registry 1 merkle_new = Some (Inr h, tree') \<and>
      verify_integrity [(1, ?t')] tree' = Some (Inr (tk_content_hash ?t' = tk_content_hash ?t))"
    by (rule merkle_detects_tampering)
      (simp_all add: example_registry_lookup, simp_all add: token_new_file_def merkle_new_def hash_zero_def token_lookup_def bt_get_def)
  moreover have "tk_content_hash ?t' \<noteq> tk_content_hash ?t"
    by (simp add: token_new_file_def hash_zero_def)
  ultimately show ?thesis
    by (simp del: update_hash.simps)
qed

text \<open>The manager takes snapshots of a tree of its own, which no operation fills: it never has a snapshot.\<close>

lemma snapshot_manager_stays_empty:
  "take_snapshot ticks message snapshots_new = (None, snapshots_new)"
  "tag_snapshot h tag snapshots_new = (False, snapshots_new)"
  by (simp_all add: take_snapshot_def tag_snapshot_def snapshots_new_def merkle_root_hash_def merkle_new_def)

end
