(* ===== verification/FileOps.thy ===== *)
theory FileOps
  imports Merkle
begin

text \<open>
  \<open>kernel/src/fs/file_ops.rs\<close>: the operations on files, composed from the content store, the tokens, the path
  cache and the Merkle tree.  The registry of tokens is a static of the kernel and is threaded beside the
  record.  The timer ticks and the random identifier of a new token are arguments.  \<open>None\<close> is a call that
  does not return: the \<open>unwrap\<close> of a parent without token, or a recursion deeper than the fuel \<open>n\<close>.
\<close>

section \<open>Operations\<close>

record FileSystem =
  fs_cas :: ContentAddressableStorage
  fs_path_cache :: PathCache
  fs_merkle_tree :: MerkleTree

datatype FileError = NotFound | PermissionDenied | Corrupted | OutOfSpace | AlreadyExists | InvalidPath

definition fs_new :: FileSystem where
  "fs_new = \<lparr>fs_cas = cas_new, fs_path_cache = pc_new, fs_merkle_tree = merkle_new\<rparr>"

text \<open>\<open>let _ = self.merkle_tree.update_hash(token)\<close>.\<close>

definition rehash :: "nat \<Rightarrow> TokenId \<Rightarrow> FileSystem \<times> Registry \<Rightarrow> (FileSystem \<times> Registry) option" where
  "rehash n token_id = (\<lambda>(fs, reg).
     case update_hash n reg token_id (fs_merkle_tree fs) of
       None \<Rightarrow> None
     | Some (_, tree) \<Rightarrow> Some (fs\<lparr>fs_merkle_tree := tree\<rparr>, reg))"

text \<open>The block that the operations repeat: when the parent of a path is known, its token is changed,
  registered again and hashed.\<close>

definition update_parent ::
  "nat \<Rightarrow> (Token \<Rightarrow> Token) \<Rightarrow> string \<Rightarrow> FileSystem \<times> Registry \<Rightarrow> (FileSystem \<times> Registry) option" where
  "update_parent n change path = (\<lambda>(fs, reg).
     case path_parent path of
       None \<Rightarrow> Some (fs, reg)
     | Some parent_path \<Rightarrow>
         (case pc_resolve parent_path (fs_path_cache fs) of
            (None, pc) \<Rightarrow> Some (fs\<lparr>fs_path_cache := pc\<rparr>, reg)
          | (Some parent_token, pc) \<Rightarrow>
              (case token_lookup parent_token reg of
                 None \<Rightarrow> None
               | Some parent \<Rightarrow> rehash n parent_token (fs\<lparr>fs_path_cache := pc\<rparr>, token_register (change parent) reg))))"

definition add_child :: "TokenId \<Rightarrow> Token \<Rightarrow> Token" where
  "add_child token_id parent = parent\<lparr>tk_children := tk_children parent @ [token_id]\<rparr>"

definition retain_others :: "TokenId \<Rightarrow> Token \<Rightarrow> Token" where
  "retain_others token_id parent = parent\<lparr>tk_children := filter (\<lambda>i. i \<noteq> token_id) (tk_children parent)\<rparr>"

definition save_file ::
  "nat \<Rightarrow> u64 \<Rightarrow> TokenId \<Rightarrow> string \<Rightarrow> u8 list \<Rightarrow> u64 \<Rightarrow> Permissions \<Rightarrow> FileSystem \<times> Registry \<Rightarrow>
   ((FileError + TokenId) \<times> FileSystem \<times> Registry) option" where
  "save_file n ticks rid path data owner permissions = (\<lambda>(fs, reg).
     case cas_put ticks data (fs_cas fs) of
       (Inl _, c) \<Rightarrow> Some (Inl OutOfSpace, fs\<lparr>fs_cas := c\<rparr>, reg)
     | (Inr content_hash, c) \<Rightarrow>
         let token = token_new_file rid path content_hash owner (data_len data) permissions;
             token_id = tk_id token;
             reg = token_register token reg;
             fs = fs\<lparr>fs_cas := c, fs_path_cache := pc_insert path token_id (fs_path_cache fs)\<rparr>
         in case update_parent n (\<lambda>parent. (add_child token_id parent)\<lparr>tk_modified := 0\<rparr>) path (fs, reg) of
              None \<Rightarrow> None
            | Some w \<Rightarrow> map_option (Pair (Inr token_id)) (rehash n token_id w))"

text \<open>The first lines of the other operations: the token of a path, if the user has a permission on it.\<close>

definition access ::
  "u64 \<Rightarrow> string \<Rightarrow> Permissions \<Rightarrow> u64 \<Rightarrow> FileSystem \<times> Registry \<Rightarrow> ((FileError + TokenId \<times> Token) \<times> FileSystem) option" where
  "access ticks path required user_id = (\<lambda>(fs, reg).
     case pc_resolve path (fs_path_cache fs) of
       (None, pc) \<Rightarrow> Some (Inl NotFound, fs\<lparr>fs_path_cache := pc\<rparr>)
     | (Some token_id, pc) \<Rightarrow>
         let fs = fs\<lparr>fs_path_cache := pc\<rparr>
         in case token_lookup token_id reg of
              None \<Rightarrow> Some (Inl NotFound, fs)
            | Some token \<Rightarrow>
                (case check_permission ticks reg token required user_id of
                   None \<Rightarrow> None
                 | Some allowed \<Rightarrow> Some (if allowed then Inr (token_id, token) else Inl PermissionDenied, fs)))"

definition read_file ::
  "u64 \<Rightarrow> string \<Rightarrow> u64 \<Rightarrow> FileSystem \<times> Registry \<Rightarrow> ((FileError + u8 list) \<times> FileSystem \<times> Registry) option" where
  "read_file ticks path user_id = (\<lambda>(fs, reg).
     case access ticks path PERM_READ user_id (fs, reg) of
       None \<Rightarrow> None
     | Some (Inl e, fs) \<Rightarrow> Some (Inl e, fs, reg)
     | Some (Inr (token_id, token), fs) \<Rightarrow>
         (case cas_get ticks (tk_content_hash token) (fs_cas fs) of
            (None, c) \<Rightarrow> Some (Inl Corrupted, fs\<lparr>fs_cas := c\<rparr>, reg)
          | (Some data, c) \<Rightarrow> Some (Inr data, fs\<lparr>fs_cas := c\<rparr>, reg)))"

definition move_file ::
  "nat \<Rightarrow> u64 \<Rightarrow> string \<Rightarrow> string \<Rightarrow> u64 \<Rightarrow> FileSystem \<times> Registry \<Rightarrow> ((FileError + unit) \<times> FileSystem \<times> Registry) option" where
  "move_file n ticks old_path new_path user_id = (\<lambda>(fs, reg).
     case access ticks old_path PERM_WRITE user_id (fs, reg) of
       None \<Rightarrow> None
     | Some (Inl e, fs) \<Rightarrow> Some (Inl e, fs, reg)
     | Some (Inr (token_id, token), fs) \<Rightarrow>
         let fs = fs\<lparr>fs_path_cache := snd (update_path old_path new_path (fs_path_cache fs))\<rparr>;
             reg = token_register (token\<lparr>tk_path := new_path, tk_modified := 0\<rparr>) reg
         in case update_parent n (retain_others token_id) old_path (fs, reg) of
              None \<Rightarrow> None
            | Some w \<Rightarrow>
                (case update_parent n (add_child token_id) new_path w of
                   None \<Rightarrow> None
                 | Some w \<Rightarrow> map_option (Pair (Inr ())) (rehash n token_id w)))"

definition copy_file ::
  "nat \<Rightarrow> u64 \<Rightarrow> TokenId \<Rightarrow> string \<Rightarrow> string \<Rightarrow> u64 \<Rightarrow> FileSystem \<times> Registry \<Rightarrow>
   ((FileError + TokenId) \<times> FileSystem \<times> Registry) option" where
  "copy_file n ticks rid src_path dst_path user_id = (\<lambda>(fs, reg).
     case access ticks src_path PERM_READ user_id (fs, reg) of
       None \<Rightarrow> None
     | Some (Inl e, fs) \<Rightarrow> Some (Inl e, fs, reg)
     | Some (Inr (_, src_token), fs) \<Rightarrow>
         let new_token = token_new_file rid dst_path (tk_content_hash src_token) user_id (tk_size src_token) (tk_permissions src_token);
             new_token_id = tk_id new_token;
             reg = token_register new_token reg;
             fs = fs\<lparr>fs_cas := snd (ref_inc (tk_content_hash src_token) (fs_cas fs)),
                     fs_path_cache := pc_insert dst_path new_token_id (fs_path_cache fs)\<rparr>
         in map_option (Pair (Inr new_token_id)) (update_parent n (add_child new_token_id) dst_path (fs, reg)))"

definition delete_file ::
  "nat \<Rightarrow> u64 \<Rightarrow> string \<Rightarrow> u64 \<Rightarrow> FileSystem \<times> Registry \<Rightarrow> ((FileError + unit) \<times> FileSystem \<times> Registry) option" where
  "delete_file n ticks path user_id = (\<lambda>(fs, reg).
     case access ticks path PERM_DELETE user_id (fs, reg) of
       None \<Rightarrow> None
     | Some (Inl e, fs) \<Rightarrow> Some (Inl e, fs, reg)
     | Some (Inr (token_id, token), fs) \<Rightarrow>
         let fs = fs\<lparr>fs_cas := snd (ref_dec (tk_content_hash token) (fs_cas fs))\<rparr>
         in case update_parent n (retain_others token_id) path (fs, reg) of
              None \<Rightarrow> None
            | Some (fs, reg) \<Rightarrow>
                Some (Inr (), fs\<lparr>fs_path_cache := snd (pc_remove path (fs_path_cache fs))\<rparr>, snd (token_revoke token_id reg)))"

section \<open>The abstract state\<close>

text \<open>The content hash, owner and permissions of each token; the hash of each path; how many paths have it.\<close>

definition contents :: "Registry \<Rightarrow> TokenId \<rightharpoonup> Hash" where
  "contents reg i = map_option tk_content_hash (token_lookup i reg)"

definition grants :: "Registry \<Rightarrow> TokenId \<rightharpoonup> u64 \<times> Permissions" where
  "grants reg i = map_option (\<lambda>t. (tk_owner t, tk_permissions t)) (token_lookup i reg)"

definition live :: "FileSystem \<times> Registry \<Rightarrow> string \<rightharpoonup> Hash" where
  "live = (\<lambda>(fs, reg). contents reg \<circ>\<^sub>m pc_lookup (fs_path_cache fs))"

definition links :: "(string \<rightharpoonup> Hash) \<Rightarrow> Hash \<Rightarrow> nat" where
  "links m h = card {p. m p = Some h}"

lemma links_update:
  assumes "finite (dom m)"
  shows "links (m(p \<mapsto> h)) h' \<le> links m h' + (if h' = h then 1 else 0)"
proof -
  have "{q. (m(p \<mapsto> h)) q = Some h'} \<subseteq> (if h' = h then insert p {q. m q = Some h'} else {q. m q = Some h'})"
    by auto
  moreover have fin: "finite {q. m q = Some h'}"
    by (rule finite_subset [OF _ assms]) auto
  ultimately have "links (m(p \<mapsto> h)) h' \<le> card (if h' = h then insert p {q. m q = Some h'} else {q. m q = Some h'})"
    unfolding links_def by (intro card_mono) auto
  also have "\<dots> \<le> links m h' + (if h' = h then 1 else 0)"
    using fin by (auto simp: links_def card_insert_if)
  finally show ?thesis .
qed

lemma links_delete:
  assumes "finite (dom m)"
  shows "links (m(p := None)) h = links m h - (if m p = Some h then 1 else 0)"
proof -
  have "finite {q. m q = Some h}"
    by (rule finite_subset [OF _ assms]) auto
  moreover have "{q. (m(p := None)) q = Some h} = {q. m q = Some h} - {p}"
    by auto
  ultimately show ?thesis
    by (simp add: links_def card_Diff_singleton_if)
qed

section \<open>The invariant\<close>

text \<open>Every token is registered under its own identifier and is a file; every cached path leads to a
  registered token, and no two paths to the same one; and the store counts at least the paths that have a
  hash, without wrapping around.\<close>

definition registry_ok :: "Registry \<Rightarrow> bool" where
  "registry_ok reg \<longleftrightarrow> bt_wf reg \<and>
     (\<forall>i t. token_lookup i reg = Some t \<longrightarrow> tk_id t = i \<and> tk_token_type t = File \<and> tk_expires t = None)"

definition names_ok :: "(string \<rightharpoonup> TokenId) \<Rightarrow> (TokenId \<rightharpoonup> Hash) \<Rightarrow> bool" where
  "names_ok pm cs \<longleftrightarrow> (\<forall>p i. pm p = Some i \<longrightarrow> cs i \<noteq> None) \<and> (\<forall>p q i. pm p = Some i \<longrightarrow> pm q = Some i \<longrightarrow> p = q)"

definition refs :: "ContentAddressableStorage \<Rightarrow> Hash \<Rightarrow> nat" where
  "refs c h = unat (ref_count h c)"

definition counted :: "nat \<Rightarrow> (string \<rightharpoonup> Hash) \<Rightarrow> ContentAddressableStorage \<Rightarrow> bool" where
  "counted k m c \<longleftrightarrow> finite (dom m) \<and> (\<forall>h. links m h \<le> refs c h \<and> refs c h \<le> k)
     \<and> (\<forall>h obj. bt_get (cas_objects c) h = Some obj \<longrightarrow> so_ref_count obj \<noteq> 0)"

definition fs_inv :: "nat \<Rightarrow> FileSystem \<times> Registry \<Rightarrow> bool" where
  "fs_inv k = (\<lambda>(fs, reg). pc_wf (fs_path_cache fs) \<and> cas_wf (fs_cas fs) \<and> registry_ok reg
     \<and> names_ok (pc_lookup (fs_path_cache fs)) (contents reg) \<and> counted k (live (fs, reg)) (fs_cas fs))"

text \<open>Two states that the invariant does not tell apart.\<close>

definition same_files :: "FileSystem \<times> Registry \<Rightarrow> FileSystem \<times> Registry \<Rightarrow> bool" where
  "same_files = (\<lambda>(fs, reg) (fs', reg'). fs_cas fs' = fs_cas fs
     \<and> pc_lookup (fs_path_cache fs') = pc_lookup (fs_path_cache fs) \<and> pc_wf (fs_path_cache fs') = pc_wf (fs_path_cache fs)
     \<and> contents reg' = contents reg \<and> grants reg' = grants reg \<and> registry_ok reg')"

lemma fs_inv_same: "fs_inv k w \<Longrightarrow> same_files w w' \<Longrightarrow> fs_inv k w'"
  by (cases w; cases w') (simp add: fs_inv_def same_files_def live_def)

lemma live_same: "same_files w w' \<Longrightarrow> live w' = live w"
  by (cases w; cases w') (simp add: same_files_def live_def)

lemma same_files_trans: "same_files w w' \<Longrightarrow> same_files w' w'' \<Longrightarrow> same_files w w''"
  by (cases w; cases w'; cases w'') (simp add: same_files_def)

text \<open>Hashing needs one unit of fuel, because there are only files.\<close>

lemma rehash_ok:
  assumes "registry_ok reg"
  shows "\<exists>w. rehash (Suc n) i (fs, reg) = Some w \<and> same_files (fs, reg) w"
  using assms by (auto simp: rehash_def same_files_def Let_def registry_ok_def split: option.split)

lemma register_ok:
  assumes "registry_ok reg" "tk_token_type t = File" "tk_expires t = None"
  shows "registry_ok (token_register t reg)" "contents (token_register t reg) = (contents reg)(tk_id t \<mapsto> tk_content_hash t)"
    "grants (token_register t reg) = (grants reg)(tk_id t \<mapsto> (tk_owner t, tk_permissions t))"
  using assms by (auto simp: registry_ok_def token_register_def token_lookup_def contents_def grants_def bt_insert_wf bt_get_insert
      fun_eq_iff split: if_splits)

definition keeps_file :: "(Token \<Rightarrow> Token) \<Rightarrow> bool" where
  "keeps_file f \<longleftrightarrow> (\<forall>t. tk_id (f t) = tk_id t \<and> tk_token_type (f t) = tk_token_type t \<and> tk_expires (f t) = tk_expires t
     \<and> tk_content_hash (f t) = tk_content_hash t \<and> tk_owner (f t) = tk_owner t \<and> tk_permissions (f t) = tk_permissions t)"

lemma keeps_file_changes [simp]:
  "keeps_file (add_child i)" "keeps_file (retain_others i)" "keeps_file (\<lambda>t. (add_child i t)\<lparr>tk_modified := m\<rparr>)"
  by (simp_all add: keeps_file_def add_child_def retain_others_def)

lemma pc_resolve_obtain:
  obtains pc' where "pc_resolve path pc = (pc_lookup pc path, pc')" "pc_lookup pc' = pc_lookup pc" "pc_wf pc' = pc_wf pc"
  by (cases "pc_lookup pc path") (auto simp: pc_resolve_def pc_wf_def)

lemma names_ok_token:
  assumes "names_ok pm (contents reg)" "pm p = Some i"
  obtains t where "token_lookup i reg = Some t" "(contents reg \<circ>\<^sub>m pm) p = Some (tk_content_hash t)"
  using assms that by (fastforce simp: names_ok_def contents_def map_comp_def)

lemma update_parent_ok:
  assumes "registry_ok reg" "names_ok (pc_lookup (fs_path_cache fs)) (contents reg)" "keeps_file f"
  shows "\<exists>w. update_parent (Suc n) f path (fs, reg) = Some w \<and> same_files (fs, reg) w"
proof (cases "path_parent path")
  case None
  then show ?thesis
    using assms(1) by (simp add: update_parent_def same_files_def)
next
  case (Some pp)
  obtain pc where pc: "pc_resolve pp (fs_path_cache fs) = (pc_lookup (fs_path_cache fs) pp, pc)"
      "pc_lookup pc = pc_lookup (fs_path_cache fs)" "pc_wf pc = pc_wf (fs_path_cache fs)"
    by (rule pc_resolve_obtain)
  show ?thesis
  proof (cases "pc_lookup (fs_path_cache fs) pp")
    case None
    then show ?thesis
      using assms(1) pc Some by (simp add: update_parent_def same_files_def)
  next
    case (Some i)
    then obtain t where t: "token_lookup i reg = Some t"
      by (rule names_ok_token [OF assms(2)])
    have ft: "tk_token_type (f t) = File" "tk_expires (f t) = None" "tk_id (f t) = i" "tk_content_hash (f t) = tk_content_hash t"
        "tk_owner (f t) = tk_owner t" "tk_permissions (f t) = tk_permissions t"
      using assms(1,3) t by (auto simp: registry_ok_def keeps_file_def)
    let ?w = "(fs\<lparr>fs_path_cache := pc\<rparr>, token_register (f t) reg)"
    have "registry_ok (token_register (f t) reg)" "contents (token_register (f t) reg) = contents reg"
        "grants (token_register (f t) reg) = grants reg"
      using register_ok [OF assms(1) ft(1,2)] t by (auto simp: ft contents_def grants_def)
    then have "same_files (fs, reg) ?w"
      using pc by (simp add: same_files_def)
    moreover obtain w where "rehash (Suc n) i ?w = Some w" "same_files ?w w"
      using rehash_ok [OF \<open>registry_ok (token_register (f t) reg)\<close>] by blast
    ultimately show ?thesis
      using \<open>path_parent path = Some pp\<close> pc(1) Some t same_files_trans [of "(fs, reg)" ?w w]
      by (simp add: update_parent_def del: split_paired_Ex)
  qed
qed

section \<open>Paths and tokens under the operations\<close>

lemma names_ok_add:
  assumes "names_ok pm cs" "cs i = None"
  shows "names_ok (pm(p \<mapsto> i)) (cs(i \<mapsto> h))" "cs(i \<mapsto> h) \<circ>\<^sub>m pm(p \<mapsto> i) = (cs \<circ>\<^sub>m pm)(p \<mapsto> h)"
proof -
  have "pm q \<noteq> Some i" for q
    using assms by (metis names_ok_def)
  then show "names_ok (pm(p \<mapsto> i)) (cs(i \<mapsto> h))" "cs(i \<mapsto> h) \<circ>\<^sub>m pm(p \<mapsto> i) = (cs \<circ>\<^sub>m pm)(p \<mapsto> h)"
    using assms(1) by (auto simp: names_ok_def map_comp_def fun_eq_iff split: option.split)
qed

lemma names_ok_move:
  assumes "names_ok pm cs" "pm p = Some i" "cs i = Some h"
  shows "names_ok ((pm(p := None))(q \<mapsto> i)) cs" "cs \<circ>\<^sub>m (pm(p := None))(q \<mapsto> i) = ((cs \<circ>\<^sub>m pm)(p := None))(q \<mapsto> h)"
  using assms by (auto simp: names_ok_def map_comp_def fun_eq_iff split: option.split)

lemma names_ok_delete:
  assumes "names_ok pm cs" "pm p = Some i"
  shows "names_ok (pm(p := None)) (cs(i := None))" "cs(i := None) \<circ>\<^sub>m pm(p := None) = (cs \<circ>\<^sub>m pm)(p := None)"
proof -
  have "pm q \<noteq> Some i" if "q \<noteq> p" for q
    using assms that by (auto simp: names_ok_def)
  then show "names_ok (pm(p := None)) (cs(i := None))" "cs(i := None) \<circ>\<^sub>m pm(p := None) = (cs \<circ>\<^sub>m pm)(p := None)"
    using assms(1) by (auto simp: names_ok_def map_comp_def fun_eq_iff split: option.split)
qed

section \<open>Reference counts under the operations\<close>

definition positive :: "ContentAddressableStorage \<Rightarrow> bool" where
  "positive c \<longleftrightarrow> (\<forall>h obj. bt_get (cas_objects c) h = Some obj \<longrightarrow> so_ref_count obj \<noteq> 0)"

lemma counted_links: "counted k m c \<Longrightarrow> links m h \<le> refs c h" "counted k m c \<Longrightarrow> refs c h \<le> k"
  by (simp_all add: counted_def)

lemma counted_finite: "counted k m c \<Longrightarrow> finite (dom m)"
  by (simp add: counted_def)

lemma counted_add:
  assumes "counted k m c" "refs c' = (refs c)(h := Suc (refs c h))" "positive c'"
  shows "counted (Suc k) (m(p \<mapsto> h)) c'"
proof -
  have "links (m(p \<mapsto> h)) h' \<le> refs c' h' \<and> refs c' h' \<le> Suc k" for h'
    using counted_links [OF assms(1), of h'] links_update [OF counted_finite [OF assms(1)], of p h h']
    by (cases "h' = h") (simp_all add: assms(2))
  then show ?thesis
    using assms(1,3) by (simp add: counted_def positive_def)
qed

lemma counted_delete:
  assumes "counted k m c" "m p = Some h" "refs c' = (refs c)(h := refs c h - 1)" "positive c'"
  shows "counted k (m(p := None)) c'"
proof -
  have "links (m(p := None)) h' \<le> refs c' h' \<and> refs c' h' \<le> k" for h'
    using counted_links [OF assms(1), of h'] links_delete [OF counted_finite [OF assms(1)], of p h'] assms(2)
    by (cases "h' = h") (auto simp: assms(3))
  then show ?thesis
    using assms(1,4) by (simp add: counted_def positive_def)
qed

lemma counted_move:
  assumes "counted k m c" "m p = Some h"
  shows "counted k ((m(p := None))(q \<mapsto> h)) c"
proof -
  have fin: "finite (dom m)"
    by (rule counted_finite [OF assms(1)])
  have "{x. m x = Some h} \<noteq> {}" "finite {x. m x = Some h}"
    using assms(2) finite_subset [OF _ fin, of "{x. m x = Some h}"] by auto
  then have "0 < links m h"
    by (simp add: links_def card_gt_0_iff)
  then have "links ((m(p := None))(q \<mapsto> h)) h' \<le> links m h'" for h'
    using links_update [of "m(p := None)" q h h'] links_delete [OF fin, of p h'] fin assms(2) by (auto split: if_splits)
  then show ?thesis
    using assms(1) by (auto simp: counted_def intro: order_trans)
qed

lemma counted_mono: "counted k m c \<Longrightarrow> k \<le> k' \<Longrightarrow> counted k' m c"
  by (auto simp: counted_def intro: order_trans)

lemma counted_positive: "counted k m c \<Longrightarrow> positive c"
  by (simp add: counted_def positive_def)

lemma counted_stored:
  assumes "counted k m c" "m p = Some h"
  obtains obj where "bt_get (cas_objects c) h = Some obj" "0 < refs c h"
proof -
  have fin: "finite {x. m x = Some h}"
    by (rule finite_subset [of _ "dom m"]) (use assms(1) in \<open>auto simp: counted_def\<close>)
  then have "0 < links m h"
    using assms(2) by (auto simp: links_def card_gt_0_iff)
  then have "0 < refs c h"
    using assms(1) by (auto simp: counted_def intro: less_le_trans)
  then show thesis
    using that by (auto simp: refs_def ref_count_def split: option.splits)
qed

text \<open>With positive counts the garbage collector finds nothing to remove.\<close>

lemma garbage_collect_positive:
  assumes "positive c" "bt_wf (cas_objects c)"
  shows "garbage_collect ticks needed c = c"
proof -
  have "so_ref_count obj \<noteq> 0" if "(h, obj) \<in> set (cas_objects c)" for h obj
    using assms that bt_wf_distinct [OF assms(2)] by (auto simp: positive_def bt_get_def)
  then have "filter (\<lambda>(_, obj). so_ref_count obj = 0 \<and> so_last_accessed obj < current_time ticks - 30 * 24 * 60 * 60)
      (cas_objects c) = []"
    by (auto simp: filter_empty_conv)
  then show ?thesis
    by (simp add: garbage_collect_def)
qed

lemma refs_insert:
  assumes "cas_wf c" "cas_objects c' = bt_insert h obj (cas_objects c)"
  shows "refs c' = (refs c)(h := unat (so_ref_count obj))" "positive c \<Longrightarrow> so_ref_count obj \<noteq> 0 \<Longrightarrow> positive c'"
  using assms by (auto simp: refs_def ref_count_def positive_def cas_wf_def bt_get_insert fun_eq_iff split: if_splits)

lemma refs_remove:
  assumes "cas_objects c' = bt_remove h (cas_objects c)"
  shows "refs c' = (refs c)(h := 0)" "positive c \<Longrightarrow> positive c'"
  using assms by (auto simp: refs_def ref_count_def positive_def bt_get_remove fun_eq_iff split: if_splits)

lemma refs_get: "bt_get (cas_objects c) h = Some obj \<Longrightarrow> refs c h = unat (so_ref_count obj)"
  by (simp add: refs_def ref_count_def)

lemma unat_Suc_small: "unat (w :: u64) < 2 ^ 64 - 1 \<Longrightarrow> unat (w + 1) = Suc (unat w)"
  by (simp add: unat_word_ariths)

definition stored_data :: "u8 list \<Rightarrow> ContentAddressableStorage \<Rightarrow> u8 list" where
  "stored_data data c = (case bt_get (cas_objects c) (of_data data) of None \<Rightarrow> data | Some obj \<Rightarrow> so_data obj)"

lemma cas_put_counts:
  assumes "cas_wf c" "positive c" "refs c (of_data data) < 2 ^ 64 - 1"
  obtains (full) "cas_put ticks data c = (Inl Storage.OutOfSpace, c)"
  | (put) c' obj where "cas_put ticks data c = (Inr (of_data data), c')" "positive c'"
      "refs c' = (refs c)(of_data data := Suc (refs c (of_data data)))"
      "bt_get (cas_objects c') (of_data data) = Some obj" "so_data obj = stored_data data c"
proof (cases "bt_get (cas_objects c) (of_data data)")
  case None
  have wf: "bt_wf (cas_objects c)"
    using assms(1) by (simp add: cas_wf_def)
  let ?obj = "\<lparr>so_data = data, so_ref_count = 1, so_created = current_time ticks, so_last_accessed = current_time ticks\<rparr>"
  let ?c = "c\<lparr>cas_total_bytes := cas_total_bytes c + data_len data, cas_objects := bt_insert (of_data data) ?obj (cas_objects c)\<rparr>"
  have "cas_put ticks data c = (if cas_max_bytes c > 0 \<and> cas_total_bytes c + data_len data > cas_max_bytes c
      then (Inl Storage.OutOfSpace, c) else (Inr (of_data data), ?c))"
    using None by (simp add: cas_put_def Let_def garbage_collect_positive [OF assms(2) wf])
  moreover have "refs c (of_data data) = 0"
    using None by (simp add: refs_def ref_count_def)
  ultimately show thesis
    using full put [of ?c ?obj] refs_insert [OF assms(1), of ?c "of_data data" ?obj] None assms(2) wf
    by (auto simp: bt_get_insert stored_data_def split: if_splits)
next
  case (Some obj)
  let ?obj = "obj\<lparr>so_ref_count := so_ref_count obj + 1\<rparr>"
  let ?c = "c\<lparr>cas_objects := bt_insert (of_data data) ?obj (cas_objects c)\<rparr>"
  have suc: "unat (so_ref_count obj + 1) = Suc (refs c (of_data data))"
    using assms(3) unat_Suc_small by (simp add: refs_get [OF Some])
  then have "so_ref_count obj + 1 \<noteq> 0"
    by auto
  then show thesis
    using put [of ?c ?obj] refs_insert [OF assms(1), of ?c "of_data data" ?obj] Some assms(1,2) suc
    by (simp add: cas_put_def Let_def bt_get_insert stored_data_def cas_wf_def)
qed

lemma ref_inc_counts:
  assumes "cas_wf c" "positive c" "refs c h < 2 ^ 64 - 1" "bt_get (cas_objects c) h = Some obj"
  shows "refs (snd (ref_inc h c)) = (refs c)(h := Suc (refs c h))" "positive (snd (ref_inc h c))"
proof -
  let ?obj = "obj\<lparr>so_ref_count := so_ref_count obj + 1\<rparr>"
  have suc: "unat (so_ref_count obj + 1) = Suc (refs c h)"
    using assms(3) unat_Suc_small by (simp add: refs_get [OF assms(4)])
  then have "so_ref_count obj + 1 \<noteq> 0"
    by auto
  then show "refs (snd (ref_inc h c)) = (refs c)(h := Suc (refs c h))" "positive (snd (ref_inc h c))"
    using refs_insert [OF assms(1), of "snd (ref_inc h c)" h ?obj] assms(2,4) suc by (simp_all add: ref_inc_def)
qed

lemma ref_dec_counts:
  assumes "cas_wf c" "positive c" "bt_get (cas_objects c) h = Some obj"
  shows "refs (snd (ref_dec h c)) = (refs c)(h := refs c h - 1)" "positive (snd (ref_dec h c))"
proof -
  have nz: "so_ref_count obj \<noteq> 0"
    using assms(2,3) by (simp add: positive_def)
  then have pred: "unat (so_ref_count obj - 1) = refs c h - 1"
    by (simp add: refs_get [OF assms(3)] unat_minus_one)
  have zero: "so_ref_count obj - 1 = 0 \<longleftrightarrow> refs c h - 1 = 0"
    unfolding pred [symmetric] by (simp add: unat_eq_0)
  show "refs (snd (ref_dec h c)) = (refs c)(h := refs c h - 1)" "positive (snd (ref_dec h c))"
    using refs_insert [OF assms(1), of "snd (ref_dec h c)" h "obj\<lparr>so_ref_count := so_ref_count obj - 1\<rparr>"]
      refs_remove [of "snd (ref_dec h c)" h c] assms(2,3) pred zero
    by (cases "so_ref_count obj - 1 = 0"; simp add: ref_dec_def Let_def)+
qed

lemma cas_get_counts:
  assumes "cas_wf c" "positive c"
  shows "refs (snd (cas_get ticks h c)) = refs c" "positive (snd (cas_get ticks h c))"
proof -
  have "refs (snd (cas_get ticks h c)) = refs c \<and> positive (snd (cas_get ticks h c))"
  proof (cases "bt_get (cas_objects c) h")
    case (Some obj)
    then show ?thesis
      using refs_insert [OF assms(1), of "snd (cas_get ticks h c)" h "obj\<lparr>so_last_accessed := current_time ticks\<rparr>"] assms(2)
      by (auto simp: cas_get_def refs_get positive_def)
  qed (simp add: cas_get_def assms)
  then show "refs (snd (cas_get ticks h c)) = refs c" "positive (snd (cas_get ticks h c))"
    by simp_all
qed

section \<open>Every operation keeps the invariant\<close>

lemma check_permission_file:
  "tk_token_type t = File \<Longrightarrow> tk_expires t = None \<Longrightarrow>
   check_permission ticks reg t required user = Some (tk_owner t = user \<and> perm_has (tk_permissions t) required)"
  by (subst check_permission.simps) (simp add: is_expired_def)

lemma access_cases:
  assumes "fs_inv k (fs, reg)"
  obtains (missing) fs' where "access ticks path required user (fs, reg) = Some (Inl NotFound, fs')"
      "same_files (fs, reg) (fs', reg)" "pc_lookup (fs_path_cache fs) path = None"
  | (found) fs' i t where "access ticks path required user (fs, reg) =
        Some (if tk_owner t = user \<and> perm_has (tk_permissions t) required then Inr (i, t) else Inl PermissionDenied, fs')"
      "same_files (fs, reg) (fs', reg)" "pc_lookup (fs_path_cache fs) path = Some i" "token_lookup i reg = Some t"
proof -
  obtain pc where pc: "pc_resolve path (fs_path_cache fs) = (pc_lookup (fs_path_cache fs) path, pc)"
      "pc_lookup pc = pc_lookup (fs_path_cache fs)" "pc_wf pc = pc_wf (fs_path_cache fs)"
    by (rule pc_resolve_obtain)
  let ?fs = "fs\<lparr>fs_path_cache := pc\<rparr>"
  have same: "same_files (fs, reg) (?fs, reg)" and ok: "registry_ok reg"
      and names: "names_ok (pc_lookup (fs_path_cache fs)) (contents reg)"
    using assms pc by (simp_all add: same_files_def fs_inv_def)
  show thesis
  proof (cases "pc_lookup (fs_path_cache fs) path")
    case None
    then show thesis
      using missing [OF _ same] pc by (simp add: access_def)
  next
    case (Some i)
    then obtain t where t: "token_lookup i reg = Some t"
      by (rule names_ok_token [OF names])
    then show thesis
      using found [OF _ same Some t] ok pc Some by (simp add: access_def registry_ok_def check_permission_file)
  qed
qed

lemma update_parent_inv:
  assumes "fs_inv k w" "keeps_file f"
  obtains w' where "update_parent (Suc n) f path w = Some w'" "same_files w w'" "fs_inv k w'"
proof -
  obtain fs reg where w: "w = (fs, reg)"
    by force
  then obtain w' where "update_parent (Suc n) f path w = Some w'" "same_files w w'"
    using update_parent_ok [of reg fs f n path] assms by (auto simp: fs_inv_def)
  then show thesis
    using that fs_inv_same [OF assms(1)] by blast
qed

lemma rehash_inv:
  assumes "fs_inv k w"
  obtains w' where "rehash (Suc n) i w = Some w'" "same_files w w'" "fs_inv k w'"
proof -
  obtain fs reg where w: "w = (fs, reg)"
    by force
  then obtain w' where "rehash (Suc n) i w = Some w'" "same_files w w'"
    using rehash_ok [of reg n i fs] assms by (auto simp: fs_inv_def)
  then show thesis
    using that fs_inv_same [OF assms(1)] by blast
qed

text \<open>A new token under a path, as \<open>save_file\<close> and \<open>copy_file\<close> register it.\<close>

lemma fs_inv_add:
  assumes "fs_inv k (fs, reg)" "token_lookup (tk_id t) reg = None" "tk_token_type t = File" "tk_expires t = None"
    and "cas_wf c" "positive c" "refs c = (refs (fs_cas fs))(tk_content_hash t := Suc (refs (fs_cas fs) (tk_content_hash t)))"
    and fs'_def: "fs' = fs\<lparr>fs_cas := c, fs_path_cache := pc_insert path (tk_id t) (fs_path_cache fs)\<rparr>"
  shows "fs_inv (Suc k) (fs', token_register t reg)"
    "contents (token_register t reg) = (contents reg)(tk_id t \<mapsto> tk_content_hash t)"
    "grants (token_register t reg) = (grants reg)(tk_id t \<mapsto> (tk_owner t, tk_permissions t))"
    "pc_lookup (fs_path_cache fs') = (pc_lookup (fs_path_cache fs))(path \<mapsto> tk_id t)"
proof -
  have inv: "pc_wf (fs_path_cache fs)" "registry_ok reg" "names_ok (pc_lookup (fs_path_cache fs)) (contents reg)"
      "counted k (contents reg \<circ>\<^sub>m pc_lookup (fs_path_cache fs)) (fs_cas fs)"
    using assms(1) by (simp_all add: fs_inv_def live_def)
  note reg = register_ok [OF inv(2) assms(3,4)]
  have pc: "pc_wf (pc_insert path (tk_id t) (fs_path_cache fs))"
      "pc_lookup (pc_insert path (tk_id t) (fs_path_cache fs)) = (pc_lookup (fs_path_cache fs))(path \<mapsto> tk_id t)"
    using cache_step_refines [OF inv(1), of "CacheInsert path (tk_id t)"] by simp_all
  have "contents reg (tk_id t) = None"
    using assms(2) by (simp add: contents_def)
  note add = names_ok_add [OF inv(3) this, where p = path and h = "tk_content_hash t"]
  show "contents (token_register t reg) = (contents reg)(tk_id t \<mapsto> tk_content_hash t)"
    "grants (token_register t reg) = (grants reg)(tk_id t \<mapsto> (tk_owner t, tk_permissions t))"
    "pc_lookup (fs_path_cache fs') = (pc_lookup (fs_path_cache fs))(path \<mapsto> tk_id t)"
    by (simp_all add: reg pc fs'_def)
  show "fs_inv (Suc k) (fs', token_register t reg)"
    using counted_add [OF inv(4) assms(7,6), where p = path] assms(5) reg(1) pc(1) add
    by (simp add: fs_inv_def fs'_def live_def pc(2) reg(2))
qed

lemma save_file_cases:
  assumes "fs_inv k (fs, reg)" "k < 2 ^ 64 - 1" "token_lookup rid reg = None"
  obtains (full) w where "save_file (Suc n) ticks rid path data owner perms (fs, reg) = Some (Inl OutOfSpace, w)" "same_files (fs, reg) w"
  | (saved) fs' reg' obj where "save_file (Suc n) ticks rid path data owner perms (fs, reg) = Some (Inr rid, fs', reg')"
      "fs_inv (Suc k) (fs', reg')" "contents reg' = (contents reg)(rid \<mapsto> of_data data)" "grants reg' = (grants reg)(rid \<mapsto> (owner, perms))"
      "pc_lookup (fs_path_cache fs') = (pc_lookup (fs_path_cache fs))(path \<mapsto> rid)"
      "bt_get (cas_objects (fs_cas fs')) (of_data data) = Some obj" "so_data obj = stored_data data (fs_cas fs)"
proof -
  have inv: "cas_wf (fs_cas fs)" "positive (fs_cas fs)" "refs (fs_cas fs) (of_data data) < 2 ^ 64 - 1" "registry_ok reg"
    using assms(1,2) by (auto simp: fs_inv_def counted_positive dest: counted_links(2) intro: le_less_trans)
  show thesis
  proof (cases rule: cas_put_counts [OF inv(1-3), of ticks, case_names full put])
    case full
    then show thesis
      using that(1) inv(4) by (simp add: save_file_def same_files_def)
  next
    case (put c obj)
    let ?t = "token_new_file rid path (of_data data) owner (data_len data) perms"
    let ?fs = "fs\<lparr>fs_cas := c, fs_path_cache := pc_insert path rid (fs_path_cache fs)\<rparr>"
    have t: "tk_id ?t = rid" "tk_token_type ?t = File" "tk_expires ?t = None" "tk_content_hash ?t = of_data data"
        "tk_owner ?t = owner" "tk_permissions ?t = perms"
      by (simp_all add: token_new_file_def)
    have "cas_wf c"
      using cas_put_wf [OF inv(1), of ticks data] put(1) by simp
    note add = fs_inv_add [where t = ?t and c = c and path = path, OF assms(1), unfolded t, OF assms(3) refl refl this put(2,3) refl]
    obtain w where w: "update_parent (Suc n) (\<lambda>parent. (add_child rid parent)\<lparr>tk_modified := 0\<rparr>) path (?fs, token_register ?t reg) = Some w"
        "same_files (?fs, token_register ?t reg) w" "fs_inv (Suc k) w"
      by (rule update_parent_inv [OF add(1) keeps_file_changes(3)])
    obtain fs' reg' where w': "rehash (Suc n) rid w = Some (fs', reg')" "same_files w (fs', reg')" "fs_inv (Suc k) (fs', reg')"
      using rehash_inv [OF w(3), of n rid] by (metis surj_pair)
    have "same_files (?fs, token_register ?t reg) (fs', reg')"
      by (rule same_files_trans [OF w(2) w'(2)])
    then show thesis
      using that(2) [OF _ w'(3)] put add(2-4) w(1) w'(1) by (simp add: save_file_def same_files_def t)
  qed
qed

lemma fs_inv_parts:
  assumes "fs_inv k (fs, reg)"
  shows "pc_wf (fs_path_cache fs)" "cas_wf (fs_cas fs)" "registry_ok reg" "names_ok (pc_lookup (fs_path_cache fs)) (contents reg)"
    "counted k (contents reg \<circ>\<^sub>m pc_lookup (fs_path_cache fs)) (fs_cas fs)" "positive (fs_cas fs)"
  using assms by (auto simp: fs_inv_def live_def dest: counted_positive)

lemma fs_inv_stored:
  assumes "fs_inv k (fs, reg)" "pc_lookup (fs_path_cache fs) path = Some i" "token_lookup i reg = Some t"
  obtains obj where "bt_get (cas_objects (fs_cas fs)) (tk_content_hash t) = Some obj"
  by (rule counted_stored [OF fs_inv_parts(5) [OF assms(1)], of path "tk_content_hash t"])
    (use assms(2,3) in \<open>auto simp: contents_def\<close>)

text \<open>Apart from the tokens \<open>ids\<close>, a token that a path names afterwards was named before, with the same content hash.\<close>

definition names_kept :: "TokenId set \<Rightarrow> FileSystem \<times> Registry \<Rightarrow> FileSystem \<times> Registry \<Rightarrow> bool" where
  "names_kept ids = (\<lambda>(fs, reg) (fs', reg'). \<forall>i. i \<notin> ids \<longrightarrow> i \<in> ran (pc_lookup (fs_path_cache fs')) \<longrightarrow>
     i \<in> ran (pc_lookup (fs_path_cache fs)) \<and> contents reg' i = contents reg i)"

lemma names_kept_same: "same_files w w' \<Longrightarrow> names_kept ids w w'"
  by (cases w; cases w') (simp add: same_files_def names_kept_def)

lemma names_kept_cas [simp]: "names_kept ids w (fs\<lparr>fs_cas := c\<rparr>, reg) = names_kept ids w (fs, reg)"
  by (cases w) (simp add: names_kept_def)

lemma read_file_ok:
  assumes "fs_inv k (fs, reg)"
  obtains r fs' where "read_file ticks path user (fs, reg) = Some (r, fs', reg)" "r \<noteq> Inl Corrupted" "fs_inv k (fs', reg)"
    "names_kept {} (fs, reg) (fs', reg)"
proof (cases rule: access_cases [OF assms, of ticks path PERM_READ user, case_names missing found])
  case (missing fs')
  then show thesis
    using that fs_inv_same [OF assms missing(2)] names_kept_same [OF missing(2)] by (simp add: read_file_def)
next
  case (found fs' i t)
  have inv: "fs_inv k (fs', reg)"
    by (rule fs_inv_same [OF assms found(2)])
  have "pc_lookup (fs_path_cache fs') path = Some i"
    using found(2,3) by (simp add: same_files_def)
  then obtain obj where obj: "bt_get (cas_objects (fs_cas fs')) (tk_content_hash t) = Some obj"
    by (rule fs_inv_stored [OF inv _ found(4)])
  let ?c = "snd (cas_get ticks (tk_content_hash t) (fs_cas fs'))"
  have "cas_wf ?c"
    using cas_step_wf [OF fs_inv_parts(2) [OF inv], of "Get ticks (tk_content_hash t)"] by simp
  then have "fs_inv k (fs'\<lparr>fs_cas := ?c\<rparr>, reg)"
    using inv cas_get_counts [OF fs_inv_parts(2,6) [OF inv]] by (simp add: fs_inv_def counted_def positive_def live_def)
  then show thesis
    using that obj found(1) inv names_kept_same [OF found(2)]
    by (cases "tk_owner t = user \<and> perm_has (tk_permissions t) PERM_READ") (auto simp: read_file_def cas_get_def)
qed

lemma move_file_ok:
  assumes "fs_inv k (fs, reg)"
  obtains r fs' reg' where "move_file (Suc n) ticks old_path new_path user (fs, reg) = Some (r, fs', reg')"
    "r \<noteq> Inl Corrupted" "fs_inv k (fs', reg')" "contents reg' = contents reg" "names_kept {} (fs, reg) (fs', reg')"
proof (cases rule: access_cases [OF assms, of ticks old_path PERM_WRITE user, case_names missing found])
  case (missing fs')
  then show thesis
    using that fs_inv_same [OF assms missing(2)] names_kept_same [OF missing(2)] by (simp add: move_file_def)
next
  case (found fs' i t)
  have inv: "fs_inv k (fs', reg)"
    by (rule fs_inv_same [OF assms found(2)])
  note parts = fs_inv_parts [OF inv]
  have old: "pc_lookup (fs_path_cache fs') old_path = Some i"
    using found(2,3) by (simp add: same_files_def)
  let ?pc = "snd (update_path old_path new_path (fs_path_cache fs'))"
  let ?t = "t\<lparr>tk_path := new_path, tk_modified := 0\<rparr>"
  let ?w = "(fs'\<lparr>fs_path_cache := ?pc\<rparr>, token_register ?t reg)"
  have t: "tk_id t = i" "tk_token_type ?t = File" "tk_expires ?t = None"
    using parts(3) found(4) by (auto simp: registry_ok_def)
  have reg: "registry_ok (token_register ?t reg)" "contents (token_register ?t reg) = contents reg"
    using register_ok [OF parts(3) t(2,3)] found(4) t(1) by (auto simp: contents_def)
  have pc: "pc_wf ?pc" "pc_lookup ?pc = ((pc_lookup (fs_path_cache fs'))(old_path := None))(new_path \<mapsto> i)"
    using cache_step_refines [OF parts(1), of "CacheMove old_path new_path"] old by simp_all
  have h: "contents reg i = Some (tk_content_hash t)" "(contents reg \<circ>\<^sub>m pc_lookup (fs_path_cache fs')) old_path = Some (tk_content_hash t)"
    using found(4) old by (simp_all add: contents_def)
  have "fs_inv k ?w"
    using parts(2) reg pc names_ok_move [OF parts(4) old h(1), of new_path] counted_move [OF parts(5) h(2), of new_path]
    by (simp add: fs_inv_def live_def)
  then obtain w1 where w1: "update_parent (Suc n) (retain_others i) old_path ?w = Some w1" "same_files ?w w1" "fs_inv k w1"
    by (rule update_parent_inv [OF _ keeps_file_changes(2)])
  obtain w2 where w2: "update_parent (Suc n) (add_child i) new_path w1 = Some w2" "same_files w1 w2" "fs_inv k w2"
    by (rule update_parent_inv [OF w1(3) keeps_file_changes(1)])
  obtain fs3 reg3 where w3: "rehash (Suc n) i w2 = Some (fs3, reg3)" "same_files w2 (fs3, reg3)" "fs_inv k (fs3, reg3)"
    using rehash_inv [OF w2(3), of n i] by (metis surj_pair)
  have after: "contents reg3 = contents reg" "pc_lookup (fs_path_cache fs3) = ((pc_lookup (fs_path_cache fs))(old_path := None))(new_path \<mapsto> i)"
    using same_files_trans [OF same_files_trans [OF w1(2) w2(2)] w3(2)] reg(2) pc(2) found(2) by (simp_all add: same_files_def)
  then have "names_kept {} (fs, reg) (fs3, reg3)"
    using found(3) by (auto simp: names_kept_def ran_def split: if_splits)
  then show thesis
    using that found(1) inv w1(1) w2(1) w3 after(1) names_kept_same [OF found(2)]
    by (cases "tk_owner t = user \<and> perm_has (tk_permissions t) PERM_WRITE") (auto simp: move_file_def)
qed

lemma fs_inv_mono: "fs_inv k w \<Longrightarrow> k \<le> k' \<Longrightarrow> fs_inv k' w"
  by (cases w) (auto simp: fs_inv_def counted_mono)

lemma copy_file_ok:
  assumes "fs_inv k (fs, reg)" "k < 2 ^ 64 - 1" "token_lookup rid reg = None"
  obtains r fs' reg' where "copy_file (Suc n) ticks rid src_path dst_path user (fs, reg) = Some (r, fs', reg')"
    "r \<noteq> Inl Corrupted" "fs_inv (Suc k) (fs', reg')" "dom (contents reg') \<subseteq> insert rid (dom (contents reg))"
    "names_kept {rid} (fs, reg) (fs', reg')"
proof (cases rule: access_cases [OF assms(1), of ticks src_path PERM_READ user, case_names missing found])
  case (missing fs')
  then show thesis
    using that fs_inv_mono [OF fs_inv_same [OF assms(1) missing(2)], of "Suc k"] names_kept_same [OF missing(2)] by (auto simp: copy_file_def)
next
  case (found fs' i t)
  have inv: "fs_inv k (fs', reg)"
    by (rule fs_inv_same [OF assms(1) found(2)])
  note parts = fs_inv_parts [OF inv]
  have "pc_lookup (fs_path_cache fs') src_path = Some i"
    using found(2,3) by (simp add: same_files_def)
  then obtain obj where obj: "bt_get (cas_objects (fs_cas fs')) (tk_content_hash t) = Some obj"
    by (rule fs_inv_stored [OF inv _ found(4)])
  let ?c = "snd (ref_inc (tk_content_hash t) (fs_cas fs'))"
  let ?t = "token_new_file rid dst_path (tk_content_hash t) user (tk_size t) (tk_permissions t)"
  let ?w = "(fs'\<lparr>fs_cas := ?c, fs_path_cache := pc_insert dst_path rid (fs_path_cache fs')\<rparr>, token_register ?t reg)"
  have t: "tk_id ?t = rid" "tk_token_type ?t = File" "tk_expires ?t = None" "tk_content_hash ?t = tk_content_hash t"
      "tk_owner ?t = user" "tk_permissions ?t = tk_permissions t"
    by (simp_all add: token_new_file_def)
  have small: "refs (fs_cas fs') (tk_content_hash t) < 2 ^ 64 - 1"
    using counted_links(2) [OF parts(5), of "tk_content_hash t"] assms(2) by simp
  have "cas_wf ?c"
    using cas_step_wf [OF parts(2), of "RefInc (tk_content_hash t)"] by simp
  note add = fs_inv_add [where t = ?t and c = ?c and path = dst_path, OF inv, unfolded t, OF assms(3) refl refl this
      ref_inc_counts(2,1) [OF parts(2,6) small obj] refl]
  obtain fs2 reg2 where w: "update_parent (Suc n) (add_child rid) dst_path ?w = Some (fs2, reg2)"
      "same_files ?w (fs2, reg2)" "fs_inv (Suc k) (fs2, reg2)"
    using update_parent_inv [OF add(1) keeps_file_changes(1), of n rid dst_path] by (metis surj_pair)
  have "dom (contents reg2) \<subseteq> insert rid (dom (contents reg))"
    using w(2) add(2) by (simp add: same_files_def)
  moreover have "names_kept {rid} (fs, reg) (fs2, reg2)"
    using w(2) add(2,4) found(2) by (auto simp: names_kept_def same_files_def ran_def split: if_splits)
  ultimately show thesis
    using that found(1) fs_inv_mono [OF inv, of "Suc k"] w names_kept_same [OF found(2)]
    by (cases "tk_owner t = user \<and> perm_has (tk_permissions t) PERM_READ") (auto simp: copy_file_def t Let_def)
qed

lemma delete_file_cases:
  assumes "fs_inv k (fs, reg)"
  obtains (refused) e fs' where "delete_file (Suc n) ticks path user (fs, reg) = Some (Inl e, fs', reg)" "e \<in> {NotFound, PermissionDenied}"
      "fs_inv k (fs', reg)" "same_files (fs, reg) (fs', reg)"
  | (deleted) fs' reg' i where "delete_file (Suc n) ticks path user (fs, reg) = Some (Inr (), fs', reg')" "fs_inv k (fs', reg')"
      "contents reg' = (contents reg)(i := None)"
      "pc_lookup (fs_path_cache fs') = (pc_lookup (fs_path_cache fs))(path := None)" "live (fs', reg') = (live (fs, reg))(path := None)"
proof (cases rule: access_cases [OF assms, of ticks path PERM_DELETE user, case_names missing found])
  case (missing fs')
  then show thesis
    using that(1) fs_inv_same [OF assms missing(2)] missing(2) by (simp add: delete_file_def)
next
  case (found fs' i t)
  have inv: "fs_inv k (fs', reg)" and lookup: "pc_lookup (fs_path_cache fs') = pc_lookup (fs_path_cache fs)"
    using fs_inv_same [OF assms found(2)] found(2) by (simp_all add: same_files_def)
  note parts = fs_inv_parts [OF inv]
  have old: "pc_lookup (fs_path_cache fs') path = Some i"
    using found(3) lookup by simp
  obtain obj where obj: "bt_get (cas_objects (fs_cas fs')) (tk_content_hash t) = Some obj"
    by (rule fs_inv_stored [OF inv old found(4)])
  let ?c = "snd (ref_dec (tk_content_hash t) (fs_cas fs'))"
  obtain fs2 reg2 where w: "update_parent (Suc n) (retain_others i) path (fs'\<lparr>fs_cas := ?c\<rparr>, reg) = Some (fs2, reg2)"
      "same_files (fs'\<lparr>fs_cas := ?c\<rparr>, reg) (fs2, reg2)"
    using update_parent_ok [OF parts(3), of "fs'\<lparr>fs_cas := ?c\<rparr>" "retain_others i" n path] parts(4) by auto
  then have same: "fs_cas fs2 = ?c" "pc_lookup (fs_path_cache fs2) = pc_lookup (fs_path_cache fs')" "contents reg2 = contents reg"
      "pc_wf (fs_path_cache fs2)" "registry_ok reg2"
    using parts(1) by (simp_all add: same_files_def)
  let ?fs = "fs2\<lparr>fs_path_cache := snd (pc_remove path (fs_path_cache fs2))\<rparr>"
  let ?reg = "snd (token_revoke i reg2)"
  have reg: "registry_ok ?reg" "contents ?reg = (contents reg)(i := None)"
    using same(5) by (auto simp: same(3) [symmetric] registry_ok_def contents_def token_revoke_def token_lookup_def bt_remove_wf
        bt_get_remove fun_eq_iff split: if_splits)
  have pc: "pc_wf (fs_path_cache ?fs)" "pc_lookup (fs_path_cache ?fs) = (pc_lookup (fs_path_cache fs'))(path := None)"
    using cache_step_refines [OF same(4), of "CacheRemove path"] same(2) by simp_all
  have "(contents reg \<circ>\<^sub>m pc_lookup (fs_path_cache fs')) path = Some (tk_content_hash t)"
    using found(4) old by (simp add: contents_def)
  note count = counted_delete [OF parts(5) this ref_dec_counts [OF parts(2,6) obj]]
  have "fs_inv k (?fs, ?reg)"
    using reg pc names_ok_delete [OF parts(4) old] count ref_dec_wf [OF parts(2)] same(1) by (simp add: fs_inv_def live_def)
  moreover have "live (?fs, ?reg) = (live (fs, reg))(path := None)"
    using names_ok_delete(2) [OF parts(4) old] pc(2) reg(2) lookup by (simp add: live_def)
  ultimately show thesis
    using that(1) [of _ fs'] that(2) [of ?fs ?reg i] found(1,2) inv w(1) reg(2) pc(2) lookup
    by (cases "tk_owner t = user \<and> perm_has (tk_permissions t) PERM_DELETE") (auto simp: delete_file_def)
qed

section \<open>Sequences of operations\<close>

datatype fs_op =
    FsSave u64 TokenId string "u8 list" u64 Permissions
  | FsRead u64 string u64
  | FsMove u64 string string u64
  | FsCopy u64 TokenId string string u64
  | FsDelete u64 string u64
  | FsLimit u64

definition failure :: "('e + 'a) \<Rightarrow> 'e option" where
  "failure r = (case r of Inl e \<Rightarrow> Some e | Inr _ \<Rightarrow> None)"

fun fs_step :: "nat \<Rightarrow> fs_op \<Rightarrow> FileSystem \<times> Registry \<Rightarrow> (FileError option \<times> FileSystem \<times> Registry) option" where
  "fs_step n (FsSave ticks rid path data owner perms) w = map_option (map_prod failure (\<lambda>w. w)) (save_file n ticks rid path data owner perms w)"
| "fs_step n (FsRead ticks path user) w = map_option (map_prod failure (\<lambda>w. w)) (read_file ticks path user w)"
| "fs_step n (FsMove ticks old_path new_path user) w = map_option (map_prod failure (\<lambda>w. w)) (move_file n ticks old_path new_path user w)"
| "fs_step n (FsCopy ticks rid src_path dst_path user) w = map_option (map_prod failure (\<lambda>w. w)) (copy_file n ticks rid src_path dst_path user w)"
| "fs_step n (FsDelete ticks path user) w = map_option (map_prod failure (\<lambda>w. w)) (delete_file n ticks path user w)"
| "fs_step n (FsLimit m) w = Some (None, (fst w)\<lparr>fs_cas := set_max_bytes m (fs_cas (fst w))\<rparr>, snd w)"

fun new_ids :: "fs_op \<Rightarrow> TokenId list" where
  "new_ids (FsSave ticks rid path data owner perms) = [rid]"
| "new_ids (FsCopy ticks rid src_path dst_path user) = [rid]"
| "new_ids _ = []"

fun fs_exec :: "nat \<Rightarrow> fs_op list \<Rightarrow> FileSystem \<times> Registry \<Rightarrow> (FileError option list \<times> FileSystem \<times> Registry) option" where
  "fs_exec n [] w = Some ([], w)"
| "fs_exec n (op # ops) w =
     (case fs_step n op w of
        None \<Rightarrow> None
      | Some (e, w) \<Rightarrow> map_option (map_prod (Cons e) (\<lambda>w. w)) (fs_exec n ops w))"

lemma failure_Some: "failure r = Some e \<longleftrightarrow> r = Inl e"
  by (simp add: failure_def split: sum.split)

lemma fs_step_ok:
  assumes "fs_inv k (fs, reg)" "k < 2 ^ 64 - 1" "\<forall>i \<in> set (new_ids op). token_lookup i reg = None"
  obtains e fs' reg' where "fs_step (Suc n) op (fs, reg) = Some (e, fs', reg')" "e \<noteq> Some Corrupted" "fs_inv (Suc k) (fs', reg')"
    "dom (contents reg') \<subseteq> set (new_ids op) \<union> dom (contents reg)" "names_kept (set (new_ids op)) (fs, reg) (fs', reg')"
proof (cases op)
  case (FsSave ticks rid path data owner perms)
  have fresh: "token_lookup rid reg = None"
    using assms(3) FsSave by simp
  show thesis
  proof (cases rule: save_file_cases [OF assms(1,2) fresh, of n ticks path data owner perms, case_names full saved])
    case (full w)
    obtain fs' reg' where w: "w = (fs', reg')"
      by fastforce
    note same = full(2) [unfolded w]
    show thesis
      by (rule that [of "Some OutOfSpace" fs' reg'])
        (use full(1) same w FsSave fs_inv_mono [OF fs_inv_same [OF assms(1) same], of "Suc k"] names_kept_same [OF same]
          in \<open>auto simp: failure_def same_files_def\<close>)
  next
    case (saved fs' reg' obj)
    have "names_kept {rid} (fs, reg) (fs', reg')"
      using saved(3,5) by (auto simp: names_kept_def ran_def split: if_splits)
    then show thesis
      by (intro that [of None fs' reg']) (use saved FsSave in \<open>auto simp: failure_def\<close>)
  qed
next
  case (FsRead ticks path user)
  obtain r fs' where r: "read_file ticks path user (fs, reg) = Some (r, fs', reg)" "r \<noteq> Inl Corrupted" "fs_inv k (fs', reg)"
      "names_kept {} (fs, reg) (fs', reg)"
    by (rule read_file_ok [OF assms(1)])
  show thesis
    by (rule that [of "failure r" fs' reg]) (use r fs_inv_mono [OF r(3), of "Suc k"] FsRead in \<open>simp_all add: failure_Some\<close>)
next
  case (FsMove ticks old_path new_path user)
  obtain r fs' reg' where r: "move_file (Suc n) ticks old_path new_path user (fs, reg) = Some (r, fs', reg')" "r \<noteq> Inl Corrupted"
      "fs_inv k (fs', reg')" "contents reg' = contents reg" "names_kept {} (fs, reg) (fs', reg')"
    by (rule move_file_ok [OF assms(1)])
  show thesis
    by (rule that [of "failure r" fs' reg']) (use r fs_inv_mono [OF r(3), of "Suc k"] FsMove in \<open>simp_all add: failure_Some\<close>)
next
  case (FsCopy ticks rid src_path dst_path user)
  have fresh: "token_lookup rid reg = None"
    using assms(3) FsCopy by simp
  obtain r fs' reg' where r: "copy_file (Suc n) ticks rid src_path dst_path user (fs, reg) = Some (r, fs', reg')" "r \<noteq> Inl Corrupted"
      "fs_inv (Suc k) (fs', reg')" "dom (contents reg') \<subseteq> insert rid (dom (contents reg))" "names_kept {rid} (fs, reg) (fs', reg')"
    by (rule copy_file_ok [OF assms(1,2) fresh])
  show thesis
    by (rule that [of "failure r" fs' reg']) (use r FsCopy in \<open>simp_all add: failure_Some\<close>)
next
  case (FsDelete ticks path user)
  show thesis
  proof (cases rule: delete_file_cases [OF assms(1), of n ticks path user, case_names refused deleted])
    case (refused e fs')
    then show thesis
      by (intro that [of "Some e" fs' reg])
        (use FsDelete fs_inv_mono [OF refused(3), of "Suc k"] names_kept_same [OF refused(4)] in \<open>auto simp: failure_def\<close>)
  next
    case (deleted fs' reg' i)
    have "names_ok (pc_lookup (fs_path_cache fs')) (contents reg')"
      by (rule fs_inv_parts(4) [OF deleted(2)])
    then have named: "contents reg' j \<noteq> None" if "j \<in> ran (pc_lookup (fs_path_cache fs'))" for j
      using that by (auto simp: names_ok_def ran_def)
    have "names_kept {} (fs, reg) (fs', reg')"
      unfolding names_kept_def prod.case
    proof (intro allI impI conjI)
      fix j
      assume "j \<in> ran (pc_lookup (fs_path_cache fs'))"
      then show "j \<in> ran (pc_lookup (fs_path_cache fs))" "contents reg' j = contents reg j"
        using named [of j] deleted(3,4) by (auto simp: ran_def split: if_splits)
    qed
    then show thesis
      by (intro that [of None fs' reg'])
        (use deleted(1,3) FsDelete fs_inv_mono [OF deleted(2), of "Suc k"] in \<open>auto simp: failure_def\<close>)
  qed
next
  case (FsLimit m)
  have "fs_inv (Suc k) (fs\<lparr>fs_cas := set_max_bytes m (fs_cas fs)\<rparr>, reg)"
    using fs_inv_mono [OF assms(1), of "Suc k"]
    by (simp add: fs_inv_def live_def set_max_bytes_def counted_def refs_def ref_count_def)
  moreover have "names_kept {} (fs, reg) (fs, reg)"
    by (simp add: names_kept_def)
  ultimately show thesis
    using FsLimit that by simp
qed

lemma fs_inv_new: "fs_inv 0 (fs_new, [])"
  by (simp add: fs_inv_def fs_new_def pc_new_def pc_wf_def cas_new_def cas_wf_def cas_bytes_def bt_values_def registry_ok_def
      token_lookup_def names_ok_def counted_def live_def contents_def map_comp_def links_def refs_def ref_count_def)

section \<open>The data of the files\<close>

text \<open>An object that stays in the store keeps its bytes.\<close>

definition data_kept :: "ContentAddressableStorage \<Rightarrow> ContentAddressableStorage \<Rightarrow> bool" where
  "data_kept c c' \<longleftrightarrow> (\<forall>h obj obj'. bt_get (cas_objects c) h = Some obj \<longrightarrow> bt_get (cas_objects c') h = Some obj' \<longrightarrow> so_data obj' = so_data obj)"

lemma data_kept_refl [simp]: "data_kept c c"
  by (simp add: data_kept_def)

lemma cas_put_data:
  assumes "cas_wf c" "positive c"
  shows "data_kept c (snd (cas_put ticks data c))"
  using assms by (auto simp: cas_put_def Let_def garbage_collect_positive cas_wf_def data_kept_def bt_get_insert split: option.splits if_splits)

lemma cas_get_data: "cas_wf c \<Longrightarrow> data_kept c (snd (cas_get ticks h c))"
  by (auto simp: cas_get_def cas_wf_def data_kept_def bt_get_insert split: option.splits if_splits)

lemma ref_inc_data: "cas_wf c \<Longrightarrow> data_kept c (snd (ref_inc h c))"
  by (auto simp: ref_inc_def cas_wf_def data_kept_def bt_get_insert split: option.splits if_splits)

lemma ref_dec_data: "cas_wf c \<Longrightarrow> data_kept c (snd (ref_dec h c))"
  by (auto simp: ref_dec_def Let_def cas_wf_def data_kept_def bt_get_insert bt_get_remove split: option.splits if_splits)

lemma rehash_cas: "rehash n i (fs, reg) = Some (fs', reg') \<Longrightarrow> fs_cas fs' = fs_cas fs"
  by (auto simp: rehash_def split: option.splits)

lemma update_parent_cas: "update_parent n f path (fs, reg) = Some (fs', reg') \<Longrightarrow> fs_cas fs' = fs_cas fs"
  by (auto simp: update_parent_def dest: rehash_cas split: option.splits prod.splits)

lemma access_cas: "access ticks path required user (fs, reg) = Some (r, fs') \<Longrightarrow> fs_cas fs' = fs_cas fs"
  by (auto simp: access_def Let_def split: option.splits prod.splits)

lemmas same_store = rehash_cas update_parent_cas access_cas

text \<open>What an operation does to the store is what one call of the store does.\<close>

lemma save_file_store: "save_file n ticks rid path data owner perms (fs, reg) = Some (r, fs', reg') \<Longrightarrow>
    fs_cas fs' = snd (cas_put ticks data (fs_cas fs))"
  by (auto simp: save_file_def Let_def dest!: same_store split: option.splits prod.splits sum.splits)

lemma read_file_store: "read_file ticks path user (fs, reg) = Some (r, fs', reg') \<Longrightarrow>
    fs_cas fs' = fs_cas fs \<or> (\<exists>h. fs_cas fs' = snd (cas_get ticks h (fs_cas fs)))"
  by (auto simp: read_file_def dest!: same_store split: option.splits prod.splits sum.splits) (metis snd_conv)+

lemma move_file_store: "move_file n ticks old_path new_path user (fs, reg) = Some (r, fs', reg') \<Longrightarrow> fs_cas fs' = fs_cas fs"
  by (auto simp: move_file_def Let_def dest!: same_store split: option.splits prod.splits sum.splits)

lemma copy_file_store: "copy_file n ticks rid src_path dst_path user (fs, reg) = Some (r, fs', reg') \<Longrightarrow>
    fs_cas fs' = fs_cas fs \<or> (\<exists>h. fs_cas fs' = snd (ref_inc h (fs_cas fs)))"
  by (auto simp: copy_file_def Let_def dest!: same_store split: option.splits prod.splits sum.splits)

lemma delete_file_store: "delete_file n ticks path user (fs, reg) = Some (r, fs', reg') \<Longrightarrow>
    fs_cas fs' = fs_cas fs \<or> (\<exists>h. fs_cas fs' = snd (ref_dec h (fs_cas fs)))"
  by (auto simp: delete_file_def Let_def dest!: same_store split: option.splits prod.splits sum.splits)

lemma fs_step_data:
  assumes "fs_inv k (fs, reg)" "fs_step n op (fs, reg) = Some (e, fs', reg')"
  shows "data_kept (fs_cas fs) (fs_cas fs')"
proof -
  note c = fs_inv_parts(2,6) [OF assms(1)]
  note kept = cas_put_data [OF c] cas_get_data [OF c(1)] ref_inc_data [OF c(1)] ref_dec_data [OF c(1)]
  show ?thesis
  proof (cases op)
    case FsLimit
    then show ?thesis
      using assms(2) by (auto simp: set_max_bytes_def data_kept_def)
  qed (use assms(2) kept in \<open>auto dest!: save_file_store read_file_store move_file_store copy_file_store delete_file_store\<close>)
qed

text \<open>The bytes of the file behind a token that some path names.\<close>

definition file_data :: "FileSystem \<times> Registry \<Rightarrow> TokenId \<Rightarrow> u8 list option" where
  "file_data = (\<lambda>(fs, reg) i. if i \<in> ran (pc_lookup (fs_path_cache fs))
     then Option.bind (contents reg i) (\<lambda>h. map_option so_data (bt_get (cas_objects (fs_cas fs)) h)) else None)"

lemma file_data_stored:
  assumes "fs_inv k (fs, reg)" "i \<in> ran (pc_lookup (fs_path_cache fs))"
  obtains h obj where "contents reg i = Some h" "bt_get (cas_objects (fs_cas fs)) h = Some obj" "file_data (fs, reg) i = Some (so_data obj)"
proof -
  obtain p where p: "pc_lookup (fs_path_cache fs) p = Some i"
    using assms(2) by (auto simp: ran_def)
  then obtain t where t: "token_lookup i reg = Some t"
    by (rule names_ok_token [OF fs_inv_parts(4) [OF assms(1)]])
  obtain obj where "bt_get (cas_objects (fs_cas fs)) (tk_content_hash t) = Some obj"
    by (rule fs_inv_stored [OF assms(1) p t])
  then show thesis
    using that t assms(2) by (simp add: contents_def file_data_def)
qed

lemma file_data_step:
  assumes "fs_inv k (fs, reg)" "fs_inv k' (fs', reg')" "names_kept ids (fs, reg) (fs', reg')" "data_kept (fs_cas fs) (fs_cas fs')"
    and i: "i \<notin> ids" "i \<in> ran (pc_lookup (fs_path_cache fs'))"
  shows "i \<in> ran (pc_lookup (fs_path_cache fs))" "file_data (fs', reg') i = file_data (fs, reg) i"
proof -
  show named: "i \<in> ran (pc_lookup (fs_path_cache fs))"
    using assms(3) i by (simp add: names_kept_def)
  have same: "contents reg' i = contents reg i"
    using assms(3) i by (simp add: names_kept_def)
  obtain h obj where o: "contents reg i = Some h" "bt_get (cas_objects (fs_cas fs)) h = Some obj" "file_data (fs, reg) i = Some (so_data obj)"
    by (rule file_data_stored [OF assms(1) named])
  obtain h' obj' where o': "contents reg' i = Some h'" "bt_get (cas_objects (fs_cas fs')) h' = Some obj'"
      "file_data (fs', reg') i = Some (so_data obj')"
    by (rule file_data_stored [OF assms(2) i(2)])
  have "h' = h"
    using same o(1) o'(1) by simp
  then have "so_data obj' = so_data obj"
    using assms(4) o(2) o'(2) unfolding data_kept_def by blast
  then show "file_data (fs', reg') i = file_data (fs, reg) i"
    using o(3) o'(3) by simp
qed

lemma fs_exec_ok:
  assumes "fs_inv k (fs, reg)" "k + length ops < 2 ^ 64" "distinct (concat (map new_ids ops))"
    and "\<forall>i \<in> set (concat (map new_ids ops)). token_lookup i reg = None"
  shows "\<exists>es fs' reg'. fs_exec (Suc n) ops (fs, reg) = Some (es, fs', reg') \<and> Some Corrupted \<notin> set es
    \<and> fs_inv (k + length ops) (fs', reg') \<and> dom (contents reg') \<subseteq> set (concat (map new_ids ops)) \<union> dom (contents reg)
    \<and> (\<forall>i. i \<notin> set (concat (map new_ids ops)) \<longrightarrow> i \<in> ran (pc_lookup (fs_path_cache fs')) \<longrightarrow>
         i \<in> ran (pc_lookup (fs_path_cache fs)) \<and> file_data (fs', reg') i = file_data (fs, reg) i)"
  using assms
proof (induction ops arbitrary: k fs reg)
  case (Cons op ops)
  have small: "k < 2 ^ 64 - 1" and fresh: "\<forall>i \<in> set (new_ids op). token_lookup i reg = None"
    using Cons.prems(2,4) by auto
  obtain e fs1 reg1 where step: "fs_step (Suc n) op (fs, reg) = Some (e, fs1, reg1)" "e \<noteq> Some Corrupted" "fs_inv (Suc k) (fs1, reg1)"
      "dom (contents reg1) \<subseteq> set (new_ids op) \<union> dom (contents reg)" "names_kept (set (new_ids op)) (fs, reg) (fs1, reg1)"
    by (rule fs_step_ok [OF Cons.prems(1) small fresh])
  note data = file_data_step [OF Cons.prems(1) step(3,5) fs_step_data [OF Cons.prems(1) step(1)]]
  have "token_lookup i reg1 = None" if "i \<in> set (concat (map new_ids ops))" for i
  proof -
    have "i \<in> set (concat (map new_ids (op # ops)))" "i \<notin> set (new_ids op)"
      using Cons.prems(3) that by auto
    then have "i \<notin> set (new_ids op) \<union> dom (contents reg)"
      using bspec [OF Cons.prems(4)] by (simp add: contents_def domIff)
    then have "i \<notin> dom (contents reg1)"
      using step(4) by blast
    then show ?thesis
      by (simp add: contents_def domIff)
  qed
  moreover have "Suc k + length ops < 2 ^ 64" "distinct (concat (map new_ids ops))"
    using Cons.prems(2,3) by simp_all
  ultimately obtain es fs2 reg2 where rest: "fs_exec (Suc n) ops (fs1, reg1) = Some (es, fs2, reg2)" "Some Corrupted \<notin> set es"
      "fs_inv (Suc k + length ops) (fs2, reg2)" "dom (contents reg2) \<subseteq> set (concat (map new_ids ops)) \<union> dom (contents reg1)"
      "\<forall>i. i \<notin> set (concat (map new_ids ops)) \<longrightarrow> i \<in> ran (pc_lookup (fs_path_cache fs2)) \<longrightarrow>
         i \<in> ran (pc_lookup (fs_path_cache fs1)) \<and> file_data (fs2, reg2) i = file_data (fs1, reg1) i"
    using Cons.IH [OF step(3)] by blast
  show ?case
  proof (intro exI conjI allI impI)
    show "fs_exec (Suc n) (op # ops) (fs, reg) = Some (e # es, fs2, reg2)" "Some Corrupted \<notin> set (e # es)"
      "fs_inv (k + length (op # ops)) (fs2, reg2)"
      using step(1,2) rest(1-3) by simp_all
    show "dom (contents reg2) \<subseteq> set (concat (map new_ids (op # ops))) \<union> dom (contents reg)"
      by (rule subset_trans [OF rest(4)]) (use step(4) in auto)
    fix i
    assume i: "i \<notin> set (concat (map new_ids (op # ops)))" "i \<in> ran (pc_lookup (fs_path_cache fs2))"
    then have "i \<in> ran (pc_lookup (fs_path_cache fs1))" "file_data (fs2, reg2) i = file_data (fs1, reg1) i" "i \<notin> set (new_ids op)"
      using rest(5) by simp_all
    then show "i \<in> ran (pc_lookup (fs_path_cache fs))" "file_data (fs2, reg2) i = file_data (fs, reg) i"
      using data [of i] by simp_all
  qed
qed auto

lemma fs_exec_new:
  assumes "length ops < 2 ^ 64" "distinct (concat (map new_ids ops))"
  obtains es fs reg where "fs_exec (Suc n) ops (fs_new, []) = Some (es, fs, reg)" "Some Corrupted \<notin> set es"
    "fs_inv (length ops) (fs, reg)" "dom (contents reg) \<subseteq> set (concat (map new_ids ops))"
proof -
  have none: "\<forall>i \<in> set (concat (map new_ids ops)). token_lookup i [] = None" and dom: "dom (contents []) = {}"
    by (auto simp: token_lookup_def contents_def)
  have "0 + length ops < 2 ^ 64"
    using assms(1) by simp
  from fs_exec_ok [OF fs_inv_new this assms(2) none, of n] show thesis
    unfolding dom Un_empty_right add_0 by (elim exE conjE) (rule that)
qed

section \<open>Properties\<close>

text \<open>C4: On a new file system, with fresh token identifiers and fewer than \<open>2\<^sup>6\<^sup>4\<close> operations, every operation of a
  sequence returns, the \<open>unwrap\<close> of a parent's token included, and none reports corruption.  At the end every path leads
  to a token whose data is in the store, and a token that was there, with its data, at any point of the sequence has the
  same bytes at the end if a path still names it: no saving, copying, moving, deleting or changing of the limit takes or
  changes the data of another file.\<close>

theorem file_system_never_corrupted:
  assumes "length (ops1 @ ops2) < 2 ^ 64" "distinct (concat (map new_ids (ops1 @ ops2)))"
  shows "\<exists>failures1 w1 failures2 w2. fs_exec (Suc n) ops1 (fs_new, []) = Some (failures1, w1) \<and> fs_exec (Suc n) ops2 w1 = Some (failures2, w2)
    \<and> Some Corrupted \<notin> set (failures1 @ failures2)
    \<and> (\<forall>path i. pc_lookup (fs_path_cache (fst w2)) path = Some i \<longrightarrow>
         file_data w2 i \<noteq> None \<and> (file_data w1 i \<noteq> None \<longrightarrow> file_data w2 i = file_data w1 i))"
proof -
  let ?ids = "\<lambda>ops. set (concat (map new_ids ops))"
  have "length ops1 < 2 ^ 64" "distinct (concat (map new_ids ops1))"
    using assms by simp_all
  then obtain f1 fs1 reg1 where e1: "fs_exec (Suc n) ops1 (fs_new, []) = Some (f1, fs1, reg1)" "Some Corrupted \<notin> set f1"
      "fs_inv (length ops1) (fs1, reg1)" "dom (contents reg1) \<subseteq> ?ids ops1"
    by (rule fs_exec_new)
  have apart: "?ids ops1 \<inter> ?ids ops2 = {}" "distinct (concat (map new_ids ops2))"
    using assms(2) unfolding map_append concat_append distinct_append by blast+
  have fresh: "\<forall>i \<in> ?ids ops2. token_lookup i reg1 = None"
  proof
    fix i
    assume "i \<in> ?ids ops2"
    then have "i \<notin> dom (contents reg1)"
      using e1(4) apart(1) by blast
    then show "token_lookup i reg1 = None"
      by (simp add: contents_def domIff)
  qed
  have "length ops1 + length ops2 < 2 ^ 64"
    using assms(1) by simp
  then obtain f2 fs2 reg2 where e2: "fs_exec (Suc n) ops2 (fs1, reg1) = Some (f2, fs2, reg2)" "Some Corrupted \<notin> set f2"
      "fs_inv (length ops1 + length ops2) (fs2, reg2)"
      "\<forall>i. i \<notin> ?ids ops2 \<longrightarrow> i \<in> ran (pc_lookup (fs_path_cache fs2)) \<longrightarrow>
         i \<in> ran (pc_lookup (fs_path_cache fs1)) \<and> file_data (fs2, reg2) i = file_data (fs1, reg1) i"
    using fs_exec_ok [OF e1(3) _ apart(2) fresh] by blast
  have "file_data (fs2, reg2) i \<noteq> None \<and> (file_data (fs1, reg1) i \<noteq> None \<longrightarrow> file_data (fs2, reg2) i = file_data (fs1, reg1) i)"
    if "pc_lookup (fs_path_cache fs2) path = Some i" for path i
  proof -
    have i: "i \<in> ran (pc_lookup (fs_path_cache fs2))"
      using that by (rule ranI)
    have "file_data (fs2, reg2) i \<noteq> None"
      by (rule file_data_stored [OF e2(3) i]) simp
    moreover have "i \<notin> ?ids ops2" if "file_data (fs1, reg1) i \<noteq> None"
      using that e1(4) apart(1) by (auto simp: file_data_def split: if_splits bind_splits)
    ultimately show ?thesis
      using e2(4) i by blast
  qed
  then show ?thesis
    using e1(1,2) e2(1,2) by (intro exI [of _ f1] exI [of _ "(fs1, reg1)"] exI [of _ f2] exI [of _ "(fs2, reg2)"]) simp
qed

text \<open>A file is copied and moved, and its copy is deleted.\<close>

theorem file_system_never_corrupted_witness:
  "\<exists>failures1 w1 failures2 w2. fs_exec 1 [FsSave 0 1 ''/a'' [1, 2] 7 PERM_ALL] (fs_new, []) = Some (failures1, w1)
     \<and> fs_exec 1 [FsCopy 0 2 ''/a'' ''/b'' 7, FsMove 0 ''/a'' ''/c'' 7, FsDelete 0 ''/b'' 7] w1 = Some (failures2, w2)
     \<and> Some Corrupted \<notin> set (failures1 @ failures2)"
  using file_system_never_corrupted [of "[FsSave 0 1 ''/a'' [1, 2] 7 PERM_ALL]" "[FsCopy 0 2 ''/a'' ''/b'' 7, FsMove 0 ''/a'' ''/c'' 7, FsDelete 0 ''/b'' 7]" 0]
  by (auto simp del: fs_exec.simps)

lemma fs_exec_inv:
  assumes "fs_exec (Suc n) ops (fs_new, []) = Some (failures, fs, reg)" "length ops < 2 ^ 64" "distinct (concat (map new_ids ops))"
  shows "fs_inv (length ops) (fs, reg)" "i \<notin> set (concat (map new_ids ops)) \<Longrightarrow> token_lookup i reg = None"
proof -
  have *: "fs_inv (length ops) (fs, reg)" "dom (contents reg) \<subseteq> set (concat (map new_ids ops))"
    by (rule fs_exec_new [OF assms(2,3), of n], use assms(1) in simp)+
  then show "fs_inv (length ops) (fs, reg)"
    by blast
  assume "i \<notin> set (concat (map new_ids ops))"
  then have "i \<notin> dom (contents reg)"
    using *(2) by blast
  then show "token_lookup i reg = None"
    by (simp add: contents_def domIff)
qed

lemma read_file_stored:
  assumes "fs_inv k (fs, reg)" "pc_lookup (fs_path_cache fs) path = Some i" "contents reg i = Some h" "grants reg i = Some (owner, perms)"
    and "bt_get (cas_objects (fs_cas fs)) h = Some obj"
  shows "\<exists>w. read_file ticks path user (fs, reg) =
    Some (if owner = user \<and> perm_has perms PERM_READ then Inr (so_data obj) else Inl PermissionDenied, w)"
proof (cases rule: access_cases [OF assms(1), of ticks path PERM_READ user, case_names missing found])
  case (found fs' j t)
  have "tk_owner t = owner" "tk_permissions t = perms" "tk_content_hash t = h" "fs_cas fs' = fs_cas fs"
    using found(2-4) assms(2-4) by (auto simp: contents_def grants_def same_files_def)
  then show ?thesis
    using found(1) assms(5) by (simp add: read_file_def cas_get_def)
qed (simp add: assms(2))

text \<open>C22: What is saved is read back.  After any sequence of operations, saving a file returns the new
  token or \<open>OutOfSpace\<close>; then reading its path gives the owner, if the permissions include reading, the object
  stored under the hash of the data, and every other user \<open>PermissionDenied\<close>.  That object is the data saved
  now unless the store already had one under the same hash, whose data is returned instead.\<close>

theorem save_read_roundtrip:
  assumes "fs_exec (Suc n) ops (fs_new, []) = Some (failures, fs, reg)" "length ops < 2 ^ 64 - 1"
    and "distinct (rid # concat (map new_ids ops))"
  shows "case save_file (Suc n) ticks rid path data owner perms (fs, reg) of
      None \<Rightarrow> False
    | Some (Inl e, w) \<Rightarrow> e = OutOfSpace \<and> live w = live (fs, reg)
    | Some (Inr i, w) \<Rightarrow> i = rid \<and> (\<exists>w'. read_file ticks' path user w =
        Some (if owner = user \<and> perm_has perms PERM_READ then Inr (stored_data data (fs_cas fs)) else Inl PermissionDenied, w'))"
proof -
  have inv: "fs_inv (length ops) (fs, reg)" and fresh: "token_lookup rid reg = None"
    using fs_exec_inv [OF assms(1)] assms(2,3) by auto
  show ?thesis
  proof (cases rule: save_file_cases [OF inv assms(2) fresh, of n ticks path data owner perms, case_names full saved])
    case (full w)
    then show ?thesis
      using live_same by simp
  next
    case (saved fs' reg' obj)
    then show ?thesis
      using read_file_stored [OF saved(2), of path rid "of_data data" owner perms obj ticks' user]
      by (auto simp del: split_paired_Ex split: if_splits)
  qed
qed

text \<open>Deleting a file removes its path and no other: the call always returns, a refusal leaves every
  path as it is, and after a success the path is \<open>NotFound\<close> while every other path keeps its contents.\<close>

theorem delete_file_removes:
  assumes "fs_exec (Suc n) ops (fs_new, []) = Some (failures, fs, reg)" "length ops < 2 ^ 64"
    and "distinct (concat (map new_ids ops))"
  shows "case delete_file (Suc n) ticks path user (fs, reg) of
      None \<Rightarrow> False
    | Some (Inl e, w) \<Rightarrow> e \<in> {NotFound, PermissionDenied} \<and> live w = live (fs, reg)
    | Some (Inr _, w) \<Rightarrow> live w = (live (fs, reg))(path := None) \<and> (\<exists>w'. read_file ticks' path user' w = Some (Inl NotFound, w'))"
proof (cases rule: delete_file_cases [OF fs_exec_inv(1) [OF assms], of n ticks path user, case_names refused deleted])
  case (refused e fs')
  then show ?thesis
    using live_same by auto
next
  case (deleted fs' reg' i)
  show ?thesis
  proof (cases rule: access_cases [OF deleted(2), of ticks' path PERM_READ user', case_names missing found])
    case (missing fs2)
    then show ?thesis
      using deleted by (simp add: read_file_def)
  qed (simp add: deleted(4))
qed

text \<open>The witnesses start from the new file system and one saved file.\<close>

theorem save_read_roundtrip_witness:
  "case save_file 1 0 1 ''/a'' [1, 2] 7 PERM_ALL (fs_new, []) of
      None \<Rightarrow> False
    | Some (Inl e, w) \<Rightarrow> e = OutOfSpace \<and> live w = live (fs_new, [])
    | Some (Inr i, w) \<Rightarrow> i = 1 \<and> (\<exists>w'. read_file 5 ''/a'' 7 w = Some (Inr [1, 2], w'))"
proof -
  have eq: "(if 7 = (7 :: u64) \<and> perm_has PERM_ALL PERM_READ then Inr (stored_data [1, 2] (fs_cas fs_new)) else Inl PermissionDenied) = Inr [1, 2]"
    by (simp add: perm_has_def PERM_READ_def PERM_ALL_def stored_data_def fs_new_def cas_new_def)
  show ?thesis
    using save_read_roundtrip [of 0 "[]" "[]" fs_new "[]" 1, where ticks = 0 and path = "''/a''" and data = "[1, 2]" and owner = 7
        and perms = PERM_ALL and user = 7 and ticks' = 5]
    unfolding eq by simp
qed

theorem delete_file_removes_witness:
  "\<exists>failures fs reg. fs_exec 1 [FsSave 0 1 ''/a'' [1, 2] 7 PERM_ALL] (fs_new, []) = Some (failures, fs, reg) \<and>
     (case delete_file 1 0 ''/a'' 7 (fs, reg) of
        None \<Rightarrow> False
      | Some (Inl e, w) \<Rightarrow> e \<in> {NotFound, PermissionDenied} \<and> live w = live (fs, reg)
      | Some (Inr _, w) \<Rightarrow> live w = (live (fs, reg))(''/a'' := None) \<and> (\<exists>w'. read_file 5 ''/a'' 7 w = Some (Inl NotFound, w')))"
proof -
  let ?ops = "[FsSave 0 1 ''/a'' [1, 2] 7 PERM_ALL]"
  obtain failures fs reg where exec: "fs_exec (Suc 0) ?ops (fs_new, []) = Some (failures, fs, reg)"
    by (rule fs_exec_new [of ?ops 0]) simp_all
  show ?thesis
    using exec delete_file_removes [OF exec, where ticks = 0 and path = "''/a''" and user = 7 and ticks' = 5 and user' = 7] by (simp del: fs_exec.simps)
qed

end
