(* ===== verification/Vfs.thy ===== *)
theory Vfs
  imports Strings
begin

text \<open>
  \<open>kernel/src/fs/vfs.rs\<close>: the mount table.  A mounted file system is a trait object; here it is a value of any
  type, and the method that the table calls on it is an argument.  Because the objects change behind a
  shared reference, a method returns the object's next state and the table keeps it.
\<close>

datatype FsError = NotFound | PermissionDenied | IoError | IsDirectory | NotDirectory | AlreadyExists

type_synonym 'fs Vfs = "(string \<times> 'fs) list"

definition vfs_new :: "'fs Vfs" where
  "vfs_new = []"

definition vfs_mount :: "string \<Rightarrow> 'fs \<Rightarrow> 'fs Vfs \<Rightarrow> 'fs Vfs" where
  "vfs_mount pfx fs vfs = vfs @ [(pfx, fs)]"

text \<open>The loop that all four operations share: the mounts in reverse order, the first whose prefix matches.\<close>

fun vfs_loop :: "(string \<Rightarrow> 'fs \<Rightarrow> (FsError + 'a) \<times> 'fs) \<Rightarrow> string \<Rightarrow> 'fs Vfs \<Rightarrow> (FsError + 'a) \<times> 'fs Vfs" where
  "vfs_loop call path [] = (Inl NotFound, [])"
| "vfs_loop call path ((pfx, fs) # mounts) =
     (if starts_with path pfx
      then let relative_path = drop (length pfx) path;
               relative_path = (if relative_path = [] then ''/'' else relative_path);
               (r, fs) = call relative_path fs
           in (r, (pfx, fs) # mounts)
      else let (r, mounts) = vfs_loop call path mounts in (r, (pfx, fs) # mounts))"

definition vfs_call :: "(string \<Rightarrow> 'fs \<Rightarrow> (FsError + 'a) \<times> 'fs) \<Rightarrow> string \<Rightarrow> 'fs Vfs \<Rightarrow> (FsError + 'a) \<times> 'fs Vfs" where
  "vfs_call call path vfs = (let (r, mounts) = vfs_loop call path (rev vfs) in (r, rev mounts))"

section \<open>Which mount answers\<close>

lemma starts_with_append [simp]: "starts_with (p @ s) p"
  by (simp add: starts_with_def)

lemma vfs_loop_skip:
  assumes "\<forall>(pfx, _) \<in> set newer. \<not> starts_with path pfx"
  shows "vfs_loop call path (newer @ (pfx, fs) # older) =
    (let (r, mounts) = vfs_loop call path ((pfx, fs) # older) in (r, newer @ mounts))"
  using assms by (induction newer) (auto simp: split_beta Let_def)

lemma vfs_call_last:
  assumes "starts_with path pfx" "\<forall>(p, _) \<in> set newer. \<not> starts_with path p"
  shows "vfs_call call path (older @ (pfx, fs) # newer) =
    (let (r, fs') = call (if path = pfx then ''/'' else drop (length pfx) path) fs in (r, older @ (pfx, fs') # newer))"
proof -
  have "drop (length pfx) path = [] \<longleftrightarrow> path = pfx"
    using assms(1) by (metis append_self_conv append_take_drop_id drop_all le_refl starts_with_def)
  moreover have "\<forall>(p, _) \<in> set (rev newer). \<not> starts_with path p"
    using assms(2) by simp
  ultimately show ?thesis
    using assms(1) by (simp add: vfs_call_def vfs_loop_skip Let_def split_beta)
qed

lemma vfs_call_none:
  assumes "\<forall>(p, _) \<in> set vfs. \<not> starts_with path p"
  shows "vfs_call call path vfs = (Inl NotFound, vfs)"
proof -
  have "vfs_loop call path mounts = (Inl NotFound, mounts)" if "\<forall>(p, _) \<in> set mounts. \<not> starts_with path p" for mounts
    using that by (induction mounts) auto
  then show ?thesis
    using assms by (simp add: vfs_call_def)
qed

end
