(* ===== verification/Tar.thy ===== *)
theory Tar
  imports Vfs
begin

text \<open>
  \<open>kernel/src/fs/tar.rs\<close>: the read-only file system over the boot archive.  Offsets are natural numbers: a
  size field has twelve octal digits at most and a slice is shorter than \<open>2\<^sup>6\<^sup>3\<close>, so no sum wraps around.
\<close>

section \<open>Files of the archive\<close>

record TarFile =
  tf_name :: string
  tf_data :: "u8 list"

text \<open>\<open>buf[..len].copy_from_slice(src)\<close> for a source of that length.\<close>

definition copy_to :: "u8 list \<Rightarrow> u8 list \<Rightarrow> u8 list" where
  "copy_to src buf = src @ drop (length src) buf"

definition tar_read :: "TarFile \<Rightarrow> u8 list \<Rightarrow> (FsError + nat) \<times> u8 list" where
  "tar_read f buf = (let len = min (length (tf_data f)) (length buf) in (Inr len, copy_to (take len (tf_data f)) buf))"

definition tar_write :: "TarFile \<Rightarrow> u8 list \<Rightarrow> FsError + nat" where
  "tar_write f buf = Inl PermissionDenied"

definition tar_size :: "TarFile \<Rightarrow> u64" where
  "tar_size f = of_nat (length (tf_data f))"

definition tar_read_at :: "TarFile \<Rightarrow> nat \<Rightarrow> u8 list \<Rightarrow> (FsError + nat) \<times> u8 list" where
  "tar_read_at f offset buf =
     (if offset \<ge> length (tf_data f) then (Inr 0, buf)
      else let available = length (tf_data f) - offset;
               to_copy = min available (length buf)
           in (Inr to_copy, copy_to (take to_copy (drop offset (tf_data f))) buf))"

section \<open>Headers\<close>

definition header_name :: "u8 list \<Rightarrow> string" where
  "header_name header =
     (let name_len = (case position (\<lambda>c. c = 0) (take 100 header) of Some n \<Rightarrow> n | None \<Rightarrow> 100)
      in case from_utf8 (take name_len header) of Some s \<Rightarrow> s | None \<Rightarrow> '''')"

definition header_size :: "u8 list \<Rightarrow> nat" where
  "header_size header =
     (let size_bytes = take 12 (drop 124 header);
          size_str = trim_both (\<lambda>c. c = CHR '' '' \<or> c = CHR 0x00) (case from_utf8 size_bytes of Some s \<Rightarrow> s | None \<Rightarrow> ''0'')
      in case from_octal size_str of Some n \<Rightarrow> n | None \<Rightarrow> 0)"

definition next_offset :: "nat \<Rightarrow> nat \<Rightarrow> nat" where
  "next_offset data_offset sz = data_offset + (sz + 511) div 512 * 512"

section \<open>Searching the archive\<close>

type_synonym TarArchive = "u8 list"

definition slash :: "char \<Rightarrow> bool" where
  "slash c \<longleftrightarrow> c = CHR ''/''"

function get_file_loop :: "TarArchive \<Rightarrow> string \<Rightarrow> nat \<Rightarrow> TarFile option" where
  "get_file_loop raw_data name offset =
     (if offset + 512 \<le> length raw_data
      then let header = take 512 (drop offset raw_data)
           in if header ! 0 = 0 then None
              else let file_name = header_name header; sz = header_size header; data_offset = offset + 512
                   in if file_name = name
                      then if data_offset + sz > length raw_data then None
                           else Some \<lparr>tf_name = file_name, tf_data = take sz (drop data_offset raw_data)\<rparr>
                      else get_file_loop raw_data name (next_offset data_offset sz)
      else None)"
  by pat_completeness auto
termination
  by (relation "measure (\<lambda>(raw_data, _, offset). length raw_data - offset)") (auto simp: next_offset_def)

definition get_file :: "TarArchive \<Rightarrow> string \<Rightarrow> TarFile option" where
  "get_file raw_data name = get_file_loop raw_data (trim_start slash name) 0"

function tar_open_loop :: "TarArchive \<Rightarrow> string \<Rightarrow> nat \<Rightarrow> FsError + TarFile" where
  "tar_open_loop raw_data path offset =
     (if offset + 512 \<le> length raw_data
      then let header = take 512 (drop offset raw_data)
           in if header ! 0 = 0 then Inl NotFound
              else let file_name = header_name header; sz = header_size header; data_offset = offset + 512
                   in if file_name = path
                      then if data_offset + sz > length raw_data then Inl IoError
                           else Inr \<lparr>tf_name = file_name, tf_data = take sz (drop data_offset raw_data)\<rparr>
                      else tar_open_loop raw_data path (next_offset data_offset sz)
      else Inl NotFound)"
  by pat_completeness auto
termination
  by (relation "measure (\<lambda>(raw_data, _, offset). length raw_data - offset)") (auto simp: next_offset_def)

definition tar_open :: "TarArchive \<Rightarrow> string \<Rightarrow> FsError + TarFile" where
  "tar_open raw_data path = tar_open_loop raw_data (trim_start slash path) 0"

section \<open>Listing a directory\<close>

definition push_new :: "string \<Rightarrow> string list \<Rightarrow> string list" where
  "push_new name entries = (if name \<in> set entries then entries else entries @ [name])"

text \<open>What one file adds to the listing of \<open>path\<close>: its first component, with a slash when more follow.\<close>

definition list_file :: "string \<Rightarrow> string \<Rightarrow> string list \<Rightarrow> string list" where
  "list_file path file_name entries =
     (if path = '''' then
        let first_part = hd (str_split (CHR ''/'') file_name)
        in if CHR ''/'' \<in> set file_name then push_new (first_part @ ''/'') entries else push_new file_name entries
      else
        let normalized = trim_start slash file_name
        in if starts_with normalized path \<and> normalized \<noteq> path
           then let relative = trim_start slash (drop (length path) normalized)
                in if relative \<noteq> ''''
                   then let first_part = hd (str_split (CHR ''/'') relative)
                        in if CHR ''/'' \<in> set relative then push_new (first_part @ ''/'') entries else push_new first_part entries
                   else entries
           else entries)"

function tar_read_dir_loop :: "TarArchive \<Rightarrow> string \<Rightarrow> nat \<Rightarrow> string list \<Rightarrow> string list" where
  "tar_read_dir_loop raw_data path offset entries =
     (if offset + 512 \<le> length raw_data
      then let header = take 512 (drop offset raw_data)
           in if header ! 0 = 0 then entries
              else let sz = header_size header; data_offset = offset + 512
                   in tar_read_dir_loop raw_data path (next_offset data_offset sz) (list_file path (header_name header) entries)
      else entries)"
  by pat_completeness auto
termination
  by (relation "measure (\<lambda>(raw_data, _, offset, _). length raw_data - offset)") (auto simp: next_offset_def)

definition tar_read_dir :: "TarArchive \<Rightarrow> string \<Rightarrow> FsError + string list" where
  "tar_read_dir raw_data path = Inr (tar_read_dir_loop raw_data (trim_both slash path) 0 [])"

declare get_file_loop.simps [simp del] tar_open_loop.simps [simp del] tar_read_dir_loop.simps [simp del]

section \<open>Writing an archive\<close>

text \<open>What the tools that build the boot archive write: the name padded with zeros, fields this code does not
  read, the size in eleven octal digits and a zero, more fields, then the data up to a full block.\<close>

fun octal_str :: "nat \<Rightarrow> nat \<Rightarrow> string" where
  "octal_str 0 n = ''''"
| "octal_str (Suc k) n = octal_str k (n div 8) @ [char_of (48 + n mod 8)]"

definition tar_header :: "string \<Rightarrow> u8 list \<Rightarrow> nat \<Rightarrow> u8 list \<Rightarrow> u8 list" where
  "tar_header name mode sz rest =
     str_bytes name @ replicate (100 - length name) 0 @ mode @ str_bytes (octal_str 11 sz) @ [0] @ rest"

record tar_entry =
  te_name :: string
  te_mode :: "u8 list"
  te_rest :: "u8 list"
  te_data :: "u8 list"

definition entry_ok :: "tar_entry \<Rightarrow> bool" where
  "entry_ok e \<longleftrightarrow> te_name e \<noteq> '''' \<and> length (te_name e) \<le> 100 \<and> list_all (\<lambda>c. 0 < (of_char c :: nat) \<and> (of_char c :: nat) < 128) (te_name e)
     \<and> length (te_mode e) = 24 \<and> length (te_rest e) = 376 \<and> length (te_data e) < 8 ^ 11"

definition write_entry :: "tar_entry \<Rightarrow> u8 list" where
  "write_entry e =
     (let sz = length (te_data e)
      in tar_header (te_name e) (te_mode e) sz (te_rest e) @ te_data e @ replicate ((sz + 511) div 512 * 512 - sz) 0)"

definition write_archive :: "tar_entry list \<Rightarrow> u8 list" where
  "write_archive es = concat (map write_entry es) @ replicate 1024 0"

section \<open>Reading the headers back\<close>

lemma byte_char_bytes [simp]: "map byte_char (str_bytes s) = s"
  by (induction s) (simp_all add: str_bytes_def byte_char_def unat_of_nat)

lemma length_str_bytes [simp]: "length (str_bytes s) = length s"
  by (simp add: str_bytes_def)

lemma utf8_valid_ascii: "list_all (\<lambda>b. b < 0x80) bs \<Longrightarrow> utf8_valid bs"
  by (induction bs) simp_all

lemma byte_ascii: "(of_char c :: nat) < 128 \<Longrightarrow> (of_nat (of_char c) :: u8) < 0x80"
  by (simp add: word_less_nat_alt unat_of_nat)

lemma from_utf8_ascii: "list_all (\<lambda>c. (of_char c :: nat) < 128) s \<Longrightarrow> from_utf8 (str_bytes s) = Some s"
  using utf8_valid_ascii [of "str_bytes s"] byte_char_bytes [of s] byte_ascii
  by (simp add: from_utf8_def str_bytes_def list_all_iff)

lemma length_octal_str [simp]: "length (octal_str k n) = k"
  by (induction k n rule: octal_str.induct) simp_all

lemma octal_str_chars: "c \<in> set (octal_str k n) \<Longrightarrow> 48 \<le> (of_char c :: nat) \<and> (of_char c :: nat) < 56"
  by (induction k n rule: octal_str.induct) auto

lemma octal_digit_char: "d < 8 \<Longrightarrow> octal_digit (char_of (48 + d)) = Some d"
  by (simp add: octal_digit_def less_eq_char_def)

lemma octal_digits_append:
  "octal_digits acc (s @ t) = (case octal_digits acc s of None \<Rightarrow> None | Some a \<Rightarrow> octal_digits a t)"
  by (induction acc s rule: octal_digits.induct) (auto split: option.split)

lemma octal_digits_str: "n < 8 ^ k \<Longrightarrow> octal_digits acc (octal_str k n) = Some (acc * 8 ^ k + n)"
proof (induction k n rule: octal_str.induct)
  case (2 k n)
  then have "octal_digits acc (octal_str k (n div 8)) = Some (acc * 8 ^ k + n div 8)"
    by (simp add: less_mult_imp_div_less mult.commute)
  then show ?case
    by (simp add: octal_digits_append octal_digit_char)
qed simp

lemma position_append_hit: "\<forall>x \<in> set xs. \<not> P x \<Longrightarrow> position P (xs @ ys) = map_option ((+) (length xs)) (position P ys)"
  by (cases "position P ys"; induction xs) simp_all

lemma header_name_written:
  assumes "length name \<le> 100" "list_all (\<lambda>c. 0 < (of_char c :: nat) \<and> (of_char c :: nat) < 128) name"
  shows "header_name (tar_header name mode sz rest) = name"
proof -
  let ?h = "tar_header name mode sz rest"
  have t: "take 100 ?h = str_bytes name @ replicate (100 - length name) 0"
    using assms(1) by (simp add: tar_header_def)
  have "of_nat (of_char c) \<noteq> (0 :: u8)" if "c \<in> set name" for c
  proof -
    have "0 < (of_char c :: nat)" "(of_char c :: nat) < 128"
      using assms(2) that by (auto simp: list_all_iff)
    then have "unat (of_nat (of_char c) :: u8) \<noteq> 0"
      by (simp add: unat_of_nat)
    then show ?thesis
      by auto
  qed
  then have "\<forall>b \<in> set (str_bytes name). b \<noteq> 0"
    by (auto simp: str_bytes_def)
  then have "position (\<lambda>c. c = 0) (take 100 ?h) = (if length name = 100 then None else Some (length name))"
    using assms(1) by (cases "100 - length name") (auto simp: t position_append_hit position_None)
  moreover have "take (length name) ?h = str_bytes name"
    by (simp add: tar_header_def)
  moreover have "from_utf8 (str_bytes name) = Some name"
    using assms(2) by (intro from_utf8_ascii) (auto simp: list_all_iff)
  ultimately show ?thesis
    by (auto simp: header_name_def Let_def)
qed

lemma trim_both_written:
  assumes "s \<noteq> []" "\<forall>c \<in> set s. \<not> P c" "P z"
  shows "trim_both P (s @ [z]) = s"
proof -
  have "dropWhile P (s @ [z]) = s @ [z]"
    using assms by (cases s) auto
  moreover have "dropWhile P (rev s) = rev s"
    using assms by (cases "rev s") (auto dest: arg_cong [of _ _ set])
  ultimately show ?thesis
    using assms(3) by (simp add: trim_both_def)
qed

lemma header_size_written:
  assumes "length name \<le> 100" "length mode = 24" "sz < 8 ^ 11"
  shows "header_size (tar_header name mode sz rest) = sz"
proof -
  define digits where "digits = octal_str 11 sz"
  have digits: "length digits = 11" "octal_digits 0 digits = Some sz"
    using octal_digits_str [OF assms(3), of 0] by (simp_all add: digits_def)
  have "drop 124 (tar_header name mode sz rest) = str_bytes digits @ [0] @ rest"
    using assms(1,2) by (simp add: tar_header_def digits_def)
  then have t: "take 12 (drop 124 (tar_header name mode sz rest)) = str_bytes (digits @ [CHR 0x00])"
    using digits(1) by (simp add: str_bytes_def)
  have chars: "48 \<le> (of_char c :: nat) \<and> (of_char c :: nat) < 56" if "c \<in> set digits" for c
    using octal_str_chars that by (simp add: digits_def)
  have utf: "from_utf8 (str_bytes (digits @ [CHR 0x00])) = Some (digits @ [CHR 0x00])"
    by (rule from_utf8_ascii) (auto simp: list_all_iff dest: chars)
  have ne: "digits \<noteq> []" "\<forall>c \<in> set digits. \<not> (c = CHR '' '' \<or> c = CHR 0x00)" "\<forall>c \<in> set digits. c \<noteq> CHR ''+''"
    using digits(1) by (auto dest: chars)
  have "trim_both (\<lambda>c. c = CHR '' '' \<or> c = CHR 0x00) (digits @ [CHR 0x00]) = digits"
    by (rule trim_both_written) (use ne in auto)
  moreover have "from_octal digits = Some sz"
    using ne(1,3) digits(2) by (cases digits) (simp_all add: from_octal_def)
  ultimately show ?thesis
    unfolding header_size_def Let_def t utf by simp
qed

section \<open>Walking a written archive\<close>

lemma length_write_entry:
  assumes "entry_ok e"
  shows "length (write_entry e) = 512 + (length (te_data e) + 511) div 512 * 512"
proof -
  have "sz \<le> (sz + 511) div 512 * 512" for sz :: nat
    by linarith
  then show ?thesis
    using assms by (simp add: write_entry_def tar_header_def entry_ok_def Let_def)
qed

lemma written_header:
  assumes "entry_ok e"
  shows "take 512 (write_entry e) = tar_header (te_name e) (te_mode e) (length (te_data e)) (te_rest e)"
    "take (length (te_data e)) (drop 512 (write_entry e)) = te_data e"
    "header_name (take 512 (write_entry e)) = te_name e" "header_size (take 512 (write_entry e)) = length (te_data e)"
    "take 512 (write_entry e) ! 0 \<noteq> 0"
proof -
  let ?h = "tar_header (te_name e) (te_mode e) (length (te_data e)) (te_rest e)"
  have len: "length ?h = 512"
    using assms by (simp add: tar_header_def entry_ok_def)
  then show t: "take 512 (write_entry e) = ?h" and "take (length (te_data e)) (drop 512 (write_entry e)) = te_data e"
    by (simp_all add: write_entry_def Let_def)
  show "header_name (take 512 (write_entry e)) = te_name e" "header_size (take 512 (write_entry e)) = length (te_data e)"
    using assms unfolding t by (simp_all add: header_name_written header_size_written entry_ok_def)
  obtain c cs where c: "te_name e = c # cs" "0 < (of_char c :: nat)" "(of_char c :: nat) < 128"
    using assms by (cases "te_name e") (auto simp: entry_ok_def)
  then have "unat (of_nat (of_char c) :: u8) \<noteq> 0"
    by (simp add: unat_of_nat)
  then show "take 512 (write_entry e) ! 0 \<noteq> 0"
    unfolding t using c(1) by (auto simp: tar_header_def str_bytes_def)
qed

text \<open>One step of each loop, at an entry and at the end.\<close>

lemma archive_step:
  assumes "entry_ok e" and raw_def: "raw = pre @ write_entry e @ post"
  shows "length pre + 512 \<le> length raw" "take 512 (drop (length pre) raw) = take 512 (write_entry e)"
    "length pre + 512 + length (te_data e) \<le> length raw" "take (length (te_data e)) (drop (length pre + 512) raw) = te_data e"
    "next_offset (length pre + 512) (length (te_data e)) = length (pre @ write_entry e)"
proof -
  have len: "length (write_entry e) = 512 + (length (te_data e) + 511) div 512 * 512"
    by (rule length_write_entry [OF assms(1)])
  have le: "length (te_data e) \<le> (length (te_data e) + 511) div 512 * 512"
    by linarith
  show "length pre + 512 \<le> length raw" "take 512 (drop (length pre) raw) = take 512 (write_entry e)"
    "length pre + 512 + length (te_data e) \<le> length raw" "next_offset (length pre + 512) (length (te_data e)) = length (pre @ write_entry e)"
    using len le by (simp_all add: raw_def next_offset_def)
  have "drop (length pre + 512) raw = drop 512 (write_entry e) @ post"
    using len by (simp add: raw_def)
  then show "take (length (te_data e)) (drop (length pre + 512) raw) = te_data e"
    using written_header(2) [OF assms(1)] len le by simp
qed

definition entry_at :: "u8 list \<Rightarrow> nat \<Rightarrow> tar_entry \<Rightarrow> bool" where
  "entry_at raw offset e \<longleftrightarrow> offset + 512 + length (te_data e) \<le> length raw
     \<and> take 512 (drop offset raw) ! 0 \<noteq> 0 \<and> header_name (take 512 (drop offset raw)) = te_name e
     \<and> header_size (take 512 (drop offset raw)) = length (te_data e) \<and> take (length (te_data e)) (drop (offset + 512) raw) = te_data e"

lemma entry_at_written:
  assumes "entry_ok e" "raw = pre @ write_entry e @ post"
  shows "entry_at raw (length pre) e" "next_offset (length pre + 512) (length (te_data e)) = length (pre @ write_entry e)"
  using archive_step [OF assms] written_header(3-5) [OF assms(1)] by (simp_all add: entry_at_def)

lemma tar_open_loop_entry:
  "entry_at raw offset e \<Longrightarrow> tar_open_loop raw path offset =
     (if te_name e = path then Inr \<lparr>tf_name = te_name e, tf_data = te_data e\<rparr>
      else tar_open_loop raw path (next_offset (offset + 512) (length (te_data e))))"
  by (subst tar_open_loop.simps) (auto simp: entry_at_def Let_def)

lemma tar_read_dir_loop_entry:
  "entry_at raw offset e \<Longrightarrow> tar_read_dir_loop raw path offset entries =
     tar_read_dir_loop raw path (next_offset (offset + 512) (length (te_data e))) (list_file path (te_name e) entries)"
  by (subst tar_read_dir_loop.simps) (auto simp: entry_at_def Let_def)

lemma tar_open_loop_written:
  "list_all entry_ok es \<Longrightarrow>
   tar_open_loop (pre @ concat (map write_entry es) @ replicate 1024 0) path (length pre) =
   (case find (\<lambda>e. te_name e = path) es of
      None \<Rightarrow> Inl NotFound
    | Some e \<Rightarrow> Inr \<lparr>tf_name = te_name e, tf_data = te_data e\<rparr>)"
proof (induction es arbitrary: pre)
  case Nil
  show ?case
    by (subst tar_open_loop.simps) simp
next
  case (Cons e es)
  define raw where "raw = pre @ concat (map write_entry (e # es)) @ replicate 1024 0"
  have raw: "raw = pre @ write_entry e @ concat (map write_entry es) @ replicate 1024 0"
      "raw = (pre @ write_entry e) @ concat (map write_entry es) @ replicate 1024 0"
    by (simp_all add: raw_def)
  have "entry_ok e"
    using Cons.prems by simp
  note at = entry_at_written [OF this raw(1)]
  have "tar_open_loop raw path (length pre) =
      (if te_name e = path then Inr \<lparr>tf_name = te_name e, tf_data = te_data e\<rparr>
       else tar_open_loop raw path (length (pre @ write_entry e)))"
    unfolding tar_open_loop_entry [OF at(1)] at(2) ..
  then show ?case
    using Cons.IH [of "pre @ write_entry e"] Cons.prems unfolding raw_def [symmetric] raw(2) [symmetric] by simp
qed

lemma tar_read_dir_loop_written:
  "list_all entry_ok es \<Longrightarrow>
   tar_read_dir_loop (pre @ concat (map write_entry es) @ replicate 1024 0) path (length pre) entries =
   fold (list_file path) (map te_name es) entries"
proof (induction es arbitrary: pre entries)
  case Nil
  show ?case
    by (subst tar_read_dir_loop.simps) simp
next
  case (Cons e es)
  define raw where "raw = pre @ concat (map write_entry (e # es)) @ replicate 1024 0"
  have raw: "raw = pre @ write_entry e @ concat (map write_entry es) @ replicate 1024 0"
      "raw = (pre @ write_entry e) @ concat (map write_entry es) @ replicate 1024 0"
    by (simp_all add: raw_def)
  have "entry_ok e"
    using Cons.prems by simp
  note at = entry_at_written [OF this raw(1)]
  have "tar_read_dir_loop raw path (length pre) entries =
      tar_read_dir_loop raw path (length (pre @ write_entry e)) (list_file path (te_name e) entries)"
    unfolding tar_read_dir_loop_entry [OF at(1)] at(2) ..
  then show ?case
    using Cons.IH [of "pre @ write_entry e"] Cons.prems unfolding raw_def [symmetric] raw(2) [symmetric] by simp
qed

section \<open>Properties\<close>

text \<open>Opening a file of a written archive: the first entry with the path, leading slashes removed, gives its
  name and exactly its data; without one the answer is \<open>NotFound\<close>.\<close>

theorem tar_open_written:
  assumes "list_all entry_ok es"
  shows "tar_open (write_archive es) path =
    (case find (\<lambda>e. te_name e = trim_start slash path) es of
       None \<Rightarrow> Inl NotFound
     | Some e \<Rightarrow> Inr \<lparr>tf_name = te_name e, tf_data = te_data e\<rparr>)"
  using tar_open_loop_written [OF assms, of "[]"] by (simp add: tar_open_def write_archive_def)

theorem tar_open_written_witness:
  "tar_open (write_archive [\<lparr>te_name = ''bin/sh'', te_mode = replicate 24 0, te_rest = replicate 376 0, te_data = [1, 2, 3]\<rparr>]) ''/bin/sh'' =
     Inr \<lparr>tf_name = ''bin/sh'', tf_data = [1, 2, 3]\<rparr>"
  using tar_open_written [of "[\<lparr>te_name = ''bin/sh'', te_mode = replicate 24 0, te_rest = replicate 376 0, te_data = [1, 2, 3]\<rparr>]" "''/bin/sh''"]
  by (simp add: entry_ok_def trim_start_def slash_def)

text \<open>The two searches agree on every archive, written or damaged.\<close>

theorem get_file_open:
  "get_file raw name = (case tar_open raw name of Inr f \<Rightarrow> Some f | Inl _ \<Rightarrow> None)"
proof -
  have "get_file_loop raw n offset = (case tar_open_loop raw n offset of Inr f \<Rightarrow> Some f | Inl _ \<Rightarrow> None)" for n offset
  proof (induction raw n offset rule: get_file_loop.induct)
    case (1 raw name offset)
    then show ?case
      by (subst get_file_loop.simps, subst tar_open_loop.simps) (simp add: Let_def)
  qed
  then show ?thesis
    by (simp add: get_file_def tar_open_def)
qed

text \<open>A directory listing names no entry twice.\<close>

lemma tar_read_dir_distinct: "tar_read_dir raw path = Inr entries \<Longrightarrow> distinct entries"
proof -
  have push: "distinct entries \<Longrightarrow> distinct (list_file path name entries)" for path name entries
    by (simp add: list_file_def push_new_def Let_def)
  have "distinct entries \<Longrightarrow> distinct (tar_read_dir_loop raw path offset entries)" for path offset entries
    by (induction raw path offset entries rule: tar_read_dir_loop.induct)
      (subst tar_read_dir_loop.simps, simp add: Let_def push)
  then show "tar_read_dir raw path = Inr entries \<Longrightarrow> distinct entries"
    by (auto simp: tar_read_dir_def)
qed

end
