(* ===== verification/RamFs.thy ===== *)
theory RamFs
  imports Vfs BTreeMap
begin

text \<open>
  \<open>kernel/src/fs/ramfs.rs\<close>: the file system in memory.  Files and directories are shared objects behind
  reference counts; here they live in two arenas, a reference is an index, and a new object is appended, so
  that two handles of one file see each other's writes and a removed file stays with its open handles.  The
  root is directory 0.  Cursors and lengths are natural numbers: a vector is shorter than \<open>2\<^sup>6\<^sup>3\<close>.
\<close>

section \<open>State\<close>

datatype RamFsNode = File nat | Directory nat

record RamFs =
  rf_files :: "u8 list list"
  rf_dirs :: "(string, RamFsNode) btree list"

record RamFsFileHandle =
  rh_file :: nat
  rh_cursor :: nat

definition ramfs_new :: RamFs where
  "ramfs_new = \<lparr>rf_files = [], rf_dirs = [[]]\<rparr>"

section \<open>Open files\<close>

definition ram_read :: "RamFs \<Rightarrow> RamFsFileHandle \<Rightarrow> nat \<Rightarrow> (FsError + u8 list) \<times> RamFsFileHandle" where
  "ram_read fs h len =
     (let data = rf_files fs ! rh_file h
      in if rh_cursor h \<ge> length data then (Inr [], h)
         else let available = length data - rh_cursor h; to_read = min available len
              in (Inr (take to_read (drop (rh_cursor h) data)), h\<lparr>rh_cursor := rh_cursor h + to_read\<rparr>))"

definition ram_write :: "u8 list \<Rightarrow> RamFs \<times> RamFsFileHandle \<Rightarrow> (FsError + nat) \<times> RamFs \<times> RamFsFileHandle" where
  "ram_write buf = (\<lambda>(fs, h).
     let data = rf_files fs ! rh_file h;
         end_pos = rh_cursor h + length buf;
         data = (if end_pos > length data then data @ replicate (end_pos - length data) 0 else data);
         data = take (rh_cursor h) data @ buf @ drop end_pos data
     in (Inr (length buf), fs\<lparr>rf_files := (rf_files fs)[rh_file h := data]\<rparr>, h\<lparr>rh_cursor := end_pos\<rparr>))"

definition ram_size :: "RamFs \<Rightarrow> RamFsFileHandle \<Rightarrow> nat" where
  "ram_size fs h = length (rf_files fs ! rh_file h)"

definition ram_seek :: "RamFs \<Rightarrow> nat \<Rightarrow> RamFsFileHandle \<Rightarrow> (FsError + nat) \<times> RamFsFileHandle" where
  "ram_seek fs offset h =
     (if offset > length (rf_files fs ! rh_file h) then (Inl IoError, h) else (Inr offset, h\<lparr>rh_cursor := offset\<rparr>))"

section \<open>Paths\<close>

definition parts :: "string \<Rightarrow> string list" where
  "parts path = filter (\<lambda>s. s \<noteq> '''') (str_split (CHR ''/'') path)"

fun resolve_parent_loop :: "RamFs \<Rightarrow> nat \<Rightarrow> string list \<Rightarrow> FsError + nat" where
  "resolve_parent_loop fs current [] = Inr current"
| "resolve_parent_loop fs current (part # ps) =
     (case bt_get (rf_dirs fs ! current) part of
        Some (Directory d) \<Rightarrow> resolve_parent_loop fs d ps
      | Some (File _) \<Rightarrow> Inl NotDirectory
      | None \<Rightarrow> Inl NotFound)"

definition resolve_parent :: "RamFs \<Rightarrow> string \<Rightarrow> FsError + nat \<times> string" where
  "resolve_parent fs path =
     (if parts path = [] then Inl NotFound
      else case resolve_parent_loop fs 0 (butlast (parts path)) of
             Inl e \<Rightarrow> Inl e
           | Inr d \<Rightarrow> Inr (d, last (parts path)))"

fun ram_open_loop :: "RamFs \<Rightarrow> nat \<Rightarrow> string list \<Rightarrow> (FsError + RamFsFileHandle) \<times> RamFs" where
  "ram_open_loop fs current_dir [] = (Inl NotFound, fs)"
| "ram_open_loop fs current_dir (part # ps) =
     (let is_last = (ps = [])
      in case bt_get (rf_dirs fs ! current_dir) part of
           Some (Directory d) \<Rightarrow> if is_last then (Inl IsDirectory, fs) else ram_open_loop fs d ps
         | Some (File f) \<Rightarrow> if is_last then (Inr \<lparr>rh_file = f, rh_cursor = 0\<rparr>, fs) else (Inl NotDirectory, fs)
         | None \<Rightarrow>
             if is_last
             then let f = length (rf_files fs)
                  in (Inr \<lparr>rh_file = f, rh_cursor = 0\<rparr>,
                      fs\<lparr>rf_files := rf_files fs @ [[]],
                         rf_dirs := (rf_dirs fs)[current_dir := bt_insert part (File f) (rf_dirs fs ! current_dir)]\<rparr>)
             else (Inl NotFound, fs))"

definition ram_open :: "string \<Rightarrow> RamFs \<Rightarrow> (FsError + RamFsFileHandle) \<times> RamFs" where
  "ram_open path fs =
     (if path = ''/'' \<or> path = '''' then (Inl IsDirectory, fs) else ram_open_loop fs 0 (parts path))"

fun ram_read_dir_loop :: "RamFs \<Rightarrow> nat \<Rightarrow> string list \<Rightarrow> FsError + nat" where
  "ram_read_dir_loop fs current_dir [] = Inr current_dir"
| "ram_read_dir_loop fs current_dir (part # ps) =
     (case bt_get (rf_dirs fs ! current_dir) part of
        Some (Directory d) \<Rightarrow> ram_read_dir_loop fs d ps
      | _ \<Rightarrow> Inl NotDirectory)"

definition ram_read_dir :: "string \<Rightarrow> RamFs \<Rightarrow> FsError + string list" where
  "ram_read_dir path fs =
     (case ram_read_dir_loop fs 0 (parts path) of
        Inl e \<Rightarrow> Inl e
      | Inr d \<Rightarrow> Inr (map (\<lambda>(name, node). case node of Directory _ \<Rightarrow> name @ ''/'' | File _ \<Rightarrow> name) (rf_dirs fs ! d)))"

fun ram_mkdir_loop :: "RamFs \<Rightarrow> nat \<Rightarrow> string list \<Rightarrow> (FsError + unit) \<times> RamFs" where
  "ram_mkdir_loop fs current_dir [] = (Inr (), fs)"
| "ram_mkdir_loop fs current_dir (part # ps) =
     (let is_last = (ps = [])
      in case bt_get (rf_dirs fs ! current_dir) part of
           Some (Directory d) \<Rightarrow> if is_last then (Inl AlreadyExists, fs) else ram_mkdir_loop fs d ps
         | Some (File _) \<Rightarrow> (Inl NotDirectory, fs)
         | None \<Rightarrow>
             if is_last
             then let d = length (rf_dirs fs)
                  in (Inr (), fs\<lparr>rf_dirs := (rf_dirs fs)[current_dir := bt_insert part (Directory d) (rf_dirs fs ! current_dir)] @ [[]]\<rparr>)
             else (Inl NotFound, fs))"

definition ram_mkdir :: "string \<Rightarrow> RamFs \<Rightarrow> (FsError + unit) \<times> RamFs" where
  "ram_mkdir path fs = (if parts path = [] then (Inl AlreadyExists, fs) else ram_mkdir_loop fs 0 (parts path))"

definition ram_remove :: "string \<Rightarrow> RamFs \<Rightarrow> (FsError + unit) \<times> RamFs" where
  "ram_remove path fs =
     (case resolve_parent fs path of
        Inl e \<Rightarrow> (Inl e, fs)
      | Inr (parent, name) \<Rightarrow>
          if bt_get (rf_dirs fs ! parent) name \<noteq> None
          then (Inr (), fs\<lparr>rf_dirs := (rf_dirs fs)[parent := bt_remove name (rf_dirs fs ! parent)]\<rparr>)
          else (Inl NotFound, fs))"

section \<open>The directory tree\<close>

fun walk :: "RamFs \<Rightarrow> nat \<Rightarrow> string list \<Rightarrow> RamFsNode option" where
  "walk fs d [] = Some (Directory d)"
| "walk fs d (p # ps) =
     (case bt_get (rf_dirs fs ! d) p of
        None \<Rightarrow> None
      | Some (File f) \<Rightarrow> if ps = [] then Some (File f) else None
      | Some (Directory d') \<Rightarrow> walk fs d' ps)"

lemma walk_snoc:
  "walk fs d (ps @ [x]) = (case walk fs d ps of Some (Directory e) \<Rightarrow> bt_get (rf_dirs fs ! e) x | _ \<Rightarrow> None)"
  by (induction fs d ps rule: walk.induct) (auto split: option.split RamFsNode.split)

lemma resolve_parent_loop_walk: "resolve_parent_loop fs d ps = Inr c \<longleftrightarrow> walk fs d ps = Some (Directory c)"
  by (induction fs d ps rule: walk.induct) (auto split: option.splits RamFsNode.splits)

text \<open>Opening and making a directory first resolve the parent, then look at the last component.\<close>

lemma ram_open_loop_parent:
  "ps \<noteq> [] \<Longrightarrow> ram_open_loop fs d ps =
     (case resolve_parent_loop fs d (butlast ps) of Inl e \<Rightarrow> (Inl e, fs) | Inr c \<Rightarrow> ram_open_loop fs c [last ps])"
  by (induction fs d ps rule: ram_open_loop.induct) (auto split: option.split RamFsNode.split sum.split)

lemma ram_mkdir_loop_parent:
  "ps \<noteq> [] \<Longrightarrow> ram_mkdir_loop fs d ps =
     (case resolve_parent_loop fs d (butlast ps) of Inl e \<Rightarrow> (Inl e, fs) | Inr c \<Rightarrow> ram_mkdir_loop fs c [last ps])"
  by (induction fs d ps rule: ram_mkdir_loop.induct) (auto split: option.split RamFsNode.split sum.split)

section \<open>The invariant\<close>

text \<open>References are in range, a directory is older than its subdirectories, and every object has one entry.\<close>

definition entry :: "RamFs \<Rightarrow> nat \<Rightarrow> string \<Rightarrow> RamFsNode option" where
  "entry fs d name = (if d < length (rf_dirs fs) then bt_get (rf_dirs fs ! d) name else None)"

definition node_ok :: "RamFs \<Rightarrow> nat \<Rightarrow> RamFsNode \<Rightarrow> bool" where
  "node_ok fs d node = (case node of Directory e \<Rightarrow> d < e \<and> e < length (rf_dirs fs) | File f \<Rightarrow> f < length (rf_files fs))"

definition ram_wf :: "RamFs \<Rightarrow> bool" where
  "ram_wf fs \<longleftrightarrow> rf_dirs fs \<noteq> [] \<and> list_all bt_wf (rf_dirs fs)
     \<and> (\<forall>d name node. entry fs d name = Some node \<longrightarrow> node_ok fs d node)
     \<and> (\<forall>d name d' name' node. entry fs d name = Some node \<longrightarrow> entry fs d' name' = Some node \<longrightarrow> d = d' \<and> name = name')"

lemma walk_range:
  assumes "ram_wf fs" "walk fs 0 ps = Some (Directory d)"
  shows "d < length (rf_dirs fs)"
  using assms(2)
proof (induction ps arbitrary: d rule: rev_induct)
  case (snoc x ps)
  then obtain e where "walk fs 0 ps = Some (Directory e)" "bt_get (rf_dirs fs ! e) x = Some (Directory d)"
    by (auto simp: walk_snoc split: option.splits RamFsNode.splits)
  then have "entry fs e x = Some (Directory d)"
    using snoc.IH by (simp add: entry_def)
  then have "node_ok fs e (Directory d)"
    using assms(1) unfolding ram_wf_def by blast
  then show ?case
    by (simp add: node_ok_def)
qed (use assms(1) in \<open>simp add: ram_wf_def\<close>)

lemma walk_entry:
  assumes "ram_wf fs"
  shows "walk fs 0 (ps @ [x]) = (case walk fs 0 ps of Some (Directory e) \<Rightarrow> entry fs e x | _ \<Rightarrow> None)"
  using walk_range [OF assms, of ps] by (auto simp: walk_snoc entry_def split: option.split RamFsNode.split)

lemma walk_snocE:
  assumes "ram_wf fs" "walk fs 0 (ps @ [x]) = Some node"
  obtains e where "walk fs 0 ps = Some (Directory e)" "entry fs e x = Some node"
  using assms by (auto simp: walk_entry split: option.splits RamFsNode.splits)

lemma entry_not_root: "ram_wf fs \<Longrightarrow> entry fs e x \<noteq> Some (Directory 0)"
  unfolding ram_wf_def node_ok_def by fastforce

lemma walk_inj:
  assumes "ram_wf fs" "walk fs 0 ps = Some node" "walk fs 0 qs = Some node"
  shows "ps = qs"
  using assms(2,3)
proof (induction ps arbitrary: qs node rule: rev_induct)
  case Nil
  then show ?case
    using entry_not_root [OF assms(1)] by (cases qs rule: rev_cases) (auto elim!: walk_snocE [OF assms(1)])
next
  case (snoc x ps)
  obtain e where e: "walk fs 0 ps = Some (Directory e)" "entry fs e x = Some node"
    by (rule walk_snocE [OF assms(1) snoc.prems(1)])
  show ?case
  proof (cases qs rule: rev_cases)
    case Nil
    then show ?thesis
      using e(2) snoc.prems(2) entry_not_root [OF assms(1)] by auto
  next
    case (snoc qs' y)
    then obtain e' where e': "walk fs 0 qs' = Some (Directory e')" "entry fs e' y = Some node"
      using walk_snocE [OF assms(1)] \<open>walk fs 0 qs = Some node\<close> by blast
    then have "e = e' \<and> x = y"
      using assms(1) e(2) unfolding ram_wf_def by blast
    then show ?thesis
      using snoc snoc.IH [OF e(1)] e'(1) by simp
  qed
qed

section \<open>Changes of one directory\<close>

lemma walk_add:
  assumes "ram_wf fs" "ram_wf fs'" "walk fs 0 r = Some (Directory d)" "entry fs d name = None"
    and new: "\<And>e x. entry fs' e x = (if e = d \<and> x = name then Some node else entry fs e x)"
    and fresh: "\<And>n. node = Directory n \<Longrightarrow> length (rf_dirs fs) \<le> n"
  shows "walk fs' 0 q = (if q = r @ [name] then Some node else walk fs 0 q)"
proof (induction q rule: rev_induct)
  case (snoc x q)
  note w = walk_entry [OF assms(1), of q x] and w' = walk_entry [OF assms(2), of q x]
  show ?case
  proof (cases "q = r @ [name]")
    case True
    have "walk fs 0 q = None"
      unfolding True walk_entry [OF assms(1)] using assms(3,4) by simp
    moreover have "walk fs' 0 (q @ [x]) = None"
    proof (cases node)
      case (Directory n)
      then have "n \<noteq> d" "entry fs n x = None"
        using fresh walk_range [OF assms(1,3)] by (auto simp: entry_def)
      then show ?thesis
        unfolding w' using snoc.IH True new Directory by simp
    next
      case (File f)
      then show ?thesis
        unfolding w' using snoc.IH True by simp
    qed
    moreover have "q @ [x] \<noteq> r @ [name]"
      using True by simp
    ultimately show ?thesis
      unfolding w by simp
  next
    case False
    then have IH: "walk fs' 0 q = walk fs 0 q"
      using snoc.IH by simp
    show ?thesis
    proof (cases "\<exists>e. walk fs 0 q = Some (Directory e)")
      case True
      then obtain e where e: "walk fs 0 q = Some (Directory e)" ..
      then have "e = d \<longleftrightarrow> q = r"
        using walk_inj [OF assms(1) e, of r] assms(3) by auto
      then show ?thesis
        unfolding w w' IH e by (simp add: new)
    next
      case False
      then have "q \<noteq> r" "(case walk fs 0 q of Some (Directory e) \<Rightarrow> f e | _ \<Rightarrow> None) = None" for f :: "nat \<Rightarrow> RamFsNode option"
        using assms(3) by (auto split: option.split RamFsNode.split)
      then show ?thesis
        unfolding w w' IH by simp
    qed
  qed
qed simp

lemma walk_delete:
  assumes "ram_wf fs" "ram_wf fs'" "walk fs 0 r = Some (Directory d)"
    and gone: "\<And>e x. entry fs' e x = (if e = d \<and> x = name then None else entry fs e x)"
  shows "walk fs' 0 q = (if take (Suc (length r)) q = r @ [name] then None else walk fs 0 q)"
proof (induction q rule: rev_induct)
  case (snoc x q)
  note w = walk_entry [OF assms(1), of q x] and w' = walk_entry [OF assms(2), of q x]
  show ?case
  proof (cases "take (Suc (length r)) q = r @ [name]")
    case True
    have "length (take (Suc (length r)) q) = Suc (length r)"
      unfolding True by simp
    then have "Suc (length r) \<le> length q"
      by simp
    then show ?thesis
      unfolding w' using snoc.IH True by simp
  next
    case False
    then have IH: "walk fs' 0 q = walk fs 0 q"
      using snoc.IH by simp
    have hit: "take (Suc (length r)) (q @ [x]) = r @ [name] \<longleftrightarrow> q = r \<and> x = name"
    proof
      assume t: "take (Suc (length r)) (q @ [x]) = r @ [name]"
      then have "length q < Suc (length r)"
        using False by (cases "Suc (length r) \<le> length q") simp_all
      moreover have "Suc (length r) \<le> Suc (length q)"
        by (metis t length_append_singleton length_take min.cobounded1)
      ultimately show "q = r \<and> x = name"
        using t by simp
    qed simp
    show ?thesis
    proof (cases "\<exists>e. walk fs 0 q = Some (Directory e)")
      case True
      then obtain e where e: "walk fs 0 q = Some (Directory e)" ..
      then have "e = d \<longleftrightarrow> q = r"
        using walk_inj [OF assms(1) e, of r] assms(3) by auto
      then show ?thesis
        unfolding w w' IH e hit by (simp add: gone)
    next
      case False
      then have "(case walk fs 0 q of Some (Directory e) \<Rightarrow> f e | _ \<Rightarrow> None) = None" for f :: "nat \<Rightarrow> RamFsNode option"
        by (auto split: option.split RamFsNode.split)
      then show ?thesis
        unfolding w w' IH by simp
    qed
  qed
qed simp

lemma ram_wf_add:
  assumes "ram_wf fs" "d < length (rf_dirs fs)" "entry fs d name = None"
    and "\<And>e x. entry fs' e x = (if e = d \<and> x = name then Some node else entry fs e x)"
    and "list_all bt_wf (rf_dirs fs')" "length (rf_dirs fs) \<le> length (rf_dirs fs')" "length (rf_files fs) \<le> length (rf_files fs')"
    and "node_ok fs' d node" "case node of Directory e \<Rightarrow> length (rf_dirs fs) \<le> e | File f \<Rightarrow> length (rf_files fs) \<le> f"
  shows "ram_wf fs'"
proof -
  have fresh: "entry fs e x \<noteq> Some node" for e x
    using assms(1,9) unfolding ram_wf_def node_ok_def by (fastforce split: RamFsNode.splits)
  have ok: "node_ok fs' e n" if "entry fs' e x = Some n" for e x n
  proof (cases "e = d \<and> x = name")
    case False
    then have "node_ok fs e n"
      using that assms(1,4) unfolding ram_wf_def by auto
    then show ?thesis
      using assms(6,7) by (auto simp: node_ok_def split: RamFsNode.splits)
  qed (use that assms(4,8) in auto)
  have "e = e' \<and> x = x'" if "entry fs' e x = Some n" "entry fs' e' x' = Some n" for e x e' x' n
    using that assms(1) fresh unfolding assms(4) ram_wf_def by (auto split: if_splits)
  then show ?thesis
    using ok assms(2,5,6) unfolding ram_wf_def by auto
qed

lemma ram_wf_dir: "ram_wf fs \<Longrightarrow> d < length (rf_dirs fs) \<Longrightarrow> bt_wf (rf_dirs fs ! d)"
  by (simp add: ram_wf_def list_all_length)

text \<open>The three changes: a new directory, a new file, a removed entry.\<close>

lemma add_dir_ok:
  assumes "ram_wf fs" "walk fs 0 r = Some (Directory c)" "entry fs c name = None"
    and fs': "fs' = fs\<lparr>rf_dirs := (rf_dirs fs)[c := bt_insert name (Directory (length (rf_dirs fs))) (rf_dirs fs ! c)] @ [[]]\<rparr>"
  shows "ram_wf fs'" "walk fs' 0 q = (if q = r @ [name] then Some (Directory (length (rf_dirs fs))) else walk fs 0 q)"
proof -
  let ?n = "length (rf_dirs fs)"
  have c: "c < ?n"
    by (rule walk_range [OF assms(1,2)])
  note wf = ram_wf_dir [OF assms(1) c]
  have new: "entry fs' e x = (if e = c \<and> x = name then Some (Directory ?n) else entry fs e x)" for e x
    using c bt_get_insert [OF wf] by (auto simp: entry_def fs' nth_append nth_list_update)
  have all: "list_all bt_wf (rf_dirs fs')"
    using assms(1) bt_insert_wf [OF wf] set_update_subset_insert [of "rf_dirs fs" c]
    by (auto simp: fs' ram_wf_def list_all_iff dest!: subsetD)
  show "ram_wf fs'"
    by (rule ram_wf_add [OF assms(1) c assms(3) new all]) (use c in \<open>simp_all add: fs' node_ok_def\<close>)
  then show "walk fs' 0 q = (if q = r @ [name] then Some (Directory ?n) else walk fs 0 q)"
    using walk_add [OF assms(1) _ assms(2,3) new] by simp
qed

lemma add_file_ok:
  assumes "ram_wf fs" "walk fs 0 r = Some (Directory c)" "entry fs c name = None"
    and fs': "fs' = fs\<lparr>rf_files := rf_files fs @ [[]], rf_dirs := (rf_dirs fs)[c := bt_insert name (File (length (rf_files fs))) (rf_dirs fs ! c)]\<rparr>"
  shows "ram_wf fs'" "walk fs' 0 q = (if q = r @ [name] then Some (File (length (rf_files fs))) else walk fs 0 q)"
proof -
  have c: "c < length (rf_dirs fs)"
    by (rule walk_range [OF assms(1,2)])
  note wf = ram_wf_dir [OF assms(1) c]
  have new: "entry fs' e x = (if e = c \<and> x = name then Some (File (length (rf_files fs))) else entry fs e x)" for e x
    using c bt_get_insert [OF wf] by (auto simp: entry_def fs' nth_list_update)
  have all: "list_all bt_wf (rf_dirs fs')"
    using assms(1) bt_insert_wf [OF wf] set_update_subset_insert [of "rf_dirs fs" c]
    by (auto simp: fs' ram_wf_def list_all_iff dest!: subsetD)
  show "ram_wf fs'"
    by (rule ram_wf_add [OF assms(1) c assms(3) new all]) (simp_all add: fs' node_ok_def)
  then show "walk fs' 0 q = (if q = r @ [name] then Some (File (length (rf_files fs))) else walk fs 0 q)"
    using walk_add [OF assms(1) _ assms(2,3) new] by simp
qed

lemma remove_ok:
  assumes "ram_wf fs" "walk fs 0 r = Some (Directory c)"
    and fs': "fs' = fs\<lparr>rf_dirs := (rf_dirs fs)[c := bt_remove name (rf_dirs fs ! c)]\<rparr>"
  shows "ram_wf fs'" "walk fs' 0 q = (if take (Suc (length r)) q = r @ [name] then None else walk fs 0 q)"
proof -
  have c: "c < length (rf_dirs fs)"
    by (rule walk_range [OF assms(1,2)])
  have gone: "entry fs' e x = (if e = c \<and> x = name then None else entry fs e x)" for e x
    using c by (auto simp: entry_def fs' bt_get_remove nth_list_update)
  have sub: "entry fs' e x = Some node \<Longrightarrow> entry fs e x = Some node" for e x node
    by (simp add: gone split: if_splits)
  have all: "list_all bt_wf (rf_dirs fs')"
    using assms(1) bt_remove_wf [OF ram_wf_dir [OF assms(1) c]] set_update_subset_insert [of "rf_dirs fs" c]
    by (auto simp: fs' ram_wf_def list_all_iff dest!: subsetD)
  have "node_ok fs' = node_ok fs" "rf_dirs fs' \<noteq> []"
    using c by (auto simp: node_ok_def fun_eq_iff fs' split: RamFsNode.split)
  then show "ram_wf fs'"
    using assms(1) all sub unfolding ram_wf_def by metis
  then show "walk fs' 0 q = (if take (Suc (length r)) q = r @ [name] then None else walk fs 0 q)"
    by (rule walk_delete [OF assms(1) _ assms(2) gone])
qed

section \<open>The specification: a map from paths to files and directories\<close>

datatype item = Dir | Data "u8 list"

type_synonym file_tree = "string list \<rightharpoonup> item"

text \<open>The first component of a path that is missing or not a directory.\<close>

fun spec_resolve :: "file_tree \<Rightarrow> string list \<Rightarrow> string list \<Rightarrow> FsError option" where
  "spec_resolve m pre [] = None"
| "spec_resolve m pre (x # xs) =
     (case m (pre @ [x]) of
        None \<Rightarrow> Some NotFound
      | Some (Data _) \<Rightarrow> Some NotDirectory
      | Some Dir \<Rightarrow> spec_resolve m (pre @ [x]) xs)"

definition spec_open :: "string \<Rightarrow> file_tree \<Rightarrow> FsError option \<times> file_tree" where
  "spec_open path m =
     (if path = ''/'' \<or> path = '''' then (Some IsDirectory, m)
      else if parts path = [] then (Some NotFound, m)
      else case spec_resolve m [] (butlast (parts path)) of
             Some e \<Rightarrow> (Some e, m)
           | None \<Rightarrow> (case m (parts path) of
                       Some Dir \<Rightarrow> (Some IsDirectory, m)
                     | Some (Data _) \<Rightarrow> (None, m)
                     | None \<Rightarrow> (None, m(parts path \<mapsto> Data []))))"

definition spec_mkdir :: "string \<Rightarrow> file_tree \<Rightarrow> FsError option \<times> file_tree" where
  "spec_mkdir path m =
     (if parts path = [] then (Some AlreadyExists, m)
      else case spec_resolve m [] (butlast (parts path)) of
             Some e \<Rightarrow> (Some e, m)
           | None \<Rightarrow> (case m (parts path) of
                       Some Dir \<Rightarrow> (Some AlreadyExists, m)
                     | Some (Data _) \<Rightarrow> (Some NotDirectory, m)
                     | None \<Rightarrow> (None, m(parts path \<mapsto> Dir))))"

definition spec_remove :: "string \<Rightarrow> file_tree \<Rightarrow> FsError option \<times> file_tree" where
  "spec_remove path m =
     (if parts path = [] then (Some NotFound, m)
      else case spec_resolve m [] (butlast (parts path)) of
             Some e \<Rightarrow> (Some e, m)
           | None \<Rightarrow>
               if m (parts path) = None then (Some NotFound, m)
               else (None, \<lambda>q. if take (length (parts path)) q = parts path then None else m q))"

text \<open>Writing at an offset: the file is opened, the cursor set, the bytes written.\<close>

definition spec_put :: "string \<Rightarrow> nat \<Rightarrow> u8 list \<Rightarrow> file_tree \<Rightarrow> FsError option \<times> file_tree" where
  "spec_put path offset buf m =
     (case spec_open path m of
        (Some e, m) \<Rightarrow> (Some e, m)
      | (None, m) \<Rightarrow>
          (case m (parts path) of
             Some (Data data) \<Rightarrow>
               if offset > length data then (Some IoError, m)
               else (None, m(parts path \<mapsto> Data (take offset data @ buf @ drop (offset + length buf) data)))
           | _ \<Rightarrow> (None, m)))"

definition ram_put :: "string \<Rightarrow> nat \<Rightarrow> u8 list \<Rightarrow> RamFs \<Rightarrow> (FsError + nat) \<times> RamFs" where
  "ram_put path offset buf fs =
     (case ram_open path fs of
        (Inl e, fs) \<Rightarrow> (Inl e, fs)
      | (Inr h, fs) \<Rightarrow>
          (case ram_seek fs offset h of
             (Inl e, h) \<Rightarrow> (Inl e, fs)
           | (Inr _, h) \<Rightarrow> (let (r, fs, h) = ram_write buf (fs, h) in (r, fs))))"

definition tree :: "RamFs \<Rightarrow> file_tree" where
  "tree fs ps =
     (case walk fs 0 ps of
        None \<Rightarrow> None
      | Some (Directory _) \<Rightarrow> Some Dir
      | Some (File f) \<Rightarrow> Some (Data (rf_files fs ! f)))"

definition ram_failure :: "(FsError + 'a) \<Rightarrow> FsError option" where
  "ram_failure r = (case r of Inl e \<Rightarrow> Some e | Inr _ \<Rightarrow> None)"

section \<open>The file system refines the map\<close>

lemma spec_resolve_tree:
  assumes "walk fs 0 pre = Some (Directory d)"
  shows "case resolve_parent_loop fs d ps of
      Inl e \<Rightarrow> spec_resolve (tree fs) pre ps = Some e
    | Inr c \<Rightarrow> spec_resolve (tree fs) pre ps = None \<and> walk fs 0 (pre @ ps) = Some (Directory c)"
  using assms
proof (induction ps arbitrary: pre d)
  case (Cons x ps)
  have w: "walk fs 0 (pre @ [x]) = bt_get (rf_dirs fs ! d) x"
    using Cons.prems by (simp add: walk_snoc)
  then have t: "tree fs (pre @ [x]) =
      (case bt_get (rf_dirs fs ! d) x of None \<Rightarrow> None | Some (Directory _) \<Rightarrow> Some Dir | Some (File f) \<Rightarrow> Some (Data (rf_files fs ! f)))"
    by (simp add: tree_def)
  show ?case
  proof (cases "\<exists>e. bt_get (rf_dirs fs ! d) x = Some (Directory e)")
    case True
    then obtain e where e: "bt_get (rf_dirs fs ! d) x = Some (Directory e)" ..
    then show ?thesis
      using Cons.IH [of "pre @ [x]" e] w t by (simp split: sum.splits)
  qed (auto simp: t split: option.split RamFsNode.split)
qed simp

lemma parent_cases:
  assumes "ram_wf fs" "ps \<noteq> []"
  obtains (error) e where "resolve_parent_loop fs 0 (butlast ps) = Inl e" "spec_resolve (tree fs) [] (butlast ps) = Some e"
  | (parent) c where "resolve_parent_loop fs 0 (butlast ps) = Inr c" "spec_resolve (tree fs) [] (butlast ps) = None"
      "walk fs 0 (butlast ps) = Some (Directory c)" "entry fs c (last ps) = walk fs 0 ps" "bt_get (rf_dirs fs ! c) (last ps) = walk fs 0 ps"
proof (cases "resolve_parent_loop fs 0 (butlast ps)")
  case (Inl e)
  then show thesis
    using error spec_resolve_tree [of fs "[]" 0 "butlast ps"] by simp
next
  case (Inr c)
  then have p: "spec_resolve (tree fs) [] (butlast ps) = None" "walk fs 0 (butlast ps) = Some (Directory c)"
    using spec_resolve_tree [of fs "[]" 0 "butlast ps"] by simp_all
  have w: "bt_get (rf_dirs fs ! c) (last ps) = walk fs 0 ps"
    using walk_snoc [of fs 0 "butlast ps" "last ps"] p(2) unfolding append_butlast_last_id [OF assms(2)] by simp
  have "entry fs c (last ps) = walk fs 0 ps"
    using walk_range [OF assms(1) p(2)] unfolding entry_def w by simp
  then show thesis
    using w by (rule parent [OF Inr p])
qed

lemma walk_file_range:
  assumes "ram_wf fs" "walk fs 0 ps = Some (File f)"
  shows "f < length (rf_files fs)"
proof -
  obtain qs x where "ps = qs @ [x]"
    using assms(2) by (cases ps rule: rev_cases) auto
  then obtain e where "entry fs e x = Some (File f)"
    using walk_snocE [OF assms(1)] assms(2) by blast
  then have "node_ok fs e (File f)"
    using assms(1) unfolding ram_wf_def by blast
  then show ?thesis
    by (simp add: node_ok_def)
qed

lemma tree_update:
  assumes "ram_wf fs" "\<And>q. walk fs' 0 q = (if q = p then Some node else walk fs 0 q)"
    and "\<And>f. f < length (rf_files fs) \<Longrightarrow> rf_files fs' ! f = rf_files fs ! f"
  shows "tree fs' = (tree fs)(p \<mapsto> (case node of Directory _ \<Rightarrow> Dir | File f \<Rightarrow> Data (rf_files fs' ! f)))"
proof
  fix q
  show "tree fs' q = ((tree fs)(p \<mapsto> (case node of Directory _ \<Rightarrow> Dir | File f \<Rightarrow> Data (rf_files fs' ! f)))) q"
    using assms(2) [of q] assms(3) walk_file_range [OF assms(1), of q]
    by (auto simp: tree_def split: option.split RamFsNode.split)
qed

lemma ram_mkdir_refines:
  assumes "ram_wf fs"
  shows "ram_wf (snd (ram_mkdir path fs))" "spec_mkdir path (tree fs) = (ram_failure (fst (ram_mkdir path fs)), tree (snd (ram_mkdir path fs)))"
proof -
  let ?ps = "parts path"
  have "ram_wf (snd (ram_mkdir path fs))
    \<and> spec_mkdir path (tree fs) = (ram_failure (fst (ram_mkdir path fs)), tree (snd (ram_mkdir path fs)))"
  proof (cases "?ps = []")
    case False
    show ?thesis
    proof (cases rule: parent_cases [OF assms False, case_names error parent])
      case (error e)
      then show ?thesis
        using False assms by (simp add: ram_mkdir_def spec_mkdir_def ram_mkdir_loop_parent ram_failure_def)
    next
      case (parent c)
      have m: "ram_mkdir path fs = ram_mkdir_loop fs c [last ?ps]"
        using parent(1) False by (simp add: ram_mkdir_def ram_mkdir_loop_parent)
      show ?thesis
      proof (cases "walk fs 0 ?ps")
        case None
        let ?fs = "fs\<lparr>rf_dirs := (rf_dirs fs)[c := bt_insert (last ?ps) (Directory (length (rf_dirs fs))) (rf_dirs fs ! c)] @ [[]]\<rparr>"
        note add = add_dir_ok [OF assms parent(3) parent(4) [unfolded None] refl, unfolded append_butlast_last_id [OF False]]
        have "tree ?fs = (tree fs)(?ps \<mapsto> Dir)"
          by (rule tree_update [OF assms add(2), simplified])
        then show ?thesis
          using add(1) m parent(2,5) None False by (simp add: spec_mkdir_def ram_failure_def Let_def tree_def [of fs ?ps])
      next
        case (Some node)
        then show ?thesis
          using assms m parent(2,5) False
          by (cases node) (simp_all add: spec_mkdir_def ram_failure_def Let_def tree_def [of fs ?ps])
      qed
    qed
  qed (simp add: assms ram_mkdir_def spec_mkdir_def ram_failure_def)
  then show "ram_wf (snd (ram_mkdir path fs))"
    "spec_mkdir path (tree fs) = (ram_failure (fst (ram_mkdir path fs)), tree (snd (ram_mkdir path fs)))"
    by simp_all
qed

lemma ram_open_refines:
  assumes "ram_wf fs"
  shows "ram_wf (snd (ram_open path fs))
    \<and> spec_open path (tree fs) = (ram_failure (fst (ram_open path fs)), tree (snd (ram_open path fs)))
    \<and> (\<forall>h. fst (ram_open path fs) = Inr h \<longrightarrow> rh_cursor h = 0 \<and> walk (snd (ram_open path fs)) 0 (parts path) = Some (File (rh_file h)))"
proof -
  let ?ps = "parts path"
  consider "path = ''/'' \<or> path = ''''" | "path \<noteq> ''/''" "path \<noteq> ''''" "?ps = []" | "path \<noteq> ''/''" "path \<noteq> ''''" "?ps \<noteq> []"
    by blast
  then show ?thesis
  proof cases
    case 3
    show ?thesis
    proof (cases rule: parent_cases [OF assms 3(3), case_names error parent])
      case (error e)
      then show ?thesis
        using 3 assms by (simp add: ram_open_def spec_open_def ram_open_loop_parent ram_failure_def)
    next
      case (parent c)
      have o: "ram_open path fs = ram_open_loop fs c [last ?ps]"
        using parent(1) 3 by (simp add: ram_open_def ram_open_loop_parent)
      show ?thesis
      proof (cases "walk fs 0 ?ps")
        case None
        let ?fs = "fs\<lparr>rf_files := rf_files fs @ [[]], rf_dirs := (rf_dirs fs)[c := bt_insert (last ?ps) (File (length (rf_files fs))) (rf_dirs fs ! c)]\<rparr>"
        note add = add_file_ok [OF assms parent(3) parent(4) [unfolded None] refl, unfolded append_butlast_last_id [OF 3(3)]]
        have "tree ?fs = (tree fs)(?ps \<mapsto> Data [])"
          using tree_update [OF assms add(2)] by (simp add: nth_append)
        then show ?thesis
          using add(1) o parent(2,5) None 3 add(2) [of ?ps]
          by (simp add: spec_open_def ram_failure_def Let_def tree_def [of fs ?ps])
      next
        case (Some node)
        then show ?thesis
          using assms o parent(2,5) 3
          by (cases node) (simp_all add: spec_open_def ram_failure_def Let_def tree_def [of fs ?ps])
      qed
    qed
  qed (auto simp: assms ram_open_def spec_open_def ram_failure_def)
qed

lemma ram_remove_refines:
  assumes "ram_wf fs"
  shows "ram_wf (snd (ram_remove path fs))
    \<and> spec_remove path (tree fs) = (ram_failure (fst (ram_remove path fs)), tree (snd (ram_remove path fs)))"
proof (cases "parts path = []")
  case False
  let ?ps = "parts path"
  show ?thesis
  proof (cases rule: parent_cases [OF assms False, case_names error parent])
    case (error e)
    then show ?thesis
      using False assms by (simp add: ram_remove_def resolve_parent_def spec_remove_def ram_failure_def)
  next
    case (parent c)
    let ?fs = "fs\<lparr>rf_dirs := (rf_dirs fs)[c := bt_remove (last ?ps) (rf_dirs fs ! c)]\<rparr>"
    have len: "Suc (length (butlast ?ps)) = length ?ps"
      using False by simp
    note gone = remove_ok [OF assms parent(3) refl, unfolded append_butlast_last_id [OF False] len]
    have "tree ?fs = (\<lambda>q. if take (length ?ps) q = ?ps then None else tree fs q)"
    proof
      fix q
      show "tree ?fs q = (if take (length ?ps) q = ?ps then None else tree fs q)"
        using gone(2) [of "last ?ps" q, unfolded append_butlast_last_id [OF False]] by (simp add: tree_def split: option.split RamFsNode.split)
    qed
    moreover have "ram_remove path fs = (if walk fs 0 ?ps = None then (Inl NotFound, fs) else (Inr (), ?fs))"
      using False parent(1,5) by (simp add: ram_remove_def resolve_parent_def)
    moreover have "tree fs ?ps = None \<longleftrightarrow> walk fs 0 ?ps = None"
      by (simp add: tree_def split: option.split RamFsNode.split)
    ultimately show ?thesis
      using gone(1) [of "last ?ps"] assms parent(2) False by (simp add: spec_remove_def ram_failure_def)
  qed
qed (simp add: assms ram_remove_def resolve_parent_def spec_remove_def ram_failure_def)

lemma walk_files [simp]: "walk (fs\<lparr>rf_files := files\<rparr>) d ps = walk fs d ps"
  by (induction fs d ps rule: walk.induct) (simp_all split: option.split RamFsNode.split)

lemma ram_wf_files: "ram_wf fs \<Longrightarrow> length files = length (rf_files fs) \<Longrightarrow> ram_wf (fs\<lparr>rf_files := files\<rparr>)"
proof -
  assume wf: "ram_wf fs" and len: "length files = length (rf_files fs)"
  have "entry (fs\<lparr>rf_files := files\<rparr>) = entry fs" "node_ok (fs\<lparr>rf_files := files\<rparr>) = node_ok fs"
    using len by (auto simp: fun_eq_iff entry_def node_ok_def split: RamFsNode.split)
  then show ?thesis
    using wf by (simp add: ram_wf_def)
qed

lemma write_refines:
  assumes "ram_wf fs" "walk fs 0 ps = Some (File f)"
  shows "tree (fs\<lparr>rf_files := (rf_files fs)[f := data]\<rparr>) = (tree fs)(ps \<mapsto> Data data)"
proof
  fix q
  have "f < length (rf_files fs)"
    by (rule walk_file_range [OF assms])
  moreover have "walk fs 0 q = Some (File f) \<longleftrightarrow> q = ps"
    using walk_inj [OF assms(1), of q "File f" ps] assms(2) by auto
  ultimately show "tree (fs\<lparr>rf_files := (rf_files fs)[f := data]\<rparr>) q = ((tree fs)(ps \<mapsto> Data data)) q"
    using assms(2) by (auto simp: tree_def nth_list_update split: option.split RamFsNode.split)
qed

lemma ram_put_refines:
  assumes "ram_wf fs"
  shows "ram_wf (snd (ram_put path offset buf fs))
    \<and> spec_put path offset buf (tree fs) = (ram_failure (fst (ram_put path offset buf fs)), tree (snd (ram_put path offset buf fs)))"
proof -
  obtain r fs1 where open1: "ram_open path fs = (r, fs1)"
    by force
  note opened = ram_open_refines [OF assms, of path, unfolded open1 fst_conv snd_conv]
  show ?thesis
  proof (cases r)
    case (Inl e)
    then show ?thesis
      using opened open1 by (simp add: ram_put_def spec_put_def ram_failure_def)
  next
    case (Inr h)
    then have h: "ram_wf fs1" "spec_open path (tree fs) = (None, tree fs1)" "rh_cursor h = 0" "walk fs1 0 (parts path) = Some (File (rh_file h))"
      using opened by (simp_all add: ram_failure_def)
    let ?data = "rf_files fs1 ! rh_file h"
    have t: "tree fs1 (parts path) = Some (Data ?data)"
      using h(4) by (simp add: tree_def)
    show ?thesis
    proof (cases "offset > length ?data")
      case True
      then show ?thesis
        using Inr open1 h(1,2) t by (simp add: ram_put_def ram_seek_def spec_put_def ram_failure_def)
    next
      case False
      let ?new = "take offset ?data @ buf @ drop (offset + length buf) ?data"
      have "take offset (if offset + length buf > length ?data then ?data @ replicate (offset + length buf - length ?data) 0 else ?data) @
          buf @ drop (offset + length buf) (if offset + length buf > length ?data then ?data @ replicate (offset + length buf - length ?data) 0 else ?data)
        = ?new"
        using False by simp
      then have "ram_put path offset buf fs = (Inr (length buf), fs1\<lparr>rf_files := (rf_files fs1)[rh_file h := ?new]\<rparr>)"
        using Inr open1 False by (simp add: ram_put_def ram_seek_def ram_write_def Let_def)
      then show ?thesis
        using h(1,2) t False write_refines [OF h(1,4), of ?new] by (simp add: spec_put_def ram_failure_def ram_wf_files)
    qed
  qed
qed

section \<open>Properties\<close>

datatype ram_op = RamOpen string | RamMkdir string | RamRemove string | RamPut string nat "u8 list"

fun ram_step :: "ram_op \<Rightarrow> RamFs \<Rightarrow> FsError option \<times> RamFs" where
  "ram_step (RamOpen path) fs = (ram_failure (fst (ram_open path fs)), snd (ram_open path fs))"
| "ram_step (RamMkdir path) fs = (ram_failure (fst (ram_mkdir path fs)), snd (ram_mkdir path fs))"
| "ram_step (RamRemove path) fs = (ram_failure (fst (ram_remove path fs)), snd (ram_remove path fs))"
| "ram_step (RamPut path offset buf) fs = (ram_failure (fst (ram_put path offset buf fs)), snd (ram_put path offset buf fs))"

fun spec_step :: "ram_op \<Rightarrow> file_tree \<Rightarrow> FsError option \<times> file_tree" where
  "spec_step (RamOpen path) m = spec_open path m"
| "spec_step (RamMkdir path) m = spec_mkdir path m"
| "spec_step (RamRemove path) m = spec_remove path m"
| "spec_step (RamPut path offset buf) m = spec_put path offset buf m"

fun run_ops :: "('op \<Rightarrow> 's \<Rightarrow> 'r \<times> 's) \<Rightarrow> 'op list \<Rightarrow> 's \<Rightarrow> 'r list \<times> 's" where
  "run_ops step [] s = ([], s)"
| "run_ops step (op # ops) s = (let (r, s) = step op s; (rs, s) = run_ops step ops s in (r # rs, s))"

lemma ram_step_refines:
  "ram_wf fs \<Longrightarrow> ram_wf (snd (ram_step op fs)) \<and> spec_step op (tree fs) = (fst (ram_step op fs), tree (snd (ram_step op fs)))"
  by (cases op) (simp_all add: ram_open_refines ram_mkdir_refines ram_remove_refines ram_put_refines)

text \<open>C18: The file system in memory refines a map from paths to files and directories.  Every sequence of opening,
  making directories, removing and writing gives the same errors as the map and ends in the same tree:
  opening creates exactly the missing file, removing an entry removes exactly the paths below it, and a
  write changes exactly its file.\<close>

theorem ramfs_refines_tree:
  "run_ops spec_step ops [[] \<mapsto> Dir] = (let (failures, fs) = run_ops ram_step ops ramfs_new in (failures, tree fs))"
proof -
  have "run_ops spec_step ops (tree fs) = (let (failures, fs) = run_ops ram_step ops fs in (failures, tree fs))" if "ram_wf fs" for fs
    using that
  proof (induction ops arbitrary: fs)
    case (Cons op ops)
    obtain r fs1 where step: "ram_step op fs = (r, fs1)"
      by force
    then have "ram_wf fs1" "spec_step op (tree fs) = (r, tree fs1)"
      using ram_step_refines [OF Cons.prems, of op] by simp_all
    then show ?case
      using Cons.IH [of fs1] step by (simp add: split_beta Let_def)
  qed simp
  moreover have "ram_wf ramfs_new"
    by (simp add: ram_wf_def ramfs_new_def entry_def)
  moreover have "tree ramfs_new = [[] \<mapsto> Dir]"
  proof
    fix q
    show "tree ramfs_new q = ([[] \<mapsto> Dir]) q"
      by (cases q) (simp_all add: tree_def ramfs_new_def)
  qed
  ultimately show ?thesis
    by metis
qed

end
