(* ===== verification/Mounts.thy ===== *)
theory Mounts
  imports Tar RamFs
begin

text \<open>
  The file systems that \<open>kernel/src/main.rs\<close> mounts: the boot archive at the root and a file system in memory
  at \<open>/home\<close>, behind the mount table of \<open>Vfs\<close>.  The trait objects become the two constructors; the
  methods a type does not define are the defaults of the trait.
\<close>

section \<open>The trait objects\<close>

datatype MountedFs = TarMount TarArchive | RamMount RamFs

datatype OpenFile = TarHandle TarFile | RamHandle RamFsFileHandle

fun fs_open :: "string \<Rightarrow> MountedFs \<Rightarrow> (FsError + OpenFile) \<times> MountedFs" where
  "fs_open path (TarMount raw) = (map_sum (\<lambda>e. e) TarHandle (tar_open raw path), TarMount raw)"
| "fs_open path (RamMount fs) = map_prod (map_sum (\<lambda>e. e) RamHandle) RamMount (ram_open path fs)"

fun fs_read_dir :: "string \<Rightarrow> MountedFs \<Rightarrow> (FsError + string list) \<times> MountedFs" where
  "fs_read_dir path (TarMount raw) = (tar_read_dir raw path, TarMount raw)"
| "fs_read_dir path (RamMount fs) = (ram_read_dir path fs, RamMount fs)"

fun fs_mkdir :: "string \<Rightarrow> MountedFs \<Rightarrow> (FsError + unit) \<times> MountedFs" where
  "fs_mkdir path (TarMount raw) = (Inl PermissionDenied, TarMount raw)"
| "fs_mkdir path (RamMount fs) = map_prod (\<lambda>r. r) RamMount (ram_mkdir path fs)"

fun fs_remove :: "string \<Rightarrow> MountedFs \<Rightarrow> (FsError + unit) \<times> MountedFs" where
  "fs_remove path (TarMount raw) = (Inl PermissionDenied, TarMount raw)"
| "fs_remove path (RamMount fs) = map_prod (\<lambda>r. r) RamMount (ram_remove path fs)"

definition vfs_open :: "string \<Rightarrow> MountedFs Vfs \<Rightarrow> (FsError + OpenFile) \<times> MountedFs Vfs" where
  "vfs_open = vfs_call fs_open"

definition vfs_read_dir :: "string \<Rightarrow> MountedFs Vfs \<Rightarrow> (FsError + string list) \<times> MountedFs Vfs" where
  "vfs_read_dir = vfs_call fs_read_dir"

definition vfs_mkdir :: "string \<Rightarrow> MountedFs Vfs \<Rightarrow> (FsError + unit) \<times> MountedFs Vfs" where
  "vfs_mkdir = vfs_call fs_mkdir"

definition vfs_remove :: "string \<Rightarrow> MountedFs Vfs \<Rightarrow> (FsError + unit) \<times> MountedFs Vfs" where
  "vfs_remove = vfs_call fs_remove"

definition boot_mounts :: "TarArchive \<Rightarrow> MountedFs Vfs" where
  "boot_mounts tar_data = vfs_mount ''/home'' (RamMount ramfs_new) (vfs_mount ''/'' (TarMount tar_data) vfs_new)"

section \<open>Sequences of operations on the boot mounts\<close>

datatype vfs_op = VfsOpen string | VfsReadDir string | VfsMkdir string | VfsRemove string

definition outcome :: "(FsError + 'a) \<times> 's \<Rightarrow> FsError option \<times> 's" where
  "outcome p = (ram_failure (fst p), snd p)"

fun vfs_step :: "vfs_op \<Rightarrow> MountedFs Vfs \<Rightarrow> FsError option \<times> MountedFs Vfs" where
  "vfs_step (VfsOpen path) vfs = outcome (vfs_open path vfs)"
| "vfs_step (VfsReadDir path) vfs = outcome (vfs_read_dir path vfs)"
| "vfs_step (VfsMkdir path) vfs = outcome (vfs_mkdir path vfs)"
| "vfs_step (VfsRemove path) vfs = outcome (vfs_remove path vfs)"

lemma boot_call:
  fixes call :: "string \<Rightarrow> MountedFs \<Rightarrow> (FsError + 'a) \<times> MountedFs"
  shows "vfs_call call path [(''/'', a), (''/home'', b)] =
    (if starts_with path ''/home''
     then let (r, b) = call (if path = ''/home'' then ''/'' else drop 5 path) b in (r, [(''/'', a), (''/home'', b)])
     else if starts_with path ''/''
     then let (r, a) = call (if path = ''/'' then ''/'' else drop 1 path) a in (r, [(''/'', a), (''/home'', b)])
     else (Inl NotFound, [(''/'', a), (''/home'', b)]))"
  using vfs_call_last [of path "''/home''" "[]" call "[(''/'', a)]" b] vfs_call_last [of path "''/''" "[(''/home'', b)]" call "[]" a]
    vfs_call_none [of "[(''/'', a), (''/home'', b)]" path call]
  by (auto simp: eval_nat_numeral)

definition home_path :: "string \<Rightarrow> string" where
  "home_path path = (if path = ''/home'' then ''/'' else drop 5 path)"

text \<open>The operation that the file system in memory sees, if any.\<close>

fun home_op :: "vfs_op \<Rightarrow> ram_op list" where
  "home_op (VfsOpen path) = (if starts_with path ''/home'' then [RamOpen (home_path path)] else [])"
| "home_op (VfsReadDir path) = []"
| "home_op (VfsMkdir path) = (if starts_with path ''/home'' then [RamMkdir (home_path path)] else [])"
| "home_op (VfsRemove path) = (if starts_with path ''/home'' then [RamRemove (home_path path)] else [])"

lemma vfs_step_boot:
  "snd (vfs_step op [(''/'', TarMount tar), (''/home'', RamMount fs)]) =
     [(''/'', TarMount tar), (''/home'', RamMount (snd (run_ops ram_step (home_op op) fs)))]"
  by (cases op) (simp_all add: outcome_def vfs_open_def vfs_read_dir_def vfs_mkdir_def vfs_remove_def boot_call home_path_def
      split_beta Let_def map_prod_def)

lemma run_ops_append:
  "snd (run_ops step (xs @ ys) s) = snd (run_ops step ys (snd (run_ops step xs s)))"
  by (induction xs arbitrary: s) (simp_all add: split_beta Let_def)

text \<open>C25: The mounts do not disturb each other.  Through any sequence of operations the boot archive stays as it
  was loaded, and the file system at \<open>/home\<close> is in the state that the operations under that prefix, and no
  others, lead to.  The prefix is matched without a separator, so \<open>/homework\<close> is one of them.\<close>

theorem boot_mounts_isolated:
  "snd (run_ops vfs_step ops (boot_mounts tar)) =
     [(''/'', TarMount tar), (''/home'', RamMount (snd (run_ops ram_step (concat (map home_op ops)) ramfs_new)))]"
proof -
  have "snd (run_ops vfs_step ops [(''/'', TarMount tar), (''/home'', RamMount fs)]) =
      [(''/'', TarMount tar), (''/home'', RamMount (snd (run_ops ram_step (concat (map home_op ops)) fs)))]" for fs
    by (induction ops arbitrary: fs) (simp_all add: split_beta Let_def vfs_step_boot run_ops_append)
  then show ?thesis
    by (simp add: boot_mounts_def vfs_mount_def vfs_new_def)
qed

end
