(* ===== verification/PhysMem.thy ===== *)
theory PhysMem
  imports Vmm
begin

text \<open>
  Bytes of physical memory, for the program loaders.  A frame is the array of 512 words that \<open>Vmm\<close> sees as a
  page table; the loaders write the same words byte by byte, in little-endian order, through the direct map.
\<close>

section \<open>Bytes of a frame\<close>

definition set_byte :: "u64 \<Rightarrow> nat \<Rightarrow> u8 \<Rightarrow> u64" where
  "set_byte w k b = (w AND NOT (push_bit (8 * k) (mask 8))) OR push_bit (8 * k) (ucast b)"

definition frame_byte :: "Vm \<Rightarrow> u64 \<Rightarrow> nat \<Rightarrow> u8" where
  "frame_byte s t off = ucast (drop_bit (8 * (off mod 8)) (vm_mem s t (off div 8)))"

definition vm_write_byte :: "u64 \<Rightarrow> nat \<Rightarrow> u8 \<Rightarrow> Vm \<Rightarrow> Vm" where
  "vm_write_byte t off b s = vm_set_entry t (off div 8) (set_byte (vm_mem s t (off div 8)) (off mod 8) b) s"

text \<open>\<open>copy_nonoverlapping\<close> into a frame.\<close>

fun vm_copy :: "u64 \<Rightarrow> nat \<Rightarrow> u8 list \<Rightarrow> Vm \<Rightarrow> Vm" where
  "vm_copy t off [] s = s"
| "vm_copy t off (b # bs) s = vm_copy t (Suc off) bs (vm_write_byte t off b s)"

text \<open>The byte at a physical address.\<close>

definition phys_byte :: "Vm \<Rightarrow> u64 \<Rightarrow> u8" where
  "phys_byte s a = frame_byte s (a AND NOT 0xFFF) (unat (a AND 0xFFF))"

definition phys_write :: "Vm \<Rightarrow> u64 \<Rightarrow> u8 \<Rightarrow> Vm" where
  "phys_write s p b = vm_write_byte (p AND NOT 0xFFF) (unat (p AND 0xFFF)) b s"

lemma byte_of_set_byte:
  assumes "k < 8" "k' < 8"
  shows "(ucast (drop_bit (8 * k') (set_byte w k b)) :: u8) = (if k = k' then b else ucast (drop_bit (8 * k') w))"
proof (rule bit_word_eqI)
  fix n
  assume "n < LENGTH(8)"
  then have n: "n < 8"
    by simp
  have ff: "bit (mask 8 :: u64) m \<longleftrightarrow> m < 8" for m
    by (auto simp: bit_mask_iff)
  show "bit (ucast (drop_bit (8 * k') (set_byte w k b)) :: u8) n \<longleftrightarrow> bit (if k = k' then b else ucast (drop_bit (8 * k') w)) n"
  proof (cases "k = k'")
    case True
    then show ?thesis
      using n assms by (auto simp: set_byte_def bit_ucast_iff bit_drop_bit_eq bit_or_iff bit_and_iff bit_not_iff bit_push_bit_iff ff
          dest: bit_imp_le_length)
  next
    case False
    then have "8 * k' + n < 8 * k \<or> 8 * k + 8 \<le> 8 * k' + n"
      using n by linarith
    then show ?thesis
      using False n assms
      by (auto simp: set_byte_def bit_ucast_iff bit_drop_bit_eq bit_or_iff bit_and_iff bit_not_iff bit_push_bit_iff ff
          dest: bit_imp_le_length)
  qed
qed

lemma frame_byte_write:
  "frame_byte (vm_write_byte t off b s) t' off' = (if t = t' \<and> off = off' then b else frame_byte s t' off')"
proof -
  have same: "off = off' \<longleftrightarrow> off div 8 = off' div 8 \<and> off mod 8 = off' mod 8"
    by (metis div_mult_mod_eq)
  show ?thesis
    unfolding same using byte_of_set_byte [of "off mod 8" "off' mod 8" "vm_mem s t (off div 8)" b]
    by (cases "t = t' \<and> off div 8 = off' div 8"; cases "off mod 8 = off' mod 8") (auto simp: frame_byte_def vm_write_byte_def vm_mem_set)
qed

lemma frame_byte_copy:
  "frame_byte (vm_copy t off bs s) t' off' =
     (if t = t' \<and> off \<le> off' \<and> off' < off + length bs then bs ! (off' - off) else frame_byte s t' off')"
proof (induction t off bs s rule: vm_copy.induct)
  case (2 t off b bs s)
  then show ?case
    by (cases "off' = off") (auto simp: frame_byte_write nth_Cons' Suc_diff_Suc)
qed auto

lemma frame_byte_zero: "frame_byte (vm_zero_page t s) t' off = (if t = t' then 0 else frame_byte s t' off)"
  by (simp add: frame_byte_def vm_mem_zero)

lemma vm_mem_copy_other: "t \<noteq> t' \<Longrightarrow> vm_mem (vm_copy t off bs s) t' = vm_mem s t'"
  by (induction t off bs s rule: vm_copy.induct) (simp_all add: vm_write_byte_def vm_set_entry_def)

lemma vm_pmm_copy [simp]: "vm_pmm (vm_copy t off bs s) = vm_pmm s"
  by (induction t off bs s rule: vm_copy.induct) (simp_all add: vm_write_byte_def)

section \<open>Frames that hold no table\<close>

text \<open>A frame held by a program: no table, and not free.\<close>

definition held :: "roles \<Rightarrow> Vm \<Rightarrow> u64 \<Rightarrow> bool" where
  "held role s d \<longleftrightarrow> role d = None \<and> page_of d \<notin> pmm_free_pages (vm_pmm s)"

lemma keeps_frames_held:
  assumes "keeps_frames role s role' s'" "held role s d"
  shows "held role' s' d" "frame_byte s' d off = frame_byte s d off"
  using assms by (simp_all add: keeps_frames_def held_def frame_byte_def)

text \<open>Writing into such a frame changes no translation.\<close>

lemma frame_write:
  assumes "vm_wf role roots s" "role d = None" "\<And>t. t \<noteq> d \<Longrightarrow> vm_mem s' t = vm_mem s t" "vm_pmm s' = vm_pmm s"
  shows "vm_wf role roots s'" "same_translation roots s s'" "plain role r s \<Longrightarrow> plain role r s'"
    "held role s e \<Longrightarrow> held role s' e"
proof -
  have mem: "vm_mem s' t = vm_mem s t" if "role t \<noteq> None" for t
    using that assms(2,3) by metis
  show "vm_wf role roots s'"
    using assms(1,4) mem unfolding vm_wf_def table_ok_def by auto
  show "same_translation roots s s'"
    by (rule same_translationI [OF assms(1), of d 0]) (use assms(2) mem in \<open>auto simp: only_entry_def\<close>)
  show "plain role r s \<Longrightarrow> plain role r s'"
    using mem unfolding plain_def by auto
  show "held role s e \<Longrightarrow> held role s' e"
    using assms(4) by (simp add: held_def)
qed

section \<open>Mapping a page of the lower half\<close>

lemma plain_no_huge:
  assumes "vm_wf role roots s" "plain role r s" "va_index v 0 < 256"
  shows "role f = Some (role_at r v n) \<Longrightarrow> n \<le> 3 \<Longrightarrow> \<not> meets_huge (vm_mem s) v f n"
proof (induction "3 - n" arbitrary: n f)
  case 0
  then show ?case
    by (subst meets_huge.simps) simp
next
  case (Suc k)
  let ?e = "vm_mem s f (va_index v n)"
  have n: "n < 3"
    using Suc.hyps(2) by simp
  have "role f = Some (Some r, map (va_index v) [0..<n])"
    using Suc.prems(1) assms(3) by (simp add: role_at_def)
  then have plain: "pte_is_present ?e \<Longrightarrow> \<not> pte_huge ?e"
    using assms(2,3) n unfolding plain_def by fastforce
  moreover have "\<not> meets_huge (vm_mem s) v (pte_physical_address ?e) (Suc n)" if "pte_is_present ?e"
  proof -
    have "role (pte_physical_address ?e) = Some (role_at r v (Suc n))"
      using wf_child [OF assms(1) Suc.prems(1) n _ that] plain [OF that] assms(3) by (simp add: RECURSIVE_ENTRY_def)
    then show ?thesis
      using Suc.hyps(1) [of "Suc n"] Suc.hyps(2) n by simp
  qed
  ultimately show ?case
    using n by (auto simp: meets_huge.simps [of _ _ _ n])
qed

lemma map_page_frames:
  assumes wf: "vm_wf role roots s" and r: "r \<in> roots" and v: "pml4_index v < 256" and plain: "plain role r s"
  obtains (err) msg s' role' where "map_page_with_flags r v phys fl s = (Inl msg, s')" "vm_wf role' roots s'"
      "same_translation roots s s'" "card (pmm_free_pages (vm_pmm s)) < 3"
  | (ok) s' role' where "map_page_with_flags r v phys fl s = (Inr (), s')" "vm_wf role' roots s'" "keeps_frames role s role' s'"
      "plain role' r s'" "same_elsewhere roots r v s s'"
      "translate r s' v = (if fl AND PRESENT \<noteq> 0 then Some (pte_physical_address phys + (v AND 0xFFF)) else None)"
      "card (pmm_free_pages (vm_pmm s)) \<le> card (pmm_free_pages (vm_pmm s')) + 3" "\<forall>p. plain role p s \<longrightarrow> plain role' p s'"
proof -
  have v0: "va_index v 0 < 256" "va_index v 0 \<noteq> RECURSIVE_ENTRY" "pml4_index v \<noteq> RECURSIVE_ENTRY"
    using v by (auto simp: va_index_levels RECURSIVE_ENTRY_def)
  have root: "role r = Some (role_at r v 0)"
    using wf r by (simp add: vm_wf_def)
  note nh = plain_no_huge [OF wf plain v0(1) root le0]
  have pres: "fl AND PRESENT \<noteq> 0 \<longleftrightarrow> pte_is_present (pte_set_address phys fl)"
    unfolding pte_present_set PRESENT_def by (rule and_flag_iff) simp
  show thesis
  proof (cases rule: walk_to_pt_cases [OF wf r v0(2) nh, of fl, case_names err ok])
    case (err msg s' role')
    then show thesis
      by (intro that(1)) (auto simp: map_page_with_flags_def try_then_def)
  next
    case (ok pt s' role')
    let ?s = "vm_set_entry pt (pt_index v) (pte_set_address phys fl) s'"
    note leaf = leaf_write [OF ok(2) r v0(3) ok(6,5) refl, of "pte_set_address phys fl"]
    have eq: "map_page_with_flags r v phys fl s = (Inr (), ?s)"
      using ok(1) by (simp add: map_page_with_flags_def try_then_def)
    have "keeps_frames role' s' role' ?s"
      using ok(3) by (auto simp: keeps_frames_def vm_set_entry_def)
    then have keeps: "keeps_frames role s role' ?s"
      by (rule keeps_frames_trans [OF ok(7)])
    have last: "f \<noteq> pt" if "role' f = Some (ow, path)" "length path < 3" for f ow path
      using that ok(3) length_role_at [of r v 3] by (metis less_irrefl option.inject snd_conv)
    have "plain role' p ?s" if "plain role' p s'" for p
      using that last unfolding plain_def by (simp add: vm_mem_set)
    then have plains: "\<forall>p. plain role p s \<longrightarrow> plain role' p ?s"
      using ok(8) by blast
    show thesis
      by (rule that(2) [OF eq leaf(1) keeps _ same_elsewhere_trans [OF ok(4) leaf(2)]])
        (use leaf(3) ok(9) plains plain in \<open>simp_all add: pres\<close>)
  qed
qed

section \<open>Addresses as numbers\<close>

lemma va_index_nat: "va_index v n = unat v div 2 ^ (39 - 9 * n) mod 512"
proof -
  have "unat (drop_bit k v) = unat v div 2 ^ k" for k
    unfolding unsigned_drop_bit_eq using unsigned_less [of v, where 'a = nat] by (simp add: drop_bit_eq_div take_bit_nat_eq_self)
  then show ?thesis
    by (simp add: va_index_def unat_and_mask)
qed

lemma same_page_nat:
  assumes "unat v < 2 ^ 48" "unat w < 2 ^ 48"
  shows "same_page v w \<longleftrightarrow> unat v div 4096 = unat w div 4096"
proof -
  have idx: "pml4_index a = unat a div 4096 div 512 div 512 div 512 mod 512" "pdpt_index a = unat a div 4096 div 512 div 512 mod 512"
      "pd_index a = unat a div 4096 div 512 mod 512" "pt_index a = unat a div 4096 mod 512" for a
    by (simp_all add: va_index_levels va_index_nat div_mult2_eq [symmetric])
  have top: "unat a div 4096 div 512 div 512 div 512 mod 512 = unat a div 4096 div 512 div 512 div 512" if "unat a < 2 ^ 48" for a :: u64
    using that by (simp add: div_mult2_eq [symmetric])
  show ?thesis
    unfolding same_page_def idx top [OF assms(1)] top [OF assms(2)] by (metis div_mult_mod_eq)
qed

lemma lower_half: "unat v < 2 ^ 47 \<Longrightarrow> pml4_index v < 256"
  by (simp add: va_index_levels va_index_nat)

lemma map_page_same_page: "same_page v w \<Longrightarrow> map_page_with_flags r v phys fl = map_page_with_flags r w phys fl"
  by (simp add: same_page_def map_page_with_flags_def walk_to_pt_def)

lemma map_page_translate:
  assumes "vm_wf role roots s" "r \<in> roots" "pml4_index v < 256" "plain role r s"
    and "map_page_with_flags r v phys fl s = (Inr (), s')" "same_page v w" "fl AND PRESENT \<noteq> 0"
  shows "translate r s' w = Some (pte_physical_address phys + (w AND 0xFFF))"
proof -
  have w: "map_page_with_flags r w phys fl s = (Inr (), s')" "pml4_index w < 256"
    using assms(3,5,6) map_page_same_page [OF assms(6)] by (simp_all add: same_page_def)
  show ?thesis
    by (rule map_page_frames [OF assms(1,2) w(2) assms(4), of phys fl]) (use w(1) assms(7) in auto)
qed

lemma frame_aligned: "pte_physical_address d = d \<Longrightarrow> unat d mod 4096 = 0"
proof -
  assume "pte_physical_address d = d"
  then have "\<not> bit d n" if "n < 12" for n
    using that by (metis bit_pte_address not_le)
  then have "d AND mask 12 = 0"
    by (intro bit_eqI) (auto simp: bit_and_iff bit_mask_iff)
  then show ?thesis
    using unat_and_mask [of d 12] by simp
qed

lemma frame_offset:
  assumes "pte_physical_address d = d" "off < 4096"
  shows "(d + of_nat off) AND NOT 0xFFF = d" "(d + of_nat off) AND 0xFFF = of_nat off"
proof -
  have low: "\<not> bit d n" if "n < 12" for n
    using assms(1) that by (metis bit_pte_address not_le)
  have off: "take_bit 12 (of_nat off :: u64) = of_nat off"
    using assms(2) by (intro unsigned_word_eqI [where 'a = nat]) (unfold unsigned_take_bit_eq, simp add: take_bit_nat_eq_self unat_of_nat_small)
  then have high: "\<not> bit (of_nat off :: u64) n" if "12 \<le> n" for n
    using that by (metis bit_take_bit_iff not_less)
  have "d + of_nat off = d OR of_nat off"
    using low high by (intro disjunctive_add) (meson not_le)
  moreover have "bit ((d OR of_nat off) AND NOT (mask 12)) n \<longleftrightarrow> bit d n" "bit ((d OR of_nat off) AND mask 12) n \<longleftrightarrow> bit (of_nat off :: u64) n" for n
    by (cases "n < 12"; auto simp: low high not_less bit_and_iff bit_or_iff bit_not_iff bit_mask_iff dest: bit_imp_le_length)+
  ultimately show "(d + of_nat off) AND NOT 0xFFF = d" "(d + of_nat off) AND 0xFFF = of_nat off"
    unfolding offset_masks by (auto intro: bit_eqI)
qed

lemma phys_byte_frame:
  assumes "pte_physical_address d = d" "off < 4096"
  shows "phys_byte s (d + of_nat off) = frame_byte s d off"
  using frame_offset [OF assms] assms(2) by (simp add: phys_byte_def unat_of_nat_small)

section \<open>Giving a fresh frame to a program\<close>

lemma same_page_offset:
  assumes "unat pv mod 4096 = 0" "unat pv + 4096 \<le> 2 ^ 47" "off < 4096"
  shows "unat (pv + of_nat off) = unat pv + off" "same_page pv (pv + of_nat off)" "(pv + of_nat off) AND 0xFFF = of_nat off"
proof -
  show nat: "unat (pv + of_nat off) = unat pv + off"
    using assms(2,3) by (simp add: unat_word_ariths unat_of_nat)
  obtain q where q: "unat pv = q * 4096"
    using assms(1) by (metis mod_0_imp_dvd dvd_def mult.commute)
  then show "same_page pv (pv + of_nat off)"
    using assms(2,3) by (subst same_page_nat) (simp_all add: nat)
  show "(pv + of_nat off) AND 0xFFF = of_nat off"
    unfolding offset_masks using assms(3) unat_and_mask [of "pv + of_nat off" 12]
    by (intro unsigned_word_eqI [where 'a = nat]) (simp add: nat q unat_of_nat)
qed

lemma take_frame:
  assumes "vm_wf role roots s" "vm_alloc_page e s = (Inr a, s')"
  shows "vm_wf role roots s'" "keeps_frames role s role s'" "vm_mem s' = vm_mem s" "held role s' a" "\<not> held role s a"
    "pte_physical_address a = a" "card (pmm_free_pages (vm_pmm s)) \<le> Suc (card (pmm_free_pages (vm_pmm s')))"
proof -
  obtain p where p: "s' = s\<lparr>vm_pmm := p\<rparr>" "role a = None" "pte_physical_address a = a" "pmm_wf p"
      "pmm_free_pages p \<subseteq> pmm_free_pages (vm_pmm s)" "page_of a \<notin> pmm_free_pages p"
      "card (pmm_free_pages (vm_pmm s)) \<le> Suc (card (pmm_free_pages p))" "page_of a \<in> pmm_free_pages (vm_pmm s)"
    by (rule vm_alloc_page_cases [OF assms(1), of e]) (use assms(2) in auto)
  show "vm_wf role roots s'"
    using assms(1) p(1,4,5) unfolding vm_wf_def table_ok_def by auto
  show "keeps_frames role s role s'" "vm_mem s' = vm_mem s" "held role s' a" "\<not> held role s a" "pte_physical_address a = a"
    "card (pmm_free_pages (vm_pmm s)) \<le> Suc (card (pmm_free_pages (vm_pmm s')))"
    using p by (auto simp: keeps_frames_def held_def)
qed

text \<open>A loader takes a frame, maps it and then writes into that frame only.\<close>

lemma load_fresh:
  assumes wf: "vm_wf role roots s" and r: "r \<in> roots" and plain: "plain role r s"
    and pv: "unat pv mod 4096 = 0" "unat pv + 4096 \<le> 2 ^ 47" and fl: "fl AND PRESENT \<noteq> 0"
    and alloc: "vm_alloc_page e s = (Inr a, s1)" and map: "map_page_with_flags r pv a fl s1 = (Inr (), s2)"
    and wr: "\<And>t. t \<noteq> a \<Longrightarrow> vm_mem s' t = vm_mem s2 t" "vm_pmm s' = vm_pmm s2"
  obtains role' where "vm_wf role' roots s'" "plain role' r s'" "keeps_frames role s role' s'" "same_elsewhere roots r pv s s'"
    "held role' s' a" "\<And>off. off < 4096 \<Longrightarrow> translate r s' (pv + of_nat off) = Some (a + of_nat off)"
    "card (pmm_free_pages (vm_pmm s)) \<le> card (pmm_free_pages (vm_pmm s')) + 4"
proof -
  note t = take_frame [OF wf alloc]
  have pl1: "plain role r s1"
    using plain t(3) by (simp add: plain_def)
  have low: "pml4_index pv < 256"
    using pv(2) by (intro lower_half) simp
  obtain role' where m: "vm_wf role' roots s2" "keeps_frames role s1 role' s2" "plain role' r s2" "same_elsewhere roots r pv s1 s2"
      "card (pmm_free_pages (vm_pmm s1)) \<le> card (pmm_free_pages (vm_pmm s2)) + 3"
    by (rule map_page_frames [OF t(1) r low pl1, of a fl]) (use map in auto)
  have a: "held role' s2 a"
    by (rule keeps_frames_held(1) [OF m(2) t(4)])
  then have ra: "role' a = None"
    by (simp add: held_def)
  have w: "vm_wf role' roots s'" "same_translation roots s2 s'" "plain role' r s'" "held role' s' a"
    using frame_write [of role' roots s2 a s'] m(1,3) ra wr a by blast+
  have trans: "same_translation roots s s1" "same_translation roots s2 s'"
    using t(3) w(2) by (simp_all add: same_translation_def)
  have keeps: "keeps_frames role s role' s'"
    using keeps_frames_trans [OF t(2) m(2)] t(5) wr unfolding keeps_frames_def held_def by metis
  have recursive: "pml4_index w \<noteq> RECURSIVE_ENTRY" if "pml4_index w < 256" for w
    using that by (simp add: RECURSIVE_ENTRY_def)
  have out: "translate r s' (pv + of_nat off) = Some (a + of_nat off)" if "off < 4096" for off
  proof -
    note o = same_page_offset [OF pv that]
    have "pml4_index (pv + of_nat off) < 256"
      using o(2) low by (simp add: same_page_def)
    then show ?thesis
      using map_page_translate [OF t(1) r low pl1 map o(2) fl] trans(2) r recursive
      by (simp add: same_translation_iff t(6) o(3))
  qed
  show thesis
    by (rule that [OF w(1,3) keeps _ w(4) out])
      (use m(4,5) t(7) trans wr(2) in \<open>auto simp: same_elsewhere_def same_translation_iff\<close>)
qed

lemma fresh_available:
  assumes "vm_wf role roots s" "r \<in> roots" "plain role r s" "unat pv < 2 ^ 47" "4 \<le> card (pmm_free_pages (vm_pmm s))"
  obtains a s1 s2 where "vm_alloc_page e s = (Inr a, s1)" "map_page_with_flags r pv a fl s1 = (Inr (), s2)"
proof -
  obtain a s1 where a: "vm_alloc_page e s = (Inr a, s1)"
    by (rule vm_alloc_page_cases [OF assms(1), of e]) (use assms(5) in auto)
  note t = take_frame [OF assms(1) a]
  have "plain role r s1"
    using assms(3) t(3) by (simp add: plain_def)
  then show thesis
    using that [OF a] t(7) assms(5) by (cases rule: map_page_frames [OF t(1) assms(2) lower_half [OF assms(4)], of a fl]) auto
qed

text \<open>Page \<open>q\<close> of the address space is backed by a frame of its own that holds the bytes \<open>f\<close>.\<close>

definition page_shows :: "roles \<Rightarrow> u64 \<Rightarrow> Vm \<Rightarrow> (nat \<Rightarrow> u8) \<Rightarrow> nat \<Rightarrow> bool" where
  "page_shows role r s f q \<longleftrightarrow>
     (\<exists>d. held role s d \<and> pte_physical_address d = d \<and>
        (\<forall>off < 4096. translate r s (of_nat (q * 4096 + off)) = Some (d + of_nat off) \<and> frame_byte s d off = f (q * 4096 + off)))"

definition same_outside :: "u64 set \<Rightarrow> u64 \<Rightarrow> nat set \<Rightarrow> Vm \<Rightarrow> Vm \<Rightarrow> bool" where
  "same_outside roots r qs s s' \<longleftrightarrow>
     (\<forall>r' \<in> roots. \<forall>w. unat w < 2 ^ 48 \<longrightarrow> pml4_index w \<noteq> RECURSIVE_ENTRY \<longrightarrow> \<not> (r' = r \<and> unat w div 4096 \<in> qs) \<longrightarrow>
        translate r' s' w = translate r' s w)"

lemma same_outside_refl [simp]: "same_outside roots r qs s s"
  by (simp add: same_outside_def)

lemma same_outside_trans:
  "same_outside roots r qs s s' \<Longrightarrow> same_outside roots r qs' s' s'' \<Longrightarrow> same_outside roots r (qs \<union> qs') s s''"
  by (simp add: same_outside_def)

lemma same_elsewhere_outside:
  assumes "same_elsewhere roots r pv s s'" "unat pv < 2 ^ 47"
  shows "same_outside roots r {unat pv div 4096} s s'"
proof -
  have "\<not> touched r pv r' w" if "unat w < 2 ^ 48" "\<not> (r' = r \<and> unat w div 4096 = unat pv div 4096)" for r' w
    using that assms(2) lower_half [OF assms(2)] same_page_nat [of pv w] by (auto simp: touched_def)
  then show ?thesis
    using assms(1) unfolding same_elsewhere_def same_outside_def by blast
qed

lemma page_shows_keeps:
  assumes "page_shows role r s f q" "keeps_frames role s role' s'" "same_outside roots r qs s s'" "r \<in> roots" "q \<notin> qs" "q < 2 ^ 35"
  shows "page_shows role' r s' f q"
proof -
  have "translate r s' (of_nat (q * 4096 + off)) = translate r s (of_nat (q * 4096 + off))" if "off < 4096" for off
  proof -
    have n: "unat (of_nat (q * 4096 + off) :: u64) = q * 4096 + off"
      using that assms(6) by (subst unat_of_nat) simp
    then have low: "unat (of_nat (q * 4096 + off) :: u64) < 2 ^ 47"
      using that assms(6) by simp
    have "pml4_index (of_nat (q * 4096 + off)) \<noteq> RECURSIVE_ENTRY"
      using lower_half [OF low] by (simp add: RECURSIVE_ENTRY_def)
    moreover have "unat (of_nat (q * 4096 + off) :: u64) div 4096 \<notin> qs" "unat (of_nat (q * 4096 + off) :: u64) < 2 ^ 48"
      using that assms(5) low unfolding n by simp_all
    ultimately show ?thesis
      using assms(3,4) unfolding same_outside_def by blast
  qed
  moreover obtain d where "held role s d" "pte_physical_address d = d"
      "\<forall>off < 4096. translate r s (of_nat (q * 4096 + off)) = Some (d + of_nat off) \<and> frame_byte s d off = f (q * 4096 + off)"
    using assms(1) unfolding page_shows_def by blast
  ultimately show ?thesis
    unfolding page_shows_def using keeps_frames_held [OF assms(2), of d] by (intro exI [of _ d]) simp
qed

lemma page_shows_byte:
  assumes "page_shows role r s f (a div 4096)"
  shows "\<exists>p. translate r s (of_nat a) = Some p \<and> phys_byte s p = f a"
proof -
  obtain d where "pte_physical_address d = d" "translate r s (of_nat a) = Some (d + of_nat (a mod 4096))"
      "frame_byte s d (a mod 4096) = f a"
    using assms div_mult_mod_eq [of a 4096] unfolding page_shows_def
    by (metis (no_types) mod_less_divisor zero_less_numeral)
  then show ?thesis
    using phys_byte_frame [of d "a mod 4096" s] by simp
qed


section \<open>Growing an address space\<close>

text \<open>\<open>VirtualMemoryManager::new\<close> writes the recursive entry, which no translation of the model reads.\<close>

lemma vmm_new_ok:
  assumes "vm_wf role roots s" "r \<in> roots"
  shows "vm_wf role roots (vmm_new r s)" "same_translation roots s (vmm_new r s)" "keeps_frames role s role (vmm_new r s)"
    "plain role r' s \<Longrightarrow> plain role r' (vmm_new r s)" "vm_pmm (vmm_new r s) = vm_pmm s"
proof -
  have r: "role r = Some (Some r, [])"
    using assms by (simp add: vm_wf_def)
  show "vm_wf role roots (vmm_new r s)"
    unfolding vmm_new_def by (rule wf_set_entry [OF assms(1) r]) (simp add: entry_ok_def edge_def)
  show "same_translation roots s (vmm_new r s)"
  proof (rule same_translationI [OF assms(1), of r RECURSIVE_ENTRY])
    fix r' v n
    assume "role r = Some (role_at r' v n)" "RECURSIVE_ENTRY = va_index v n" "va_index v 0 \<noteq> RECURSIVE_ENTRY"
    then show "walk (vm_mem (vmm_new r s)) v r n = walk (vm_mem s) v r n"
      using r by (cases n) (auto simp: role_at_def)
  qed (simp add: only_entry_def vmm_new_def vm_mem_set)
  show "keeps_frames role s role (vmm_new r s)"
    using r by (auto simp: keeps_frames_def vmm_new_def vm_set_entry_def)
  show "plain role r' s \<Longrightarrow> plain role r' (vmm_new r s)"
    using r by (fastforce simp: plain_def vmm_new_def vm_mem_set RECURSIVE_ENTRY_def)
  show "vm_pmm (vmm_new r s) = vm_pmm s"
    by (simp add: vmm_new_def)
qed

text \<open>Mapping a frame that is held shows its bytes.\<close>

lemma map_held:
  assumes wf: "vm_wf role roots s" and r: "r \<in> roots" and plain: "plain role r s"
    and a: "held role s a" "pte_physical_address a = a" and q: "q < 2 ^ 35" and fl: "fl AND PRESENT \<noteq> 0"
    and map: "map_page_with_flags r (of_nat (q * 4096)) a fl s = (Inr (), s')"
  obtains role' where "vm_wf role' roots s'" "plain role' r s'" "keeps_frames role s role' s'" "same_outside roots r {q} s s'"
    "page_shows role' r s' (\<lambda>x. frame_byte s a (x mod 4096)) q" "card (pmm_free_pages (vm_pmm s)) \<le> card (pmm_free_pages (vm_pmm s')) + 3"
    "\<And>off. off < 4096 \<Longrightarrow> translate r s' (of_nat (q * 4096 + off)) = Some (a + of_nat off)" "held role' s' a"
    "\<forall>p. plain role p s \<longrightarrow> plain role' p s'"
proof -
  let ?pv = "of_nat (q * 4096) :: u64"
  have pv: "unat ?pv = q * 4096"
    using q by (subst unat_of_nat) simp
  have low: "unat ?pv < 2 ^ 47" "unat ?pv mod 4096 = 0" "unat ?pv + 4096 \<le> 2 ^ 47"
    unfolding pv using q by simp_all
  obtain role' where m: "vm_wf role' roots s'" "keeps_frames role s role' s'" "plain role' r s'" "same_elsewhere roots r ?pv s s'"
      "card (pmm_free_pages (vm_pmm s)) \<le> card (pmm_free_pages (vm_pmm s')) + 3" "\<forall>p. plain role p s \<longrightarrow> plain role' p s'"
    by (rule map_page_frames [OF wf r lower_half [OF low(1)] plain, of a fl]) (use map in auto)
  have tr: "translate r s' (of_nat (q * 4096 + off)) = Some (a + of_nat off)" if "off < 4096" for off
    using map_page_translate [OF wf r lower_half [OF low(1)] plain map same_page_offset(2) [OF low(2,3) that] fl]
      same_page_offset(3) [OF low(2,3) that] a(2) by simp
  have bytes: "page_shows role' r s' (\<lambda>x. frame_byte s a (x mod 4096)) q"
    unfolding page_shows_def using tr keeps_frames_held [OF m(2) a(1)] a(2) by (intro exI [of _ a]) simp
  have "same_outside roots r {q} s s'"
    using same_elsewhere_outside [OF m(4) low(1)] unfolding pv by simp
  then show thesis
    by (rule that [OF m(1,3,2) _ bytes m(5) tr keeps_frames_held(1) [OF m(2) a(1)] m(6)]) auto
qed

text \<open>The address space \<open>r\<close> gets the pages \<open>qs\<close> with the bytes \<open>f\<close>, and nothing else changes.\<close>

definition grows :: "u64 set \<Rightarrow> u64 \<Rightarrow> nat set \<Rightarrow> (nat \<Rightarrow> u8) \<Rightarrow> roles \<times> Vm \<Rightarrow> roles \<times> Vm \<Rightarrow> bool" where
  "grows roots r qs f = (\<lambda>(role, s) (role', s').
     vm_wf role' roots s' \<and> plain role' r s' \<and> keeps_frames role s role' s' \<and> same_outside roots r qs s s'
     \<and> (\<forall>q \<in> qs. page_shows role' r s' f q))"

lemma growsD:
  assumes "grows roots r qs f (role, s) (role', s')"
  shows "vm_wf role' roots s'" "plain role' r s'" "keeps_frames role s role' s'" "same_outside roots r qs s s'"
    "q \<in> qs \<Longrightarrow> page_shows role' r s' f q"
  using assms by (auto simp: grows_def)

lemma grows_empty: "vm_wf role roots s \<Longrightarrow> plain role r s \<Longrightarrow> grows roots r {} f (role, s) (role, s)"
  by (simp add: grows_def)

lemma grows_trans:
  assumes "grows roots r qs f (role, s) (role1, s1)" "grows roots r qs' f (role1, s1) (role', s')" "r \<in> roots"
    "qs \<inter> qs' = {}" "\<And>q. q \<in> qs \<Longrightarrow> q < 2 ^ 35"
  shows "grows roots r (qs \<union> qs') f (role, s) (role', s')"
proof -
  note a = growsD [OF assms(1)] and b = growsD [OF assms(2)]
  have "page_shows role' r s' f q" if "q \<in> qs" for q
    by (rule page_shows_keeps [OF a(5) [OF that] b(3,4) assms(3)]) (use that assms(4,5) in auto)
  then show ?thesis
    using b(1,2,5) keeps_frames_trans [OF a(3) b(3)] same_outside_trans [OF a(4) b(4)] by (auto simp: grows_def)
qed

lemma page_shows_cong: "(\<And>off. off < 4096 \<Longrightarrow> f (q * 4096 + off) = g (q * 4096 + off)) \<Longrightarrow> page_shows role r s f q = page_shows role r s g q"
  by (simp add: page_shows_def)


lemma same_outside_of: "same_translation roots s s' \<Longrightarrow> same_outside roots r qs s s'"
  by (simp add: same_translation_iff same_outside_def)

lemma zero_fresh:
  assumes "vm_wf role roots s" "vm_alloc_page e s = (Inr a, s1)"
  shows "vm_wf role roots (vm_zero_page a s1)" "keeps_frames role s role (vm_zero_page a s1)" "held role (vm_zero_page a s1) a"
    "plain role r s \<Longrightarrow> plain role r (vm_zero_page a s1)" "same_translation roots s (vm_zero_page a s1)"
    "card (pmm_free_pages (vm_pmm s)) \<le> Suc (card (pmm_free_pages (vm_pmm (vm_zero_page a s1))))"
proof -
  note t = take_frame [OF assms]
  have a: "role a = None"
    using t(4) by (simp add: held_def)
  have mem: "vm_mem (vm_zero_page a s1) h = vm_mem s1 h" if "h \<noteq> a" for h
    using that by (simp add: vm_zero_page_def fun_eq_iff)
  note w = frame_write [OF t(1) a, of "vm_zero_page a s1", OF mem vm_pmm_zero]
  show "vm_wf role roots (vm_zero_page a s1)" "held role (vm_zero_page a s1) a"
    using w t(4) by blast+
  show "plain role r s \<Longrightarrow> plain role r (vm_zero_page a s1)"
    using w(3) [of r] t(3) by (simp add: plain_def)
  show "same_translation roots s (vm_zero_page a s1)"
    using w(2) t(3) by (simp add: same_translation_def)
  show "keeps_frames role s role (vm_zero_page a s1)"
    using t(2,5) mem unfolding keeps_frames_def held_def by (metis vm_pmm_zero)
  show "card (pmm_free_pages (vm_pmm s)) \<le> Suc (card (pmm_free_pages (vm_pmm (vm_zero_page a s1))))"
    using t(7) by simp
qed

text \<open>The two orders in which the kernel gives a program a page of zeros.\<close>

lemma grow_zero_map:
  assumes wf: "vm_wf role roots s" and r: "r \<in> roots" and plain: "plain role r s" and q: "q < 2 ^ 35" and fl: "fl AND PRESENT \<noteq> 0"
    and free: "4 \<le> card (pmm_free_pages (vm_pmm s))"
  obtains a s1 s' role' where "vm_alloc_page e s = (Inr a, s1)"
    "map_page_with_flags r (of_nat (q * 4096)) a fl (vm_zero_page a s1) = (Inr (), s')" "grows roots r {q} (\<lambda>_. 0) (role, s) (role', s')"
    "card (pmm_free_pages (vm_pmm s)) \<le> card (pmm_free_pages (vm_pmm s')) + 4"
proof -
  have low: "unat (of_nat (q * 4096) :: u64) < 2 ^ 47"
    using q by (subst unat_of_nat) simp
  obtain a s1 where al: "vm_alloc_page e s = (Inr a, s1)"
    by (rule vm_alloc_page_cases [OF wf, of e]) (use free in auto)
  note z = zero_fresh [OF wf al] and t = take_frame [OF wf al]
  obtain s' where map: "map_page_with_flags r (of_nat (q * 4096)) a fl (vm_zero_page a s1) = (Inr (), s')"
    using z(6) free by (cases rule: map_page_frames [OF z(1) r lower_half [OF low] z(4) [OF plain], of a fl]) auto
  obtain role' where m: "vm_wf role' roots s'" "plain role' r s'" "keeps_frames role (vm_zero_page a s1) role' s'"
    "same_outside roots r {q} (vm_zero_page a s1) s'" "page_shows role' r s' (\<lambda>x. frame_byte (vm_zero_page a s1) a (x mod 4096)) q"
    "card (pmm_free_pages (vm_pmm (vm_zero_page a s1))) \<le> card (pmm_free_pages (vm_pmm s')) + 3"
    by (rule map_held [OF z(1) r z(4) [OF plain] z(3) t(6) q fl map]) blast
  have "grows roots r {q} (\<lambda>_. 0) (role, s) (role', s')"
    using m(1,2,5) keeps_frames_trans [OF z(2) m(3)] same_outside_trans [OF same_outside_of [OF z(5)] m(4), of "{}"]
    by (simp add: grows_def frame_byte_zero)
  then show thesis
    using that [OF al map] m(6) z(6) by simp
qed

lemma grow_map_zero:
  assumes wf: "vm_wf role roots s" and r: "r \<in> roots" and plain: "plain role r s" and q: "q < 2 ^ 35" and fl: "fl AND PRESENT \<noteq> 0"
    and free: "4 \<le> card (pmm_free_pages (vm_pmm s))"
  obtains a s1 s2 role' where "vm_alloc_page e s = (Inr a, s1)" "map_page_with_flags r (of_nat (q * 4096)) a fl s1 = (Inr (), s2)"
    "grows roots r {q} (\<lambda>_. 0) (role, s) (role', vm_zero_page a s2)"
    "card (pmm_free_pages (vm_pmm s)) \<le> card (pmm_free_pages (vm_pmm s2)) + 4"
proof -
  let ?pv = "of_nat (q * 4096) :: u64"
  have pv: "unat ?pv = q * 4096"
    using q by (subst unat_of_nat) simp
  have low: "unat ?pv < 2 ^ 47" "unat ?pv mod 4096 = 0" "unat ?pv + 4096 \<le> 2 ^ 47"
    unfolding pv using q by simp_all
  obtain a s1 s2 where st: "vm_alloc_page e s = (Inr a, s1)" "map_page_with_flags r ?pv a fl s1 = (Inr (), s2)"
    by (rule fresh_available [OF wf r plain low(1) free])
  have zero: "vm_mem (vm_zero_page a s2) h = vm_mem s2 h" if "h \<noteq> a" for h
    using that by (simp add: vm_zero_page_def fun_eq_iff)
  obtain role' where f: "vm_wf role' roots (vm_zero_page a s2)" "plain role' r (vm_zero_page a s2)" "keeps_frames role s role' (vm_zero_page a s2)"
    "same_elsewhere roots r ?pv s (vm_zero_page a s2)" "held role' (vm_zero_page a s2) a"
    "\<And>off. off < 4096 \<Longrightarrow> translate r (vm_zero_page a s2) (?pv + of_nat off) = Some (a + of_nat off)"
    "card (pmm_free_pages (vm_pmm s)) \<le> card (pmm_free_pages (vm_pmm (vm_zero_page a s2))) + 4"
    by (rule load_fresh [OF wf r plain low(2,3) fl st zero vm_pmm_zero]) (assumption, rule that, blast+)
  have "page_shows role' r (vm_zero_page a s2) (\<lambda>_. 0) q"
    unfolding page_shows_def using f(5,6) take_frame(6) [OF wf st(1)] by (intro exI [of _ a]) (simp add: frame_byte_zero)
  then have "grows roots r {q} (\<lambda>_. 0) (role, s) (role', vm_zero_page a s2)"
    using f(1-3) same_elsewhere_outside [OF f(4) low(1)] unfolding pv by (simp add: grows_def)
  then show thesis
    using that [OF st] f(7) by simp
qed

end
