(* ===== verification/Bytes.thy ===== *)
theory Bytes
  imports Prelude
begin

text \<open>
  Reading little-endian fields from a list of bytes (\<open>from_le_bytes\<close>, and headers read through a raw
  pointer), and the arithmetic on unsigned words that the parsers of file formats share.
\<close>

text \<open>A little-endian field of \<open>n\<close> bytes.\<close>

fun le_value :: "u8 list \<Rightarrow> nat" where
  "le_value [] = 0"
| "le_value (b # bs) = unat b + 256 * le_value bs"

definition field :: "u8 list \<Rightarrow> nat \<Rightarrow> nat \<Rightarrow> 'a::len word" where
  "field data off n = of_nat (le_value (take n (drop off data)))"

lemma le_value_zeros [simp]: "le_value (replicate n 0) = 0"
  by (induction n) auto

lemma le_value_append: "le_value (a @ b) = le_value a + 256 ^ length a * le_value b"
  by (induction a) (simp_all add: algebra_simps)

lemma unat_max_min: "unat (max a b) = max (unat a) (unat b)" "unat (min a b) = min (unat a) (unat b)"
  by (auto simp: max_def min_def word_le_nat_alt)

lemma unat_minus_nat: "unat b \<le> unat a \<Longrightarrow> unat (a - b) = unat a - unat b"
  by (rule unat_sub) (simp add: word_le_nat_alt)

lemma page_align_nat: "unat (v AND NOT (4096 - 1) :: u64) = unat v div 4096 * 4096"
proof -
  have "v = (v AND NOT (mask 12)) + (v AND mask 12)"
    by (subst disjunctive_add) (auto simp: bit_and_iff bit_not_iff bit_or_iff intro: bit_eqI)
  moreover have "v AND NOT (mask 12) \<le> v"
    by (rule word_and_le2)
  ultimately have "unat (v AND NOT (mask 12)) = unat v - unat (v AND mask 12)"
    by (metis add_diff_cancel_right' unat_sub word_and_le2)
  moreover have "(4096 - 1 :: u64) = mask 12"
    by (simp add: mask_eq_exp_minus_1)
  ultimately show ?thesis
    by (simp add: unat_and_mask minus_mod_eq_div_mult)
qed

lemma le_value_inj: "length a = length b \<Longrightarrow> le_value a = le_value b \<Longrightarrow> a = b"
proof (induction a b rule: list_induct2)
  case (Cons x xs y ys)
  have m: "(unat z + 256 * v) mod 256 = unat z" for z :: u8 and v
    using unsigned_less [of z, where 'a = nat] by simp
  have "unat x = unat y"
    using Cons.prems m [of x "le_value xs"] m [of y "le_value ys"] by simp
  then show ?case
    using Cons by (simp add: word_unat_eq_iff)
qed simp

lemma le_value_bound: "le_value bs < 256 ^ length bs"
proof (induction bs)
  case (Cons b bs)
  then show ?case
    using unsigned_less [of b, where 'a = nat] by simp
qed simp

end
