(* ===== verification/Segments.thy ===== *)
theory Segments
  imports PhysMem Bytes
begin

text \<open>
  The loop that the three program loaders (\<open>fs/elf_loader.rs\<close>, \<open>fs/pe_loader.rs\<close>, \<open>fs/macho_loader.rs\<close>) share:
  every page of a segment gets a frame, which is mapped, cleared and filled with the part of the file that
  falls into it.  The loaders differ in their error values and in what they do when that part lies outside of
  the file; both are arguments.  \<open>None\<close> is a read outside of the file; sums wrap around as in the release build.
\<close>

section \<open>Loading\<close>

type_synonym ('e, 'a) loader = "Vm \<Rightarrow> (('e + 'a) \<times> Vm) option"

definition load_then :: "('e, 'a) loader \<Rightarrow> ('a \<Rightarrow> ('e, 'b) loader) \<Rightarrow> ('e, 'b) loader" where
  "load_then m k s =
     (case m s of
        None \<Rightarrow> None
      | Some (Inl e, s) \<Rightarrow> Some (Inl e, s)
      | Some (Inr a, s) \<Rightarrow> k a s)"

record segment =
  sg_vaddr :: u64
  sg_memsz :: u64
  sg_filesz :: u64
  sg_offset :: u64
  sg_flags :: u64

definition seg_alloc_page :: "'e \<Rightarrow> ('e, u64) loader" where
  "seg_alloc_page oom s =
     (case alloc_page (vm_pmm s) of
        (None, p) \<Rightarrow> Some (Inl oom, s\<lparr>vm_pmm := p\<rparr>)
      | (Some a, p) \<Rightarrow> Some (Inr a, s\<lparr>vm_pmm := p\<rparr>))"

definition seg_map_page :: "'e \<Rightarrow> u64 \<Rightarrow> u64 \<Rightarrow> u64 \<Rightarrow> u64 \<Rightarrow> ('e, unit) loader" where
  "seg_map_page oom pml4 virt phys flags s =
     (case map_page_with_flags pml4 virt phys flags s of
        (Inl _, s) \<Rightarrow> Some (Inl oom, s)
      | (Inr u, s) \<Rightarrow> Some (Inr u, s))"

text \<open>Copying the part of the segment that lies in one page; \<open>outside\<close> is the result when the file ends before.\<close>

definition copy_segment :: "'e + unit \<Rightarrow> segment \<Rightarrow> u8 list \<Rightarrow> u64 \<Rightarrow> u64 \<Rightarrow> ('e, unit) loader" where
  "copy_segment outside seg data page_virt dest_page s =
     (let seg_start = sg_vaddr seg;
          seg_end = sg_vaddr seg + sg_filesz seg;
          copy_start = max page_virt seg_start;
          copy_end = min (page_virt + 4096) seg_end
      in if copy_start < copy_end
         then let len = copy_end - copy_start;
                  offset_in_file = sg_offset seg + (copy_start - seg_start);
                  offset_in_page = copy_start - page_virt
              in if offset_in_file + len > of_nat (length data) then Some (outside, s)
                 else if unat offset_in_file + unat len > length data then None
                 else Some (Inr (), vm_copy dest_page (unat offset_in_page) (take (unat len) (drop (unat offset_in_file) data)) s)
         else Some (Inr (), s))"

definition load_page :: "'e \<Rightarrow> 'e + unit \<Rightarrow> u64 \<Rightarrow> segment \<Rightarrow> u8 list \<Rightarrow> nat \<Rightarrow> ('e, unit) loader" where
  "load_page oom outside pml4 seg data i =
     (let page_start = sg_vaddr seg AND NOT (4096 - 1);
          page_virt = page_start + of_nat i * 4096
      in load_then (seg_alloc_page oom) (\<lambda>phys.
         load_then (seg_map_page oom pml4 page_virt phys (sg_flags seg)) (\<lambda>_ s.
         copy_segment outside seg data page_virt phys (vm_zero_page phys s))))"

fun load_pages :: "'e \<Rightarrow> 'e + unit \<Rightarrow> u64 \<Rightarrow> segment \<Rightarrow> u8 list \<Rightarrow> nat \<Rightarrow> nat \<Rightarrow> ('e, unit) loader" where
  "load_pages oom outside pml4 seg data i 0 s = Some (Inr (), s)"
| "load_pages oom outside pml4 seg data i (Suc n) s =
     load_then (load_page oom outside pml4 seg data i) (\<lambda>_. load_pages oom outside pml4 seg data (Suc i) n) s"

definition page_count :: "segment \<Rightarrow> u64" where
  "page_count seg =
     (let page_start = sg_vaddr seg AND NOT (4096 - 1);
          page_end = (sg_vaddr seg + sg_memsz seg + 4096 - 1) AND NOT (4096 - 1)
      in (page_end - page_start) div 4096)"

definition load_segment :: "'e \<Rightarrow> 'e + unit \<Rightarrow> u64 \<Rightarrow> segment \<Rightarrow> u8 list \<Rightarrow> ('e, unit) loader" where
  "load_segment oom outside pml4 seg data = load_pages oom outside pml4 seg data 0 (unat (page_count seg))"

section \<open>Copying a segment\<close>

text \<open>The byte that the program expects at a virtual address: the file's bytes, then zeros.\<close>

definition seg_byte :: "segment \<Rightarrow> u8 list \<Rightarrow> nat \<Rightarrow> u8" where
  "seg_byte seg data a =
     (let start = unat (sg_vaddr seg)
      in if start \<le> a \<and> a < start + unat (sg_filesz seg) then data ! (unat (sg_offset seg) + (a - start)) else 0)"

text \<open>A segment of the lower half whose bytes lie in the file.\<close>

definition seg_ok :: "segment \<Rightarrow> u8 list \<Rightarrow> bool" where
  "seg_ok seg data \<longleftrightarrow> unat (sg_vaddr seg) + unat (sg_memsz seg) + 4096 \<le> 2 ^ 47
     \<and> unat (sg_vaddr seg) + unat (sg_filesz seg) + 4096 \<le> 2 ^ 47
     \<and> unat (sg_offset seg) + unat (sg_filesz seg) \<le> length data \<and> length data < 2 ^ 63 \<and> sg_flags seg AND PRESENT \<noteq> 0"

lemma copy_segment_ok:
  assumes "seg_ok seg data" "unat pv + 4096 \<le> 2 ^ 47" "\<And>off. frame_byte s d off = 0"
  obtains s' where "copy_segment outside seg data pv d s = Some (Inr (), s')" "\<And>t. t \<noteq> d \<Longrightarrow> vm_mem s' t = vm_mem s t"
    "vm_pmm s' = vm_pmm s" "\<And>off. off < 4096 \<Longrightarrow> frame_byte s' d off = seg_byte seg data (unat pv + off)"
proof -
  define V where "V = unat (sg_vaddr seg)"
  define F where "F = unat (sg_filesz seg)"
  define Q where "Q = unat (sg_offset seg)"
  define P where "P = unat pv"
  let ?cs = "max pv (sg_vaddr seg)"
  let ?ce = "min (pv + 4096) (sg_vaddr seg + sg_filesz seg)"
  have bounds: "V + F + 4096 \<le> 2 ^ 47" "Q + F \<le> length data" "length data < 2 ^ 63" "P + 4096 \<le> 2 ^ 47"
    using assms(1,2) by (auto simp: seg_ok_def V_def F_def Q_def P_def word_le_nat_alt)
  define A where "A = max P V"
  define B where "B = min (P + 4096) (V + F)"
  have ab: "P \<le> A" "V \<le> A" "B \<le> P + 4096" "B \<le> V + F"
    by (simp_all add: A_def B_def)
  have hit: "A \<le> P + off \<and> P + off < B \<longleftrightarrow> V \<le> P + off \<and> P + off < V + F" if "off < 4096" for off
    using that by (auto simp: A_def B_def)
  have cs: "unat ?cs = A" and ce: "unat ?ce = B"
    using bounds by (simp_all add: unat_max_min V_def F_def P_def A_def B_def unat_word_ariths)
  have byte: "seg_byte seg data (P + off) = (if A \<le> P + off \<and> P + off < B then data ! (Q + (P + off - V)) else 0)"
    if "off < 4096" for off
    unfolding hit [OF that] by (simp add: seg_byte_def Let_def V_def F_def Q_def)
  show thesis
  proof (cases "A < B")
    case False
    then have "copy_segment outside seg data pv d s = Some (Inr (), s)"
      unfolding copy_segment_def Let_def by (simp only: word_less_nat_alt cs ce if_False)
    moreover have "seg_byte seg data (P + off) = 0" if "off < 4096" for off
      using False byte [OF that] by auto
    ultimately show thesis
      using that [of s] assms(3) by (simp add: P_def)
  next
    case True
    let ?bs = "take (B - A) (drop (Q + (A - V)) data)"
    have fits: "Q + (A - V) + (B - A) \<le> length data"
      using bounds True ab by linarith
    have len: "unat (?ce - ?cs) = B - A"
      using True by (subst unat_minus_nat; unfold cs ce) simp_all
    have pg: "unat (?cs - pv) = A - P"
      using ab by (subst unat_minus_nat; unfold cs P_def [symmetric]) simp_all
    have "unat (?cs - sg_vaddr seg) = A - V"
      using ab by (subst unat_minus_nat; unfold cs V_def [symmetric]) simp_all
    then have off: "unat (sg_offset seg + (?cs - sg_vaddr seg)) = Q + (A - V)"
      using fits bounds(3) by (simp only: unat_word_ariths Q_def [symmetric]) simp
    have "unat (sg_offset seg + (?cs - sg_vaddr seg) + (?ce - ?cs)) = Q + (A - V) + (B - A)"
      using fits bounds(3) by (simp only: unat_word_ariths(1) [of "sg_offset seg + (?cs - sg_vaddr seg)"] off len) simp
    then have "\<not> sg_offset seg + (?cs - sg_vaddr seg) + (?ce - ?cs) > of_nat (length data)"
      using fits bounds(3) by (simp only: word_less_nat_alt) (simp add: unat_of_nat)
    then have eq: "copy_segment outside seg data pv d s = Some (Inr (), vm_copy d (A - P) ?bs s)"
      using fits True unfolding copy_segment_def Let_def
      by (simp only: word_less_nat_alt [of ?cs ?ce] cs ce off len pg if_True if_False not_less [symmetric] simp_thms)
    have l: "length ?bs = B - A"
      using fits by simp
    have "frame_byte (vm_copy d (A - P) ?bs s) d off = seg_byte seg data (P + off)" if "off < 4096" for off
    proof (cases "A \<le> P + off \<and> P + off < B")
      case True
      then have "Q + (A - V) + (off - (A - P)) = Q + (P + off - V)" "off - (A - P) < B - A" "A - P \<le> off" "off < A - P + (B - A)"
        using ab by linarith+
      moreover have "drop (Q + (A - V)) data ! (off - (A - P)) = data ! (Q + (A - V) + (off - (A - P)))"
        by (rule nth_drop) (use fits in linarith)
      ultimately show ?thesis
        unfolding frame_byte_copy l byte [OF that] using True by (simp del: nth_drop add_diff_assoc add_diff_assoc2 add: add.assoc)
    next
      case False
      then have "\<not> (A - P \<le> off \<and> off < A - P + (B - A))"
        using ab by linarith
      then show ?thesis
        unfolding frame_byte_copy l byte [OF that] using False assms(3) by (metis (no_types, lifting))
    qed
    then show thesis
      using that [OF eq] vm_mem_copy_other by (simp add: P_def)
  qed
qed

section \<open>Loading a whole segment\<close>

definition page_va :: "segment \<Rightarrow> nat \<Rightarrow> u64" where
  "page_va seg i = (sg_vaddr seg AND NOT (4096 - 1)) + of_nat i * 4096"

abbreviation first_page :: "segment \<Rightarrow> nat" where
  "first_page seg \<equiv> unat (sg_vaddr seg) div 4096"

lemma page_va_nat:
  assumes "(first_page seg + i + 1) * 4096 \<le> 2 ^ 47"
  shows "unat (page_va seg i) = (first_page seg + i) * 4096"
proof -
  have "unat (of_nat i * 4096 :: u64) = i * 4096"
    using assms by (simp add: unat_word_ariths unat_of_nat)
  then show ?thesis
    using assms unfolding page_va_def unat_word_ariths(1) page_align_nat by simp
qed

lemma load_steps:
  "vm_alloc_page e s = (Inr a, s1) \<Longrightarrow> seg_alloc_page oom s = Some (Inr a, s1)"
  "map_page_with_flags r v p fl s = (Inr (), s2) \<Longrightarrow> seg_map_page oom r v p fl s = Some (Inr (), s2)"
  by (auto simp: seg_alloc_page_def vm_alloc_page_def seg_map_page_def split: prod.splits option.splits)

lemma load_page_ok:
  assumes wf: "vm_wf role roots s" and r: "r \<in> roots" and plain: "plain role r s" and ok: "seg_ok seg data"
    and low: "(first_page seg + i + 1) * 4096 \<le> 2 ^ 47" and free: "4 \<le> card (pmm_free_pages (vm_pmm s))"
  obtains s' role' where "load_page oom outside r seg data i s = Some (Inr (), s')" "vm_wf role' roots s'" "plain role' r s'"
    "keeps_frames role s role' s'" "same_outside roots r {first_page seg + i} s s'"
    "page_shows role' r s' (seg_byte seg data) (first_page seg + i)"
    "card (pmm_free_pages (vm_pmm s)) \<le> card (pmm_free_pages (vm_pmm s')) + 4"
proof -
  let ?q = "first_page seg + i" and ?pv = "page_va seg i"
  note pv = page_va_nat [OF low]
  have fl: "sg_flags seg AND PRESENT \<noteq> 0"
    using ok by (simp add: seg_ok_def)
  have pv47: "unat ?pv < 2 ^ 47" "unat ?pv + 4096 \<le> 2 ^ 47" "unat ?pv mod 4096 = 0" "unat ?pv div 4096 = ?q"
    using low unfolding pv by simp_all
  obtain a s1 s2 where st: "vm_alloc_page '''' s = (Inr a, s1)" "map_page_with_flags r ?pv a (sg_flags seg) s1 = (Inr (), s2)"
    by (rule fresh_available [OF wf r plain pv47(1) free])
  have zero: "frame_byte (vm_zero_page a s2) a off = 0" for off
    by (simp add: frame_byte_zero)
  obtain s' where c: "copy_segment outside seg data ?pv a (vm_zero_page a s2) = Some (Inr (), s')"
      "\<And>t. t \<noteq> a \<Longrightarrow> vm_mem s' t = vm_mem (vm_zero_page a s2) t" "vm_pmm s' = vm_pmm (vm_zero_page a s2)"
      "\<And>off. off < 4096 \<Longrightarrow> frame_byte s' a off = seg_byte seg data (unat ?pv + off)"
    by (rule copy_segment_ok [OF ok pv47(2) zero]) blast
  have wr: "vm_mem s' t = vm_mem s2 t" if "t \<noteq> a" for t
    using c(2) [OF that] that by (auto simp: vm_mem_zero)
  have eq: "load_page oom outside r seg data i s = Some (Inr (), s')"
    using load_steps(1) [OF st(1), of oom] load_steps(2) [OF st(2), of oom] c(1)
    unfolding load_page_def Let_def load_then_def page_va_def [symmetric] by simp
  obtain role' where f: "vm_wf role' roots s'" "plain role' r s'" "keeps_frames role s role' s'" "same_elsewhere roots r ?pv s s'"
    "held role' s' a" "\<And>off. off < 4096 \<Longrightarrow> translate r s' (?pv + of_nat off) = Some (a + of_nat off)"
    "card (pmm_free_pages (vm_pmm s)) \<le> card (pmm_free_pages (vm_pmm s')) + 4"
    by (rule load_fresh [OF wf r plain pv47(3,2) fl st wr]) (use c(3) in auto)
  have "of_nat (?q * 4096 + off) = ?pv + of_nat off" for off
    unfolding pv [symmetric] by simp
  then have "page_shows role' r s' (seg_byte seg data) ?q"
    using f(5,6) c(4) take_frame(6) [OF wf st(1)] unfolding page_shows_def pv by metis
  then show thesis
    using that [OF eq f(1-3)] same_elsewhere_outside [OF f(4) pv47(1)] f(7) pv47(4) by simp
qed

lemma load_pages_ok:
  assumes "vm_wf role roots s" "r \<in> roots" "plain role r s" "seg_ok seg data"
    "(first_page seg + i + n) * 4096 \<le> 2 ^ 47" "4 * n \<le> card (pmm_free_pages (vm_pmm s))"
  shows "\<exists>s' role'. load_pages oom outside r seg data i n s = Some (Inr (), s') \<and> vm_wf role' roots s' \<and> plain role' r s'
    \<and> keeps_frames role s role' s' \<and> same_outside roots r {first_page seg + i..<first_page seg + i + n} s s'
    \<and> (\<forall>q \<in> {first_page seg + i..<first_page seg + i + n}. page_shows role' r s' (seg_byte seg data) q)
    \<and> card (pmm_free_pages (vm_pmm s)) \<le> card (pmm_free_pages (vm_pmm s')) + 4 * n"
  using assms
proof (induction n arbitrary: i s role)
  case 0
  then show ?case
    by fastforce
next
  case (Suc n)
  let ?q = "first_page seg + i"
  have "(?q + 1) * 4096 \<le> 2 ^ 47" "4 \<le> card (pmm_free_pages (vm_pmm s))"
    using Suc.prems(5,6) by simp_all
  then obtain s1 role1 where s1: "load_page oom outside r seg data i s = Some (Inr (), s1)" "vm_wf role1 roots s1" "plain role1 r s1"
    "keeps_frames role s role1 s1" "same_outside roots r {?q} s s1" "page_shows role1 r s1 (seg_byte seg data) ?q"
    "card (pmm_free_pages (vm_pmm s)) \<le> card (pmm_free_pages (vm_pmm s1)) + 4"
    by (rule load_page_ok [OF Suc.prems(1-4)])
  have "(first_page seg + Suc i + n) * 4096 \<le> 2 ^ 47" "4 * n \<le> card (pmm_free_pages (vm_pmm s1))"
    using Suc.prems(5,6) s1(7) by simp_all
  from Suc.IH [OF s1(2) Suc.prems(2) s1(3) Suc.prems(4) this]
  obtain s' role' where s': "load_pages oom outside r seg data (Suc i) n s1 = Some (Inr (), s')" "vm_wf role' roots s'" "plain role' r s'"
    "keeps_frames role1 s1 role' s'" "same_outside roots r {Suc ?q..<Suc ?q + n} s1 s'"
    "\<forall>q \<in> {Suc ?q..<Suc ?q + n}. page_shows role' r s' (seg_byte seg data) q"
    "card (pmm_free_pages (vm_pmm s1)) \<le> card (pmm_free_pages (vm_pmm s')) + 4 * n"
    by auto
  have "page_shows role' r s' (seg_byte seg data) ?q"
    by (rule page_shows_keeps [OF s1(6) s'(4,5) Suc.prems(2)]) (use Suc.prems(5) in auto)
  moreover have split: "{?q..<?q + Suc n} = {?q} \<union> {Suc ?q..<Suc ?q + n}"
    by auto
  ultimately have "\<forall>q \<in> {?q..<?q + Suc n}. page_shows role' r s' (seg_byte seg data) q"
    using s'(6) by simp
  moreover have "load_pages oom outside r seg data i (Suc n) s = Some (Inr (), s')"
    using s1(1) s'(1) by (simp add: load_then_def)
  ultimately show ?case
    using s'(2,3,7) s1(7) keeps_frames_trans [OF s1(4) s'(4)] same_outside_trans [OF s1(5) s'(5), folded split]
    by (intro exI [of _ s'] exI [of _ role']) simp
qed

definition seg_pages :: "segment \<Rightarrow> nat set" where
  "seg_pages seg = {first_page seg..<first_page seg + unat (page_count seg)}"

lemma page_count_nat:
  assumes "seg_ok seg data"
  shows "unat (page_count seg) = (unat (sg_vaddr seg) + unat (sg_memsz seg) + 4095) div 4096 - first_page seg"
    "(first_page seg + unat (page_count seg)) * 4096 \<le> 2 ^ 47"
proof -
  let ?V = "unat (sg_vaddr seg)" and ?M = "unat (sg_memsz seg)"
  have b: "?V + ?M + 4096 \<le> 2 ^ 47"
    using assms by (simp add: seg_ok_def)
  have e: "unat (sg_vaddr seg + sg_memsz seg + 4096 - 1) = ?V + ?M + 4095"
  proof -
    have "sg_vaddr seg + sg_memsz seg + 4096 - 1 = of_nat (?V + ?M + 4095)"
      by simp
    then show ?thesis
      using b by (simp only: unat_of_nat) simp
  qed
  have le: "?V div 4096 * 4096 \<le> (?V + ?M + 4095) div 4096 * 4096"
    by (intro mult_le_mono1 div_le_mono) simp
  have "unat (((sg_vaddr seg + sg_memsz seg + 4096 - 1) AND NOT (4096 - 1)) - (sg_vaddr seg AND NOT (4096 - 1))) =
      (?V + ?M + 4095) div 4096 * 4096 - ?V div 4096 * 4096"
    by (subst unat_minus_nat; unfold page_align_nat e) (use le in simp_all)
  then show n: "unat (page_count seg) = (?V + ?M + 4095) div 4096 - ?V div 4096"
    unfolding page_count_def Let_def unat_div_distrib by (simp add: diff_mult_distrib [symmetric])
  have "(?V + ?M + 4095) div 4096 * 4096 \<le> ?V + ?M + 4095"
    by simp
  then show "(?V div 4096 + unat (page_count seg)) * 4096 \<le> 2 ^ 47"
    using b le unfolding n by simp
qed

lemma load_segment_ok:
  assumes "vm_wf role roots s" "r \<in> roots" "plain role r s" "seg_ok seg data"
    "4 * unat (page_count seg) \<le> card (pmm_free_pages (vm_pmm s))"
  obtains s' role' where "load_segment oom outside r seg data s = Some (Inr (), s')" "vm_wf role' roots s'" "plain role' r s'"
    "keeps_frames role s role' s'" "same_outside roots r (seg_pages seg) s s'"
    "\<forall>q \<in> seg_pages seg. page_shows role' r s' (seg_byte seg data) q"
    "card (pmm_free_pages (vm_pmm s)) \<le> card (pmm_free_pages (vm_pmm s')) + 4 * unat (page_count seg)"
  using load_pages_ok [OF assms(1-4), of 0 "unat (page_count seg)" oom outside] page_count_nat(2) [OF assms(4)] assms(5)
  by (auto simp: load_segment_def seg_pages_def)

lemma seg_page_mem:
  assumes "seg_ok seg data" "unat (sg_vaddr seg) \<le> a" "a < unat (sg_vaddr seg) + unat (sg_memsz seg)"
  shows "a div 4096 \<in> seg_pages seg"
proof -
  have "first_page seg \<le> a div 4096"
    using assms(2) by (rule div_le_mono)
  moreover have "a div 4096 < (unat (sg_vaddr seg) + unat (sg_memsz seg) + 4095) div 4096"
    using assms(3) by linarith
  ultimately show ?thesis
    unfolding seg_pages_def page_count_nat(1) [OF assms(1)] by auto
qed

section \<open>Loading several segments\<close>

fun load_all :: "'e \<Rightarrow> 'e + unit \<Rightarrow> u64 \<Rightarrow> u8 list \<Rightarrow> segment list \<Rightarrow> ('e, unit) loader" where
  "load_all oom outside pml4 data [] s = Some (Inr (), s)"
| "load_all oom outside pml4 data (seg # segs) s =
     load_then (load_segment oom outside pml4 seg data) (\<lambda>_. load_all oom outside pml4 data segs) s"

fun disjoint_segs :: "segment list \<Rightarrow> bool" where
  "disjoint_segs [] \<longleftrightarrow> True"
| "disjoint_segs (seg # segs) \<longleftrightarrow> (\<forall>seg' \<in> set segs. seg_pages seg \<inter> seg_pages seg' = {}) \<and> disjoint_segs segs"

definition image_pages :: "segment list \<Rightarrow> nat set" where
  "image_pages segs = (\<Union>seg \<in> set segs. seg_pages seg)"

definition frames_needed :: "segment list \<Rightarrow> nat" where
  "frames_needed segs = 4 * sum_list (map (\<lambda>seg. unat (page_count seg)) segs)"

text \<open>The memory image of a program: every byte of every segment reads as in the file, or as zero beyond the
  part that the file provides.\<close>

definition image_loaded :: "u64 \<Rightarrow> Vm \<Rightarrow> u8 list \<Rightarrow> segment list \<Rightarrow> bool" where
  "image_loaded r s data segs \<longleftrightarrow>
     (\<forall>seg \<in> set segs. \<forall>k < unat (sg_memsz seg). \<exists>p. translate r s (sg_vaddr seg + of_nat k) = Some p
        \<and> phys_byte s p = (if k < unat (sg_filesz seg) then data ! (unat (sg_offset seg) + k) else 0))"

lemma image_loadedI:
  assumes "\<forall>seg \<in> set segs. seg_ok seg data" "\<forall>seg \<in> set segs. \<forall>q \<in> seg_pages seg. page_shows role r s (seg_byte seg data) q"
  shows "image_loaded r s data segs"
  unfolding image_loaded_def
proof (intro ballI allI impI)
  fix seg k
  assume seg: "seg \<in> set segs" and k: "k < unat (sg_memsz seg)"
  let ?a = "unat (sg_vaddr seg) + k"
  have "seg_ok seg data"
    using assms(1) seg by blast
  then have "?a div 4096 \<in> seg_pages seg"
    using k by (intro seg_page_mem) simp_all
  then have "page_shows role r s (seg_byte seg data) (?a div 4096)"
    using assms(2) seg by blast
  from page_shows_byte [OF this]
  show "\<exists>p. translate r s (sg_vaddr seg + of_nat k) = Some p \<and> phys_byte s p = (if k < unat (sg_filesz seg) then data ! (unat (sg_offset seg) + k) else 0)"
    by (simp add: seg_byte_def Let_def del: split_paired_Ex if_split cong: if_cong)
qed

lemma load_all_ok:
  assumes "vm_wf role roots s" "r \<in> roots" "plain role r s" "\<forall>seg \<in> set segs. seg_ok seg data" "disjoint_segs segs"
    "frames_needed segs \<le> card (pmm_free_pages (vm_pmm s))"
  shows "\<exists>s' role'. load_all oom outside r data segs s = Some (Inr (), s') \<and> vm_wf role' roots s' \<and> plain role' r s'
    \<and> keeps_frames role s role' s' \<and> same_outside roots r (image_pages segs) s s'
    \<and> (\<forall>seg \<in> set segs. \<forall>q \<in> seg_pages seg. page_shows role' r s' (seg_byte seg data) q)
    \<and> card (pmm_free_pages (vm_pmm s)) \<le> card (pmm_free_pages (vm_pmm s')) + frames_needed segs"
  using assms
proof (induction segs arbitrary: s role)
  case Nil
  then show ?case
    by (intro exI [of _ s] exI [of _ role]) simp
next
  case (Cons seg segs)
  have need: "frames_needed (seg # segs) = 4 * unat (page_count seg) + frames_needed segs"
    by (simp add: frames_needed_def)
  have ok: "seg_ok seg data" "4 * unat (page_count seg) \<le> card (pmm_free_pages (vm_pmm s))"
    using Cons.prems(4,6) need by simp_all
  obtain s1 role1 where s1: "load_segment oom outside r seg data s = Some (Inr (), s1)" "vm_wf role1 roots s1" "plain role1 r s1"
    "keeps_frames role s role1 s1" "same_outside roots r (seg_pages seg) s s1"
    "\<forall>q \<in> seg_pages seg. page_shows role1 r s1 (seg_byte seg data) q"
    "card (pmm_free_pages (vm_pmm s)) \<le> card (pmm_free_pages (vm_pmm s1)) + 4 * unat (page_count seg)"
    by (rule load_segment_ok [OF Cons.prems(1-3) ok])
  have "frames_needed segs \<le> card (pmm_free_pages (vm_pmm s1))"
    using Cons.prems(6) s1(7) need by linarith
  then obtain s' role' where s': "load_all oom outside r data segs s1 = Some (Inr (), s')" "vm_wf role' roots s'" "plain role' r s'"
    "keeps_frames role1 s1 role' s'" "same_outside roots r (image_pages segs) s1 s'"
    "\<forall>seg \<in> set segs. \<forall>q \<in> seg_pages seg. page_shows role' r s' (seg_byte seg data) q"
    "card (pmm_free_pages (vm_pmm s1)) \<le> card (pmm_free_pages (vm_pmm s')) + frames_needed segs"
    using Cons.IH [OF s1(2) Cons.prems(2) s1(3)] Cons.prems(4,5) by auto
  have "page_shows role' r s' (seg_byte seg data) q" if q: "q \<in> seg_pages seg" for q
  proof -
    have "q \<notin> image_pages segs"
      using Cons.prems(5) q by (auto simp: image_pages_def)
    moreover have "q < 2 ^ 35"
      using page_count_nat(2) [OF ok(1)] q by (auto simp: seg_pages_def)
    ultimately show ?thesis
      using page_shows_keeps [OF _ s'(4,5) Cons.prems(2)] s1(6) q by blast
  qed
  moreover have "load_all oom outside r data (seg # segs) s = Some (Inr (), s')"
    using s1(1) s'(1) by (simp add: load_then_def)
  moreover have "image_pages (seg # segs) = seg_pages seg \<union> image_pages segs"
    by (simp add: image_pages_def)
  ultimately show ?case
    using s' s1(7) need keeps_frames_trans [OF s1(4) s'(4)] same_outside_trans [OF s1(5) s'(5)]
    by (intro exI [of _ s'] exI [of _ role']) simp
qed

end
