(* ===== verification/ElfLoader.thy ===== *)
theory ElfLoader
  imports Segments
begin

text \<open>
  \<open>kernel/src/fs/elf_loader.rs\<close>: the headers of an ELF file and the loading of its segments into a new address
  space, with the page loop of \<open>Segments\<close>.  The file is the list of its bytes; a header read through a raw
  pointer is read from that list, and \<open>None\<close> is a read outside of it.
\<close>

section \<open>Headers\<close>

definition ELF_MAGIC :: u32 where "ELF_MAGIC = 0x464C457F"
definition ELF_CLASS_64 :: u8 where "ELF_CLASS_64 = 2"
definition ELF_DATA_2LSB :: u8 where "ELF_DATA_2LSB = 1"
definition ET_EXEC :: u16 where "ET_EXEC = 2"
definition ET_DYN :: u16 where "ET_DYN = 3"
definition PT_LOAD :: u32 where "PT_LOAD = 1"
definition PF_X :: u32 where "PF_X = 1"
definition PF_W :: u32 where "PF_W = 2"

record Elf64Ehdr =
  e_ident :: "u8 list"
  e_type :: u16
  e_machine :: u16
  e_version :: u32
  e_entry :: u64
  e_phoff :: u64
  e_shoff :: u64
  e_flags :: u32
  e_ehsize :: u16
  e_phentsize :: u16
  e_phnum :: u16
  e_shentsize :: u16
  e_shnum :: u16
  e_shstrndx :: u16

record Elf64Phdr =
  p_type :: u32
  p_flags :: u32
  p_offset :: u64
  p_vaddr :: u64
  p_paddr :: u64
  p_filesz :: u64
  p_memsz :: u64
  p_align :: u64

record LoadedElf =
  le_entry :: u64
  le_phdr_addr :: u64
  le_phdr_num :: u16

datatype ElfError = BadMagic | Not64Bit | WrongEndian | NotExecutable | NoProgramHeaders | ReadFailed | OutOfMemory

definition size_of_Ehdr :: nat where "size_of_Ehdr = 64"
definition size_of_Phdr :: nat where "size_of_Phdr = 56"

definition read_ehdr :: "u8 list \<Rightarrow> Elf64Ehdr" where
  "read_ehdr data =
     \<lparr>e_ident = take 16 data, e_type = field data 16 2, e_machine = field data 18 2, e_version = field data 20 4,
      e_entry = field data 24 8, e_phoff = field data 32 8, e_shoff = field data 40 8, e_flags = field data 48 4,
      e_ehsize = field data 52 2, e_phentsize = field data 54 2, e_phnum = field data 56 2, e_shentsize = field data 58 2,
      e_shnum = field data 60 2, e_shstrndx = field data 62 2\<rparr>"

definition read_phdr :: "u8 list \<Rightarrow> nat \<Rightarrow> Elf64Phdr" where
  "read_phdr data off =
     \<lparr>p_type = field data off 4, p_flags = field data (off + 4) 4, p_offset = field data (off + 8) 8,
      p_vaddr = field data (off + 16) 8, p_paddr = field data (off + 24) 8, p_filesz = field data (off + 32) 8,
      p_memsz = field data (off + 40) 8, p_align = field data (off + 48) 8\<rparr>"

section \<open>Loading\<close>

definition seg_flags :: "Elf64Phdr \<Rightarrow> u64" where
  "seg_flags phdr =
     (let flags = PRESENT OR USER;
          flags = (if p_flags phdr AND PF_W \<noteq> 0 then flags OR WRITABLE else flags)
      in if p_flags phdr AND PF_X = 0 then flags OR NO_EXECUTE else flags)"

definition elf_segment :: "Elf64Phdr \<Rightarrow> segment" where
  "elf_segment phdr = \<lparr>sg_vaddr = p_vaddr phdr, sg_memsz = p_memsz phdr, sg_filesz = p_filesz phdr, sg_offset = p_offset phdr,
     sg_flags = seg_flags phdr\<rparr>"

definition elf_load_segment :: "u64 \<Rightarrow> Elf64Phdr \<Rightarrow> u8 list \<Rightarrow> (ElfError, unit) loader" where
  "elf_load_segment pml4 phdr data = load_segment OutOfMemory (Inl ReadFailed) pml4 (elf_segment phdr) data"

fun load_headers :: "u64 \<Rightarrow> Elf64Ehdr \<Rightarrow> u8 list \<Rightarrow> nat \<Rightarrow> nat \<Rightarrow> (ElfError, unit) loader" where
  "load_headers pml4 ehdr data i 0 s = Some (Inr (), s)"
| "load_headers pml4 ehdr data i (Suc n) s =
     (let phdr_offset = e_phoff ehdr + of_nat i * ucast (e_phentsize ehdr)
      in if phdr_offset + of_nat size_of_Phdr > of_nat (length data) then Some (Inl ReadFailed, s)
         else if unat phdr_offset + size_of_Phdr > length data then None
         else let phdr = read_phdr data (unat phdr_offset)
              in load_then (if p_type phdr = PT_LOAD then elf_load_segment pml4 phdr data else (\<lambda>s. Some (Inr (), s)))
                   (\<lambda>_. load_headers pml4 ehdr data (Suc i) n) s)"

definition elf_load :: "u64 \<Rightarrow> u8 list \<Rightarrow> (ElfError, LoadedElf) loader" where
  "elf_load pml4 data s =
     (if length data < size_of_Ehdr then Some (Inl ReadFailed, s)
      else let ehdr = read_ehdr data; magic = field (e_ident ehdr) 0 4
           in if magic \<noteq> ELF_MAGIC then Some (Inl BadMagic, s)
              else if e_ident ehdr ! 4 \<noteq> ELF_CLASS_64 then Some (Inl Not64Bit, s)
              else if e_ident ehdr ! 5 \<noteq> ELF_DATA_2LSB then Some (Inl WrongEndian, s)
              else if e_type ehdr \<noteq> ET_EXEC \<and> e_type ehdr \<noteq> ET_DYN then Some (Inl NotExecutable, s)
              else if e_phnum ehdr = 0 then Some (Inl NoProgramHeaders, s)
              else load_then (load_headers pml4 ehdr data 0 (unat (e_phnum ehdr)))
                     (\<lambda>_ s. Some (Inr \<lparr>le_entry = e_entry ehdr, le_phdr_addr = e_phoff ehdr, le_phdr_num = e_phnum ehdr\<rparr>, s)) s)"

section \<open>Loading a program\<close>

definition phdr_at :: "u8 list \<Rightarrow> nat \<Rightarrow> Elf64Phdr" where
  "phdr_at data i = read_phdr data (unat (e_phoff (read_ehdr data)) + i * unat (e_phentsize (read_ehdr data)))"

definition elf_segments_from :: "u8 list \<Rightarrow> nat \<Rightarrow> nat \<Rightarrow> segment list" where
  "elf_segments_from data i n = map elf_segment (filter (\<lambda>phdr. p_type phdr = PT_LOAD) (map (phdr_at data) [i..<i + n]))"

abbreviation elf_segments :: "u8 list \<Rightarrow> segment list" where
  "elf_segments data \<equiv> elf_segments_from data 0 (unat (e_phnum (read_ehdr data)))"

text \<open>The file passes the checks of the loader, and the program headers lie in the file.\<close>

definition elf_ok :: "u8 list \<Rightarrow> bool" where
  "elf_ok data \<longleftrightarrow>
     (let ehdr = read_ehdr data
      in 64 \<le> length data \<and> length data < 2 ^ 63 \<and> field (e_ident ehdr) 0 4 = ELF_MAGIC \<and> e_ident ehdr ! 4 = ELF_CLASS_64
         \<and> e_ident ehdr ! 5 = ELF_DATA_2LSB \<and> (e_type ehdr = ET_EXEC \<or> e_type ehdr = ET_DYN) \<and> e_phnum ehdr \<noteq> 0
         \<and> (\<forall>i < unat (e_phnum ehdr). unat (e_phoff ehdr) + i * unat (e_phentsize ehdr) + 56 \<le> length data))"

lemma phdr_offset_nat:
  assumes "unat off + i * unat (sz :: u16) + 56 \<le> len" "len < 2 ^ 63"
  shows "unat (off + of_nat i * ucast sz :: u64) = unat off + i * unat sz"
    "\<not> off + of_nat i * ucast sz + of_nat size_of_Phdr > (of_nat len :: u64)"
proof -
  have "unat (of_nat (unat off + i * unat sz) :: u64) = unat off + i * unat sz"
      "unat (of_nat (unat off + i * unat sz + 56) :: u64) = unat off + i * unat sz + 56"
    using assms by (simp_all only: unat_of_nat) simp_all
  moreover have "of_nat (unat off + i * unat sz) = off + of_nat i * ucast sz"
      "of_nat (unat off + i * unat sz + 56) = off + of_nat i * ucast sz + of_nat size_of_Phdr"
    by (simp_all add: size_of_Phdr_def)
  ultimately show "unat (off + of_nat i * ucast sz :: u64) = unat off + i * unat sz"
      "\<not> off + of_nat i * ucast sz + of_nat size_of_Phdr > (of_nat len :: u64)"
    using assms by (simp_all add: word_less_nat_alt unat_of_nat)
qed

lemma load_headers_all:
  assumes "elf_ok data" "i + n \<le> unat (e_phnum (read_ehdr data))"
  shows "load_headers r (read_ehdr data) data i n s = load_all OutOfMemory (Inl ReadFailed) r data (elf_segments_from data i n) s"
  using assms(2)
proof (induction n arbitrary: i s)
  case 0
  then show ?case
    by (simp add: elf_segments_from_def)
next
  case (Suc n)
  let ?phdr = "phdr_at data i"
  have b: "unat (e_phoff (read_ehdr data)) + i * unat (e_phentsize (read_ehdr data)) + 56 \<le> length data" "length data < 2 ^ 63"
    using assms(1) Suc.prems by (simp_all add: elf_ok_def Let_def)
  have "load_headers r (read_ehdr data) data i (Suc n) s =
    load_then (if p_type ?phdr = PT_LOAD then elf_load_segment r ?phdr data else (\<lambda>s. Some (Inr (), s)))
      (\<lambda>_. load_headers r (read_ehdr data) data (Suc i) n) s"
    using b(1) phdr_offset_nat(2) [OF b] unfolding load_headers.simps(2) Let_def phdr_at_def phdr_offset_nat(1) [OF b]
    by (simp add: size_of_Phdr_def)
  moreover have "elf_segments_from data i (Suc n) =
      (if p_type ?phdr = PT_LOAD then [elf_segment ?phdr] else []) @ elf_segments_from data (Suc i) n"
    using upt_conv_Cons [of i "i + Suc n"] by (simp add: elf_segments_from_def del: upt_Suc)
  moreover have "load_headers r (read_ehdr data) data (Suc i) n =
      load_all OutOfMemory (Inl ReadFailed) r data (elf_segments_from data (Suc i) n)"
    using Suc.IH [of "Suc i"] Suc.prems by (intro ext) simp
  ultimately show ?case
    by (simp add: elf_load_segment_def load_then_def)
qed

lemma elf_load_frames:
  assumes "vm_wf role roots s" "r \<in> roots" "plain role r s" "elf_ok data" "\<forall>seg \<in> set (elf_segments data). seg_ok seg data"
    "disjoint_segs (elf_segments data)" "frames_needed (elf_segments data) \<le> card (pmm_free_pages (vm_pmm s))"
  obtains s' role' where "elf_load r data s =
      Some (Inr \<lparr>le_entry = e_entry (read_ehdr data), le_phdr_addr = e_phoff (read_ehdr data),
        le_phdr_num = e_phnum (read_ehdr data)\<rparr>, s')"
    "vm_wf role' roots s'" "plain role' r s'" "keeps_frames role s role' s'"
    "same_outside roots r (image_pages (elf_segments data)) s s'"
    "\<forall>seg \<in> set (elf_segments data). \<forall>q \<in> seg_pages seg. page_shows role' r s' (seg_byte seg data) q"
    "card (pmm_free_pages (vm_pmm s)) \<le> card (pmm_free_pages (vm_pmm s')) + frames_needed (elf_segments data)"
proof -
  obtain s' role' where s': "load_all OutOfMemory (Inl ReadFailed) r data (elf_segments data) s = Some (Inr (), s')"
    "vm_wf role' roots s'" "plain role' r s'" "keeps_frames role s role' s'" "same_outside roots r (image_pages (elf_segments data)) s s'"
    "\<forall>seg \<in> set (elf_segments data). \<forall>q \<in> seg_pages seg. page_shows role' r s' (seg_byte seg data) q"
    "card (pmm_free_pages (vm_pmm s)) \<le> card (pmm_free_pages (vm_pmm s')) + frames_needed (elf_segments data)"
    using load_all_ok [OF assms(1-3,5-7), of OutOfMemory "Inl ReadFailed"] by blast
  have "elf_load r data s = Some (Inr \<lparr>le_entry = e_entry (read_ehdr data), le_phdr_addr = e_phoff (read_ehdr data),
        le_phdr_num = e_phnum (read_ehdr data)\<rparr>, s')"
    using assms(4) load_headers_all [OF assms(4), of 0 _ r s] s'(1)
    unfolding elf_ok_def elf_load_def Let_def load_then_def by (auto simp: size_of_Ehdr_def)
  then show thesis
    using that s'(2-7) by blast
qed

lemma elf_load_ok:
  assumes "vm_wf role roots s" "r \<in> roots" "plain role r s" "elf_ok data" "\<forall>seg \<in> set (elf_segments data). seg_ok seg data"
    "disjoint_segs (elf_segments data)" "frames_needed (elf_segments data) \<le> card (pmm_free_pages (vm_pmm s))"
  shows "\<exists>s' role'. elf_load r data s =
      Some (Inr \<lparr>le_entry = e_entry (read_ehdr data), le_phdr_addr = e_phoff (read_ehdr data),
        le_phdr_num = e_phnum (read_ehdr data)\<rparr>, s')
    \<and> vm_wf role' roots s' \<and> image_loaded r s' data (elf_segments data)
    \<and> same_outside roots r (image_pages (elf_segments data)) s s'"
  by (rule elf_load_frames [OF assms]) (use image_loadedI [OF assms(5)] in blast)

text \<open>C7: Loading a well-formed ELF file with enough free memory succeeds and returns its entry point.  In
  the new address space every byte of every loadable segment then reads as the byte of the file, or as zero
  beyond the file part of the segment; every page outside of the segments, and every other address space, still
  translates as before.\<close>

theorem elf_load_image:
  assumes "vm_wf role roots s" "r \<in> roots" "plain role r s" "elf_ok data" "\<forall>seg \<in> set (elf_segments data). seg_ok seg data"
    "disjoint_segs (elf_segments data)" "frames_needed (elf_segments data) \<le> card (pmm_free_pages (vm_pmm s))"
  shows "\<exists>s' role'. elf_load r data s =
      Some (Inr \<lparr>le_entry = e_entry (read_ehdr data), le_phdr_addr = e_phoff (read_ehdr data),
        le_phdr_num = e_phnum (read_ehdr data)\<rparr>, s')
    \<and> vm_wf role' roots s' \<and> image_loaded r s' data (elf_segments data)
    \<and> same_outside roots r (image_pages (elf_segments data)) s s'"
  by (rule elf_load_ok [OF assms])

text \<open>A program of one segment: two bytes of the file and two zero bytes at 0x400000.\<close>

definition elf_header :: "u8 list \<Rightarrow> u8 list" where
  "elf_header phoff =
     [0x7F, 0x45, 0x4C, 0x46, 2, 1, 1, 0, 0, 0, 0, 0, 0, 0, 0, 0, 2, 0, 62, 0, 1, 0, 0, 0, 0, 0, 0x40, 0, 0, 0, 0, 0] @ phoff @
     [0, 0, 0, 0, 0, 0, 0, 0, 0, 0, 0, 0, 64, 0, 56, 0, 1, 0, 0, 0, 0, 0, 0, 0]"

definition elf_example :: "u8 list" where
  "elf_example = elf_header [64, 0, 0, 0, 0, 0, 0, 0] @
     [1, 0, 0, 0, 5, 0, 0, 0, 120, 0, 0, 0, 0, 0, 0, 0, 0, 0, 0x40, 0, 0, 0, 0, 0, 0, 0, 0, 0, 0, 0, 0, 0,
      2, 0, 0, 0, 0, 0, 0, 0, 4, 0, 0, 0, 0, 0, 0, 0, 0, 16, 0, 0, 0, 0, 0, 0, 0xAA, 0xBB]"

lemma elf_example_ehdr:
  "read_ehdr elf_example = \<lparr>e_ident = [0x7F, 0x45, 0x4C, 0x46, 2, 1, 1, 0, 0, 0, 0, 0, 0, 0, 0, 0], e_type = 2, e_machine = 62,
     e_version = 1, e_entry = 0x400000, e_phoff = 64, e_shoff = 0, e_flags = 0, e_ehsize = 64, e_phentsize = 56, e_phnum = 1,
     e_shentsize = 0, e_shnum = 0, e_shstrndx = 0\<rparr>"
  by (simp add: read_ehdr_def field_def elf_example_def elf_header_def)

lemma elf_example_phdr:
  "phdr_at elf_example 0 = \<lparr>p_type = 1, p_flags = 5, p_offset = 120, p_vaddr = 0x400000, p_paddr = 0, p_filesz = 2, p_memsz = 4,
     p_align = 4096\<rparr>"
  by (simp add: phdr_at_def elf_example_ehdr) (simp add: read_phdr_def field_def elf_example_def elf_header_def)

lemma elf_example_length: "length elf_example = 122"
  by (simp add: elf_example_def elf_header_def)

lemma elf_example_ok: "elf_ok elf_example"
  unfolding elf_ok_def Let_def
  by (simp add: elf_example_ehdr elf_example_length field_def ELF_MAGIC_def ELF_CLASS_64_def ELF_DATA_2LSB_def ET_EXEC_def)

lemma elf_example_segments:
  "elf_segments elf_example = [\<lparr>sg_vaddr = 0x400000, sg_memsz = 4, sg_filesz = 2, sg_offset = 120, sg_flags = PRESENT OR USER\<rparr>]"
  by (simp add: elf_segments_from_def elf_example_ehdr elf_example_phdr PT_LOAD_def elf_segment_def seg_flags_def PF_W_def PF_X_def)

lemma vm_example_plain: "plain role r vm_example"
  by (simp add: plain_def vm_example_def pte_is_present_def)

lemma elf_example_loads:
  "\<forall>seg \<in> set (elf_segments elf_example). seg_ok seg elf_example" "disjoint_segs (elf_segments elf_example)"
  "frames_needed (elf_segments elf_example) \<le> card (pmm_free_pages (vm_pmm vm_example))"
  by (simp_all add: elf_example_segments seg_ok_def elf_example_length PRESENT_def USER_def frames_needed_def page_count_def vm_example_def
      pmm_example_free)

theorem elf_load_image_witness:
  "\<exists>s'. elf_load 0x1000 elf_example vm_example = Some (Inr \<lparr>le_entry = 0x400000, le_phdr_addr = 64, le_phdr_num = 1\<rparr>, s')
     \<and> (\<exists>p. translate 0x1000 s' 0x400001 = Some p \<and> phys_byte s' p = 0xBB)
     \<and> (\<exists>p. translate 0x1000 s' 0x400002 = Some p \<and> phys_byte s' p = 0)"
proof -
  obtain s' where s': "elf_load 0x1000 elf_example vm_example = Some (Inr \<lparr>le_entry = 0x400000, le_phdr_addr = 64, le_phdr_num = 1\<rparr>, s')"
    "image_loaded 0x1000 s' elf_example (elf_segments elf_example)"
    using elf_load_image [OF vm_example_wf insertI1 vm_example_plain elf_example_ok elf_example_loads] by (auto simp: elf_example_ehdr)
  have "elf_example ! 121 = 0xBB"
    by (simp add: elf_example_def elf_header_def)
  moreover have "\<forall>k < 4. \<exists>p. translate 0x1000 s' (0x400000 + of_nat k) = Some p \<and> phys_byte s' p = (if k < 2 then elf_example ! (120 + k) else 0)"
    using s'(2) unfolding image_loaded_def elf_example_segments by (simp cong: if_cong del: if_split)
  from this [rule_format, of 1] this [rule_format, of 2]
  show ?thesis
    using s'(1) calculation by auto
qed

text \<open>C40: The bounds check of the program headers wraps around.  A file whose header table is said to start
  in the last 56 bytes of the address range passes it, and the loader reads the header outside of the file.\<close>

theorem elf_header_offset_wraps:
  assumes "64 \<le> length data" "length data < 2 ^ 63" "field (e_ident (read_ehdr data)) 0 4 = ELF_MAGIC"
    "e_ident (read_ehdr data) ! 4 = ELF_CLASS_64" "e_ident (read_ehdr data) ! 5 = ELF_DATA_2LSB"
    "e_type (read_ehdr data) = ET_EXEC \<or> e_type (read_ehdr data) = ET_DYN" "e_phnum (read_ehdr data) \<noteq> 0"
    and wrap: "2 ^ 64 \<le> unat (e_phoff (read_ehdr data)) + 56"
  shows "elf_load r data s = None"
proof -
  let ?off = "e_phoff (read_ehdr data)"
  obtain n where n: "unat (e_phnum (read_ehdr data)) = Suc n"
    using assms(7) by (metis not0_implies_Suc unat_eq_zero)
  have "unat (?off + 56) < 56"
    using wrap unsigned_less [of ?off, where 'a = nat] by (simp add: unat_word_ariths mod_if) linarith
  then have pass: "\<not> of_nat (length data) < ?off + 56"
    using assms(1,2) by (simp add: word_less_nat_alt unat_of_nat)
  have "load_headers r (read_ehdr data) data 0 (Suc n) s = None"
    using pass wrap assms(2) by (simp add: size_of_Phdr_def)
  then show ?thesis
    using assms(1,3-7) n unfolding elf_load_def Let_def load_then_def by (auto simp: size_of_Ehdr_def)
qed

theorem elf_header_offset_wraps_witness:
  "elf_load 0x1000 (elf_header [0xFF, 0xFF, 0xFF, 0xFF, 0xFF, 0xFF, 0xFF, 0xFF]) vm_example = None"
  by (rule elf_header_offset_wraps)
    (simp_all add: elf_header_def read_ehdr_def field_def ELF_MAGIC_def ELF_CLASS_64_def ELF_DATA_2LSB_def ET_EXEC_def)

end
