(* ===== verification/PeLoader.thy ===== *)
theory PeLoader
  imports Segments Vfs
begin

text \<open>
  \<open>kernel/src/fs/pe_loader.rs\<close> and \<open>kernel/src/fs/pe_patcher.rs\<close>: loading a 64-bit Windows program and pointing its
  imports at stubs.  A kernel pointer into the direct map is represented by the physical address behind it.
  The walk over the import tables has no bound of its own, so it is a partial function; \<open>None\<close> as a result is
  a read outside of the file or a walk that never ends.
\<close>

section \<open>The stubs\<close>

datatype LoaderError = Fs FsError | InvalidFormat | LoaderOutOfMemory

record LoadedImage =
  li_entry :: u64

definition stub_address :: u64 where
  "stub_address = 0x7FFF00000000"

definition write_stub :: "u8 list" where
  "write_stub = [0x48, 0x89, 0xCF, 0x48, 0x89, 0xD6, 0x4C, 0x89, 0xC2, 0x48, 0xC7, 0xC0, 0x01, 0x00, 0x00, 0x00, 0x0F, 0x05, 0xC3]"

definition read_stub :: "u8 list" where
  "read_stub = [0x48, 0x89, 0xCF, 0x48, 0x89, 0xD6, 0x4C, 0x89, 0xC2, 0x48, 0xC7, 0xC0, 0x00, 0x00, 0x00, 0x00, 0x0F, 0x05, 0xC3]"

definition exit_stub :: "u8 list" where
  "exit_stub = [0x48, 0x89, 0xCF, 0x48, 0xC7, 0xC0, 0x3C, 0x00, 0x00, 0x00, 0x0F, 0x05, 0xC3]"

definition create_stubs :: "u64 \<Rightarrow> (LoaderError, u64) loader" where
  "create_stubs pml4 =
     load_then (seg_alloc_page LoaderOutOfMemory) (\<lambda>phys.
     load_then (seg_map_page LoaderOutOfMemory pml4 stub_address phys (USER OR PRESENT)) (\<lambda>_ s.
       let s = vm_copy phys 0 (replicate 4096 0xCC) s;
           s = vm_copy phys 0 write_stub s;
           s = vm_copy phys 32 read_stub s;
           s = vm_copy phys 64 exit_stub s
       in Some (Inr stub_address, s)))"

definition get_stub_address :: "u64 \<Rightarrow> string \<Rightarrow> u64 option" where
  "get_stub_address stubs_base nm =
     (if nm = ''WriteFile'' then Some (stubs_base + 0)
      else if nm = ''ReadFile'' then Some (stubs_base + 32)
      else if nm = ''ExitProcess'' then Some (stubs_base + 64)
      else None)"

section \<open>Headers\<close>

definition IMAGE_DOS_SIGNATURE :: u16 where "IMAGE_DOS_SIGNATURE = 0x5A4D"
definition IMAGE_NT_SIGNATURE :: u32 where "IMAGE_NT_SIGNATURE = 0x00004550"
definition IMAGE_NT_OPTIONAL_HDR64_MAGIC :: u16 where "IMAGE_NT_OPTIONAL_HDR64_MAGIC = 0x20b"
definition IMAGE_SCN_MEM_EXECUTE :: u32 where "IMAGE_SCN_MEM_EXECUTE = 0x20000000"
definition IMAGE_SCN_MEM_WRITE :: u32 where "IMAGE_SCN_MEM_WRITE = 0x80000000"
definition IMAGE_ORDINAL_FLAG64 :: u64 where "IMAGE_ORDINAL_FLAG64 = 0x8000000000000000"
definition size_of_DosHeader :: nat where "size_of_DosHeader = 64"
definition size_of_PeFileHeader :: nat where "size_of_PeFileHeader = 20"
definition size_of_PeOptionalHeader64 :: nat where "size_of_PeOptionalHeader64 = 240"
definition size_of_PeSectionHeader :: nat where "size_of_PeSectionHeader = 40"
definition size_of_ImageImportDescriptor :: u32 where "size_of_ImageImportDescriptor = 20"

text \<open>The fields of the packed headers that the loader reads, at their offsets.\<close>

definition dos_e_magic :: "u8 list \<Rightarrow> u16" where "dos_e_magic data = field data 0 2"
definition dos_e_lfanew :: "u8 list \<Rightarrow> u32" where "dos_e_lfanew data = field data 60 4"
definition fh_number_of_sections :: "u8 list \<Rightarrow> nat \<Rightarrow> u16" where "fh_number_of_sections data off = field data (off + 2) 2"
definition fh_size_of_optional_header :: "u8 list \<Rightarrow> nat \<Rightarrow> u16" where "fh_size_of_optional_header data off = field data (off + 16) 2"
definition oh_magic :: "u8 list \<Rightarrow> nat \<Rightarrow> u16" where "oh_magic data off = field data off 2"
definition oh_address_of_entry_point :: "u8 list \<Rightarrow> nat \<Rightarrow> u32" where "oh_address_of_entry_point data off = field data (off + 16) 4"
definition oh_image_base :: "u8 list \<Rightarrow> nat \<Rightarrow> u64" where "oh_image_base data off = field data (off + 24) 8"
definition oh_number_of_rva_and_sizes :: "u8 list \<Rightarrow> nat \<Rightarrow> u32" where "oh_number_of_rva_and_sizes data off = field data (off + 108) 4"
definition oh_import_dir_addr :: "u8 list \<Rightarrow> nat \<Rightarrow> u32" where "oh_import_dir_addr data off = field data (off + 112 + 1 * 8) 4"

record PeSectionHeader =
  sh_virtual_size :: u32
  sh_virtual_address :: u32
  sh_size_of_raw_data :: u32
  sh_pointer_to_raw_data :: u32
  sh_characteristics :: u32

definition read_section :: "u8 list \<Rightarrow> nat \<Rightarrow> PeSectionHeader" where
  "read_section data off =
     \<lparr>sh_virtual_size = field data (off + 8) 4, sh_virtual_address = field data (off + 12) 4, sh_size_of_raw_data = field data (off + 16) 4,
      sh_pointer_to_raw_data = field data (off + 20) 4, sh_characteristics = field data (off + 36) 4\<rparr>"

section \<open>Sections\<close>

definition section_flags :: "PeSectionHeader \<Rightarrow> u64" where
  "section_flags sec =
     (let flags = USER OR PRESENT;
          flags = (if sh_characteristics sec AND IMAGE_SCN_MEM_WRITE \<noteq> 0 then flags OR WRITABLE else flags)
      in if sh_characteristics sec AND IMAGE_SCN_MEM_EXECUTE = 0 then flags OR NO_EXECUTE else flags)"

definition pe_segment :: "u64 \<Rightarrow> PeSectionHeader \<Rightarrow> segment" where
  "pe_segment image_base sec =
     \<lparr>sg_vaddr = image_base + ucast (sh_virtual_address sec), sg_memsz = ucast (sh_virtual_size sec),
      sg_filesz = ucast (sh_size_of_raw_data sec), sg_offset = ucast (sh_pointer_to_raw_data sec), sg_flags = section_flags sec\<rparr>"

text \<open>A part of a section that lies outside of the file is left zero.\<close>

definition load_section :: "u64 \<Rightarrow> u64 \<Rightarrow> PeSectionHeader \<Rightarrow> u8 list \<Rightarrow> (LoaderError, unit) loader" where
  "load_section pml4 image_base sec data = load_segment LoaderOutOfMemory (Inr ()) pml4 (pe_segment image_base sec) data"

fun load_sections :: "u64 \<Rightarrow> u64 \<Rightarrow> u8 list \<Rightarrow> nat \<Rightarrow> nat \<Rightarrow> nat \<Rightarrow> (LoaderError, unit) loader" where
  "load_sections pml4 image_base data table i 0 s = Some (Inr (), s)"
| "load_sections pml4 image_base data table i (Suc n) s =
     (let sec = read_section data (table + i * size_of_PeSectionHeader)
      in load_then (if sh_virtual_size sec = 0 then (\<lambda>s. Some (Inr (), s)) else load_section pml4 image_base sec data)
           (\<lambda>_. load_sections pml4 image_base data table (Suc i) n) s)"

section \<open>Imports\<close>

text \<open>The physical address behind the pointer that the code computes: \<open>translate\<close> already adds the offset in
  the page, and the code adds it a second time.\<close>

definition vaddr_to_kernel_ptr :: "u64 \<Rightarrow> u64 \<Rightarrow> Vm \<Rightarrow> u64 option" where
  "vaddr_to_kernel_ptr pml4 vaddr s = map_option (\<lambda>phys. phys + vaddr mod 4096) (translate pml4 s vaddr)"

definition rva_to_kernel_ptr :: "u64 \<Rightarrow> u64 \<Rightarrow> u32 \<Rightarrow> Vm \<Rightarrow> u64 option" where
  "rva_to_kernel_ptr pml4 image_base rva s = vaddr_to_kernel_ptr pml4 (image_base + ucast rva) s"

definition phys_field :: "Vm \<Rightarrow> u64 \<Rightarrow> nat \<Rightarrow> nat \<Rightarrow> 'a::len word" where
  "phys_field s p off n = of_nat (le_value (map (\<lambda>i. phys_byte s (p + of_nat (off + i))) [0..<n]))"

definition phys_write_u64 :: "u64 \<Rightarrow> u64 \<Rightarrow> Vm \<Rightarrow> Vm" where
  "phys_write_u64 p v s = fold (\<lambda>i s. phys_write s (p + of_nat i) (ucast (drop_bit (8 * i) v))) [0..<8] s"

fun read_string_loop :: "u64 \<Rightarrow> u64 \<Rightarrow> Vm \<Rightarrow> nat \<Rightarrow> nat \<Rightarrow> u8 list \<Rightarrow> bool \<times> u8 list" where
  "read_string_loop pml4 vaddr s len 0 buf = (True, buf[length buf - 1 := 0])"
| "read_string_loop pml4 vaddr s len (Suc n) buf =
     (case vaddr_to_kernel_ptr pml4 (vaddr + of_nat len) s of
        Some p \<Rightarrow>
          let byte = phys_byte s p; buf = buf[len := byte]
          in if byte = 0 then (True, buf) else read_string_loop pml4 vaddr s (Suc len) n buf
      | None \<Rightarrow> (False, buf))"

definition read_string_to_buf :: "u64 \<Rightarrow> u64 \<Rightarrow> Vm \<Rightarrow> u8 list \<Rightarrow> bool \<times> u8 list" where
  "read_string_to_buf pml4 vaddr s buf = read_string_loop pml4 vaddr s 0 (length buf - 1) buf"

definition trim_null :: "u8 list \<Rightarrow> u8 list" where
  "trim_null buf = takeWhile (\<lambda>b. b \<noteq> 0) buf"

text \<open>One import of a library: patch the address table when the name is one of the stubs.\<close>

definition patch_thunk :: "u64 \<Rightarrow> u64 \<Rightarrow> u64 \<Rightarrow> u64 \<Rightarrow> u32 \<Rightarrow> u8 list \<Rightarrow> Vm \<Rightarrow> (LoaderError + u8 list) \<times> Vm" where
  "patch_thunk pml4 image_base stubs_base thunk iat_rva func_name_buf s =
     (if thunk AND IMAGE_ORDINAL_FLAG64 = 0
      then let name_rva = ucast thunk + 2 :: u32;
               (found, func_name_buf) = read_string_to_buf pml4 (image_base + ucast name_rva) s func_name_buf
           in if found
              then case from_utf8 (trim_null func_name_buf) of
                  None \<Rightarrow> (Inr func_name_buf, s)
                | Some func_name \<Rightarrow>
                    (case get_stub_address stubs_base func_name of
                       None \<Rightarrow> (Inr func_name_buf, s)
                     | Some stub_addr \<Rightarrow>
                         (case vaddr_to_kernel_ptr pml4 (image_base + ucast iat_rva) s of
                            None \<Rightarrow> (Inl InvalidFormat, s)
                          | Some iat_ptr \<Rightarrow> (Inr func_name_buf, phys_write_u64 iat_ptr stub_addr s)))
              else (Inr func_name_buf, s)
      else (Inr func_name_buf, s))"

partial_function (option) patch_thunks ::
    "u64 \<Rightarrow> u64 \<Rightarrow> u64 \<Rightarrow> u32 \<Rightarrow> u32 \<Rightarrow> u8 list \<Rightarrow> Vm \<Rightarrow> ((LoaderError + u8 list) \<times> Vm) option" where
  "patch_thunks pml4 image_base stubs_base thunk_rva iat_rva func_name_buf s =
     (case rva_to_kernel_ptr pml4 image_base thunk_rva s of
        None \<Rightarrow> Some (Inl InvalidFormat, s)
      | Some thunk_ptr \<Rightarrow>
          let thunk = phys_field s thunk_ptr 0 8
          in if thunk = 0 then Some (Inr func_name_buf, s)
             else case patch_thunk pml4 image_base stubs_base thunk iat_rva func_name_buf s of
                 (Inl e, s) \<Rightarrow> Some (Inl e, s)
               | (Inr func_name_buf, s) \<Rightarrow> patch_thunks pml4 image_base stubs_base (thunk_rva + 8) (iat_rva + 8) func_name_buf s)"

text \<open>One library: its name, then its thunks.\<close>

definition patch_library ::
    "u64 \<Rightarrow> u64 \<Rightarrow> u64 \<Rightarrow> u64 \<Rightarrow> u8 list \<Rightarrow> u8 list \<Rightarrow> Vm \<Rightarrow> ((LoaderError + u8 list \<times> u8 list) \<times> Vm) option" where
  "patch_library pml4 image_base stubs_base descriptor_ptr name_buf func_name_buf s =
     (let name_rva = phys_field s descriptor_ptr 12 4 :: u32;
          (found, name_buf) = read_string_to_buf pml4 (image_base + ucast name_rva) s name_buf
      in if found \<and> from_utf8 (trim_null name_buf) \<noteq> None
         then let original_first_thunk = phys_field s descriptor_ptr 0 4;
                  first_thunk = phys_field s descriptor_ptr 16 4;
                  thunk_rva = (if original_first_thunk \<noteq> 0 then original_first_thunk else first_thunk)
              in map_option (map_prod (map_sum (\<lambda>e. e) (\<lambda>func_name_buf. (name_buf, func_name_buf))) (\<lambda>s. s))
                   (patch_thunks pml4 image_base stubs_base thunk_rva first_thunk func_name_buf s)
         else Some (Inr (name_buf, func_name_buf), s))"

partial_function (option) patch_descriptors ::
    "u64 \<Rightarrow> u64 \<Rightarrow> u64 \<Rightarrow> u32 \<Rightarrow> u8 list \<Rightarrow> u8 list \<Rightarrow> Vm \<Rightarrow> ((LoaderError + unit) \<times> Vm) option" where
  "patch_descriptors pml4 image_base stubs_base descriptor_rva name_buf func_name_buf s =
     (case rva_to_kernel_ptr pml4 image_base descriptor_rva s of
        None \<Rightarrow> Some (Inl InvalidFormat, s)
      | Some descriptor_ptr \<Rightarrow>
          if (phys_field s descriptor_ptr 12 4 :: u32) = 0 then Some (Inr (), s)
          else case patch_library pml4 image_base stubs_base descriptor_ptr name_buf func_name_buf s of
              None \<Rightarrow> None
            | Some (Inl e, s) \<Rightarrow> Some (Inl e, s)
            | Some (Inr (name_buf, func_name_buf), s) \<Rightarrow>
                patch_descriptors pml4 image_base stubs_base (descriptor_rva + size_of_ImageImportDescriptor) name_buf func_name_buf s)"

definition patch_imports :: "u64 \<Rightarrow> u8 list \<Rightarrow> nat \<Rightarrow> u64 \<Rightarrow> u64 \<Rightarrow> (LoaderError, unit) loader" where
  "patch_imports pml4 data optional_header_offset image_base stubs_base s =
     (if 1 \<ge> oh_number_of_rva_and_sizes data optional_header_offset then Some (Inr (), s)
      else let import_dir_addr = oh_import_dir_addr data optional_header_offset
           in if import_dir_addr = 0 then Some (Inr (), s)
              else patch_descriptors pml4 image_base stubs_base import_dir_addr (replicate 128 0) (replicate 128 0) s)"

section \<open>Loading\<close>

definition pe_image :: "u64 \<Rightarrow> u8 list \<Rightarrow> u64 \<Rightarrow> (LoaderError, LoadedImage) loader" where
  "pe_image pml4 data stubs_base s =
     (let nt_header_offset = unat (dos_e_lfanew data);
          optional_header_offset = nt_header_offset + 4 + size_of_PeFileHeader;
          num_sections = unat (fh_number_of_sections data (nt_header_offset + 4));
          section_header_offset = optional_header_offset + unat (fh_size_of_optional_header data (nt_header_offset + 4));
          image_base = oh_image_base data optional_header_offset;
          entry_point = image_base + ucast (oh_address_of_entry_point data optional_header_offset)
      in if length data < size_of_DosHeader then Some (Inl InvalidFormat, s)
         else if dos_e_magic data \<noteq> IMAGE_DOS_SIGNATURE then Some (Inl InvalidFormat, s)
         else if length data < nt_header_offset + 4 + size_of_PeFileHeader then Some (Inl InvalidFormat, s)
         else if field data nt_header_offset 4 \<noteq> IMAGE_NT_SIGNATURE then Some (Inl InvalidFormat, s)
         else if length data < optional_header_offset + size_of_PeOptionalHeader64 then Some (Inl InvalidFormat, s)
         else if oh_magic data optional_header_offset \<noteq> IMAGE_NT_OPTIONAL_HDR64_MAGIC then Some (Inl InvalidFormat, s)
         else if length data < section_header_offset + num_sections * size_of_PeSectionHeader then Some (Inl InvalidFormat, s)
         else load_then (load_sections pml4 image_base data section_header_offset 0 num_sections) (\<lambda>_.
              load_then (patch_imports pml4 data optional_header_offset image_base stubs_base) (\<lambda>_ s.
              Some (Inr \<lparr>li_entry = entry_point\<rparr>, s))) s)"

definition pe_load :: "u64 \<Rightarrow> u8 list \<Rightarrow> (LoaderError, LoadedImage) loader" where
  "pe_load pml4 data = load_then (create_stubs pml4) (\<lambda>stubs_base. pe_image pml4 data stubs_base)"

section \<open>The loader stays inside the file\<close>

lemma overlap_in_segment:
  fixes V F P :: u64
  assumes "max P V < min (P + 4096) (V + F)"
  shows "unat (max P V - V) + unat (min (P + 4096) (V + F) - max P V) \<le> unat F"
proof -
  have le: "V \<le> max P V" "max P V \<le> min (P + 4096) (V + F)" "min (P + 4096) (V + F) \<le> V + F"
    using assms by auto
  then have "V \<le> V + F"
    by (meson order.trans)
  then have end_nat: "unat (V + F) = unat V + unat F"
    by (metis add_diff_cancel_left' le_add_diff_inverse unat_sub word_le_nat_alt)
  have "unat (max P V - V) + unat (min (P + 4096) (V + F) - max P V) = unat (min (P + 4096) (V + F)) - unat V"
    using le(1,2) by (simp add: unat_sub word_le_nat_alt)
  then show ?thesis
    using le(3) end_nat by (simp add: word_le_nat_alt)
qed

lemma copy_segment_inside:
  assumes "unat (sg_offset seg) < 2 ^ 32" "unat (sg_filesz seg) < 2 ^ 32" "length data < 2 ^ 63"
  shows "copy_segment outside seg data pv d s \<noteq> None"
proof -
  let ?V = "sg_vaddr seg" and ?F = "sg_filesz seg" and ?cs = "max pv (sg_vaddr seg)"
  let ?ce = "min (pv + 4096) (sg_vaddr seg + sg_filesz seg)"
  let ?off = "sg_offset seg + (?cs - ?V)"
  have "\<not> unat ?off + unat (?ce - ?cs) > length data" if c: "?cs < ?ce" "\<not> ?off + (?ce - ?cs) > of_nat (length data)"
  proof -
    have small: "unat (?cs - ?V) + unat (?ce - ?cs) < 2 ^ 32"
      using overlap_in_segment [OF c(1)] assms(2) by linarith
    then have off: "unat ?off = unat (sg_offset seg) + unat (?cs - ?V)"
      using assms(1) by (simp add: unat_word_ariths)
    then have "unat (?off + (?ce - ?cs)) = unat ?off + unat (?ce - ?cs)"
      using assms(1) small by (subst unat_word_ariths) simp
    then show ?thesis
      using c(2) assms(3) by (simp add: word_less_nat_alt unat_of_nat not_less)
  qed
  then show ?thesis
    by (simp add: copy_segment_def Let_def)
qed

lemma load_then_total: "m s \<noteq> None \<Longrightarrow> (\<And>a s. k a s \<noteq> None) \<Longrightarrow> load_then m k s \<noteq> None"
  by (auto simp: load_then_def split: option.splits sum.splits)

lemma load_pages_inside:
  assumes "unat (sg_offset seg) < 2 ^ 32" "unat (sg_filesz seg) < 2 ^ 32" "length data < 2 ^ 63"
  shows "load_pages oom outside pml4 seg data i n s \<noteq> None"
proof (induction n arbitrary: i s)
  case (Suc n)
  have "load_page oom outside pml4 seg data i s \<noteq> None"
    unfolding load_page_def Let_def
    by (intro load_then_total copy_segment_inside [OF assms])
      (auto simp: seg_alloc_page_def seg_map_page_def split: prod.splits option.splits sum.splits)
  then show ?case
    unfolding load_pages.simps using Suc.IH by (intro load_then_total)
qed simp

text \<open>The sections of a Windows program are copied without reading outside of the file, whatever its
  headers say: the 32-bit fields cannot make the bounds check wrap around.\<close>

theorem pe_sections_inside:
  assumes "length data < 2 ^ 63"
  shows "load_sections pml4 image_base data table i n s \<noteq> None"
proof (induction n arbitrary: i s)
  case (Suc n)
  let ?sec = "read_section data (table + i * size_of_PeSectionHeader)"
  have small: "unat (sg_offset (pe_segment image_base ?sec)) < 2 ^ 32" "unat (sg_filesz (pe_segment image_base ?sec)) < 2 ^ 32"
    using unsigned_less [of "sh_pointer_to_raw_data ?sec", where 'a = nat] unsigned_less [of "sh_size_of_raw_data ?sec", where 'a = nat]
    by (simp_all add: pe_segment_def unsigned_ucast_eq take_bit_nat_eq_self)
  have "load_section pml4 image_base ?sec data s' \<noteq> None" for s'
    unfolding load_section_def load_segment_def by (rule load_pages_inside [OF small assms])
  then show ?case
    unfolding load_sections.simps Let_def using Suc.IH by (intro load_then_total) auto
qed simp

section \<open>The memory image\<close>

definition pe_sections_from :: "u8 list \<Rightarrow> u64 \<Rightarrow> nat \<Rightarrow> nat \<Rightarrow> nat \<Rightarrow> segment list" where
  "pe_sections_from data image_base table i n =
     map (pe_segment image_base) (filter (\<lambda>sec. sh_virtual_size sec \<noteq> 0)
       (map (\<lambda>i. read_section data (table + i * size_of_PeSectionHeader)) [i..<i + n]))"

lemma load_sections_all:
  "load_sections pml4 image_base data table i n s = load_all LoaderOutOfMemory (Inr ()) pml4 data (pe_sections_from data image_base table i n) s"
proof (induction n arbitrary: i s)
  case 0
  then show ?case
    by (simp add: pe_sections_from_def)
next
  case (Suc n)
  have "pe_sections_from data image_base table i (Suc n) =
      (let sec = read_section data (table + i * size_of_PeSectionHeader)
       in if sh_virtual_size sec \<noteq> 0 then [pe_segment image_base sec] else []) @ pe_sections_from data image_base table (Suc i) n"
    using upt_conv_Cons [of i "i + Suc n"] by (simp add: pe_sections_from_def Let_def del: upt_Suc)
  moreover have "load_sections pml4 image_base data table (Suc i) n =
      load_all LoaderOutOfMemory (Inr ()) pml4 data (pe_sections_from data image_base table (Suc i) n)"
    by (intro ext) (rule Suc.IH)
  ultimately show ?case
    by (simp add: Let_def load_section_def load_then_def)
qed

definition stub_byte :: "nat \<Rightarrow> u8" where
  "stub_byte a =
     (let off = a - unat stub_address
      in if off < 19 then write_stub ! off
         else if 32 \<le> off \<and> off < 51 then read_stub ! (off - 32)
         else if 64 \<le> off \<and> off < 77 then exit_stub ! (off - 64)
         else 0xCC)"

abbreviation stub_page :: nat where
  "stub_page \<equiv> unat stub_address div 4096"

lemma stub_address_nat: "unat stub_address = 0x7FFF00000 * 4096" "unat stub_address mod 4096 = 0" "unat stub_address + 4096 \<le> 2 ^ 47"
  "unat stub_address < 2 ^ 47" "stub_page < 2 ^ 35"
  by (simp_all add: stub_address_def)

lemma create_stubs_ok:
  assumes wf: "vm_wf role roots s" and r: "r \<in> roots" and plain: "plain role r s" and free: "4 \<le> card (pmm_free_pages (vm_pmm s))"
  obtains s' role' where "create_stubs r s = Some (Inr stub_address, s')" "vm_wf role' roots s'" "plain role' r s'"
    "keeps_frames role s role' s'" "same_outside roots r {stub_page} s s'" "page_shows role' r s' stub_byte stub_page"
    "card (pmm_free_pages (vm_pmm s)) \<le> card (pmm_free_pages (vm_pmm s')) + 4"
proof -
  obtain a s1 s2 where st: "vm_alloc_page '''' s = (Inr a, s1)" "map_page_with_flags r stub_address a (USER OR PRESENT) s1 = (Inr (), s2)"
    by (rule fresh_available [OF wf r plain stub_address_nat(4) free])
  define s' where "s' = vm_copy a 64 exit_stub (vm_copy a 32 read_stub (vm_copy a 0 write_stub (vm_copy a 0 (replicate 4096 0xCC) s2)))"
  have eq: "create_stubs r s = Some (Inr stub_address, s')"
    using load_steps(1) [OF st(1), of LoaderOutOfMemory] load_steps(2) [OF st(2), of LoaderOutOfMemory]
    by (simp add: create_stubs_def load_then_def s'_def Let_def)
  have wr: "vm_mem s' t = vm_mem s2 t" if "t \<noteq> a" for t
    using that by (simp add: s'_def vm_mem_copy_other)
  have pm: "vm_pmm s' = vm_pmm s2"
    by (simp add: s'_def)
  have fl: "(USER OR PRESENT) AND PRESENT \<noteq> 0"
    by (simp add: USER_def PRESENT_def)
  obtain role' where f: "vm_wf role' roots s'" "plain role' r s'" "keeps_frames role s role' s'" "same_elsewhere roots r stub_address s s'"
    "held role' s' a" "\<And>off. off < 4096 \<Longrightarrow> translate r s' (stub_address + of_nat off) = Some (a + of_nat off)"
    "card (pmm_free_pages (vm_pmm s)) \<le> card (pmm_free_pages (vm_pmm s')) + 4"
    by (rule load_fresh [OF wf r plain stub_address_nat(2,3) fl st wr pm]) simp_all
  have len: "length write_stub = 19" "length read_stub = 19" "length exit_stub = 13"
    by (simp_all add: write_stub_def read_stub_def exit_stub_def)
  have "frame_byte s' a off = stub_byte (unat stub_address + off)" if "off < 4096" for off
    using that by (auto simp: s'_def frame_byte_copy stub_byte_def Let_def len)
  moreover have "of_nat (stub_page * 4096 + off) = stub_address + of_nat off" "stub_page * 4096 + off = unat stub_address + off" for off
    by (simp_all add: stub_address_def)
  ultimately have "page_shows role' r s' stub_byte stub_page"
    using f(5,6) take_frame(6) [OF wf st(1)] unfolding page_shows_def by metis
  then show thesis
    by (rule that [OF eq f(1-3) same_elsewhere_outside [OF f(4) stub_address_nat(4)] _ f(7)])
qed

abbreviation pe_file_header :: "u8 list \<Rightarrow> nat" where
  "pe_file_header data \<equiv> unat (dos_e_lfanew data) + 4"

abbreviation pe_optional_header :: "u8 list \<Rightarrow> nat" where
  "pe_optional_header data \<equiv> unat (dos_e_lfanew data) + 4 + size_of_PeFileHeader"

abbreviation pe_section_table :: "u8 list \<Rightarrow> nat" where
  "pe_section_table data \<equiv> pe_optional_header data + unat (fh_size_of_optional_header data (pe_file_header data))"

definition pe_segments :: "u8 list \<Rightarrow> segment list" where
  "pe_segments data = pe_sections_from data (oh_image_base data (pe_optional_header data)) (pe_section_table data) 0
     (unat (fh_number_of_sections data (pe_file_header data)))"

text \<open>The file passes the checks of the loader.\<close>

definition pe_ok :: "u8 list \<Rightarrow> bool" where
  "pe_ok data \<longleftrightarrow> size_of_DosHeader \<le> length data \<and> dos_e_magic data = IMAGE_DOS_SIGNATURE
     \<and> field data (unat (dos_e_lfanew data)) 4 = IMAGE_NT_SIGNATURE
     \<and> pe_optional_header data + size_of_PeOptionalHeader64 \<le> length data
     \<and> oh_magic data (pe_optional_header data) = IMAGE_NT_OPTIONAL_HDR64_MAGIC
     \<and> pe_section_table data + unat (fh_number_of_sections data (pe_file_header data)) * size_of_PeSectionHeader \<le> length data"

definition no_imports :: "u8 list \<Rightarrow> bool" where
  "no_imports data \<longleftrightarrow> oh_number_of_rva_and_sizes data (pe_optional_header data) \<le> 1 \<or> oh_import_dir_addr data (pe_optional_header data) = 0"

text \<open>The code of a stub can be read at its address.\<close>

definition stub_in_place :: "u64 \<Rightarrow> Vm \<Rightarrow> string \<times> u8 list \<Rightarrow> bool" where
  "stub_in_place r s = (\<lambda>(nm, code). \<exists>a. get_stub_address stub_address nm = Some a \<and>
     (\<forall>k < length code. \<exists>p. translate r s (a + of_nat k) = Some p \<and> phys_byte s p = code ! k))"

lemma stubs_in_place:
  assumes "page_shows role r s stub_byte stub_page"
  shows "\<forall>stub \<in> {(''WriteFile'', write_stub), (''ReadFile'', read_stub), (''ExitProcess'', exit_stub)}. stub_in_place r s stub"
proof -
  have len: "length write_stub = 19" "length read_stub = 19" "length exit_stub = 13"
    by (simp_all add: write_stub_def read_stub_def exit_stub_def)
  have byte: "\<exists>p. translate r s (stub_address + of_nat off) = Some p \<and> phys_byte s p = stub_byte (unat stub_address + off)" if "off < 4096" for off
  proof -
    have "(unat stub_address + off) div 4096 = stub_page"
      using that unfolding stub_address_nat(1) by simp
    then show ?thesis
      using page_shows_byte [of role r s stub_byte "unat stub_address + off"] assms by simp
  qed
  have "\<exists>p. translate r s (stub_address + of_nat base + of_nat k) = Some p \<and> phys_byte s p = code ! k"
    if "base + length code \<le> 4096" "\<forall>k < length code. stub_byte (unat stub_address + (base + k)) = code ! k" "k < length code" for base code k
    using byte [of "base + k"] that by (simp add: add.assoc)
  from this [of 0 write_stub] this [of 32 read_stub] this [of 64 exit_stub] show ?thesis
    by (auto simp: stub_in_place_def get_stub_address_def len stub_byte_def Let_def)
qed

text \<open>C20: Loading a well-formed Windows program without imports succeeds and returns its entry point.  Every
  byte of its sections then reads as in the file or as zero, the three stubs stand at their addresses, and
  nothing else is remapped in any address space.\<close>

theorem pe_load_image:
  assumes "vm_wf role roots s" "r \<in> roots" "plain role r s" "pe_ok data" "no_imports data" "\<forall>seg \<in> set (pe_segments data). seg_ok seg data"
    "disjoint_segs (pe_segments data)" "stub_page \<notin> image_pages (pe_segments data)"
    "4 + frames_needed (pe_segments data) \<le> card (pmm_free_pages (vm_pmm s))"
  shows "\<exists>s' role'. pe_load r data s = Some (Inr \<lparr>li_entry = oh_image_base data (pe_optional_header data)
        + ucast (oh_address_of_entry_point data (pe_optional_header data))\<rparr>, s')
    \<and> vm_wf role' roots s' \<and> image_loaded r s' data (pe_segments data)
    \<and> (\<forall>stub \<in> {(''WriteFile'', write_stub), (''ReadFile'', read_stub), (''ExitProcess'', exit_stub)}. stub_in_place r s' stub)
    \<and> same_outside roots r ({stub_page} \<union> image_pages (pe_segments data)) s s'"
proof -
  have "4 \<le> card (pmm_free_pages (vm_pmm s))"
    using assms(9) by simp
  then obtain s1 role1 where s1: "create_stubs r s = Some (Inr stub_address, s1)" "vm_wf role1 roots s1" "plain role1 r s1"
    "keeps_frames role s role1 s1" "same_outside roots r {stub_page} s s1" "page_shows role1 r s1 stub_byte stub_page"
    "card (pmm_free_pages (vm_pmm s)) \<le> card (pmm_free_pages (vm_pmm s1)) + 4"
    by (rule create_stubs_ok [OF assms(1-3)])
  have "frames_needed (pe_segments data) \<le> card (pmm_free_pages (vm_pmm s1))"
    using assms(9) s1(7) by linarith
  then obtain s' role' where s': "load_all LoaderOutOfMemory (Inr ()) r data (pe_segments data) s1 = Some (Inr (), s')"
    "vm_wf role' roots s'" "keeps_frames role1 s1 role' s'" "same_outside roots r (image_pages (pe_segments data)) s1 s'"
    "\<forall>seg \<in> set (pe_segments data). \<forall>q \<in> seg_pages seg. page_shows role' r s' (seg_byte seg data) q"
    using load_all_ok [OF s1(2) assms(2) s1(3) assms(6,7), of LoaderOutOfMemory "Inr ()"] by blast
  have stub: "page_shows role' r s' stub_byte stub_page"
    by (rule page_shows_keeps [OF s1(6) s'(3,4) assms(2,8) stub_address_nat(5)])
  have "patch_imports r data (pe_optional_header data) (oh_image_base data (pe_optional_header data)) stub_address s' = Some (Inr (), s')"
    using assms(5) by (auto simp: patch_imports_def no_imports_def Let_def)
  then have "pe_image r data stub_address s1 = Some (Inr \<lparr>li_entry = oh_image_base data (pe_optional_header data)
        + ucast (oh_address_of_entry_point data (pe_optional_header data))\<rparr>, s')"
    using assms(4) s'(1) unfolding pe_ok_def pe_image_def Let_def load_sections_all pe_segments_def load_then_def
    by (auto simp: size_of_PeOptionalHeader64_def)
  then have "pe_load r data s = Some (Inr \<lparr>li_entry = oh_image_base data (pe_optional_header data)
        + ucast (oh_address_of_entry_point data (pe_optional_header data))\<rparr>, s')"
    using s1(1) by (simp add: pe_load_def load_then_def)
  then show ?thesis
    using s'(2) image_loadedI [OF assms(6) s'(5)] stubs_in_place [OF stub] same_outside_trans [OF s1(5) s'(4)] by blast
qed

section \<open>The doubled offset\<close>

text \<open>The import walker does not read what the program sees.  \<open>translate\<close> returns the physical address with
  the offset in the page, and \<open>vaddr_to_kernel_ptr\<close> adds the offset again, so the byte it finds for an address
  at offset \<open>off\<close> of a page is the one at offset \<open>2 * off\<close>.\<close>

theorem pe_reads_double_offset:
  assumes "page_shows role r s f q" "2 * off < 4096"
  shows "\<exists>p. vaddr_to_kernel_ptr r (of_nat (q * 4096 + off)) s = Some p \<and> phys_byte s p = f (q * 4096 + 2 * off)"
proof -
  define v :: u64 where "v = of_nat (q * 4096 + off)"
  obtain d where d: "pte_physical_address d = d" "\<forall>off < 4096. translate r s (of_nat (q * 4096 + off)) = Some (d + of_nat off)
      \<and> frame_byte s d off = f (q * 4096 + off)"
    using assms(1) unfolding page_shows_def by blast
  have "v mod 2 ^ 12 = of_nat (take_bit 12 (q * 4096 + off))"
    unfolding v_def take_bit_eq_mod [symmetric] by (rule take_bit_of_nat)
  moreover have "take_bit 12 (q * 4096 + off) = off"
    using assms(2) by (simp add: take_bit_eq_mod)
  ultimately have "v mod 4096 = of_nat off"
    by simp
  moreover have "translate r s v = Some (d + of_nat off)"
    unfolding v_def using d(2) assms(2) by simp
  ultimately have "vaddr_to_kernel_ptr r v s = Some (d + of_nat (2 * off))"
    by (simp add: vaddr_to_kernel_ptr_def)
  moreover have "phys_byte s (d + of_nat (2 * off)) = f (q * 4096 + 2 * off)"
    unfolding phys_byte_frame [OF d(1) assms(2)] using d(2) assms(2) by simp
  ultimately show ?thesis
    unfolding v_def by blast
qed

section \<open>An example program\<close>

text \<open>One section of four bytes at 0x401000, two of them in the file, and sixteen free frames.\<close>

definition pe_example :: "u8 list" where
  "pe_example =
     [0x4D, 0x5A] @ replicate 58 0 @ [64, 0, 0, 0] @ [0x50, 0x45, 0, 0] @
     [0x64, 0x86, 1, 0] @ replicate 12 0 @ [240, 0, 0, 0] @
     [0x0B, 0x02] @ replicate 14 0 @ [0, 0x10, 0, 0] @ replicate 4 0 @ [0, 0, 0x40, 0, 0, 0, 0, 0] @ replicate 208 0 @
     replicate 8 0 @ [4, 0, 0, 0] @ [0, 0x10, 0, 0] @ [2, 0, 0, 0] @ [0x70, 1, 0, 0] @ replicate 12 0 @ [0x20, 0, 0, 0x60] @
     [0xAA, 0xBB]"

definition vm_roomy :: Vm where
  "vm_roomy = \<lparr>vm_mem = (\<lambda>_ _. 0), vm_pmm = pmm_init [\<lparr>me_base = 0x100000, me_length = 0x10000, me_usable = True\<rparr>] 0 0\<rparr>"

lemma vm_roomy_pmm: "pmm_wf (vm_pmm vm_roomy)" "pmm_free_pages (vm_pmm vm_roomy) = {256..<272}"
proof -
  have e: "entry_pages \<lparr>me_base = 0x100000, me_length = 0x10000, me_usable = True\<rparr> = {256..<272}"
    by (auto simp: entry_pages_def usable_pages_def page_range_def PAGE_SIZE_def simp del: upt_rec_numeral)
  show "pmm_wf (vm_pmm vm_roomy)"
    unfolding vm_roomy_def by simp (rule pmm_init_result, simp)
  show "pmm_free_pages (vm_pmm vm_roomy) = {256..<272}"
    unfolding vm_roomy_def Vm.simps
    by (subst pmm_init_result(2)) (auto simp: e kernel_pages_def page_range_def PAGE_SIZE_def MAX_PAGES_def)
qed

lemma vm_roomy_wf: "vm_wf [0x1000 \<mapsto> (Some 0x1000, [])] {0x1000} vm_roomy" "plain role r vm_roomy"
proof -
  have mem: "vm_mem vm_roomy t i = 0" for t i
    by (simp add: vm_roomy_def)
  show "vm_wf [0x1000 \<mapsto> (Some 0x1000, [])] {0x1000} vm_roomy"
    unfolding vm_wf_def table_ok_def by (auto simp: mem vm_roomy_pmm page_of_def PAGE_SIZE_def split: if_splits)
  show "plain role r vm_roomy"
    by (simp add: plain_def mem pte_is_present_def)
qed

lemma pe_example_headers:
  "dos_e_magic pe_example = IMAGE_DOS_SIGNATURE" "unat (dos_e_lfanew pe_example) = 64" "field pe_example 64 4 = IMAGE_NT_SIGNATURE"
  "fh_number_of_sections pe_example 68 = 1" "fh_size_of_optional_header pe_example 68 = 240"
  "oh_magic pe_example 88 = IMAGE_NT_OPTIONAL_HDR64_MAGIC" "oh_address_of_entry_point pe_example 88 = 0x1000"
  "oh_image_base pe_example 88 = 0x400000" "oh_number_of_rva_and_sizes pe_example 88 = 0" "length pe_example = 370"
  "read_section pe_example 328 = \<lparr>sh_virtual_size = 4, sh_virtual_address = 0x1000, sh_size_of_raw_data = 2,
     sh_pointer_to_raw_data = 0x170, sh_characteristics = 0x60000020\<rparr>"
  by (simp_all add: pe_example_def dos_e_magic_def dos_e_lfanew_def fh_number_of_sections_def fh_size_of_optional_header_def oh_magic_def
      oh_address_of_entry_point_def oh_image_base_def oh_number_of_rva_and_sizes_def read_section_def field_def
      IMAGE_DOS_SIGNATURE_def IMAGE_NT_SIGNATURE_def IMAGE_NT_OPTIONAL_HDR64_MAGIC_def)

lemma pe_example_ok: "pe_ok pe_example" "no_imports pe_example"
  "pe_segments pe_example = [\<lparr>sg_vaddr = 0x401000, sg_memsz = 4, sg_filesz = 2, sg_offset = 0x170, sg_flags = USER OR PRESENT\<rparr>]"
proof -
  show "pe_ok pe_example" "no_imports pe_example"
    by (simp_all add: pe_ok_def no_imports_def pe_example_headers size_of_DosHeader_def size_of_PeFileHeader_def size_of_PeOptionalHeader64_def
        size_of_PeSectionHeader_def)
  show "pe_segments pe_example = [\<lparr>sg_vaddr = 0x401000, sg_memsz = 4, sg_filesz = 2, sg_offset = 0x170, sg_flags = USER OR PRESENT\<rparr>]"
    by (simp add: pe_segments_def pe_sections_from_def pe_example_headers size_of_PeFileHeader_def pe_segment_def section_flags_def
        IMAGE_SCN_MEM_WRITE_def IMAGE_SCN_MEM_EXECUTE_def)
qed

theorem pe_load_image_witness:
  "\<exists>s'. pe_load 0x1000 pe_example vm_roomy = Some (Inr \<lparr>li_entry = 0x401000\<rparr>, s')
     \<and> (\<exists>p. translate 0x1000 s' 0x401001 = Some p \<and> phys_byte s' p = 0xBB) \<and> stub_in_place 0x1000 s' (''ExitProcess'', exit_stub)"
proof -
  have count: "unat (page_count \<lparr>sg_vaddr = 0x401000, sg_memsz = 4, sg_filesz = 2, sg_offset = 0x170, sg_flags = USER OR PRESENT\<rparr>) = 1"
    by (simp add: page_count_def)
  have "\<forall>seg \<in> set (pe_segments pe_example). seg_ok seg pe_example"
    by (simp add: pe_example_ok seg_ok_def pe_example_headers PRESENT_def USER_def)
  moreover have "disjoint_segs (pe_segments pe_example)"
    by (simp add: pe_example_ok)
  moreover have "stub_page \<notin> image_pages (pe_segments pe_example)"
    unfolding pe_example_ok image_pages_def by (simp add: seg_pages_def count) (simp add: stub_address_def)
  moreover have "4 + frames_needed (pe_segments pe_example) \<le> card (pmm_free_pages (vm_pmm vm_roomy))"
    unfolding pe_example_ok vm_roomy_pmm by (simp add: frames_needed_def count)
  ultimately obtain s' where s': "pe_load 0x1000 pe_example vm_roomy = Some (Inr \<lparr>li_entry = 0x401000\<rparr>, s')"
      "image_loaded 0x1000 s' pe_example (pe_segments pe_example)" "stub_in_place 0x1000 s' (''ExitProcess'', exit_stub)"
    using pe_load_image [OF vm_roomy_wf(1) insertI1 vm_roomy_wf(2) pe_example_ok(1,2)]
    by (auto simp: pe_example_headers size_of_PeFileHeader_def)
  have "\<exists>p. translate 0x1000 s' (0x401000 + of_nat 1) = Some p \<and> phys_byte s' p = pe_example ! (0x170 + 1)"
    using s'(2) unfolding image_loaded_def pe_example_ok by (force dest: spec [of _ 1])
  moreover have "pe_example ! 369 = 0xBB"
    by (simp add: pe_example_def nth_append)
  ultimately show ?thesis
    using s'(1,3) by auto
qed

theorem pe_sections_inside_witness: "load_sections 0x1000 0x400000 pe_example 328 0 1 vm_roomy \<noteq> None"
  by (rule pe_sections_inside) (simp add: pe_example_headers)

theorem pe_reads_double_offset_witness:
  "\<exists>s' p p'. create_stubs 0x1000 vm_roomy = Some (Inr stub_address, s')
     \<and> translate 0x1000 s' (stub_address + 33) = Some p \<and> phys_byte s' p = 0x89
     \<and> vaddr_to_kernel_ptr 0x1000 (stub_address + 33) s' = Some p' \<and> phys_byte s' p' = 0xCF"
proof -
  obtain s' role' where s': "create_stubs 0x1000 vm_roomy = Some (Inr stub_address, s')"
    "page_shows role' 0x1000 s' stub_byte stub_page"
    by (rule create_stubs_ok [OF vm_roomy_wf(1) insertI1 vm_roomy_wf(2)]) (simp_all add: vm_roomy_pmm)
  have "of_nat (stub_page * 4096 + 33) = stub_address + 33" "stub_byte (stub_page * 4096 + 2 * 33) = 0xCF"
    by (simp_all add: stub_address_def stub_byte_def exit_stub_def)
  then have "\<exists>p. vaddr_to_kernel_ptr 0x1000 (stub_address + 33) s' = Some p \<and> phys_byte s' p = 0xCF"
    using pe_reads_double_offset [OF s'(2), of 33] by simp
  moreover have "\<exists>p. translate 0x1000 s' (stub_address + 33) = Some p \<and> phys_byte s' p = 0x89"
    using page_shows_byte [of role' "0x1000" s' stub_byte "unat stub_address + 33"] s'(2)
    by (simp add: stub_address_def stub_byte_def read_stub_def)
  ultimately show ?thesis
    using s'(1) by blast
qed

end
