(* ===== verification/UniversalExec.thy ===== *)
theory UniversalExec
  imports ElfLoader PeLoader
begin

text \<open>
  \<open>kernel/src/fs/macho_loader.rs\<close>, the loader of macOS programs, and \<open>kernel/src/fs/universal_exec.rs\<close>, which picks
  the loader of a file by its first bytes.
\<close>

section \<open>Mach-O\<close>

definition MH_MAGIC_64 :: u32 where "MH_MAGIC_64 = 0xfeedfacf"
definition LC_SEGMENT_64 :: u32 where "LC_SEGMENT_64 = 0x19"
definition LC_UNIXTHREAD :: u32 where "LC_UNIXTHREAD = 0x5"
definition LC_MAIN :: u32 where "LC_MAIN = 0x80000028"
definition VM_PROT_WRITE :: u32 where "VM_PROT_WRITE = 0x2"
definition VM_PROT_EXECUTE :: u32 where "VM_PROT_EXECUTE = 0x4"
definition size_of_MachHeader64 :: nat where "size_of_MachHeader64 = 32"
definition size_of_LoadCommand :: nat where "size_of_LoadCommand = 8"
definition size_of_SegmentCommand64 :: nat where "size_of_SegmentCommand64 = 72"
definition size_of_EntryPointCommand :: nat where "size_of_EntryPointCommand = 24"

record SegmentCommand64 =
  sc_segname :: "u8 list"
  sc_vmaddr :: u64
  sc_vmsize :: u64
  sc_fileoff :: u64
  sc_filesize :: u64
  sc_initprot :: u32

definition read_segment_command :: "u8 list \<Rightarrow> nat \<Rightarrow> SegmentCommand64" where
  "read_segment_command data off =
     \<lparr>sc_segname = take 16 (drop (off + 8) data), sc_vmaddr = field data (off + 24) 8, sc_vmsize = field data (off + 32) 8,
      sc_fileoff = field data (off + 40) 8, sc_filesize = field data (off + 48) 8, sc_initprot = field data (off + 60) 4\<rparr>"

definition macho_flags :: "SegmentCommand64 \<Rightarrow> u64" where
  "macho_flags seg =
     (let flags = USER OR PRESENT;
          flags = (if sc_initprot seg AND VM_PROT_WRITE \<noteq> 0 then flags OR WRITABLE else flags)
      in if sc_initprot seg AND VM_PROT_EXECUTE = 0 then flags OR NO_EXECUTE else flags)"

definition macho_segment :: "SegmentCommand64 \<Rightarrow> segment" where
  "macho_segment seg = \<lparr>sg_vaddr = sc_vmaddr seg, sg_memsz = sc_vmsize seg, sg_filesz = sc_filesize seg, sg_offset = sc_fileoff seg,
     sg_flags = macho_flags seg\<rparr>"

definition macho_load_segment :: "u64 \<Rightarrow> SegmentCommand64 \<Rightarrow> u8 list \<Rightarrow> (LoaderError, unit) loader" where
  "macho_load_segment pml4 seg data =
     (if sc_vmsize seg = 0 then (\<lambda>s. Some (Inr (), s))
      else load_segment LoaderOutOfMemory (Inr ()) pml4 (macho_segment seg) data)"

text \<open>One load command, with the entry point found so far and the address of the text segment.  The commands are
  read through raw pointers; only the first eight bytes are checked against the length of the file.\<close>

definition load_command :: "u64 \<Rightarrow> u8 list \<Rightarrow> nat \<Rightarrow> u64 option \<times> u64 \<Rightarrow> (LoaderError, u64 option \<times> u64) loader" where
  "load_command pml4 data offset = (\<lambda>(entry_point, text_vmaddr) s.
     let cmd = field data offset 4
     in if cmd = LC_SEGMENT_64
        then (if offset + size_of_SegmentCommand64 > length data then None
              else let seg = read_segment_command data offset;
                       text_vmaddr = (if from_utf8 (takeWhile (\<lambda>b. b \<noteq> 0) (sc_segname seg)) = Some ''__TEXT'' then sc_vmaddr seg else text_vmaddr)
                   in load_then (macho_load_segment pml4 seg data) (\<lambda>_ s. Some (Inr (entry_point, text_vmaddr), s)) s)
        else if cmd = LC_MAIN
        then (if offset + size_of_EntryPointCommand > length data then None
              else Some (Inr (Some (text_vmaddr + field data (offset + 8) 8), text_vmaddr), s))
        else if cmd = LC_UNIXTHREAD
        then let thread_state_offset = offset + 16
             in if thread_state_offset + 144 \<le> length data
                then Some (Inr (Some (field data (thread_state_offset + 16 * 8) 8), text_vmaddr), s)
                else Some (Inr (entry_point, text_vmaddr), s)
        else Some (Inr (entry_point, text_vmaddr), s))"

fun load_commands :: "u64 \<Rightarrow> u8 list \<Rightarrow> nat \<Rightarrow> nat \<Rightarrow> u64 option \<times> u64 \<Rightarrow> (LoaderError, u64 option) loader" where
  "load_commands pml4 data offset 0 found s = Some (Inr (fst found), s)"
| "load_commands pml4 data offset (Suc n) found s =
     (if offset + size_of_LoadCommand > length data then Some (Inr (fst found), s)
      else load_then (load_command pml4 data offset found)
             (load_commands pml4 data (offset + unat (field data (offset + 4) 4 :: u32)) n) s)"

definition macho_load :: "u64 \<Rightarrow> u8 list \<Rightarrow> (LoaderError, LoadedImage) loader" where
  "macho_load pml4 data s =
     (if length data < size_of_MachHeader64 then Some (Inl InvalidFormat, s)
      else if field data 0 4 \<noteq> MH_MAGIC_64 then Some (Inl InvalidFormat, s)
      else load_then (load_commands pml4 data size_of_MachHeader64 (unat (field data 16 4 :: u32)) (None, 0))
             (\<lambda>entry_point s. case entry_point of Some entry \<Rightarrow> Some (Inr \<lparr>li_entry = entry\<rparr>, s) | None \<Rightarrow> Some (Inl InvalidFormat, s)) s)"

section \<open>Choosing the loader\<close>

datatype ExecutableFormat = Elf | Pe | MachO | Unknown

definition detect_format :: "u8 list \<Rightarrow> ExecutableFormat" where
  "detect_format data =
     (if length data < 4 then Unknown
      else if take 4 data = [0x7F, 0x45, 0x4C, 0x46] then Elf
      else if take 2 data = [0x4D, 0x5A] then Pe
      else if take 4 data = [0xCF, 0xFA, 0xED, 0xFE] then MachO
      else if take 4 data = [0xFE, 0xED, 0xFA, 0xCF] then MachO
      else Unknown)"

definition exec_load :: "u64 \<Rightarrow> u8 list \<Rightarrow> (LoaderError, LoadedImage) loader" where
  "exec_load pml4 data s =
     (case detect_format data of
        MachO \<Rightarrow> macho_load pml4 data s
      | Pe \<Rightarrow> pe_load pml4 data s
      | Elf \<Rightarrow>
          (case elf_load pml4 data s of
             None \<Rightarrow> None
           | Some (Inr elf, s) \<Rightarrow> Some (Inr \<lparr>li_entry = le_entry elf\<rparr>, s)
           | Some (Inl _, s) \<Rightarrow> Some (Inl InvalidFormat, s))
      | Unknown \<Rightarrow> Some (Inl InvalidFormat, s))"

section \<open>Properties\<close>

text \<open>A file is only accepted by the loader of the format that its first bytes announce: when loading
  succeeds, the file starts with the magic number of ELF, DOS or little-endian Mach-O, and the entry point is
  the one of that format's loader.\<close>

theorem exec_load_dispatch:
  assumes "exec_load pml4 data s = Some (Inr img, s')"
  shows "take 4 data = [0x7F, 0x45, 0x4C, 0x46] \<and> (\<exists>elf. elf_load pml4 data s = Some (Inr elf, s') \<and> li_entry img = le_entry elf)
    \<or> take 2 data = [0x4D, 0x5A] \<and> pe_load pml4 data s = Some (Inr img, s')
    \<or> take 4 data = [0xCF, 0xFA, 0xED, 0xFE] \<and> macho_load pml4 data s = Some (Inr img, s')"
proof (cases "detect_format data")
  case MachO
  then have m: "macho_load pml4 data s = Some (Inr img, s')"
    using assms by (simp add: exec_load_def)
  then have "field data 0 4 = MH_MAGIC_64"
    by (simp add: macho_load_def split: if_splits)
  moreover have "take 4 data \<noteq> [0xFE, 0xED, 0xFA, 0xCF] \<or> field data 0 4 \<noteq> MH_MAGIC_64"
    by (auto simp: field_def MH_MAGIC_64_def)
  ultimately show ?thesis
    using MachO m by (auto simp: detect_format_def split: if_splits)
next
  case Elf
  then show ?thesis
    using assms by (auto simp: exec_load_def detect_format_def split: option.splits sum.splits if_splits)
next
  case Pe
  then show ?thesis
    using assms by (auto simp: exec_load_def detect_format_def split: if_splits)
next
  case Unknown
  then show ?thesis
    using assms by (simp add: exec_load_def)
qed

theorem exec_load_dispatch_witness:
  "\<exists>s' elf. elf_load 0x1000 elf_example vm_example = Some (Inr elf, s')
     \<and> exec_load 0x1000 elf_example vm_example = Some (Inr \<lparr>li_entry = le_entry elf\<rparr>, s') \<and> le_entry elf = 0x400000"
proof -
  obtain s' where "elf_load 0x1000 elf_example vm_example = Some (Inr \<lparr>le_entry = 0x400000, le_phdr_addr = 64, le_phdr_num = 1\<rparr>, s')"
    using elf_load_ok [OF vm_example_wf insertI1 vm_example_plain elf_example_ok elf_example_loads] by (auto simp: elf_example_ehdr)
  moreover from this have "exec_load 0x1000 elf_example vm_example = Some (Inr \<lparr>li_entry = 0x400000\<rparr>, s')"
    by (simp add: exec_load_def detect_format_def elf_example_length) (simp add: elf_example_def elf_header_def)
  ultimately show ?thesis
    using exec_load_dispatch [of "0x1000" elf_example vm_example "\<lparr>li_entry = 0x400000\<rparr>" s'] by auto
qed

text \<open>The Mach-O loader reads past the end of the file.  When a segment command stands in the last bytes,
  only its first eight bytes are checked and the rest is read outside of the file.\<close>

theorem macho_reads_outside:
  assumes "field data 0 4 = MH_MAGIC_64" "field data 16 4 = (1 :: u32)" "field data 32 4 = LC_SEGMENT_64"
    "40 \<le> length data" "length data < 32 + 72"
  shows "macho_load pml4 data s = None"
proof -
  have "load_commands pml4 data 32 1 (None, 0) s = None"
    using assms(3-5) by (simp add: load_then_def load_command_def size_of_LoadCommand_def size_of_SegmentCommand64_def)
  then show ?thesis
    using assms(1,2,4) by (simp add: macho_load_def size_of_MachHeader64_def load_then_def)
qed

definition macho_example :: "u8 list" where
  "macho_example = [0xCF, 0xFA, 0xED, 0xFE] @ replicate 12 0 @ [1, 0, 0, 0] @ replicate 12 0 @ [0x19, 0, 0, 0] @ [72, 0, 0, 0]"

theorem macho_reads_outside_witness: "macho_load 0x1000 macho_example vm_example = None"
  by (rule macho_reads_outside) (simp_all add: macho_example_def field_def MH_MAGIC_64_def LC_SEGMENT_64_def)

end
