(* ===== verification/Fat32.thy ===== *)
theory Fat32
  imports Vfs Bytes
begin

text \<open>
  \<open>kernel/src/fs/fat32.rs\<close>: the read-only FAT32 file system.  The disk behind the AHCI driver is a parameter, a
  function from block addresses to sectors that may fail; \<open>None\<close> in place of the disk is a machine without
  the controller.  Following a cluster chain is a loop without a bound, so it is a partial function, and
  \<open>None\<close> as a result means that it never returns.  Block addresses are machine words; byte counts are natural
  numbers, since a file has at most \<open>2\<^sup>3\<^sup>2\<close> bytes.
\<close>

section \<open>The disk\<close>

definition SECTOR_SIZE :: nat where "SECTOR_SIZE = 512"
definition DIR_ENTRY_SIZE :: nat where "DIR_ENTRY_SIZE = 32"
definition ATTR_VOLUME_ID :: u8 where "ATTR_VOLUME_ID = 0x08"
definition ATTR_DIRECTORY :: u8 where "ATTR_DIRECTORY = 0x10"
definition ATTR_LFN :: u8 where "ATTR_LFN = 0x0F"
definition DIR_DELETED :: u8 where "DIR_DELETED = 0xE5"
definition DIR_END :: u8 where "DIR_END = 0x00"
definition FAT_EOC_MIN :: u32 where "FAT_EOC_MIN = 0x0FFFFFF8"
definition PART_FAT32_LBA :: u8 where "PART_FAT32_LBA = 0x0C"
definition PART_FAT32_CHS :: u8 where "PART_FAT32_CHS = 0x0B"

type_synonym disk = "(u64 \<Rightarrow> u8 list option) option"

definition read_sector :: "disk \<Rightarrow> u64 \<Rightarrow> u8 list option" where
  "read_sector ahci lba = (case ahci of None \<Rightarrow> None | Some read \<Rightarrow> read lba)"

text \<open>\<open>buf[offset..offset + src.len()].copy_from_slice(src)\<close>.\<close>

definition copy_at :: "nat \<Rightarrow> u8 list \<Rightarrow> u8 list \<Rightarrow> u8 list" where
  "copy_at offset src buf = take offset buf @ src @ drop (offset + length src) buf"

fun read_sectors_loop :: "disk \<Rightarrow> u64 \<Rightarrow> nat \<Rightarrow> nat \<Rightarrow> nat \<Rightarrow> u8 list \<Rightarrow> nat \<times> u8 list" where
  "read_sectors_loop ahci lba i 0 offset buf = (offset, buf)"
| "read_sectors_loop ahci lba i (Suc n) offset buf =
     (if offset + SECTOR_SIZE > length buf then (offset, buf)
      else case read_sector ahci (lba + of_nat i) of
          None \<Rightarrow> (offset, buf)
        | Some sector \<Rightarrow> read_sectors_loop ahci lba (Suc i) n (offset + SECTOR_SIZE) (copy_at offset sector buf))"

definition read_sectors :: "disk \<Rightarrow> u64 \<Rightarrow> nat \<Rightarrow> u8 list \<Rightarrow> nat \<times> u8 list" where
  "read_sectors ahci lba count buf = read_sectors_loop ahci lba 0 count 0 buf"

section \<open>Partitions\<close>

record Fat32Bpb =
  bytes_per_sector :: u16
  sectors_per_cluster :: u8
  reserved_sectors :: u16
  fat_count :: u8
  total_sectors_32 :: u32
  sectors_per_fat_32 :: u32
  root_cluster :: u32
  fs_info_sector :: u16
  backup_boot_sector :: u16

record Fat32Instance =
  bpb :: Fat32Bpb
  fat_start_lba :: u64
  data_start_lba :: u64

definition from_partition :: "disk \<Rightarrow> u64 \<Rightarrow> Fat32Instance option" where
  "from_partition ahci partition_lba =
     (case read_sector ahci partition_lba of
        None \<Rightarrow> None
      | Some vbr \<Rightarrow>
          if vbr ! 510 \<noteq> 0x55 \<or> vbr ! 511 \<noteq> 0xAA then None
          else let b = \<lparr>bytes_per_sector = field vbr 0x0B 2, sectors_per_cluster = vbr ! 0x0D, reserved_sectors = field vbr 0x0E 2,
                        fat_count = vbr ! 0x10, total_sectors_32 = field vbr 0x20 4, sectors_per_fat_32 = field vbr 0x24 4,
                        root_cluster = field vbr 0x2C 4, fs_info_sector = field vbr 0x30 2, backup_boot_sector = field vbr 0x32 2\<rparr>
               in if bytes_per_sector b \<noteq> of_nat SECTOR_SIZE then None
                  else if sectors_per_cluster b = 0 \<or> sectors_per_cluster b AND (sectors_per_cluster b - 1) \<noteq> 0 then None
                  else if sectors_per_fat_32 b = 0 then None
                  else Some \<lparr>bpb = b, fat_start_lba = partition_lba + ucast (reserved_sectors b),
                        data_start_lba = partition_lba + ucast (reserved_sectors b)
                          + ucast (fat_count b) * ucast (sectors_per_fat_32 b)\<rparr>)"

text \<open>The scan of the four partition entries.\<close>

fun scan_partitions :: "disk \<Rightarrow> u8 list \<Rightarrow> nat \<Rightarrow> nat \<Rightarrow> Fat32Instance option" where
  "scan_partitions ahci mbr i 0 = None"
| "scan_partitions ahci mbr i (Suc n) =
     (let off = 0x1BE + i * 16; ptype = mbr ! (off + 4)
      in if ptype = PART_FAT32_LBA \<or> ptype = PART_FAT32_CHS
         then let lba_start = field mbr (off + 8) 4 :: u32 in from_partition ahci (ucast lba_start)
         else scan_partitions ahci mbr (Suc i) n)"

definition instance_new :: "disk \<Rightarrow> Fat32Instance option" where
  "instance_new ahci =
     (if ahci = None then None
      else case read_sector ahci 0 of
          None \<Rightarrow> None
        | Some mbr \<Rightarrow> if mbr ! 510 \<noteq> 0x55 \<or> mbr ! 511 \<noteq> 0xAA then None else scan_partitions ahci mbr 0 4)"

section \<open>Clusters\<close>

definition cluster_to_lba :: "Fat32Instance \<Rightarrow> u32 \<Rightarrow> u64" where
  "cluster_to_lba inst cluster = data_start_lba inst + (ucast cluster - 2) * ucast (sectors_per_cluster (bpb inst))"

definition read_fat_entry :: "disk \<Rightarrow> Fat32Instance \<Rightarrow> u32 \<Rightarrow> u32 option" where
  "read_fat_entry ahci inst cluster =
     (let fat_offset = ucast cluster * 4 :: u64;
          sector_index = fat_offset div of_nat SECTOR_SIZE;
          entry_offset = unat (fat_offset mod of_nat SECTOR_SIZE)
      in case read_sector ahci (fat_start_lba inst + sector_index) of
           None \<Rightarrow> None
         | Some sector \<Rightarrow> Some (field sector entry_offset 4 AND 0x0FFFFFFF))"

partial_function (option) cluster_chain_loop :: "disk \<Rightarrow> Fat32Instance \<Rightarrow> u32 list \<Rightarrow> u32 \<Rightarrow> u32 list option" where
  "cluster_chain_loop ahci inst clusters cl =
     (if cl < 2 \<or> cl \<ge> FAT_EOC_MIN then Some clusters
      else case read_fat_entry ahci inst cl of
          None \<Rightarrow> Some (clusters @ [cl])
        | Some nxt \<Rightarrow>
            if nxt < 2 \<or> nxt \<ge> FAT_EOC_MIN then Some (clusters @ [cl])
            else cluster_chain_loop ahci inst (clusters @ [cl]) nxt)"

definition cluster_chain :: "disk \<Rightarrow> Fat32Instance \<Rightarrow> u32 \<Rightarrow> u32 list option" where
  "cluster_chain ahci inst start_cluster = cluster_chain_loop ahci inst [] start_cluster"

definition cluster_bytes :: "Fat32Instance \<Rightarrow> nat" where
  "cluster_bytes inst = unat (sectors_per_cluster (bpb inst)) * SECTOR_SIZE"

text \<open>Reading into \<open>&mut buf[total..]\<close> writes the tail of the buffer.\<close>

fun read_cluster_loop :: "disk \<Rightarrow> Fat32Instance \<Rightarrow> u32 list \<Rightarrow> nat \<Rightarrow> u8 list \<Rightarrow> nat \<times> u8 list" where
  "read_cluster_loop ahci inst [] total_read buf = (total_read, buf)"
| "read_cluster_loop ahci inst (cl # cls) total_read buf =
     (let lba = cluster_to_lba inst cl
      in if total_read + cluster_bytes inst > length buf
         then let remaining = length buf - total_read;
                  (n, tail) = read_sectors ahci lba ((remaining + SECTOR_SIZE - 1) div SECTOR_SIZE) (drop total_read buf)
              in (total_read + n, take total_read buf @ tail)
         else let (n, tail) = read_sectors ahci lba (unat (sectors_per_cluster (bpb inst))) (drop total_read buf)
              in read_cluster_loop ahci inst cls (total_read + n) (take total_read buf @ tail))"

definition read_cluster_chain :: "disk \<Rightarrow> Fat32Instance \<Rightarrow> u32 list \<Rightarrow> u8 list \<Rightarrow> nat \<times> u8 list" where
  "read_cluster_chain ahci inst clusters buf = read_cluster_loop ahci inst clusters 0 buf"

section \<open>Directories\<close>

record DirEntry =
  de_name :: string
  de_is_directory :: bool
  de_first_cluster :: u32
  de_file_size :: nat

definition lfn_checksum :: "u8 list \<Rightarrow> u8" where
  "lfn_checksum short_name = fold (\<lambda>b sum. (push_bit 7 (sum AND 1) OR drop_bit 1 sum) + b) (take 11 short_name) 0"

definition parse_lfn_entry :: "u8 list \<Rightarrow> u16 list option" where
  "parse_lfn_entry data =
     (if length data < 32 then None
      else Some (map (\<lambda>i. field data (1 + i * 2) 2) [0..<5] @ map (\<lambda>i. field data (14 + i * 2) 2) [0..<6]
             @ map (\<lambda>i. field data (28 + i * 2) 2) [0..<2]))"

definition str_or_empty :: "u8 list \<Rightarrow> string" where
  "str_or_empty bs = (case from_utf8 bs of Some s \<Rightarrow> s | None \<Rightarrow> [])"

definition format_short_name :: "u8 list \<Rightarrow> string" where
  "format_short_name nm =
     (let name_str = trim_end (str_or_empty (take 8 nm));
          ext_str = trim_end (str_or_empty (take 3 (drop 8 nm)))
      in if ext_str \<noteq> [] then name_str @ ''.'' @ ext_str else name_str)"

text \<open>The long name: the fragments from the last to the first, each up to its first zero.\<close>

definition long_name :: "u16 list list \<Rightarrow> u8 list \<Rightarrow> string" where
  "long_name lfn_buf short_name =
     (if lfn_buf \<noteq> []
      then let name_utf16 = concat (map (takeWhile (\<lambda>c. c \<noteq> 0)) (rev lfn_buf));
               name = from_utf16_lossy name_utf16;
               name = trim_end (trim_end_matches [0x2E] (trim_end_matches [0xFFFF] name))
           in if name \<noteq> [] then name else format_short_name short_name
      else format_short_name short_name)"

definition dir_entry :: "u8 list \<Rightarrow> u16 list list \<Rightarrow> DirEntry" where
  "dir_entry raw lfn_buf =
     \<lparr>de_name = long_name lfn_buf (take 11 raw),
      de_is_directory = (raw ! 0x0B AND ATTR_DIRECTORY \<noteq> 0),
      de_first_cluster = ucast (field raw 0x1A 2 :: u16) OR push_bit 16 (ucast (field raw 0x14 2 :: u16)),
      de_file_size = unat (field raw 0x1C 4 :: u32)\<rparr>"

text \<open>One turn of the loop over the entries of the directory, with the entries found and the pending name
  fragments; \<open>None\<close> is \<open>break\<close>.\<close>

definition dir_step :: "u8 list \<Rightarrow> nat \<Rightarrow> DirEntry list \<times> u16 list list \<Rightarrow> (DirEntry list \<times> u16 list list) option" where
  "dir_step data i = (\<lambda>(entries, lfn_buf).
     let off = i * DIR_ENTRY_SIZE;
         raw = take DIR_ENTRY_SIZE (drop off data);
         attr = data ! (off + 0x0B)
     in if data ! off = DIR_END \<and> attr \<noteq> ATTR_LFN \<and> (i = 0 \<or> data ! (off - DIR_ENTRY_SIZE + 0x0B) \<noteq> ATTR_LFN) then None
        else if attr = ATTR_LFN
        then (if data ! off = DIR_DELETED then Some (entries, [])
              else case parse_lfn_entry raw of Some fragment \<Rightarrow> Some (entries, lfn_buf @ [fragment]) | None \<Rightarrow> Some (entries, lfn_buf))
        else if data ! off = DIR_DELETED \<or> data ! off = DIR_END then Some (entries, [])
        else if attr AND ATTR_VOLUME_ID \<noteq> 0 then Some (entries, [])
        else if data ! off = 0x2E then Some (entries, [])
        else Some (entries @ [dir_entry raw lfn_buf], []))"

fun read_dir_loop :: "u8 list \<Rightarrow> nat \<Rightarrow> nat \<Rightarrow> DirEntry list \<times> u16 list list \<Rightarrow> DirEntry list" where
  "read_dir_loop data i 0 st = fst st"
| "read_dir_loop data i (Suc n) st =
     (case dir_step data i st of None \<Rightarrow> fst st | Some st \<Rightarrow> read_dir_loop data (Suc i) n st)"

definition read_directory :: "disk \<Rightarrow> Fat32Instance \<Rightarrow> u32 \<Rightarrow> (FsError + DirEntry list) option" where
  "read_directory ahci inst cluster =
     (case cluster_chain ahci inst cluster of
        None \<Rightarrow> None
      | Some clusters \<Rightarrow>
          if clusters = [] then Some (Inl NotFound)
          else let data = snd (read_cluster_chain ahci inst clusters (replicate (length clusters * cluster_bytes inst) 0))
               in Some (Inr (read_dir_loop data 0 (length data div DIR_ENTRY_SIZE) ([], []))))"

section \<open>Files\<close>

record Fat32File =
  ff_clusters :: "u32 list"
  ff_position :: nat
  ff_file_size :: nat
  ff_start_cluster :: u32

definition fat_file_new :: "u32 \<Rightarrow> nat \<Rightarrow> u32 list \<Rightarrow> Fat32File" where
  "fat_file_new start_cluster file_size clusters =
     \<lparr>ff_clusters = clusters, ff_position = 0, ff_file_size = file_size, ff_start_cluster = start_cluster\<rparr>"

text \<open>One turn of the loop over the clusters from the current one on; only the first starts at an offset.\<close>

definition fat_read_cluster :: "disk \<Rightarrow> Fat32Instance \<Rightarrow> u32 \<Rightarrow> nat \<Rightarrow> nat \<Rightarrow> nat \<times> u8 list \<Rightarrow> nat \<times> u8 list" where
  "fat_read_cluster ahci inst cl cluster_offset max_to_read = (\<lambda>(bytes_read, buf).
     let lba = cluster_to_lba inst cl + of_nat (cluster_offset div SECTOR_SIZE);
         sector_offset = cluster_offset mod SECTOR_SIZE;
         remaining_in_cluster = cluster_bytes inst - cluster_offset;
         to_read = min (max_to_read - bytes_read) remaining_in_cluster;
         sectors_needed = (sector_offset + to_read + SECTOR_SIZE - 1) div SECTOR_SIZE;
         (n, tmp) = read_sectors ahci lba sectors_needed (replicate (sectors_needed * SECTOR_SIZE) 0);
         actual_copy = min (n - sector_offset) to_read
     in (bytes_read + actual_copy, copy_at bytes_read (take actual_copy (drop sector_offset tmp)) buf))"

fun fat_read_loop :: "disk \<Rightarrow> Fat32Instance \<Rightarrow> u32 list \<Rightarrow> nat \<Rightarrow> nat \<Rightarrow> nat \<times> u8 list \<Rightarrow> nat \<times> u8 list" where
  "fat_read_loop ahci inst [] cluster_offset max_to_read st = st"
| "fat_read_loop ahci inst (cl # cls) cluster_offset max_to_read st =
     (if fst st \<ge> max_to_read then st
      else fat_read_loop ahci inst cls 0 max_to_read (fat_read_cluster ahci inst cl cluster_offset max_to_read st))"

definition fat_read :: "disk \<Rightarrow> Fat32Instance \<Rightarrow> u8 list \<Rightarrow> Fat32File \<Rightarrow> (FsError + nat) \<times> u8 list \<times> Fat32File" where
  "fat_read ahci inst buf f =
     (if ff_clusters f = [] then (Inr 0, buf, f)
      else let start_cluster_idx = ff_position f div cluster_bytes inst;
               start_cluster_offset = ff_position f mod cluster_bytes inst
           in if start_cluster_idx \<ge> length (ff_clusters f) \<or> ff_position f \<ge> ff_file_size f then (Inr 0, buf, f)
              else let max_to_read = min (length buf) (ff_file_size f - ff_position f);
                       (bytes_read, buf) = fat_read_loop ahci inst (drop start_cluster_idx (ff_clusters f)) start_cluster_offset max_to_read (0, buf)
                   in (Inr bytes_read, buf, f\<lparr>ff_position := ff_position f + bytes_read\<rparr>))"

definition fat_write :: "Fat32File \<Rightarrow> u8 list \<Rightarrow> FsError + nat" where
  "fat_write f buf = Inl PermissionDenied"

definition fat_size :: "Fat32File \<Rightarrow> nat" where
  "fat_size f = ff_file_size f"

definition fat_seek :: "nat \<Rightarrow> Fat32File \<Rightarrow> (FsError + nat) \<times> Fat32File" where
  "fat_seek offset f = (if offset \<le> ff_file_size f then (Inr offset, f\<lparr>ff_position := offset\<rparr>) else (Inl IoError, f))"

section \<open>The file system\<close>

type_synonym Fat32Fs = "Fat32Instance option"

definition fat_init_from :: "disk \<Rightarrow> u64 \<Rightarrow> Fat32Fs \<Rightarrow> bool \<times> Fat32Fs" where
  "fat_init_from ahci partition_lba fs =
     (case from_partition ahci partition_lba of Some inst \<Rightarrow> (True, Some inst) | None \<Rightarrow> (False, fs))"

fun find_components :: "disk \<Rightarrow> Fat32Instance \<Rightarrow> u32 \<Rightarrow> string list \<Rightarrow> (FsError + DirEntry) option" where
  "find_components ahci inst current_cluster [] = Some (Inl NotFound)"
| "find_components ahci inst current_cluster (component # components) =
     (case read_directory ahci inst current_cluster of
        None \<Rightarrow> None
      | Some (Inl e) \<Rightarrow> Some (Inl e)
      | Some (Inr entries) \<Rightarrow>
          let is_last = (components = [])
          in case find (\<lambda>e. eq_ignore_ascii_case (de_name e) component) entries of
               Some entry \<Rightarrow>
                 if de_is_directory entry \<and> \<not> is_last then find_components ahci inst (de_first_cluster entry) components
                 else if is_last then Some (Inr entry)
                 else Some (Inl NotDirectory)
             | None \<Rightarrow> Some (Inl NotFound))"

definition find_entry :: "disk \<Rightarrow> string \<Rightarrow> Fat32Fs \<Rightarrow> (FsError + DirEntry) option" where
  "find_entry ahci path fs =
     (case fs of
        None \<Rightarrow> Some (Inl NotFound)
      | Some inst \<Rightarrow>
          let path = trim_start (\<lambda>c. c = CHR ''/'') path
          in if path = []
             then Some (Inr \<lparr>de_name = ''/'', de_is_directory = True, de_first_cluster = root_cluster (bpb inst), de_file_size = 0\<rparr>)
             else find_components ahci inst (root_cluster (bpb inst)) (filter (\<lambda>s. s \<noteq> []) (str_split (CHR ''/'') path)))"

definition fat_open :: "disk \<Rightarrow> string \<Rightarrow> Fat32Fs \<Rightarrow> (FsError + Fat32File) option" where
  "fat_open ahci path fs =
     (case find_entry ahci path fs of
        None \<Rightarrow> None
      | Some (Inl e) \<Rightarrow> Some (Inl e)
      | Some (Inr entry) \<Rightarrow>
          if de_is_directory entry then Some (Inl IsDirectory)
          else case fs of
              None \<Rightarrow> Some (Inl NotFound)
            | Some inst \<Rightarrow>
                (case cluster_chain ahci inst (de_first_cluster entry) of
                   None \<Rightarrow> None
                 | Some clusters \<Rightarrow> Some (Inr (fat_file_new (de_first_cluster entry) (de_file_size entry) clusters))))"

definition fat_read_dir :: "disk \<Rightarrow> string \<Rightarrow> Fat32Fs \<Rightarrow> (FsError + string list) option" where
  "fat_read_dir ahci path fs =
     (case find_entry ahci path fs of
        None \<Rightarrow> None
      | Some (Inl e) \<Rightarrow> Some (Inl e)
      | Some (Inr entry) \<Rightarrow>
          if \<not> de_is_directory entry then Some (Inl NotDirectory)
          else case fs of
              None \<Rightarrow> Some (Inl NotFound)
            | Some inst \<Rightarrow>
                let cluster = (if de_first_cluster entry = 0 then root_cluster (bpb inst) else de_first_cluster entry)
                in map_option (map_sum (\<lambda>e. e) (map de_name)) (read_directory ahci inst cluster))"

definition fat_mkdir :: "string \<Rightarrow> Fat32Fs \<Rightarrow> FsError + unit" where
  "fat_mkdir path fs = Inl PermissionDenied"

definition fat_remove :: "string \<Rightarrow> Fat32Fs \<Rightarrow> FsError + unit" where
  "fat_remove path fs = Inl PermissionDenied"

text \<open>\<open>init\<close>; the argument makes a mounted trait object from the file system.\<close>

definition fat_init :: "(Fat32Fs \<Rightarrow> 'fs) \<Rightarrow> disk \<Rightarrow> 'fs Vfs \<Rightarrow> 'fs Vfs" where
  "fat_init box ahci vfs =
     (if ahci \<noteq> None
      then case instance_new ahci of Some inst \<Rightarrow> vfs_mount ''/fat'' (box (Some inst)) vfs | None \<Rightarrow> vfs
      else vfs)"

section \<open>Reading sectors\<close>

definition sectors_ok :: "disk \<Rightarrow> u64 \<Rightarrow> nat \<Rightarrow> (nat \<Rightarrow> u8 list) \<Rightarrow> bool" where
  "sectors_ok ahci lba n sec \<longleftrightarrow> (\<forall>i < n. read_sector ahci (lba + of_nat i) = Some (sec i) \<and> length (sec i) = SECTOR_SIZE)"

lemma length_blocks: "(\<And>i. i \<in> set xs \<Longrightarrow> length (f i) = m) \<Longrightarrow> length (concat (map f xs)) = length xs * m"
  by (induction xs) auto

lemma drop_blocks: "(\<And>i. i < n \<Longrightarrow> length (f i) = m) \<Longrightarrow> a \<le> n \<Longrightarrow> drop (a * m) (concat (map f [0..<n])) = concat (map f [a..<n])"
proof -
  assume *: "\<And>i. i < n \<Longrightarrow> length (f i) = m" "a \<le> n"
  have "[0..<n] = [0..<a] @ [a..<n]"
    using *(2) by (metis le_add_diff_inverse upt_add_eq_append le0)
  then show ?thesis
    using length_blocks [of "[0..<a]" f m] * by simp
qed

lemma take_blocks: "(\<And>i. i < n \<Longrightarrow> length (f i) = m) \<Longrightarrow> a \<le> b \<Longrightarrow> b \<le> n \<Longrightarrow>
    take ((b - a) * m) (concat (map f [a..<n])) = concat (map f [a..<b])"
proof -
  assume *: "\<And>i. i < n \<Longrightarrow> length (f i) = m" "a \<le> b" "b \<le> n"
  have "[a..<n] = [a..<b] @ [b..<n]"
    using *(2,3) by (metis le_add_diff_inverse upt_add_eq_append)
  then show ?thesis
    using length_blocks [of "[a..<b]" f m] * by simp
qed

lemma copy_at_length: "offset + length src \<le> length buf \<Longrightarrow> length (copy_at offset src buf) = length buf"
  by (simp add: copy_at_def)

lemma copy_at_nil [simp]: "copy_at offset [] buf = buf"
  by (simp add: copy_at_def)

lemma copy_at_append:
  "offset + length a + length b \<le> length buf \<Longrightarrow> copy_at (offset + length a) b (copy_at offset a buf) = copy_at offset (a @ b) buf"
  by (simp add: copy_at_def ac_simps)

lemma read_sectors_loop_ok:
  assumes "\<forall>j < n. read_sector ahci (lba + of_nat (i + j)) = Some (sec (i + j)) \<and> length (sec (i + j)) = SECTOR_SIZE"
    "offset + n * SECTOR_SIZE \<le> length buf"
  shows "read_sectors_loop ahci lba i n offset buf = (offset + n * SECTOR_SIZE, copy_at offset (concat (map sec [i..<i + n])) buf)"
  using assms
proof (induction n arbitrary: i offset buf)
  case (Suc n)
  have first: "read_sector ahci (lba + of_nat i) = Some (sec i)" "length (sec i) = SECTOR_SIZE"
    using Suc.prems(1) [rule_format, of 0] by simp_all
  have rest: "\<forall>j < n. read_sector ahci (lba + of_nat (Suc i + j)) = Some (sec (Suc i + j)) \<and> length (sec (Suc i + j)) = SECTOR_SIZE"
    using Suc.prems(1) by (metis Suc_less_eq add_Suc_shift)
  have len: "length (copy_at offset (sec i) buf) = length buf"
    using Suc.prems(2) by (intro copy_at_length) (simp add: first(2))
  have tl: "length (concat (map sec [Suc i..<Suc i + n])) = n * SECTOR_SIZE"
  proof (subst length_blocks [where m = SECTOR_SIZE])
    fix k
    assume "k \<in> set [Suc i..<Suc i + n]"
    then have "k - Suc i < n" "Suc i + (k - Suc i) = k"
      by auto
    then show "length (sec k) = SECTOR_SIZE"
      using rest by metis
  qed simp
  have "copy_at (offset + SECTOR_SIZE) (concat (map sec [Suc i..<Suc i + n])) (copy_at offset (sec i) buf) =
      copy_at offset (sec i @ concat (map sec [Suc i..<Suc i + n])) buf"
    using copy_at_append [of offset "sec i" "concat (map sec [Suc i..<Suc i + n])" buf] Suc.prems(2) unfolding first(2) tl by simp
  then show ?case
    using Suc.IH [OF rest, of "offset + SECTOR_SIZE" "copy_at offset (sec i) buf"] Suc.prems(2) first len upt_conv_Cons [of i "i + Suc n"]
    by (simp del: upt_Suc)
qed simp

lemma read_sectors_buf:
  assumes "sectors_ok ahci lba n sec" "n * SECTOR_SIZE \<le> length buf"
  shows "read_sectors ahci lba n buf = (n * SECTOR_SIZE, copy_at 0 (concat (map sec [0..<n])) buf)"
  using read_sectors_loop_ok [of n ahci lba 0 sec 0 buf] assms by (simp add: read_sectors_def sectors_ok_def)

lemma sectors_length: "sectors_ok ahci lba n sec \<Longrightarrow> length (concat (map sec [0..<n])) = n * SECTOR_SIZE"
  by (subst length_blocks [where m = SECTOR_SIZE]) (auto simp: sectors_ok_def)

lemma read_sectors_ok:
  assumes "sectors_ok ahci lba n sec"
  shows "read_sectors ahci lba n (replicate (n * SECTOR_SIZE) 0) = (n * SECTOR_SIZE, concat (map sec [0..<n]))"
  using read_sectors_buf [OF assms, of "replicate (n * SECTOR_SIZE) 0"] sectors_length [OF assms] by (simp add: copy_at_def)

section \<open>Reading a file\<close>

text \<open>The bytes of a cluster, and a cluster whose sectors can all be read.\<close>

definition cluster_sector :: "disk \<Rightarrow> Fat32Instance \<Rightarrow> u32 \<Rightarrow> nat \<Rightarrow> u8 list" where
  "cluster_sector ahci inst cl i = (case read_sector ahci (cluster_to_lba inst cl + of_nat i) of Some s \<Rightarrow> s | None \<Rightarrow> [])"

definition cluster_data :: "disk \<Rightarrow> Fat32Instance \<Rightarrow> u32 \<Rightarrow> u8 list" where
  "cluster_data ahci inst cl = concat (map (cluster_sector ahci inst cl) [0..<unat (sectors_per_cluster (bpb inst))])"

definition cluster_ok :: "disk \<Rightarrow> Fat32Instance \<Rightarrow> u32 \<Rightarrow> bool" where
  "cluster_ok ahci inst cl \<longleftrightarrow>
     sectors_ok ahci (cluster_to_lba inst cl) (unat (sectors_per_cluster (bpb inst))) (cluster_sector ahci inst cl)"

lemma cluster_data_length: "cluster_ok ahci inst cl \<Longrightarrow> length (cluster_data ahci inst cl) = cluster_bytes inst"
  unfolding cluster_data_def cluster_bytes_def by (subst length_blocks) (auto simp: cluster_ok_def sectors_ok_def)

lemma sectors_for:
  assumes "m \<noteq> 0" "off + m \<le> spc * SECTOR_SIZE"
  shows "off div SECTOR_SIZE + (off mod SECTOR_SIZE + m + SECTOR_SIZE - 1) div SECTOR_SIZE \<le> spc"
    "off mod SECTOR_SIZE + m \<le> (off mod SECTOR_SIZE + m + SECTOR_SIZE - 1) div SECTOR_SIZE * SECTOR_SIZE"
proof -
  let ?n = "(off mod 512 + m + 512 - 1) div 512"
  define a o' where "a = off div 512" and "o' = off mod 512"
  have off: "off = a * 512 + o'"
    by (simp add: a_def o'_def)
  have "a \<le> spc * 512 div 512"
    unfolding a_def using assms(2) by (intro div_le_mono) (simp add: SECTOR_SIZE_def)
  then have a: "a \<le> spc"
    by simp
  have "o' + m + 512 - 1 \<le> (spc - a) * 512 + 511"
    using assms(2) off unfolding SECTOR_SIZE_def diff_mult_distrib by simp
  then have "?n \<le> ((spc - a) * 512 + 511) div 512"
    unfolding o'_def by (rule div_le_mono)
  then show "off div SECTOR_SIZE + (off mod SECTOR_SIZE + m + SECTOR_SIZE - 1) div SECTOR_SIZE \<le> spc"
    unfolding SECTOR_SIZE_def a_def [symmetric] using a by simp
  have "?n * 512 + (off mod 512 + m + 512 - 1) mod 512 = off mod 512 + m + 512 - 1"
    by (rule div_mult_mod_eq)
  moreover have "(off mod 512 + m + 512 - 1) mod 512 < 512"
    by simp
  ultimately have "off mod 512 + m \<le> ?n * 512"
    by simp
  then show "off mod SECTOR_SIZE + m \<le> (off mod SECTOR_SIZE + m + SECTOR_SIZE - 1) div SECTOR_SIZE * SECTOR_SIZE"
    unfolding SECTOR_SIZE_def .
qed

lemma fat_read_cluster_ok:
  assumes ok: "cluster_ok ahci inst cl" and off: "off < cluster_bytes inst" and r: "r < mx"
  defines "m \<equiv> min (mx - r) (cluster_bytes inst - off)"
  shows "fat_read_cluster ahci inst cl off mx (r, buf) = (r + m, copy_at r (take m (drop off (cluster_data ahci inst cl))) buf)"
proof -
  let ?spc = "unat (sectors_per_cluster (bpb inst))" and ?f = "cluster_sector ahci inst cl"
  define a where "a = off div SECTOR_SIZE"
  define q where "q = off mod SECTOR_SIZE"
  define k where "k = (q + m + SECTOR_SIZE - 1) div SECTOR_SIZE"
  have m: "m \<noteq> 0" "off + m \<le> ?spc * SECTOR_SIZE"
    using off r by (auto simp: m_def cluster_bytes_def)
  note n = sectors_for [OF m, folded a_def q_def, folded k_def]
  have len: "length (?f i) = SECTOR_SIZE" if "i < ?spc" for i
    using ok that by (simp add: cluster_ok_def sectors_ok_def)
  have "sectors_ok ahci (cluster_to_lba inst cl + of_nat a) k (\<lambda>i. ?f (a + i))"
    unfolding sectors_ok_def
  proof (intro allI impI)
    fix i
    assume "i < k"
    then have "a + i < ?spc"
      using n(1) by linarith
    then show "read_sector ahci (cluster_to_lba inst cl + of_nat a + of_nat i) = Some (?f (a + i)) \<and> length (?f (a + i)) = SECTOR_SIZE"
      using ok unfolding cluster_ok_def sectors_ok_def by (metis add.assoc of_nat_add)
  qed
  then have read: "read_sectors ahci (cluster_to_lba inst cl + of_nat a) k (replicate (k * SECTOR_SIZE) 0) =
      (k * SECTOR_SIZE, concat (map (\<lambda>i. ?f (a + i)) [0..<k]))"
    by (rule read_sectors_ok)
  have "map (\<lambda>i. ?f (a + i)) [0..<k] = map ?f [a..<a + k]"
    by (rule nth_equalityI) simp_all
  then have blocks: "concat (map (\<lambda>i. ?f (a + i)) [0..<k]) = take (k * SECTOR_SIZE) (drop (a * SECTOR_SIZE) (cluster_data ahci inst cl))"
    unfolding cluster_data_def
    using drop_blocks [of ?spc ?f SECTOR_SIZE a] take_blocks [of ?spc ?f SECTOR_SIZE a "a + k"] len n(1) by simp
  have act: "min (k * SECTOR_SIZE - q) m = m"
    using n(2) by linarith
  have "off = q + a * SECTOR_SIZE"
    by (simp add: q_def a_def)
  then have "take m (drop q (take (k * SECTOR_SIZE) (drop (a * SECTOR_SIZE) (cluster_data ahci inst cl)))) =
      take m (drop off (cluster_data ahci inst cl))"
    using n(2) by (metis act drop_drop drop_take min.commute take_take)
  then show ?thesis
    unfolding fat_read_cluster_def Let_def prod.case m_def [symmetric] a_def [symmetric] q_def [symmetric] k_def [symmetric] read act blocks
    by simp
qed

lemma fat_read_loop_ok:
  assumes "\<forall>cl \<in> set cls. cluster_ok ahci inst cl" "mx \<le> length buf" "r \<le> mx" "cls \<noteq> [] \<longrightarrow> off < cluster_bytes inst"
    "mx - r \<le> length cls * cluster_bytes inst - off"
  shows "fat_read_loop ahci inst cls off mx (r, buf) =
    (mx, copy_at r (take (mx - r) (drop off (concat (map (cluster_data ahci inst) cls)))) buf)"
  using assms
proof (induction cls arbitrary: off r buf)
  case (Cons cl cls)
  let ?D = "concat (map (cluster_data ahci inst) cls)" and ?c = "cluster_data ahci inst cl"
  show ?case
  proof (cases "r = mx")
    case False
    define m where "m = min (mx - r) (cluster_bytes inst - off)"
    have ok: "cluster_ok ahci inst cl" "off < cluster_bytes inst" "r < mx"
      using Cons.prems False by auto
    note c = fat_read_cluster_ok [OF ok, of buf, folded m_def]
    have len: "length ?c = cluster_bytes inst"
      by (rule cluster_data_length [OF ok(1)])
    have lm: "length (take m (drop off ?c)) = m"
      by (simp add: len m_def)
    have mle: "m = mx - r \<or> m = cluster_bytes inst - off" "r + m \<le> mx"
      using ok(3) by (auto simp: m_def)
    have left: "mx - (r + m) \<le> length cls * cluster_bytes inst"
      using Cons.prems(5) mle(1) ok(2) by auto
    have lb: "length (copy_at r (take m (drop off ?c)) buf) = length buf"
      by (rule copy_at_length) (use Cons.prems(2) mle(2) lm in linarith)
    have "fat_read_loop ahci inst cls 0 mx (r + m, copy_at r (take m (drop off ?c)) buf) =
        (mx, copy_at (r + m) (take (mx - (r + m)) ?D) (copy_at r (take m (drop off ?c)) buf))"
      using Cons.IH [of "copy_at r (take m (drop off ?c)) buf" "r + m" 0] Cons.prems(1,2) left mle(2) lb ok(2) by simp
    moreover have "copy_at (r + m) (take (mx - (r + m)) ?D) (copy_at r (take m (drop off ?c)) buf) =
        copy_at r (take m (drop off ?c) @ take (mx - (r + m)) ?D) buf"
      using copy_at_append [of r "take m (drop off ?c)" "take (mx - (r + m)) ?D" buf] Cons.prems(2) mle(2) unfolding lm by simp
    moreover have "take m (drop off ?c) @ take (mx - (r + m)) ?D = take (mx - r) (drop off (?c @ ?D))"
    proof -
      have "take (mx - r) (drop off ?c) = take m (drop off ?c)" "mx - r - (cluster_bytes inst - off) = mx - (r + m)"
        by (simp_all add: m_def len min_def)
      then show ?thesis
        using len ok(2) by simp
    qed
    ultimately show ?thesis
      using ok(3) c by simp
  qed simp
qed simp

definition file_content :: "disk \<Rightarrow> Fat32Instance \<Rightarrow> Fat32File \<Rightarrow> u8 list" where
  "file_content ahci inst f = take (ff_file_size f) (concat (map (cluster_data ahci inst) (ff_clusters f)))"

lemma drop_clusters:
  assumes "\<forall>cl \<in> set cls. cluster_ok ahci inst cl" "k \<le> length cls"
  shows "drop (k * cluster_bytes inst) (concat (map (cluster_data ahci inst) cls)) = concat (map (cluster_data ahci inst) (drop k cls))"
proof -
  have "concat (map (cluster_data ahci inst) cls) =
      concat (map (cluster_data ahci inst) (take k cls)) @ concat (map (cluster_data ahci inst) (drop k cls))"
    unfolding concat_append [symmetric] map_append [symmetric] append_take_drop_id ..
  moreover have "length (concat (map (cluster_data ahci inst) (take k cls))) = k * cluster_bytes inst"
    using assms length_blocks [of "take k cls" "cluster_data ahci inst" "cluster_bytes inst"]
    by (metis cluster_data_length in_set_takeD length_take min_absorb2)
  ultimately show ?thesis
    by simp
qed

text \<open>C8: Reading from an open FAT32 file returns its bytes.  When the sectors of its clusters can be read
  and the clusters hold the whole file, \<open>read\<close> fills the buffer with the next bytes of the content, as many as
  fit or are left, leaves the rest of the buffer alone and moves the position behind them.\<close>

theorem fat_read_content:
  assumes "\<forall>cl \<in> set (ff_clusters f). cluster_ok ahci inst cl" "sectors_per_cluster (bpb inst) \<noteq> 0"
    "ff_file_size f \<le> length (ff_clusters f) * cluster_bytes inst" "ff_position f \<le> ff_file_size f"
  shows "fat_read ahci inst buf f =
    (let n = min (length buf) (ff_file_size f - ff_position f)
     in (Inr n, take n (drop (ff_position f) (file_content ahci inst f)) @ drop n buf, f\<lparr>ff_position := ff_position f + n\<rparr>))"
proof -
  let ?p = "ff_position f" and ?cb = "cluster_bytes inst" and ?D = "concat (map (cluster_data ahci inst) (ff_clusters f))"
  define mx where "mx = min (length buf) (ff_file_size f - ?p)"
  define k where "k = ?p div ?cb"
  define q where "q = ?p mod ?cb"
  have cb: "0 < ?cb"
    using assms(2) by (simp add: cluster_bytes_def SECTOR_SIZE_def unat_gt_0)
  have p: "?p = q + k * ?cb" "q < ?cb"
    using cb by (simp_all add: k_def q_def)
  show ?thesis
  proof (cases "?p < ff_file_size f")
    case False
    then show ?thesis
      using assms(4) by (simp add: fat_read_def Let_def)
  next
    case True
    then have "k * ?cb < length (ff_clusters f) * ?cb"
      using assms(3) p(1) by linarith
    then have k: "k < length (ff_clusters f)"
      using cb by simp
    have "mx \<le> (length (ff_clusters f) - k) * ?cb - q"
      using assms(3) p(1) True unfolding mx_def diff_mult_distrib by linarith
    then have loop: "fat_read_loop ahci inst (drop k (ff_clusters f)) q mx (0, buf) =
        (mx, copy_at 0 (take mx (drop q (concat (map (cluster_data ahci inst) (drop k (ff_clusters f)))))) buf)"
      using fat_read_loop_ok [of "drop k (ff_clusters f)" ahci inst mx buf 0 q] assms(1) p(2)
      by (auto simp: mx_def dest: in_set_dropD)
    have D: "drop q (concat (map (cluster_data ahci inst) (drop k (ff_clusters f)))) = drop ?p ?D"
      using k unfolding p(1) by (simp only: drop_clusters [OF assms(1), symmetric] drop_drop less_imp_le)
    have content: "take mx (drop ?p ?D) = take mx (drop ?p (file_content ahci inst f))"
      by (simp add: file_content_def drop_take mx_def)
    have "length ?D = length (ff_clusters f) * ?cb"
      using assms(1) by (intro length_blocks cluster_data_length) auto
    then have "length (take mx (drop ?p ?D)) = mx"
      using assms(3) by (simp add: mx_def)
    then have "copy_at 0 (take mx (drop ?p ?D)) buf = take mx (drop ?p ?D) @ drop mx buf"
      by (simp add: copy_at_def)
    then have "fat_read ahci inst buf f = (Inr mx, take mx (drop ?p ?D) @ drop mx buf, f\<lparr>ff_position := ?p + mx\<rparr>)"
      unfolding fat_read_def Let_def k_def [symmetric] q_def [symmetric] mx_def [symmetric] loop D using k True by auto
    then show ?thesis
      unfolding content Let_def mx_def [symmetric] .
  qed
qed

section \<open>Cluster chains\<close>

definition data_cluster :: "u32 \<Rightarrow> bool" where
  "data_cluster cl \<longleftrightarrow> 2 \<le> cl \<and> cl < FAT_EOC_MIN"

definition fat_next :: "disk \<Rightarrow> Fat32Instance \<Rightarrow> u32 \<Rightarrow> u32 option" where
  "fat_next ahci inst cl = (case read_fat_entry ahci inst cl of None \<Rightarrow> None | Some nxt \<Rightarrow> if data_cluster nxt then Some nxt else None)"

inductive fat_path :: "disk \<Rightarrow> Fat32Instance \<Rightarrow> u32 \<Rightarrow> u32 list \<Rightarrow> bool" for ahci inst where
  path_end: "fat_next ahci inst cl = None \<Longrightarrow> fat_path ahci inst cl [cl]"
| path_step: "fat_next ahci inst cl = Some nxt \<Longrightarrow> fat_path ahci inst nxt cls \<Longrightarrow> fat_path ahci inst cl (cl # cls)"

inductive_cases fat_pathE: "fat_path ahci inst cl cls"

abbreviation fat_links :: "disk \<Rightarrow> Fat32Instance \<Rightarrow> (u32 \<times> u32) set" where
  "fat_links ahci inst \<equiv> {(a, b). fat_next ahci inst a = Some b}"

lemma chain_loop_unfold:
  assumes "data_cluster cl"
  shows "cluster_chain_loop ahci inst acc cl =
    (case fat_next ahci inst cl of None \<Rightarrow> Some (acc @ [cl]) | Some nxt \<Rightarrow> cluster_chain_loop ahci inst (acc @ [cl]) nxt)"
  using assms by (subst cluster_chain_loop.simps) (auto simp: data_cluster_def fat_next_def not_le not_less split: option.splits)

lemma fat_next_data: "fat_next ahci inst cl = Some nxt \<Longrightarrow> data_cluster nxt"
  by (auto simp: fat_next_def split: option.splits if_splits)

lemma fat_path_chain: "fat_path ahci inst cl cls \<Longrightarrow> data_cluster cl \<Longrightarrow> cluster_chain_loop ahci inst acc cl = Some (acc @ cls)"
  by (induction arbitrary: acc rule: fat_path.induct) (auto simp: chain_loop_unfold dest: fat_next_data)

lemma chain_fat_path:
  assumes "cluster_chain_loop ahci inst acc cl = Some res"
  shows "data_cluster cl \<longrightarrow> (\<exists>cls. res = acc @ cls \<and> fat_path ahci inst cl cls)"
proof (rule cluster_chain_loop.raw_induct [where P = "\<lambda>ahci inst acc cl res. data_cluster cl \<longrightarrow> (\<exists>cls. res = acc @ cls \<and> fat_path ahci inst cl cls)",
      OF _ assms])
  fix loop ahci inst clusters cl res
  assume IH: "\<And>ahci inst acc cl res. loop ahci inst acc cl = Some res \<Longrightarrow> data_cluster cl \<longrightarrow> (\<exists>cls. res = acc @ cls \<and> fat_path ahci inst cl cls)"
    and body: "(if cl < 2 \<or> cl \<ge> FAT_EOC_MIN then Some clusters
      else case read_fat_entry ahci inst cl of
          None \<Rightarrow> Some (clusters @ [cl])
        | Some nxt \<Rightarrow>
            if nxt < 2 \<or> nxt \<ge> FAT_EOC_MIN then Some (clusters @ [cl])
            else loop ahci inst (clusters @ [cl]) nxt) = Some res"
  show "data_cluster cl \<longrightarrow> (\<exists>cls. res = clusters @ cls \<and> fat_path ahci inst cl cls)"
  proof
    assume cl: "data_cluster cl"
    show "\<exists>cls. res = clusters @ cls \<and> fat_path ahci inst cl cls"
    proof (cases "fat_next ahci inst cl")
      case None
      then have "res = clusters @ [cl]"
        using body cl by (auto simp: fat_next_def data_cluster_def not_le not_less split: option.splits if_splits)
      then show ?thesis
        using path_end [OF None] by blast
    next
      case (Some nxt)
      then have "loop ahci inst (clusters @ [cl]) nxt = Some res"
        using body cl by (auto simp: fat_next_def data_cluster_def not_le not_less split: option.splits if_splits)
      then obtain cls where "res = (clusters @ [cl]) @ cls" "fat_path ahci inst nxt cls"
        using IH fat_next_data [OF Some] by blast
      then show ?thesis
        using path_step [OF Some] by auto
    qed
  qed
qed

lemma cluster_chain_path:
  assumes "data_cluster cl"
  shows "cluster_chain ahci inst cl = Some cls \<longleftrightarrow> fat_path ahci inst cl cls"
  using fat_path_chain [OF _ assms, of ahci inst cls "[]"] chain_fat_path [of ahci inst "[]" cl cls] assms
  by (auto simp: cluster_chain_def)

lemma fat_path_follow:
  assumes "fat_path ahci inst cl cls" "(cl, c) \<in> (fat_links ahci inst)\<^sup>+"
  shows "\<exists>cls'. fat_path ahci inst c cls' \<and> length cls' < length cls"
  using assms(2,1)
proof (induction rule: trancl_induct)
  case (base y)
  from base(2) show ?case
    by (rule fat_pathE) (use base(1) in auto)
next
  case (step y z)
  then obtain ys where ys: "fat_path ahci inst y ys" "length ys < length cls"
    by blast
  from ys(1) show ?case
    by (rule fat_pathE) (use step.hyps(2) ys(2) in auto)
qed

lemma fat_path_unique: "fat_path ahci inst cl xs \<Longrightarrow> fat_path ahci inst cl ys \<Longrightarrow> xs = ys"
proof (induction arbitrary: ys rule: fat_path.induct)
  case (path_end cl)
  from path_end(2) show ?case
    by (rule fat_pathE) (use path_end(1) in auto)
next
  case (path_step cl nxt cls)
  from path_step(4) obtain cls' where "ys = cl # cls'" "fat_path ahci inst nxt cls'"
    by (rule fat_pathE) (use path_step(1) in auto)
  then show ?case
    using path_step(3) by blast
qed

lemma fat_path_no_cycle: "fat_path ahci inst cl cls \<Longrightarrow> (cl, cl) \<notin> (fat_links ahci inst)\<^sup>+"
proof
  assume p: "fat_path ahci inst cl cls" and "(cl, cl) \<in> (fat_links ahci inst)\<^sup>+"
  then obtain cls' where "fat_path ahci inst cl cls'" "length cls' < length cls"
    using fat_path_follow by blast
  then show False
    using fat_path_unique [OF p, of cls'] by simp
qed

lemma fat_path_reach: "fat_path ahci inst cl cls \<Longrightarrow> (cl, c) \<in> (fat_links ahci inst)\<^sup>* \<Longrightarrow> \<exists>cls'. fat_path ahci inst c cls'"
  using fat_path_follow [of ahci inst cl cls c] by (auto simp: rtrancl_eq_or_trancl)

lemma acyclic_path:
  assumes "\<not> (\<exists>c. (cl, c) \<in> (fat_links ahci inst)\<^sup>* \<and> (c, c) \<in> (fat_links ahci inst)\<^sup>+)"
  shows "\<exists>cls. fat_path ahci inst cl cls"
proof -
  let ?R = "fat_links ahci inst"
  define N where "N = {c. (cl, c) \<in> ?R\<^sup>*}"
  define Q where "Q = ?R \<inter> N \<times> N"
  have "acyclic Q"
    unfolding acyclic_def
  proof (intro allI notI)
    fix c
    assume c: "(c, c) \<in> Q\<^sup>+"
    then have "c \<in> N"
      by (cases rule: tranclE) (auto simp: Q_def)
    moreover have "(c, c) \<in> ?R\<^sup>+"
      using c by (rule trancl_mono) (simp add: Q_def)
    ultimately show False
      using assms by (simp add: N_def)
  qed
  moreover have "finite Q"
    by simp
  ultimately have "wf (Q\<inverse>)"
    by (simp add: finite_acyclic_wf_converse)
  then have "c \<in> N \<longrightarrow> (\<exists>cls. fat_path ahci inst c cls)" for c
  proof (induction c rule: wf_induct_rule)
    case (less c)
    show ?case
    proof
      assume c: "c \<in> N"
      show "\<exists>cls. fat_path ahci inst c cls"
      proof (cases "fat_next ahci inst c")
        case None
        then show ?thesis
          using path_end by blast
      next
        case (Some nxt)
        then have "nxt \<in> N"
          using c by (auto simp: N_def intro: rtrancl_into_rtrancl)
        then have "\<exists>cls. fat_path ahci inst nxt cls"
          using less [of nxt] c Some by (auto simp: Q_def)
        then show ?thesis
          using path_step [OF Some] by blast
      qed
    qed
  qed
  then show ?thesis
    by (simp add: N_def)
qed

lemma fat_path_mem: "fat_path ahci inst cl cls \<Longrightarrow> c \<in> set cls \<Longrightarrow> (cl, c) \<in> (fat_links ahci inst)\<^sup>*"
  by (induction rule: fat_path.induct) (auto intro: converse_rtrancl_into_rtrancl)

lemma fat_path_distinct: "fat_path ahci inst cl cls \<Longrightarrow> distinct cls"
proof (induction rule: fat_path.induct)
  case (path_step cl nxt cls)
  have "cl \<notin> set cls"
  proof
    assume "cl \<in> set cls"
    then have "(cl, cl) \<in> (fat_links ahci inst)\<^sup>+"
      using path_step.hyps(1) fat_path_mem [OF path_step.hyps(2)] by (auto intro: rtrancl_into_trancl2)
    then show False
      using fat_path_no_cycle fat_path.path_step [OF path_step.hyps] by blast
  qed
  then show ?case
    using path_step.IH by simp
qed simp

text \<open>C19: Following the cluster chain of a file returns exactly when no cycle of the allocation table can be
  reached from its first cluster, and then it returns the clusters on the path, each once.  On a table with a
  cycle, which a damaged disk can have, it never returns.\<close>

theorem cluster_chain_returns:
  assumes "data_cluster cl"
  shows "case cluster_chain ahci inst cl of
      None \<Rightarrow> \<exists>c. (cl, c) \<in> (fat_links ahci inst)\<^sup>* \<and> (c, c) \<in> (fat_links ahci inst)\<^sup>+
    | Some cls \<Rightarrow> fat_path ahci inst cl cls \<and> distinct cls
        \<and> \<not> (\<exists>c. (cl, c) \<in> (fat_links ahci inst)\<^sup>* \<and> (c, c) \<in> (fat_links ahci inst)\<^sup>+)"
proof (cases "cluster_chain ahci inst cl")
  case None
  then have "\<not> (\<exists>cls. fat_path ahci inst cl cls)"
    using cluster_chain_path [OF assms, of ahci inst] by simp
  then show ?thesis
    using acyclic_path [of cl ahci inst] None by auto
next
  case (Some cls)
  then have p: "fat_path ahci inst cl cls"
    using cluster_chain_path [OF assms, of ahci inst] by simp
  then have "\<not> (\<exists>c. (cl, c) \<in> (fat_links ahci inst)\<^sup>* \<and> (c, c) \<in> (fat_links ahci inst)\<^sup>+)"
    using fat_path_reach [OF p] fat_path_no_cycle by blast
  then show ?thesis
    using Some p fat_path_distinct [OF p] by simp
qed

section \<open>Directories as lists of slots\<close>

text \<open>The loop over the bytes of a directory sees one slot of 32 bytes after the other, and of the slot
  before it only whether that was part of a long name.\<close>

definition slot_step :: "bool \<Rightarrow> u8 list \<Rightarrow> DirEntry list \<times> u16 list list \<Rightarrow> (DirEntry list \<times> u16 list list) option" where
  "slot_step after_lfn slot = (\<lambda>(entries, lfn_buf).
     if slot ! 0 = DIR_END \<and> slot ! 0x0B \<noteq> ATTR_LFN \<and> \<not> after_lfn then None
     else if slot ! 0x0B = ATTR_LFN
     then (if slot ! 0 = DIR_DELETED then Some (entries, [])
           else case parse_lfn_entry slot of Some fragment \<Rightarrow> Some (entries, lfn_buf @ [fragment]) | None \<Rightarrow> Some (entries, lfn_buf))
     else if slot ! 0 = DIR_DELETED \<or> slot ! 0 = DIR_END then Some (entries, [])
     else if slot ! 0x0B AND ATTR_VOLUME_ID \<noteq> 0 then Some (entries, [])
     else if slot ! 0 = 0x2E then Some (entries, [])
     else Some (entries @ [dir_entry slot lfn_buf], []))"

fun slots_loop :: "bool \<Rightarrow> u8 list list \<Rightarrow> DirEntry list \<times> u16 list list \<Rightarrow> DirEntry list" where
  "slots_loop after_lfn [] st = fst st"
| "slots_loop after_lfn (slot # slots) st =
     (case slot_step after_lfn slot st of None \<Rightarrow> fst st | Some st \<Rightarrow> slots_loop (slot ! 0x0B = ATTR_LFN) slots st)"

lemma concat_slot:
  assumes "\<forall>s \<in> set slots. length s = 32" "i < length slots"
  shows "take 32 (drop (i * 32) (concat slots)) = slots ! i" "k < 32 \<Longrightarrow> concat slots ! (i * 32 + k) = slots ! i ! k"
proof -
  have "concat slots = concat (take i slots) @ slots ! i @ concat (drop (Suc i) slots)"
    using id_take_nth_drop [OF assms(2)] by (metis concat.simps(2) concat_append)
  moreover have "length (concat (take i slots)) = i * 32"
    using length_blocks [of "take i slots" "\<lambda>s. s" 32] assms by (auto dest: in_set_takeD)
  moreover have "length (slots ! i) = 32"
    using assms by simp
  ultimately show "take 32 (drop (i * 32) (concat slots)) = slots ! i" "k < 32 \<Longrightarrow> concat slots ! (i * 32 + k) = slots ! i ! k"
    by (simp_all add: nth_append)
qed

lemma dir_step_slot:
  assumes "\<forall>s \<in> set slots. length s = 32" "i < length slots"
  shows "dir_step (concat slots) i st = slot_step (0 < i \<and> slots ! (i - 1) ! 0x0B = ATTR_LFN) (slots ! i) st"
proof -
  note s = concat_slot [OF assms]
  have "concat slots ! (i * 32 - 32 + 11) = slots ! (i - 1) ! 11" if "0 < i"
  proof -
    have "i * 32 - 32 + 11 = (i - 1) * 32 + 11"
      by (simp add: diff_mult_distrib)
    then show ?thesis
      using concat_slot(2) [OF assms(1), of "i - 1" 11] assms(2) by simp
  qed
  then show ?thesis
    using s(1) s(2) [of 0] s(2) [of 11] unfolding dir_step_def slot_step_def Let_def DIR_ENTRY_SIZE_def
    by (cases "i = 0") (simp_all split del: if_split cong: if_cong)
qed

lemma read_dir_loop_slots:
  assumes "\<forall>s \<in> set slots. length s = 32" "i + n = length slots"
  shows "read_dir_loop (concat slots) i n st = slots_loop (0 < i \<and> slots ! (i - 1) ! 0x0B = ATTR_LFN) (drop i slots) st"
  using assms(2)
proof (induction n arbitrary: i st)
  case (Suc n)
  then have i: "i < length slots"
    by simp
  show ?case
    using Suc.IH [of "Suc i"] Suc.prems
    by (auto simp: dir_step_slot [OF assms(1) i] Cons_nth_drop_Suc [OF i, symmetric] split: option.splits)
qed simp

section \<open>Writing directories\<close>

text \<open>What a VFAT driver writes for a file: the fragments of the long name, if any, the last one first, and the short
  entry with its time stamps.  The slots of a long name count down to 1, the first of them has bit 6 set, and each
  holds the checksum of the short name.  Names have at most 255 characters, that is 20 fragments.\<close>

record dir_item =
  di_short :: "u8 list"
  di_attr :: u8
  di_cluster :: u32
  di_size :: u32
  di_fragments :: "u16 list list"
  di_created :: "u8 list"
  di_written :: "u8 list"

definition le16 :: "u16 \<Rightarrow> u8 list" where
  "le16 w = [ucast w, ucast (drop_bit 8 w)]"

definition short_slot :: "dir_item \<Rightarrow> u8 list" where
  "short_slot d = di_short d @ [di_attr d] @ di_created d @ le16 (ucast (drop_bit 16 (di_cluster d))) @ di_written d
     @ le16 (ucast (di_cluster d)) @ le16 (ucast (di_size d)) @ le16 (ucast (drop_bit 16 (di_size d)))"

definition lfn_slot :: "u8 \<Rightarrow> u8 \<Rightarrow> u16 list \<Rightarrow> u8 list" where
  "lfn_slot order checksum frag = [order] @ concat (map le16 (take 5 frag)) @ [ATTR_LFN, 0, checksum]
     @ concat (map le16 (take 6 (drop 5 frag))) @ [0, 0] @ concat (map le16 (drop 11 frag))"

definition lfn_orders :: "nat \<Rightarrow> u8 list" where
  "lfn_orders n = (if n = 0 then [] else (0x40 OR of_nat n) # map of_nat (rev [1..<n]))"

definition item_slots :: "dir_item \<Rightarrow> u8 list list" where
  "item_slots d = map (\<lambda>(order, frag). lfn_slot order (lfn_checksum (di_short d)) frag)
     (zip (lfn_orders (length (di_fragments d))) (di_fragments d)) @ [short_slot d]"

definition item_ok :: "dir_item \<Rightarrow> bool" where
  "item_ok d \<longleftrightarrow> length (di_short d) = 11 \<and> di_short d ! 0 \<notin> {DIR_END, DIR_DELETED, 0x2E} \<and> di_attr d AND ATTR_VOLUME_ID = 0
     \<and> (\<forall>frag \<in> set (di_fragments d). length frag = 13) \<and> length (di_fragments d) \<le> 20
     \<and> length (di_created d) = 8 \<and> length (di_written d) = 4"

definition item_entry :: "dir_item \<Rightarrow> DirEntry" where
  "item_entry d = \<lparr>de_name = long_name (di_fragments d) (di_short d), de_is_directory = (di_attr d AND ATTR_DIRECTORY \<noteq> 0),
     de_first_cluster = di_cluster d, de_file_size = unat (di_size d)\<rparr>"

lemma length_le16 [simp]: "length (le16 w) = 2"
  by (simp add: le16_def)

lemma le_value_le16 [simp]: "le_value (le16 w) = unat w"
proof -
  have "unat (ucast w :: u8) = unat w mod 256" "unat (ucast (drop_bit 8 w) :: u8) = unat w div 256"
    using unsigned_less [of w, where 'a = nat]
    by (simp_all add: unsigned_ucast_eq take_bit_eq_mod drop_bit_eq_div unat_div_distrib)
  then show ?thesis
    by (simp add: le16_def)
qed

lemma join_halves:
  fixes w :: u32
  shows "unat (ucast w :: u16) + 65536 * unat (ucast (drop_bit 16 w) :: u16) = unat w"
    "(ucast (ucast w :: u16) :: u32) OR push_bit 16 (ucast (ucast (drop_bit 16 w) :: u16)) = w"
proof -
  have "unat (ucast w :: u16) = unat w mod 65536" "unat (ucast (drop_bit 16 w) :: u16) = unat w div 65536"
    using unsigned_less [of w, where 'a = nat]
    by (simp_all add: unsigned_ucast_eq take_bit_eq_mod drop_bit_eq_div unat_div_distrib)
  then show "unat (ucast w :: u16) + 65536 * unat (ucast (drop_bit 16 w) :: u16) = unat w"
    by simp
  show "(ucast (ucast w :: u16) :: u32) OR push_bit 16 (ucast (ucast (drop_bit 16 w) :: u16)) = w"
    by (rule bit_word_eqI) (auto simp: bit_or_iff bit_ucast_iff bit_push_bit_iff bit_drop_bit_eq)
qed

lemma field_le16: "length pre = off \<Longrightarrow> field (pre @ le16 w @ post) off 2 = w"
  by (simp add: field_def)

lemma length_short_slot: "item_ok d \<Longrightarrow> length (short_slot d) = 32"
  by (simp add: short_slot_def item_ok_def)

lemma length_lfn_slot: "length frag = 13 \<Longrightarrow> length (lfn_slot order checksum frag) = 32"
  by (subst lfn_slot_def) (simp add: length_concat comp_def sum_list_triv)

lemma length_lfn_orders [simp]: "length (lfn_orders n) = n"
  by (simp add: lfn_orders_def)

text \<open>No slot of a long name looks like a deleted entry.\<close>

lemma lfn_orders_used:
  assumes "n \<le> 20" "order \<in> set (lfn_orders n)"
  shows "order \<noteq> DIR_DELETED"
proof (cases "order = 0x40 OR of_nat n")
  case True
  have "n \<in> {0..20}"
    using assms(1) by simp
  then have "(0x40 OR of_nat n :: u8) \<noteq> 0xE5"
    by (auto simp: atLeastAtMost_upt upt_rec)
  then show ?thesis
    using True by (simp add: DIR_DELETED_def)
next
  case False
  then obtain k where "k < n" "order = of_nat k"
    using assms(2) by (auto simp: lfn_orders_def split: if_splits)
  then have "k < 20"
    using assms(1) by simp
  then have "unat order = k"
    using \<open>order = of_nat k\<close> by (simp add: unat_of_nat_small)
  then show ?thesis
    using \<open>k < 20\<close> by (auto simp: DIR_DELETED_def)
qed

lemma short_slot_bytes:
  assumes "length (di_short d) = 11"
  shows "short_slot d ! 0 = di_short d ! 0" "short_slot d ! 11 = di_attr d" "take 11 (short_slot d) = di_short d"
  using assms by (simp_all add: short_slot_def nth_append)

lemma short_slot_entry:
  assumes "item_ok d"
  shows "dir_entry (short_slot d) frags = item_entry (d\<lparr>di_fragments := frags\<rparr>)"
proof -
  note len = assms [unfolded item_ok_def]
  have hi: "field (short_slot d) 0x14 2 = (ucast (drop_bit 16 (di_cluster d)) :: u16)"
    using field_le16 [of "di_short d @ [di_attr d] @ di_created d" 20] len by (simp add: short_slot_def)
  have lo: "field (short_slot d) 0x1A 2 = (ucast (di_cluster d) :: u16)"
    using field_le16 [of "di_short d @ [di_attr d] @ di_created d @ le16 (ucast (drop_bit 16 (di_cluster d))) @ di_written d" 26] len
    by (simp add: short_slot_def)
  have "take 4 (drop 0x1C (short_slot d)) = le16 (ucast (di_size d)) @ le16 (ucast (drop_bit 16 (di_size d)))"
    using len by (simp add: short_slot_def)
  then have size4: "field (short_slot d) 0x1C 4 = di_size d"
    using join_halves(1) [of "di_size d"] by (simp add: field_def le_value_append)
  show ?thesis
    unfolding dir_entry_def item_entry_def hi lo size4 join_halves(2) using short_slot_bytes len by simp
qed

lemma lfn_slot_bytes: "lfn_slot order checksum frag ! 0 = order" "length frag = 13 \<Longrightarrow> lfn_slot order checksum frag ! 11 = ATTR_LFN"
proof -
  show "lfn_slot order checksum frag ! 0 = order"
    by (simp add: lfn_slot_def)
  assume "length frag = 13"
  then have "length (concat (map le16 (take 5 frag))) = 10"
    by (simp add: length_concat comp_def sum_list_triv)
  then show "lfn_slot order checksum frag ! 11 = ATTR_LFN"
    by (simp add: lfn_slot_def nth_append)
qed

lemma parse_lfn_slot:
  assumes "length frag = 13"
  shows "parse_lfn_entry (lfn_slot order checksum frag) = Some frag"
proof -
  have val: "le_value [ucast w, ucast (drop_bit 8 w)] = unat w" for w :: u16
    using le_value_le16 [of w] by (simp only: le16_def)
  obtain a b c d e f g h i j k l m where "frag = [a, b, c, d, e, f, g, h, i, j, k, l, m]"
    using assms by (auto simp: eval_nat_numeral length_Suc_conv)
  then show ?thesis
    using length_lfn_slot [OF assms, of order checksum] unfolding parse_lfn_entry_def
    by (simp add: lfn_slot_def le16_def field_def val upt_rec del: le_value.simps)
qed

lemma item_slots_loop:
  assumes "item_ok d"
  shows "slots_loop after (item_slots d @ slots) (entries, []) = slots_loop False slots (entries @ [item_entry d], [])"
proof -
  let ?sum = "lfn_checksum (di_short d)" and ?orders = "lfn_orders (length (di_fragments d))"
  have len: "length (di_short d) = 11"
    using assms by (simp add: item_ok_def)
  have frags: "\<forall>(order, frag) \<in> set (zip ?orders (di_fragments d)). order \<noteq> DIR_DELETED \<and> length frag = 13"
    using assms lfn_orders_used [of "length (di_fragments d)"] by (auto simp: item_ok_def dest: set_zip_leftD set_zip_rightD)
  have vol: "di_attr d AND ATTR_VOLUME_ID = 0"
    using assms by (simp add: item_ok_def)
  then have attr: "di_attr d \<noteq> ATTR_LFN"
    by (auto simp: ATTR_LFN_def ATTR_VOLUME_ID_def)
  have short: "slots_loop aft (short_slot d # slots) (entries, buf) = slots_loop False slots (entries @ [dir_entry (short_slot d) buf], [])" for aft buf
    using assms attr vol short_slot_bytes [OF len] by (simp add: slot_step_def item_ok_def)
  have "slots_loop aft (map (\<lambda>(order, frag). lfn_slot order ?sum frag) fs @ short_slot d # slots) (entries, buf) =
      slots_loop False slots (entries @ [dir_entry (short_slot d) (buf @ map snd fs)], [])"
    if "\<forall>(order, frag) \<in> set fs. order \<noteq> DIR_DELETED \<and> length frag = 13" for fs aft buf
    using that
  proof (induction fs arbitrary: aft buf)
    case Nil
    then show ?case
      using short by simp
  next
    case (Cons f fs)
    obtain order frag where f: "f = (order, frag)"
      by fastforce
    then have frag: "length frag = 13" "order \<noteq> DIR_DELETED"
      using Cons.prems by simp_all
    note l = lfn_slot_bytes(1) [of order ?sum frag] lfn_slot_bytes(2) [OF frag(1), of order ?sum] parse_lfn_slot [OF frag(1), of order ?sum]
    have "slot_step aft (lfn_slot order ?sum frag) (entries, buf) = Some (entries, buf @ [frag])"
      unfolding slot_step_def prod.case l using frag(2) by simp
    then show ?case
      using Cons by (simp add: f)
  qed
  from this [OF frags, of after "[]"] show ?thesis
    unfolding item_slots_def append_Nil short_slot_entry [OF assms] by simp
qed

lemma length_item_slots: "item_ok d \<Longrightarrow> s \<in> set (item_slots d) \<Longrightarrow> length s = 32"
  using length_lfn_slot by (auto simp: item_slots_def length_short_slot item_ok_def dest!: set_zip_rightD)

definition dir_bytes :: "dir_item list \<Rightarrow> u8 list list \<Rightarrow> u8 list" where
  "dir_bytes items rest = concat (concat (map item_slots items) @ replicate 32 0 # rest)"

lemma dir_bytes_read:
  assumes "\<forall>d \<in> set items. item_ok d" "\<forall>s \<in> set rest. length s = 32"
  shows "read_dir_loop (dir_bytes items rest) 0 (length (dir_bytes items rest) div DIR_ENTRY_SIZE) ([], []) = map item_entry items"
proof -
  let ?slots = "concat (map item_slots items) @ replicate 32 0 # rest"
  have all: "\<forall>s \<in> set ?slots. length s = 32"
    using assms by (auto simp: length_item_slots)
  then have "length (concat ?slots) = length ?slots * 32"
    using length_blocks [of ?slots "\<lambda>s. s" 32] unfolding list.map_ident by blast
  then have n: "length (dir_bytes items rest) div DIR_ENTRY_SIZE = length ?slots"
    unfolding dir_bytes_def by (simp only: DIR_ENTRY_SIZE_def)
  have loop: "slots_loop False (concat (map item_slots items) @ replicate 32 0 # rest) (entries, []) = entries @ map item_entry items" for entries
    using assms(1)
  proof (induction items arbitrary: entries)
    case Nil
    then show ?case
      by (simp add: slot_step_def DIR_END_def ATTR_LFN_def)
  qed (simp add: item_slots_loop)
  show ?thesis
    using read_dir_loop_slots [OF all, of 0 "length ?slots" "([], [])"] loop [of "[]"] unfolding n
    by (simp only: dir_bytes_def add_0 drop_0 less_irrefl simp_thms append_Nil)
qed

section \<open>Reading a directory\<close>

lemma read_cluster_loop_ok:
  assumes "\<forall>cl \<in> set cls. cluster_ok ahci inst cl" "length buf = total_read + length cls * cluster_bytes inst"
  shows "snd (read_cluster_loop ahci inst cls total_read buf) = take total_read buf @ concat (map (cluster_data ahci inst) cls)"
  using assms
proof (induction cls arbitrary: total_read buf)
  case (Cons cl cls)
  have ok: "cluster_ok ahci inst cl"
    using Cons.prems(1) by simp
  let ?c = "cluster_data ahci inst cl"
  have len: "length ?c = cluster_bytes inst"
    by (rule cluster_data_length [OF ok])
  have "read_sectors ahci (cluster_to_lba inst cl) (unat (sectors_per_cluster (bpb inst))) (drop total_read buf) =
      (cluster_bytes inst, ?c @ drop (cluster_bytes inst) (drop total_read buf))"
    using read_sectors_buf [OF ok [unfolded cluster_ok_def], of "drop total_read buf"] Cons.prems(2) len
    by (simp add: cluster_bytes_def copy_at_def cluster_data_def [symmetric])
  moreover have "length (take total_read buf @ ?c @ drop (cluster_bytes inst) (drop total_read buf)) =
      total_read + cluster_bytes inst + length cls * cluster_bytes inst"
    using Cons.prems(2) len by simp
  ultimately show ?case
    using Cons.IH [of "take total_read buf @ ?c @ drop (cluster_bytes inst) (drop total_read buf)" "total_read + cluster_bytes inst"]
      Cons.prems len by (simp add: Let_def)
qed simp

text \<open>The fragments of a long name, in the order on disk: the last thirteen characters first, the name closed
  by a zero and padded.\<close>

function lfn_chunks :: "u16 list \<Rightarrow> u16 list list" where
  "lfn_chunks us =
     (if us = [] then []
      else (if length us < 13 then us @ [0] @ replicate (12 - length us) 0xFFFF else take 13 us) # lfn_chunks (drop 13 us))"
  by auto
termination by (relation "measure length") auto

declare lfn_chunks.simps [simp del]

definition lfn_fragments :: "string \<Rightarrow> u16 list list" where
  "lfn_fragments s = rev (lfn_chunks (map (\<lambda>c. of_nat (of_char c)) s))"

definition plain_name :: "string \<Rightarrow> bool" where
  "plain_name s \<longleftrightarrow> s \<noteq> [] \<and> (\<forall>c \<in> set s. 0 < (of_char c :: nat) \<and> of_char c < (128 :: nat))
     \<and> (of_char (last s) :: nat) \<notin> {0x09, 0x0A, 0x0B, 0x0C, 0x0D, 0x20, 0x2E}"

lemma lfn_chunks_join: "0 \<notin> set us \<Longrightarrow> concat (map (takeWhile (\<lambda>c. c \<noteq> 0)) (lfn_chunks us)) = us"
proof (induction us rule: lfn_chunks.induct)
  case (1 us)
  have all: "takeWhile (\<lambda>c. c \<noteq> 0) (xs @ 0 # ys) = xs" "takeWhile (\<lambda>c. c \<noteq> 0) xs = xs" if "0 \<notin> set xs" for xs ys :: "u16 list"
    using that by (induction xs) auto
  have ne: "0 \<notin> set (take 13 us)" "0 \<notin> set (drop 13 us)"
    using "1.prems" by (auto dest: in_set_takeD in_set_dropD)
  show ?case
    using "1.IH" [OF _ ne(2)] all(1) [OF "1.prems"] all(2) [OF ne(1)] by (subst lfn_chunks.simps) (simp del: takeWhile_eq_all_conv)
qed

lemma lfn_chunks_length: "frag \<in> set (lfn_chunks us) \<Longrightarrow> length frag = 13"
proof (induction us rule: lfn_chunks.induct)
  case (1 us)
  show ?case
  proof (cases "us = []")
    case False
    then show ?thesis
      using 1 by (subst (asm) (2) lfn_chunks.simps) (auto split: if_splits)
  qed (use 1 in \<open>simp add: lfn_chunks.simps\<close>)
qed

lemma utf16_ascii: "\<forall>u \<in> set us. u < 0x80 \<Longrightarrow> utf16_scalars us = map unat us"
  by (induction us) (auto simp: word_less_nat_alt)

lemma from_utf16_plain:
  assumes "\<forall>c \<in> set s. of_char c < (128 :: nat)"
  shows "from_utf16_lossy (map (\<lambda>c. of_nat (of_char c)) s) = s"
proof -
  have "\<forall>u \<in> set (map (\<lambda>c. of_nat (of_char c)) s). u < (0x80 :: u16)"
    using assms by (auto simp: word_less_nat_alt unat_of_nat)
  then have "utf16_scalars (map (\<lambda>c. of_nat (of_char c)) s) = map of_char s"
    using assms by (auto simp: utf16_ascii unat_of_nat)
  moreover have "concat (map utf8_encode (map of_char s)) = s"
    using assms by (induction s) (auto simp: utf8_encode_def)
  ultimately show ?thesis
    by (simp add: from_utf16_lossy_def)
qed

lemma trim_plain:
  assumes "s \<noteq> []" "\<forall>c \<in> set s. of_char c < (128 :: nat)" "of_char (last s) \<notin> set cs" "\<forall>c \<in> set cs. c < 0x110000"
  shows "trim_end_matches cs s = s"
proof -
  have no: "\<not> (drop (length s - length (utf8_encode c)) s = utf8_encode c \<and> length (utf8_encode c) \<le> length s)" if "c \<in> set cs" for c
  proof
    assume suffix: "drop (length s - length (utf8_encode c)) s = utf8_encode c \<and> length (utf8_encode c) \<le> length s"
    then have small: "\<forall>x \<in> set (utf8_encode c). of_char x < (128 :: nat)"
      using assms(2) by (metis in_set_dropD)
    have "c < 0x80"
      using small assms(4) that by (auto simp: utf8_encode_def split: if_splits)
    then have "utf8_encode c = [char_of c]"
      by (simp add: utf8_encode_def)
    then have "last s = char_of c"
      using suffix assms(1) by (metis last_drop last_ConsL length_greater_0_conv diff_less list.distinct(1) length_Cons zero_less_Suc)
    then show False
      using assms(3) that \<open>c < 0x80\<close> by simp
  qed
  obtain n where "length s = Suc n"
    using assms(1) by (cases s) auto
  moreover have "find (\<lambda>c. c \<noteq> [] \<and> length c \<le> length s \<and> drop (length s - length c) s = c) (map utf8_encode cs) = None"
    using no by (auto simp: find_None_iff)
  ultimately show ?thesis
    by (simp add: trim_end_matches_def)
qed

lemma long_name_plain:
  assumes "plain_name nm"
  shows "long_name (lfn_fragments nm) short = nm"
proof -
  let ?us = "map (\<lambda>c. of_nat (of_char c)) nm :: u16 list"
  have nm: "nm \<noteq> []" "\<forall>c \<in> set nm. of_char c < (128 :: nat)" "\<forall>c \<in> set nm. 0 < (of_char c :: nat)"
    using assms by (simp_all add: plain_name_def)
  have "unat (of_nat (of_char c) :: u16) = of_char c" if "c \<in> set nm" for c
  proof -
    have "(of_char c :: nat) < 128"
      using nm(2) that by simp
    then show ?thesis
      by (simp add: unat_of_nat)
  qed
  then have zero: "0 \<notin> set ?us"
    using nm(3) by (force simp: unat_eq_zero [symmetric])
  have join: "concat (map (takeWhile (\<lambda>c. c \<noteq> 0)) (rev (lfn_fragments nm))) = ?us"
    using lfn_chunks_join [OF zero] by (simp add: lfn_fragments_def)
  have ne: "lfn_fragments nm \<noteq> []"
    using nm(1) by (simp add: lfn_fragments_def lfn_chunks.simps [of ?us])
  have last: "(of_char (last nm) :: nat) < 128" "(of_char (last nm) :: nat) \<notin> {0x09, 0x0A, 0x0B, 0x0C, 0x0D, 0x20, 0x2E}"
    using nm assms by (simp_all add: plain_name_def)
  have trim: "trim_end_matches cs nm = nm" if "of_char (last nm) \<notin> set cs" "\<forall>c \<in> set cs. c < 0x110000" for cs
    by (rule trim_plain [OF nm(1,2) that])
  have "trim_end_matches [0xFFFF] nm = nm" "trim_end_matches [0x2E] nm = nm"
    by (rule trim; use last in auto)+
  moreover have "trim_end nm = nm"
    unfolding trim_end_def by (rule trim) (use last in \<open>auto simp: white_space_def\<close>)
  ultimately show ?thesis
    unfolding long_name_def join Let_def from_utf16_plain [OF nm(2)] using ne nm(1) by simp
qed

text \<open>C24: A directory reads back as a VFAT driver writes it.  When the clusters of a directory hold the slots of a
  list of files, each with the numbered fragments of its long name in front of the short entry, followed by
  an end mark, \<open>read_directory\<close> returns the files in order with their first clusters, sizes and kinds; a file
  whose fragments encode an ASCII name of at most 255 characters gets that name.\<close>

theorem fat_directory_roundtrip:
  assumes "cluster_chain ahci inst cl = Some cls" "cls \<noteq> []" "\<forall>cl \<in> set cls. cluster_ok ahci inst cl"
    "concat (map (cluster_data ahci inst) cls) = dir_bytes items rest" "\<forall>d \<in> set items. item_ok d" "\<forall>s \<in> set rest. length s = 32"
  shows "read_directory ahci inst cl = Some (Inr (map item_entry items))
    \<and> (\<forall>d \<in> set items. \<forall>nm. plain_name nm \<longrightarrow> di_fragments d = lfn_fragments nm \<longrightarrow> de_name (item_entry d) = nm)"
proof
  have "snd (read_cluster_chain ahci inst cls (replicate (length cls * cluster_bytes inst) 0)) = dir_bytes items rest"
    using read_cluster_loop_ok [OF assms(3), of "replicate (length cls * cluster_bytes inst) 0" 0] assms(4)
    by (simp add: read_cluster_chain_def)
  then show "read_directory ahci inst cl = Some (Inr (map item_entry items))"
    unfolding read_directory_def using assms(1,2) dir_bytes_read [OF assms(5,6)] by simp
  show "\<forall>d \<in> set items. \<forall>nm. plain_name nm \<longrightarrow> di_fragments d = lfn_fragments nm \<longrightarrow> de_name (item_entry d) = nm"
    by (simp add: item_entry_def long_name_plain)
qed

section \<open>A small disk\<close>

text \<open>One sector of allocation table, the root directory in cluster 2 with one file of five bytes in
  cluster 3.\<close>

definition example_item :: dir_item where
  "example_item = \<lparr>di_short = [72, 69, 76, 76, 79, 76, 126, 49, 84, 88, 84], di_attr = 0x20, di_cluster = 3, di_size = 5,
     di_fragments = lfn_fragments ''Hello long name.txt'', di_created = [0, 0, 0x20, 0x60, 0x71, 0x5B, 0x71, 0x5B],
     di_written = [0x20, 0x60, 0x71, 0x5B]\<rparr>"

definition example_dir :: "u8 list" where
  "example_dir = dir_bytes [example_item] (replicate 12 (replicate 32 0))"

definition example_disk :: disk where
  "example_disk = Some (\<lambda>lba. Some (if lba = 2 then example_dir else if lba = 3 then [1, 2, 3, 4, 5] @ replicate 507 0 else replicate 512 0))"

definition example_inst :: Fat32Instance where
  "example_inst = \<lparr>bpb = \<lparr>bytes_per_sector = 512, sectors_per_cluster = 1, reserved_sectors = 1, fat_count = 1, total_sectors_32 = 4,
       sectors_per_fat_32 = 1, root_cluster = 2, fs_info_sector = 0, backup_boot_sector = 0\<rparr>,
     fat_start_lba = 1, data_start_lba = 2\<rparr>"

lemma example_fragments: "lfn_fragments ''Hello long name.txt'' =
    [[109, 101, 46, 116, 120, 116, 0, 0xFFFF, 0xFFFF, 0xFFFF, 0xFFFF, 0xFFFF, 0xFFFF],
     [72, 101, 108, 108, 111, 32, 108, 111, 110, 103, 32, 110, 97]]"
  by (simp add: lfn_fragments_def lfn_chunks.simps eval_nat_numeral)

lemma example_item_ok: "item_ok example_item"
  by (simp add: item_ok_def example_item_def DIR_END_def DIR_DELETED_def ATTR_VOLUME_ID_def example_fragments)

lemma length_example_dir: "length example_dir = 512"
proof -
  have "\<forall>s \<in> set (item_slots example_item). length s = 32" "length (item_slots example_item) = 3"
    using length_item_slots [OF example_item_ok] by (simp_all add: item_slots_def example_item_def example_fragments)
  then have "length (concat (item_slots example_item)) = 96"
    using length_blocks [of "item_slots example_item" "\<lambda>s. s" 32] by simp
  then show ?thesis
    unfolding example_dir_def dir_bytes_def by (simp add: length_concat sum_list_replicate)
qed

lemma example_read: "read_sector example_disk lba = Some (if lba = 2 then example_dir else if lba = 3 then [1, 2, 3, 4, 5] @ replicate 507 0 else replicate 512 0)"
  by (simp add: read_sector_def example_disk_def)

lemma example_clusters: "cluster_ok example_disk example_inst cl" "cluster_bytes example_inst = 512"
    "cluster_data example_disk example_inst 2 = example_dir" "cluster_data example_disk example_inst 3 = [1, 2, 3, 4, 5] @ replicate 507 0"
  by (simp_all add: cluster_ok_def sectors_ok_def cluster_sector_def cluster_data_def cluster_bytes_def cluster_to_lba_def example_read
      example_inst_def length_example_dir SECTOR_SIZE_def)

lemma example_next:
  assumes "cl = 2 \<or> cl = 3"
  shows "fat_next example_disk example_inst cl = None"
proof -
  have "field (replicate 512 0) k 4 = (0 :: u32)" for k
    by (simp add: field_def le_value_zeros)
  then show ?thesis
    using assms by (auto simp: fat_next_def read_fat_entry_def Let_def example_read example_inst_def SECTOR_SIZE_def data_cluster_def)
qed

lemma example_chain: "cl = 2 \<or> cl = 3 \<Longrightarrow> cluster_chain example_disk example_inst cl = Some [cl]"
  using cluster_chain_path [of cl example_disk example_inst "[cl]"] path_end [OF example_next]
  by (auto simp: data_cluster_def FAT_EOC_MIN_def)

theorem fat_directory_roundtrip_witness:
  "\<exists>e. read_directory example_disk example_inst 2 = Some (Inr [e]) \<and> de_name e = ''Hello long name.txt'' \<and> de_file_size e = 5"
proof -
  have "concat (map (cluster_data example_disk example_inst) [2]) = dir_bytes [example_item] (replicate 12 (replicate 32 0))"
    by (simp add: example_clusters example_dir_def)
  from fat_directory_roundtrip [OF example_chain _ _ this]
  have "read_directory example_disk example_inst 2 = Some (Inr [item_entry example_item])"
    "plain_name ''Hello long name.txt'' \<longrightarrow> de_name (item_entry example_item) = ''Hello long name.txt''"
    using example_item_ok by (auto simp: example_clusters(1) example_item_def)
  moreover have "plain_name ''Hello long name.txt''"
    by (simp add: plain_name_def)
  ultimately show ?thesis
    by (simp add: item_entry_def) (simp add: example_item_def)
qed

theorem fat_read_content_witness:
  "fst (snd (fat_read example_disk example_inst (replicate 3 0) \<lparr>ff_clusters = [3], ff_position = 1, ff_file_size = 5, ff_start_cluster = 3\<rparr>)) = [2, 3, 4]"
proof -
  have spc: "sectors_per_cluster (bpb example_inst) \<noteq> 0"
    by (simp add: example_inst_def)
  show ?thesis
    by (subst fat_read_content) (simp_all add: spc example_clusters file_content_def Let_def)
qed

definition cyclic_disk :: disk where
  "cyclic_disk = Some (\<lambda>lba. Some (replicate 8 0 @ [2] @ replicate 503 0))"

lemma cyclic_next: "fat_next cyclic_disk example_inst 2 = Some 2"
proof -
  have "field (replicate 8 0 @ [2] @ replicate 503 0) 8 4 = (2 :: u32)"
    by (simp add: field_def le_value_zeros)
  then show ?thesis
    by (simp add: fat_next_def read_fat_entry_def Let_def read_sector_def cyclic_disk_def SECTOR_SIZE_def data_cluster_def FAT_EOC_MIN_def)
qed

theorem cluster_chain_returns_witness:
  "cluster_chain example_disk example_inst 2 = Some [2] \<and> cluster_chain cyclic_disk example_inst 2 = None"
proof -
  have two: "data_cluster 2"
    by (simp add: data_cluster_def FAT_EOC_MIN_def)
  have "(2, 2) \<in> (fat_links cyclic_disk example_inst)\<^sup>+"
    using cyclic_next by auto
  then have "cluster_chain cyclic_disk example_inst 2 = None"
    using cluster_chain_returns [OF two, of cyclic_disk example_inst] by (auto split: option.splits)
  then show ?thesis
    using example_chain by simp
qed

end
