(* ===== verification/UserMem.thy ===== *)
theory UserMem
  imports PhysMem
begin

text \<open>
  How the system calls of \<open>kernel/src/syscall/mod.rs\<close> reach the memory of a program: they load its page table and go
  through raw pointers.  An access is a translation and an access to physical memory, byte by byte; \<open>None\<close> is a
  page fault.  The access bits of the entries are not consulted.
\<close>

section \<open>Accesses through a page table\<close>

definition user_byte :: "u64 \<Rightarrow> u64 \<Rightarrow> Vm \<Rightarrow> u8 option" where
  "user_byte pt v s = map_option (phys_byte s) (translate pt s v)"

fun user_read :: "u64 \<Rightarrow> u64 \<Rightarrow> nat \<Rightarrow> Vm \<Rightarrow> u8 list option" where
  "user_read pt v 0 s = Some []"
| "user_read pt v (Suc n) s =
     (case user_byte pt v s of None \<Rightarrow> None | Some b \<Rightarrow> map_option ((#) b) (user_read pt (v + 1) n s))"

fun user_write :: "u64 \<Rightarrow> u64 \<Rightarrow> u8 list \<Rightarrow> Vm \<Rightarrow> Vm option" where
  "user_write pt v [] s = Some s"
| "user_write pt v (b # bs) s =
     (case translate pt s v of None \<Rightarrow> None | Some p \<Rightarrow> user_write pt (v + 1) bs (phys_write s p b))"

section \<open>Single bytes\<close>

lemma frame_offset_eq: "p = q \<longleftrightarrow> p AND NOT 0xFFF = q AND NOT 0xFFF \<and> p AND 0xFFF = q AND (0xFFF :: u64)"
proof
  assume eq: "p AND NOT 0xFFF = q AND NOT 0xFFF \<and> p AND 0xFFF = q AND 0xFFF"
  have split: "w = (w AND NOT 0xFFF) OR (w AND 0xFFF)" for w :: u64
    unfolding offset_masks by (rule bit_eqI) (auto simp: bit_or_iff bit_and_iff bit_not_iff)
  show "p = q"
    using eq split [of p] split [of q] by metis
qed simp

lemma phys_byte_write: "phys_byte (phys_write s p b) q = (if q = p then b else phys_byte s q)"
proof -
  have "unat (p AND 0xFFF) = unat (q AND 0xFFF) \<longleftrightarrow> p AND 0xFFF = q AND 0xFFF"
    by (rule word_unat_eq_iff [symmetric])
  then show ?thesis
    unfolding phys_byte_def phys_write_def frame_byte_write frame_offset_eq [of q p] by metis
qed

lemma phys_write_other: "t \<noteq> p AND NOT 0xFFF \<Longrightarrow> vm_mem (phys_write s p b) t = vm_mem s t"
  by (auto simp: phys_write_def vm_write_byte_def vm_mem_set fun_eq_iff)

lemma vm_pmm_phys_write [simp]: "vm_pmm (phys_write s p b) = vm_pmm s"
  by (simp add: phys_write_def vm_write_byte_def)

section \<open>Buffers\<close>

text \<open>A buffer of \<open>n\<close> bytes at \<open>v\<close>: mapped, in frames that hold no page table, outside of the recursive slot.\<close>

definition buffer_ok :: "roles \<Rightarrow> u64 \<Rightarrow> Vm \<Rightarrow> u64 \<Rightarrow> nat \<Rightarrow> bool" where
  "buffer_ok role pt s v n \<longleftrightarrow>
     (\<forall>i < n. pml4_index (v + of_nat i) \<noteq> RECURSIVE_ENTRY
        \<and> (\<exists>p. translate pt s (v + of_nat i) = Some p \<and> role (p AND NOT 0xFFF) = None))"

text \<open>The physical addresses of a buffer.\<close>

definition buffer_addrs :: "u64 \<Rightarrow> Vm \<Rightarrow> u64 \<Rightarrow> nat \<Rightarrow> u64 set" where
  "buffer_addrs pt s v n = {p. \<exists>i < n. translate pt s (v + of_nat i) = Some p}"

text \<open>No two bytes of the buffer are the same byte of memory.\<close>

definition buffer_distinct :: "u64 \<Rightarrow> Vm \<Rightarrow> u64 \<Rightarrow> nat \<Rightarrow> bool" where
  "buffer_distinct pt s v n \<longleftrightarrow> inj_on (\<lambda>i. translate pt s (v + of_nat i)) {..<n}"

lemma buffer_ok_Suc:
  "buffer_ok role pt s v (Suc n) \<longleftrightarrow>
     pml4_index v \<noteq> RECURSIVE_ENTRY \<and> (\<exists>p. translate pt s v = Some p \<and> role (p AND NOT 0xFFF) = None) \<and> buffer_ok role pt s (v + 1) n"
  unfolding buffer_ok_def by (simp add: All_less_Suc2 add.assoc)

lemma buffer_addrs_Suc: "translate pt s v = Some p \<Longrightarrow> buffer_addrs pt s v (Suc n) = insert p (buffer_addrs pt s (v + 1) n)"
  unfolding buffer_addrs_def by (auto simp: Ex_less_Suc2 add.assoc)

lemma user_read_nth:
  assumes "\<And>i. i < n \<Longrightarrow> user_byte pt (v + of_nat i) s = Some (f i)"
  shows "user_read pt v n s = Some (map f [0..<n])"
  using assms
proof (induction n arbitrary: v f)
  case (Suc n)
  have "user_read pt (v + 1) n s = Some (map (f \<circ> Suc) [0..<n])"
    by (rule Suc.IH) (use Suc.prems [of "Suc _"] in \<open>simp add: add.assoc\<close>)
  then show ?case
    using Suc.prems [of 0] by (simp add: map_upt_Suc del: upt_Suc)
qed simp

lemma phys_write_step:
  assumes "vm_wf role roots s" "role (p AND NOT 0xFFF) = None"
  shows "vm_wf role roots (phys_write s p b)" "same_translation roots s (phys_write s p b)"
    "plain role r s \<Longrightarrow> plain role r (phys_write s p b)"
  using frame_write [OF assms, of "phys_write s p b"] phys_write_other by simp_all

lemma buffer_keeps:
  assumes "same_translation roots s s'" "pt \<in> roots"
  shows "buffer_ok role pt s v n \<Longrightarrow> buffer_ok role pt s' v n"
    "buffer_ok role pt s v n \<Longrightarrow> buffer_addrs pt s' v n = buffer_addrs pt s v n"
    "buffer_ok role pt s v n \<Longrightarrow> buffer_distinct pt s v n \<Longrightarrow> buffer_distinct pt s' v n"
proof -
  assume ok: "buffer_ok role pt s v n"
  have tr: "translate pt s' (v + of_nat i) = translate pt s (v + of_nat i)" if "i < n" for i
    using that ok assms by (auto simp: buffer_ok_def same_translation_iff)
  show "buffer_ok role pt s' v n"
    using ok tr by (simp add: buffer_ok_def)
  show "buffer_addrs pt s' v n = buffer_addrs pt s v n"
    using tr by (auto simp: buffer_addrs_def)
  show "buffer_distinct pt s' v n" if "buffer_distinct pt s v n"
    using that tr unfolding buffer_distinct_def by (subst inj_on_cong) auto
qed

text \<open>Writing a buffer succeeds, changes the bytes of the buffer only and no translation.\<close>

lemma user_write_ok:
  assumes "vm_wf role roots s" "pt \<in> roots" "buffer_ok role pt s v (length bs)"
  obtains s' where "user_write pt v bs s = Some s'" "vm_wf role roots s'" "same_translation roots s s'" "vm_pmm s' = vm_pmm s"
    "\<And>q. q \<notin> buffer_addrs pt s v (length bs) \<Longrightarrow> phys_byte s' q = phys_byte s q" "\<And>r. plain role r s \<Longrightarrow> plain role r s'"
    "\<And>t. role t \<noteq> None \<Longrightarrow> vm_mem s' t = vm_mem s t"
  using assms
proof (induction bs arbitrary: s v thesis)
  case Nil
  then show ?case
    by simp
next
  case (Cons b bs)
  obtain p where p: "translate pt s v = Some p" "role (p AND NOT 0xFFF) = None" "buffer_ok role pt s (v + 1) (length bs)"
    using Cons.prems(4) by (auto simp: buffer_ok_Suc)
  let ?s = "phys_write s p b"
  note w = phys_write_step [OF Cons.prems(2) p(2), where b = b]
  note keep = buffer_keeps [OF w(2) Cons.prems(3), of role "v + 1" "length bs"]
  obtain s' where s': "user_write pt (v + 1) bs ?s = Some s'" "vm_wf role roots s'" "same_translation roots ?s s'" "vm_pmm s' = vm_pmm ?s"
    "\<And>q. q \<notin> buffer_addrs pt ?s (v + 1) (length bs) \<Longrightarrow> phys_byte s' q = phys_byte ?s q" "\<And>r. plain role r ?s \<Longrightarrow> plain role r s'"
    "\<And>t. role t \<noteq> None \<Longrightarrow> vm_mem s' t = vm_mem ?s t"
    by (rule Cons.IH [OF _ w(1) Cons.prems(3) keep(1) [OF p(3)]]) (rule that, blast+)
  have addrs: "buffer_addrs pt s v (length (b # bs)) = insert p (buffer_addrs pt s (v + 1) (length bs))"
    using buffer_addrs_Suc [OF p(1)] by simp
  show ?case
  proof (rule Cons.prems(1))
    show "phys_byte s' q = phys_byte s q" if "q \<notin> buffer_addrs pt s v (length (b # bs))" for q
      using that s'(5) [of q] keep(2) [OF p(3)] unfolding addrs by (simp add: phys_byte_write)
    show "vm_mem s' t = vm_mem s t" if "role t \<noteq> None" for t
      using s'(7) [OF that] p(2) that phys_write_other [of t p s b] by metis
  qed (use p(1) s' w same_translation_trans [OF w(2) s'(3)] in auto)
qed


lemma buffer_distinct_Suc:
  assumes "buffer_distinct pt s v (Suc n)" "translate pt s v = Some p"
  shows "buffer_distinct pt s (v + 1) n" "p \<notin> buffer_addrs pt s (v + 1) n"
proof -
  let ?f = "\<lambda>i. translate pt s (v + of_nat i)"
  have f: "translate pt s (v + 1 + of_nat i) = ?f (Suc i)" for i
    by (simp add: add.assoc)
  have inj: "i = j" if "?f i = ?f j" "i < Suc n" "j < Suc n" for i j
    using assms(1) that by (auto simp: buffer_distinct_def dest: inj_onD)
  show "buffer_distinct pt s (v + 1) n"
    unfolding buffer_distinct_def f by (rule inj_onI) (use inj [of "Suc _" "Suc _"] in auto)
  show "p \<notin> buffer_addrs pt s (v + 1) n"
    unfolding buffer_addrs_def f using inj [of "Suc _" 0] assms(2) by auto
qed

lemma user_write_bytes:
  assumes "vm_wf role roots s" "pt \<in> roots" "buffer_ok role pt s v (length bs)" "buffer_distinct pt s v (length bs)"
    "user_write pt v bs s = Some s'" "i < length bs"
  shows "user_byte pt (v + of_nat i) s' = Some (bs ! i)"
  using assms
proof (induction bs arbitrary: s v i)
  case (Cons b bs)
  obtain p where p: "translate pt s v = Some p" "role (p AND NOT 0xFFF) = None" "buffer_ok role pt s (v + 1) (length bs)"
      "pml4_index v \<noteq> RECURSIVE_ENTRY"
    using Cons.prems(3) by (auto simp: buffer_ok_Suc)
  let ?s = "phys_write s p b"
  note w = phys_write_step [OF Cons.prems(1) p(2), where b = b]
  note keep = buffer_keeps [OF w(2) Cons.prems(2), of role "v + 1" "length bs"]
  have d: "buffer_distinct pt s (v + 1) (length bs)" "p \<notin> buffer_addrs pt s (v + 1) (length bs)"
    using buffer_distinct_Suc [OF _ p(1)] Cons.prems(4) by simp_all
  have st: "user_write pt (v + 1) bs ?s = Some s'"
    using Cons.prems(5) p(1) by simp
  show ?case
  proof (cases i)
    case 0
    obtain s'' where "user_write pt (v + 1) bs ?s = Some s''" "same_translation roots ?s s''"
      "phys_byte s'' p = phys_byte ?s p"
      by (rule user_write_ok [OF w(1) Cons.prems(2) keep(1) [OF p(3)]]) (use d(2) keep(2) [OF p(3)] that in auto)
    then have "translate pt s' v = Some p" "phys_byte s' p = b"
      using st w(2) p(1,4) Cons.prems(2) by (auto simp: same_translation_iff phys_byte_write)
    then show ?thesis
      using 0 by (simp add: user_byte_def)
  next
    case (Suc j)
    have "user_byte pt (v + 1 + of_nat j) s' = Some (bs ! j)"
      by (rule Cons.IH [OF w(1) Cons.prems(2) keep(1) [OF p(3)] keep(3) [OF p(3) d(1)] st]) (use Cons.prems(6) Suc in simp)
    then show ?thesis
      using Suc by (simp add: add.assoc)
  qed
qed simp

lemma user_write_read:
  assumes "vm_wf role roots s" "pt \<in> roots" "buffer_ok role pt s v (length bs)" "buffer_distinct pt s v (length bs)"
    "user_write pt v bs s = Some s'"
  shows "user_read pt v (length bs) s' = Some bs"
  using user_read_nth [of "length bs" pt v s' "(!) bs"] user_write_bytes [OF assms] by (simp add: map_nth)

text \<open>A mapped buffer can be read.\<close>

lemma user_read_ok:
  assumes "buffer_ok role pt s v n"
  obtains bs where "user_read pt v n s = Some bs" "length bs = n"
    "\<And>i. i < n \<Longrightarrow> user_byte pt (v + of_nat i) s = Some (bs ! i)"
proof -
  have "\<exists>b. user_byte pt (v + of_nat i) s = Some b" if "i < n" for i
    using assms that by (auto simp: buffer_ok_def user_byte_def)
  then obtain f where f: "user_byte pt (v + of_nat i) s = Some (f i)" if "i < n" for i
    by metis
  show thesis
    by (rule that [OF user_read_nth [of n pt v s f]]) (use f in simp_all)
qed


section \<open>An example\<close>

text \<open>One address space with a page at \<open>0x400000\<close> that holds the text \<open>sh\<close>, and 4096 free frames.\<close>

definition user_pmm :: Pmm where
  "user_pmm = pmm_init [\<lparr>me_base = 0x100000, me_length = 0x1000000, me_usable = True\<rparr>] 0 0"

definition user_vm :: Vm where
  "user_vm = \<lparr>vm_mem = (\<lambda>f i. if f = 0x1000 \<and> i = 0 then 0x2007 else if f = 0x2000 \<and> i = 0 then 0x3007
       else if f = 0x3000 \<and> i = 2 then 0x4007 else if f = 0x4000 \<and> i = 0 then 0x5007
       else if f = 0x5000 \<and> i = 0 then 0x6873 else 0), vm_pmm = user_pmm\<rparr>"

definition user_roles :: roles where
  "user_roles = [0x1000 \<mapsto> (Some 0x1000, []), 0x2000 \<mapsto> (Some 0x1000, [0]), 0x3000 \<mapsto> (Some 0x1000, [0, 0]),
     0x4000 \<mapsto> (Some 0x1000, [0, 0, 2])]"

lemma user_pmm_ok: "pmm_wf user_pmm" "pmm_free_pages user_pmm = {256..<4352}"
proof -
  show "pmm_wf user_pmm"
    unfolding user_pmm_def by (rule pmm_init_result) simp
  have "entry_pages \<lparr>me_base = 0x100000, me_length = 0x1000000, me_usable = True\<rparr> = {256..<4352}"
    by (simp add: entry_pages_def usable_pages_def page_range_def PAGE_SIZE_def del: upt_rec_numeral)
  then show "pmm_free_pages user_pmm = {256..<4352}"
    unfolding user_pmm_def by (subst pmm_init_result(2)) (auto simp: kernel_pages_def page_range_def PAGE_SIZE_def MAX_PAGES_def)
qed

lemma user_vm_wf: "vm_wf user_roles {0x1000} user_vm"
  unfolding vm_wf_def table_ok_def user_vm_def user_roles_def
  by (auto simp: user_pmm_ok page_of_def PAGE_SIZE_def entry_ok_def edge_def child_role_def pte_is_present_def pte_huge_def
      pte_physical_address_def pte_flags_def PRESENT_def HUGE_PAGE_def split: if_splits)

lemma user_vm_plain: "plain user_roles 0x1000 user_vm"
  by (auto simp: plain_def user_vm_def user_roles_def pte_is_present_def pte_huge_def pte_flags_def HUGE_PAGE_def PRESENT_def
      split: if_splits)

lemma user_vm_page: "page_shows user_roles 0x1000 user_vm (\<lambda>a. frame_byte user_vm 0x5000 (a mod 4096)) 0x400"
proof -
  have "translate 0x1000 user_vm (of_nat (0x400 * 4096 + off)) = Some (0x5000 + of_nat off)" if "off < 4096" for off
  proof -
    have pv: "unat (0x400000 :: u64) mod 4096 = 0" "unat (0x400000 :: u64) + 4096 \<le> 2 ^ 47"
      by simp_all
    note o = same_page_offset [OF pv that]
    have i: "pml4_index (0x400000 + of_nat off) = 0" "pdpt_index (0x400000 + of_nat off) = 0" "pd_index (0x400000 + of_nat off) = 2"
      "pt_index (0x400000 + of_nat off) = 0"
      using o(2) by (simp_all add: same_page_def index_defs)
    show ?thesis
      using o(3) by (simp add: translate_def i Let_def user_vm_def pte_is_present_def pte_flags_def pte_physical_address_def PRESENT_def HUGE_PAGE_def)
  qed
  moreover have "(0x400 * 4096 + off) mod 4096 = off" if "off < 4096" for off :: nat
    unfolding mod_mult_self3 using that by (rule mod_less)
  moreover have "held user_roles user_vm 0x5000"
    by (simp add: held_def user_roles_def user_vm_def user_pmm_ok page_of_def PAGE_SIZE_def)
  ultimately show ?thesis
    unfolding page_shows_def by (intro exI [of _ "0x5000"]) (simp add: pte_physical_address_def)
qed

lemma user_vm_bytes: "user_byte 0x1000 0x400000 user_vm = Some 0x73" "user_byte 0x1000 0x400001 user_vm = Some 0x68"
proof -
  have b: "\<exists>p. translate 0x1000 user_vm (of_nat a) = Some p \<and> phys_byte user_vm p = frame_byte user_vm 0x5000 (a mod 4096)"
    if "a div 4096 = 0x400" for a
    using page_shows_byte [of user_roles "0x1000" user_vm "\<lambda>a. frame_byte user_vm 0x5000 (a mod 4096)" a] user_vm_page that by simp
  from b [of "0x400000"] b [of "0x400001"]
  show "user_byte 0x1000 0x400000 user_vm = Some 0x73" "user_byte 0x1000 0x400001 user_vm = Some 0x68"
    by (auto simp: user_byte_def frame_byte_def user_vm_def)
qed

end
