(* ===== verification/Keyboard.thy ===== *)
theory Keyboard
  imports Fifo Sched
begin

text \<open>
  The keyboard buffer of \<open>kernel/src/syscall/mod.rs\<close> and the translation of scancodes in
  \<open>kernel/src/drivers/keyboard.rs\<close>.  The byte read from the data port is an argument; the two \<open>static mut\<close> flags of the
  modifier keys are a record.
\<close>

section \<open>The buffer\<close>

record KeyboardBuffer =
  kb_data :: "u8 list"
  kb_read_idx :: nat
  kb_write_idx :: nat
  kb_count :: nat

definition kb_new :: KeyboardBuffer where
  "kb_new = \<lparr>kb_data = replicate 256 0, kb_read_idx = 0, kb_write_idx = 0, kb_count = 0\<rparr>"

definition kb_push :: "KeyboardBuffer \<Rightarrow> u8 \<Rightarrow> KeyboardBuffer" where
  "kb_push b ch =
     (if kb_count b < 256
      then b\<lparr>kb_data := (kb_data b)[kb_write_idx b := ch], kb_write_idx := (kb_write_idx b + 1) mod 256, kb_count := kb_count b + 1\<rparr>
      else b)"

definition kb_pop :: "KeyboardBuffer \<Rightarrow> u8 option \<times> KeyboardBuffer" where
  "kb_pop b =
     (if kb_count b > 0
      then (Some (kb_data b ! kb_read_idx b), b\<lparr>kb_read_idx := (kb_read_idx b + 1) mod 256, kb_count := kb_count b - 1\<rparr>)
      else (None, b))"

definition kb_is_empty :: "KeyboardBuffer \<Rightarrow> bool" where
  "kb_is_empty b \<longleftrightarrow> kb_count b = 0"

text \<open>The buffer, the waiting task (\<open>KEYBOARD_WAITING_TASK\<close>) and the scheduler.\<close>

definition push_keyboard_char :: "u8 \<Rightarrow> KeyboardBuffer \<times> TaskId \<times> 'f Scheduler \<Rightarrow> KeyboardBuffer \<times> TaskId \<times> 'f Scheduler" where
  "push_keyboard_char ch = (\<lambda>(buffer, waiting_task, s).
     (kb_push buffer ch, NO_TASK, if waiting_task \<noteq> NO_TASK then wake_task waiting_task s else s))"

section \<open>Scancodes\<close>

text \<open>\<open>SCANCODE_MAP\<close>: the entries that the initialiser sets, all others are zero.\<close>

definition SCANCODE_MAP :: "u8 \<Rightarrow> u8" where
  "SCANCODE_MAP code =
     (case map_of
        [(0x02, 0x31), (0x03, 0x32), (0x04, 0x33), (0x05, 0x34), (0x06, 0x35), (0x07, 0x36), (0x08, 0x37), (0x09, 0x38),
         (0x0A, 0x39), (0x0B, 0x30), (0x0C, 0x2D), (0x0D, 0x3D), (0x0E, 0x08), (0x0F, 0x09),
         (0x10, 0x71), (0x11, 0x77), (0x12, 0x65), (0x13, 0x72), (0x14, 0x74), (0x15, 0x79), (0x16, 0x75), (0x17, 0x69),
         (0x18, 0x6F), (0x19, 0x70), (0x1A, 0x5B), (0x1B, 0x5D), (0x1C, 0x0A),
         (0x1E, 0x61), (0x1F, 0x73), (0x20, 0x64), (0x21, 0x66), (0x22, 0x67), (0x23, 0x68), (0x24, 0x6A), (0x25, 0x6B),
         (0x26, 0x6C), (0x27, 0x3B), (0x28, 0x27), (0x29, 0x60), (0x2B, 0x5C),
         (0x2C, 0x7A), (0x2D, 0x78), (0x2E, 0x63), (0x2F, 0x76), (0x30, 0x62), (0x31, 0x6E), (0x32, 0x6D), (0x33, 0x2C),
         (0x34, 0x2E), (0x35, 0x2F), (0x39, 0x20), (0x48, 0x80), (0x50, 0x81), (0x4B, 0x82), (0x4D, 0x83)] code of
        Some ascii \<Rightarrow> ascii
      | None \<Rightarrow> 0)"

record Modifiers =
  LCTRL_PRESSED :: bool
  LSHIFT_PRESSED :: bool

text \<open>The character of a pressed key under the modifiers, zero for a key without one.\<close>

definition key_char :: "Modifiers \<Rightarrow> u8 \<Rightarrow> u8" where
  "key_char m scancode =
     (let ascii = SCANCODE_MAP scancode
      in if ascii = 0 then 0
         else if LCTRL_PRESSED m
         then (if 0x61 \<le> ascii \<and> ascii \<le> 0x7A then ascii - 0x61 + 1
               else if 0x41 \<le> ascii \<and> ascii \<le> 0x5A then ascii - 0x41 + 1 else ascii)
         else if LSHIFT_PRESSED m
         then (if scancode = 0x48 then 0x84
               else if scancode = 0x50 then 0x85
               else if scancode = 0x4B then 0x86
               else if scancode = 0x4D then 0x87
               else if 0x61 \<le> ascii \<and> ascii \<le> 0x7A then ascii - 0x61 + 0x41 else ascii)
         else ascii)"

text \<open>\<open>handle_scancode\<close>: the modifiers, and the character that goes to the buffer.\<close>

definition scancode_effect :: "u8 \<Rightarrow> Modifiers \<Rightarrow> u8 option \<times> Modifiers" where
  "scancode_effect scancode m =
     (if scancode = 0x1D then (None, m\<lparr>LCTRL_PRESSED := True\<rparr>)
      else if scancode = 0x9D then (None, m\<lparr>LCTRL_PRESSED := False\<rparr>)
      else if scancode = 0x2A then (None, m\<lparr>LSHIFT_PRESSED := True\<rparr>)
      else if scancode = 0xAA then (None, m\<lparr>LSHIFT_PRESSED := False\<rparr>)
      else if scancode AND 0x80 \<noteq> 0 then (None, m)
      else (if key_char m scancode \<noteq> 0 then Some (key_char m scancode) else None, m))"

definition handle_scancode ::
  "u8 \<Rightarrow> Modifiers \<times> KeyboardBuffer \<times> TaskId \<times> 'f Scheduler \<Rightarrow> u8 option \<times> Modifiers \<times> KeyboardBuffer \<times> TaskId \<times> 'f Scheduler" where
  "handle_scancode scancode = (\<lambda>(m, st).
     let (ch, m) = scancode_effect scancode m
     in (ch, m, case ch of None \<Rightarrow> st | Some ascii \<Rightarrow> push_keyboard_char ascii st))"

section \<open>The queue contract\<close>

definition kb_contents :: "KeyboardBuffer \<Rightarrow> u8 list" where
  "kb_contents b = ring_slice (kb_data b) (kb_read_idx b) (kb_count b)"

definition kb_wf :: "KeyboardBuffer \<Rightarrow> bool" where
  "kb_wf b \<longleftrightarrow> length (kb_data b) = 256 \<and> kb_count b \<le> 256 \<and> kb_read_idx b < 256
     \<and> kb_write_idx b = (kb_read_idx b + kb_count b) mod 256"

lemma kb_new_wf [simp]: "kb_wf kb_new" "kb_contents kb_new = []"
  by (simp_all add: kb_wf_def kb_new_def kb_contents_def)

lemma kb_length [simp]: "length (kb_contents b) = kb_count b"
  by (simp add: kb_contents_def)

lemma kb_push_contents:
  assumes "kb_wf b"
  shows "kb_contents (kb_push b ch) = (if kb_count b < 256 then kb_contents b @ [ch] else kb_contents b)"
  using assms ring_slice_snoc [of "kb_count b" "kb_data b" "kb_read_idx b" ch]
  by (simp add: kb_contents_def kb_push_def kb_wf_def)

lemma kb_push_wf [simp]: "kb_wf b \<Longrightarrow> kb_wf (kb_push b ch)"
  by (auto simp: kb_wf_def kb_push_def mod_simps)

lemma kb_pop_cases:
  assumes "kb_wf b"
  shows "kb_wf (snd (kb_pop b))" "fst (kb_pop b) = (case kb_contents b of [] \<Rightarrow> None | ch # _ \<Rightarrow> Some ch)"
    "kb_contents (snd (kb_pop b)) = tl (kb_contents b)"
proof -
  consider "kb_count b = 0" | n where "kb_count b = Suc n"
    by (cases "kb_count b") auto
  note cases = this
  have len: "length (kb_data b) = 256" "kb_read_idx b < 256"
    using assms by (simp_all add: kb_wf_def)
  have step: "ring_slice (kb_data b) (Suc (kb_read_idx b) mod 256) n = ring_slice (kb_data b) (Suc (kb_read_idx b)) n"
    "(Suc (kb_read_idx b) mod 256 + n) mod 256 = (kb_read_idx b + Suc n) mod 256" for n
    using ring_slice_mod [of "kb_data b" "Suc (kb_read_idx b)" n] len by (simp_all add: mod_simps)
  show "kb_wf (snd (kb_pop b))"
    by (rule cases) (use assms step in \<open>auto simp: kb_pop_def kb_wf_def\<close>)
  show "fst (kb_pop b) = (case kb_contents b of [] \<Rightarrow> None | ch # _ \<Rightarrow> Some ch)"
    by (rule cases) (use len in \<open>auto simp: kb_pop_def kb_contents_def ring_slice_Suc\<close>)
  show "kb_contents (snd (kb_pop b)) = tl (kb_contents b)"
    by (rule cases) (use len step in \<open>auto simp: kb_pop_def kb_contents_def ring_slice_Suc\<close>)
qed

lemma kb_count_le: "kb_wf b \<Longrightarrow> kb_count b \<le> 256"
  by (simp add: kb_wf_def)

interpretation kbd: bounded_fifo kb_wf kb_contents "\<lambda>_. 256" "\<lambda>b _. kb_count b < 256" kb_push kb_pop
  by unfold_locales (simp_all add: kb_count_le kb_pop_cases kb_push_contents)


section \<open>Properties\<close>

fun type_keys :: "u8 list \<Rightarrow> Modifiers \<times> KeyboardBuffer \<times> TaskId \<times> 'f Scheduler \<Rightarrow> Modifiers \<times> KeyboardBuffer \<times> TaskId \<times> 'f Scheduler" where
  "type_keys [] st = st"
| "type_keys (scancode # codes) st = type_keys codes (snd (handle_scancode scancode st))"

text \<open>What was typed: the characters of the pressed keys, each under the modifiers held at that moment.\<close>

fun typed :: "Modifiers \<Rightarrow> u8 list \<Rightarrow> u8 list" where
  "typed m [] = []"
| "typed m (scancode # codes) =
     (case scancode_effect scancode m of
        (None, m') \<Rightarrow> typed m' codes
      | (Some ch, m') \<Rightarrow> ch # typed m' codes)"

text \<open>C31: The keyboard delivers what was typed, in order.  Whatever tasks wait, after any sequence of scancodes the
  buffer holds its old contents and then the typed characters, cut at 256; the newest are dropped.  No
  delivered character is zero.\<close>

theorem keyboard_delivers_in_order:
  assumes "kb_wf b" "type_keys codes (m, b, w, s) = (m', b', w', s')"
  shows "kb_wf b' \<and> kb_contents b' = take 256 (kb_contents b @ typed m codes) \<and> 0 \<notin> set (typed m codes)"
  using assms
proof (induction codes arbitrary: m b w s)
  case Nil
  then show ?case
    using kb_count_le [of b] by simp
next
  case (Cons code codes)
  obtain ch m1 where e: "scancode_effect code m = (ch, m1)"
    by force
  show ?case
  proof (cases ch)
    case None
    then show ?thesis
      using Cons e by (simp add: handle_scancode_def)
  next
    case (Some c)
    then have "c \<noteq> 0"
      using e by (auto simp: scancode_effect_def split: if_splits)
    moreover have "type_keys codes (m1, kb_push b c, NO_TASK, if w \<noteq> NO_TASK then wake_task w s else s) = (m', b', w', s')"
      using Cons.prems(2) e Some by (simp add: handle_scancode_def push_keyboard_char_def)
    from Cons.IH [OF kb_push_wf [OF Cons.prems(1)] this]
    have "kb_wf b'" "kb_contents b' = take 256 (kb_contents (kb_push b c) @ typed m1 codes)" "0 \<notin> set (typed m1 codes)"
      by blast+
    ultimately show ?thesis
      using e Some kb_count_le [OF Cons.prems(1)] by (simp add: kb_push_contents [OF Cons.prems(1)] take_Cons')
  qed
qed

theorem keyboard_delivers_in_order_witness:
  "kb_contents (fst (snd (type_keys [0x2A, 0x23, 0xA3, 0xAA, 0x17, 0x97] (\<lparr>LCTRL_PRESSED = False, LSHIFT_PRESSED = False\<rparr>, kb_new, NO_TASK, example_sched)))) =
     [0x48, 0x69]"
proof -
  let ?keys = "[0x2A, 0x23, 0xA3, 0xAA, 0x17, 0x97] :: u8 list" and ?m = "\<lparr>LCTRL_PRESSED = False, LSHIFT_PRESSED = False\<rparr>"
  have "typed ?m ?keys = [0x48, 0x69]"
    by (simp add: scancode_effect_def key_char_def SCANCODE_MAP_def Let_def)
  then show ?thesis
    using keyboard_delivers_in_order [OF kb_new_wf(1), of ?keys ?m NO_TASK example_sched]
    by (cases "type_keys ?keys (?m, kb_new, NO_TASK, example_sched)") (simp del: type_keys.simps)
qed

end
