(* ===== verification/Mouse.thy ===== *)
theory Mouse
  imports Prelude
begin

text \<open>
  \<open>kernel/src/drivers/mouse.rs\<close>: packets of three bytes from the mouse, and the pointer they move.  The status and the
  data byte read from the ports are arguments.  Coordinates are \<open>i32\<close>: integers with the wrap-around written out.
\<close>

section \<open>The driver\<close>

record MouseState =
  ms_x :: int
  ms_y :: int
  ms_left_button :: bool
  ms_right_button :: bool
  ms_middle_button :: bool
  ms_bounds_width :: int
  ms_bounds_height :: int

text \<open>The static variables of the module.\<close>

record Mouse =
  MOUSE_STATE :: MouseState
  MOUSE_CYCLE :: u8
  MOUSE_PACKET :: "u8 list"

definition mouse_boot :: Mouse where
  "mouse_boot =
     \<lparr>MOUSE_STATE = \<lparr>ms_x = 400, ms_y = 300, ms_left_button = False, ms_right_button = False, ms_middle_button = False,
        ms_bounds_width = 800, ms_bounds_height = 600\<rparr>, MOUSE_CYCLE = 0, MOUSE_PACKET = [0, 0, 0]\<rparr>"

definition i32_wrap :: "int \<Rightarrow> int" where
  "i32_wrap z = sint (word_of_int z :: u32)"

definition clamp :: "int \<Rightarrow> int \<Rightarrow> int \<Rightarrow> int" where
  "clamp lo hi z = (if z < lo then lo else if z > hi then hi else z)"

definition process_packet :: "Mouse \<Rightarrow> Mouse" where
  "process_packet d =
     (let packet = MOUSE_PACKET d;
          state = MOUSE_STATE d;
          x_sign = (packet ! 0 AND 0x10 \<noteq> 0);
          y_sign = (packet ! 0 AND 0x20 \<noteq> 0);
          dx = uint (packet ! 1);
          dx = (if x_sign then dx OR NOT 0xFF else dx);
          dy = uint (packet ! 2);
          dy = (if y_sign then dy OR NOT 0xFF else dy);
          bw = max (ms_bounds_width state) 1;
          bh = max (ms_bounds_height state) 1
      in d\<lparr>MOUSE_STATE := state\<lparr>ms_left_button := (packet ! 0 AND 0x01 \<noteq> 0), ms_right_button := (packet ! 0 AND 0x02 \<noteq> 0),
             ms_middle_button := (packet ! 0 AND 0x04 \<noteq> 0),
             ms_x := clamp 0 (bw - 1) (i32_wrap (ms_x state + dx)), ms_y := clamp 0 (bh - 1) (i32_wrap (ms_y state - dy))\<rparr>\<rparr>)"

definition handle_mouse_interrupt :: "u8 \<Rightarrow> u8 \<Rightarrow> Mouse \<Rightarrow> Mouse" where
  "handle_mouse_interrupt status data d =
     (if status AND 0x01 = 0 \<or> status AND 0x20 = 0 then d
      else if MOUSE_CYCLE d = 0
      then let d = d\<lparr>MOUSE_PACKET := (MOUSE_PACKET d)[0 := data]\<rparr>
           in if data AND 0x08 \<noteq> 0 then d\<lparr>MOUSE_CYCLE := 1\<rparr> else d
      else if MOUSE_CYCLE d = 1 then d\<lparr>MOUSE_PACKET := (MOUSE_PACKET d)[1 := data], MOUSE_CYCLE := 2\<rparr>
      else if MOUSE_CYCLE d = 2
      then process_packet (d\<lparr>MOUSE_PACKET := (MOUSE_PACKET d)[2 := data], MOUSE_CYCLE := 0\<rparr>)
      else d\<lparr>MOUSE_CYCLE := 0\<rparr>)"

section \<open>Properties\<close>

fun mouse_run :: "(u8 \<times> u8) list \<Rightarrow> Mouse \<Rightarrow> Mouse" where
  "mouse_run [] d = d"
| "mouse_run ((status, data) # bytes) d = mouse_run bytes (handle_mouse_interrupt status data d)"

text \<open>The pointer is on the screen and the packet buffer has its three bytes.\<close>

definition on_screen :: "MouseState \<Rightarrow> bool" where
  "on_screen st \<longleftrightarrow> 0 \<le> ms_x st \<and> ms_x st < max (ms_bounds_width st) 1 \<and> 0 \<le> ms_y st \<and> ms_y st < max (ms_bounds_height st) 1"

definition mouse_wf :: "Mouse \<Rightarrow> bool" where
  "mouse_wf d \<longleftrightarrow> on_screen (MOUSE_STATE d) \<and> length (MOUSE_PACKET d) = 3 \<and> MOUSE_CYCLE d \<le> 2"

lemma clamp_bounds: "0 \<le> clamp 0 (max b 1 - 1) z" "clamp 0 (max b 1 - 1) z < max b 1"
  by (auto simp: clamp_def)

lemma process_packet_wf: "mouse_wf d \<Longrightarrow> mouse_wf (process_packet d)"
  by (simp add: mouse_wf_def on_screen_def process_packet_def Let_def clamp_bounds del: if_split)

lemma handle_mouse_wf: "mouse_wf d \<Longrightarrow> mouse_wf (handle_mouse_interrupt status data d)"
proof -
  assume wf: "mouse_wf d"
  then have "mouse_wf (d\<lparr>MOUSE_PACKET := (MOUSE_PACKET d)[i := data], MOUSE_CYCLE := c\<rparr>)" if "c \<le> 2" for i c
    using that by (simp add: mouse_wf_def)
  from process_packet_wf [OF this] this wf show ?thesis
    by (simp add: handle_mouse_interrupt_def Let_def mouse_wf_def)
qed

text \<open>The deltas of a packet are nine-bit signed numbers.\<close>

lemma sign_extend: "uint (b :: u8) OR NOT 0xFF = uint b - 256"
proof -
  have "uint b + NOT (mask 8) = uint b OR NOT (mask 8)"
    by (intro disjunctive_add) (auto simp: bit_not_iff bit_uint_iff bit_mask_iff)
  then show ?thesis
    by (simp add: mask_eq_exp_minus_1)
qed

text \<open>The pointer never leaves the screen: after any sequence of interrupts, with any status and data bytes,
  \<open>0 <= x < width\<close> and \<open>0 <= y < height\<close>.\<close>

theorem mouse_stays_on_screen:
  assumes "mouse_wf d"
  shows "mouse_wf (mouse_run bytes d) \<and> on_screen (MOUSE_STATE (mouse_run bytes d))"
  using assms by (induction bytes d rule: mouse_run.induct) (simp_all add: handle_mouse_wf, simp add: mouse_wf_def)

theorem mouse_stays_on_screen_witness:
  "mouse_wf mouse_boot \<and> on_screen (MOUSE_STATE (mouse_run [(0x21, 0x08), (0x21, 0xFF), (0x21, 0), (0x21, 0x08), (0x21, 0xFF), (0x21, 0)] mouse_boot))"
proof -
  have "mouse_wf mouse_boot"
    by (simp add: mouse_wf_def on_screen_def mouse_boot_def)
  then show ?thesis
    using mouse_stays_on_screen by blast
qed

text \<open>One packet moves the pointer by its two nine-bit deltas, as far as the screen allows; upwards is positive in the
  packet and negative on the screen.  A first byte without its marker bit is skipped.\<close>

lemma i32_wrap_id: "- (2 ^ 31) \<le> z \<Longrightarrow> z < 2 ^ 31 \<Longrightarrow> i32_wrap z = z"
  using signed_take_bit_int_eq_self [of 31 z] by (simp add: i32_wrap_def signed_of_int)

lemma wrap_delta: "0 \<le> x \<Longrightarrow> x \<le> 2 ^ 30 \<Longrightarrow> - 256 \<le> e \<Longrightarrow> e \<le> 256 \<Longrightarrow> i32_wrap (x + e) = x + e"
  by (rule i32_wrap_id) simp_all

theorem mouse_packet_moves:
  assumes "mouse_wf d" "MOUSE_CYCLE d = 0" "status AND 0x01 \<noteq> 0" "status AND 0x20 \<noteq> 0" "b0 AND 0x08 \<noteq> 0"
    "ms_bounds_width (MOUSE_STATE d) \<le> 2 ^ 30" "ms_bounds_height (MOUSE_STATE d) \<le> 2 ^ 30"
  shows "let st = MOUSE_STATE d; d' = mouse_run [(status, b0), (status, b1), (status, b2)] d; st' = MOUSE_STATE d'
    in MOUSE_CYCLE d' = 0
     \<and> ms_x st' = clamp 0 (max (ms_bounds_width st) 1 - 1) (ms_x st + (uint b1 - (if b0 AND 0x10 \<noteq> 0 then 256 else 0)))
     \<and> ms_y st' = clamp 0 (max (ms_bounds_height st) 1 - 1) (ms_y st - (uint b2 - (if b0 AND 0x20 \<noteq> 0 then 256 else 0)))
     \<and> (ms_left_button st' \<longleftrightarrow> b0 AND 0x01 \<noteq> 0)"
proof -
  obtain p0 p1 p2 where p: "MOUSE_PACKET d = [p0, p1, p2]"
    using assms(1) by (auto simp: mouse_wf_def numeral_3_eq_3 length_Suc_conv)
  have run: "mouse_run [(status, b0), (status, b1), (status, b2)] d = process_packet (d\<lparr>MOUSE_PACKET := [b0, b1, b2], MOUSE_CYCLE := 0\<rparr>)"
    using assms(2-5) p by (simp add: handle_mouse_interrupt_def Let_def)
  have d: "- 256 \<le> uint b" "- uint b \<le> 256" "uint b < 256" for b :: u8
    using unsigned_less [of b, where 'a = int] order_trans [of "- 256 :: int" 0 "uint b"] order_trans [of "- uint b" 0 "256 :: int"] by simp_all
  have xy: "0 \<le> ms_x (MOUSE_STATE d)" "ms_x (MOUSE_STATE d) \<le> 2 ^ 30" "0 \<le> ms_y (MOUSE_STATE d)" "ms_y (MOUSE_STATE d) \<le> 2 ^ 30"
    using assms(1,6,7) by (auto simp: mouse_wf_def on_screen_def)
  have "i32_wrap (ms_x (MOUSE_STATE d) + (if c then uint b1 - 256 else uint b1)) = ms_x (MOUSE_STATE d) + (uint b1 - (if c then 256 else 0))"
    "i32_wrap (ms_y (MOUSE_STATE d) - (if c then uint b2 - 256 else uint b2)) = ms_y (MOUSE_STATE d) - (uint b2 - (if c then 256 else 0))" for c
    using wrap_delta [OF xy(1,2), of "if c then uint b1 - 256 else uint b1"]
      wrap_delta [OF xy(3,4), of "- (if c then uint b2 - 256 else uint b2)"] d [of b1] d [of b2] by (auto split: if_splits)
  from this [of True] this [of False] show ?thesis
    unfolding run process_packet_def Let_def sign_extend by simp
qed

theorem mouse_packet_moves_witness:
  "ms_x (MOUSE_STATE (mouse_run [(0x21, 0x19), (0x21, 0xFE), (0x21, 3)] mouse_boot)) = 398
   \<and> ms_y (MOUSE_STATE (mouse_run [(0x21, 0x19), (0x21, 0xFE), (0x21, 3)] mouse_boot)) = 297
   \<and> ms_left_button (MOUSE_STATE (mouse_run [(0x21, 0x19), (0x21, 0xFE), (0x21, 3)] mouse_boot))"
proof -
  have "mouse_wf mouse_boot" "MOUSE_CYCLE mouse_boot = 0" "ms_bounds_width (MOUSE_STATE mouse_boot) = 800"
    "ms_bounds_height (MOUSE_STATE mouse_boot) = 600" "ms_x (MOUSE_STATE mouse_boot) = 400" "ms_y (MOUSE_STATE mouse_boot) = 300"
    by (simp_all add: mouse_wf_def on_screen_def mouse_boot_def)
  then show ?thesis
    using mouse_packet_moves [of mouse_boot "0x21" "0x19" "0xFE" 3] by (simp add: clamp_def Let_def)
qed

end
