(* ===== verification/Syscalls.thy ===== *)
theory Syscalls
  imports UserMem Keyboard Mouse Mounts PathCache TaskIds UniversalExec "HOL-Library.Monad_Syntax"
begin

text \<open>
  The system calls of \<open>kernel/src/syscall/mod.rs\<close> over one record with the state of the whole kernel.  A call is a
  function from the kernel's state to an option: \<open>None\<close> means that the kernel stops, by a panic, an access to
  unmapped memory or a lock taken twice.  A call that returns gives its number and the next state; one that
  blocks, or starts another program, gives \<open>None\<close> instead of the number.  The trait objects of files and file systems
  come with the record of their methods.
\<close>

section \<open>The state\<close>

type_synonym i64 = "64 word"

record ('f, 'fs) Methods =
  m_open :: "string \<Rightarrow> 'fs \<Rightarrow> (FsError + 'f) \<times> 'fs"
  m_read_dir :: "string \<Rightarrow> 'fs \<Rightarrow> (FsError + string list) \<times> 'fs"
  m_mkdir :: "string \<Rightarrow> 'fs \<Rightarrow> (FsError + unit) \<times> 'fs"
  m_remove :: "string \<Rightarrow> 'fs \<Rightarrow> (FsError + unit) \<times> 'fs"
  m_read :: "nat \<Rightarrow> 'f \<Rightarrow> 'fs \<Rightarrow> (FsError + nat) \<times> u8 list \<times> 'f \<times> 'fs"
  m_write :: "u8 list \<Rightarrow> 'f \<Rightarrow> 'fs \<Rightarrow> (FsError + nat) \<times> 'f \<times> 'fs"
  m_seek :: "nat \<Rightarrow> 'f \<Rightarrow> 'fs \<Rightarrow> (FsError + nat) \<times> 'f \<times> 'fs"

text \<open>\<open>m_read n\<close> is called with a buffer of \<open>n\<close> bytes; its second result are the bytes it writes from the start of it.\<close>

record IpcRing =
  ir_phys :: u64
  ir_producer_task :: nat
  ir_consumer_task :: nat
  ir_producer_page_table :: u64
  ir_consumer_page_table :: u64

record ('f, 'fs) Kernel =
  k_sched :: "'f Scheduler"
  k_vm :: Vm
  k_vfs :: 'fs
  k_kernel_cr3 :: u64
  k_keyboard :: KeyboardBuffer
  k_keyboard_waiting :: TaskId
  k_mouse :: Mouse
  k_clipboard :: "u8 list"
  k_initrd :: TarArchive
  k_ipc_rings :: "IpcRing option list"

type_synonym ('f, 'fs) syscall = "('f, 'fs) Kernel \<Rightarrow> (i64 option \<times> ('f, 'fs) Kernel) or_panic"

text \<open>\<open>sched.tasks[sched.current]\<close>, and the page table of that task or zero.\<close>

definition cur_task :: "('f, 'fs) Kernel \<Rightarrow> 'f Task option or_panic" where
  "cur_task k = (if MAX_TASKS \<le> sc_current (k_sched k) then None else Some (task_at (k_sched k) (sc_current (k_sched k))))"

definition user_cr3 :: "('f, 'fs) Kernel \<Rightarrow> u64 or_panic" where
  "user_cr3 k = map_option (\<lambda>t. case t of None \<Rightarrow> 0 | Some task \<Rightarrow> t_page_table task) (cur_task k)"

definition set_cur :: "'f Task \<Rightarrow> ('f, 'fs) Kernel \<Rightarrow> ('f, 'fs) Kernel" where
  "set_cur task k = k\<lparr>k_sched := set_task (sc_current (k_sched k)) task (k_sched k)\<rparr>"

definition returns :: "i64 \<Rightarrow> ('f, 'fs) syscall" where
  "returns n k = Some (Some n, k)"

section \<open>Paths and strings from user space\<close>

text \<open>The loop of \<open>read_user_string\<close>: \<open>n\<close> more bytes are allowed; a byte is pushed as the character of its value.\<close>

fun read_user_string_loop :: "u64 \<Rightarrow> u64 \<Rightarrow> nat \<Rightarrow> Vm \<Rightarrow> (i64 + string) option" where
  "read_user_string_loop pt v 0 s = Some (Inl (- 36))"
| "read_user_string_loop pt v (Suc n) s =
     (case user_byte pt v s of
        None \<Rightarrow> None
      | Some c \<Rightarrow> if c = 0 then Some (Inr '''') else map_option (map_sum id ((@) (utf8_encode (unat c)))) (read_user_string_loop pt (v + 1) n s))"

definition read_user_string :: "u64 \<Rightarrow> u64 \<Rightarrow> Vm \<Rightarrow> (i64 + string) option" where
  "read_user_string pt ptr s = (if ptr = 0 then Some (Inl (- 22)) else read_user_string_loop pt ptr 4097 s)"

definition read_user_string_with_len :: "u64 \<Rightarrow> u64 \<Rightarrow> u64 \<Rightarrow> Vm \<Rightarrow> (i64 + string) option" where
  "read_user_string_with_len pt ptr len s =
     (if ptr = 0 then Some (Inl (- 22))
      else do { slice \<leftarrow> user_read pt ptr (unat len) s;
                Some (case from_utf8 slice of Some str \<Rightarrow> Inr str | None \<Rightarrow> Inl (- 22)) })"

definition resolve_user_path :: "u64 \<Rightarrow> u64 \<Rightarrow> ('f, 'fs) Kernel \<Rightarrow> (i64 + string) option" where
  "resolve_user_path path_ptr path_len k =
     do { pt \<leftarrow> user_cr3 k;
          r \<leftarrow> (if path_len = 0 then read_user_string pt path_ptr (k_vm k)
               else read_user_string_with_len pt path_ptr path_len (k_vm k));
          t \<leftarrow> cur_task k;
          Some (case r of
                  Inl e \<Rightarrow> Inl e
                | Inr path \<Rightarrow>
                    (case t of
                       None \<Rightarrow> Inl (- 1)
                     | Some task \<Rightarrow>
                         if starts_with path ''/'' then Inr (normalize path)
                         else if path = ''.'' then Inr (t_cwd task)
                         else Inr (path_join (t_cwd task) path))) }"

section \<open>File descriptors\<close>

text \<open>The place of a new file in the table: the first free number from three on, or a new one at the end.\<close>

definition fd_insert :: "'f \<Rightarrow> 'f option list \<Rightarrow> nat \<times> 'f option list" where
  "fd_insert file fds =
     (case position (\<lambda>e. e = None) (drop 3 fds) of
        Some i \<Rightarrow> (3 + i, fds[3 + i := Some file])
      | None \<Rightarrow>
          let fds = fds @ replicate (3 - length fds) None
          in (length fds, fds @ [Some file]))"

definition sys_open :: "('f, 'fs) Methods \<Rightarrow> u64 \<Rightarrow> u64 \<Rightarrow> ('f, 'fs) syscall" where
  "sys_open m path_ptr path_len k =
     do { r \<leftarrow> resolve_user_path path_ptr path_len k;
          case r of
            Inl e \<Rightarrow> returns e k
          | Inr path \<Rightarrow>
              (case m_open m path (k_vfs k) of
                 (Inl _, fs) \<Rightarrow> returns (- 2) (k\<lparr>k_vfs := fs\<rparr>)
               | (Inr file, fs) \<Rightarrow>
                   do { t \<leftarrow> cur_task k;
                        case t of
                          None \<Rightarrow> returns (- 1) (k\<lparr>k_vfs := fs\<rparr>)
                        | Some task \<Rightarrow>
                            (let (fd, fds) = fd_insert file (t_fds task)
                             in returns (of_nat fd) (set_cur (task\<lparr>t_fds := fds\<rparr>) (k\<lparr>k_vfs := fs\<rparr>))) }) }"

definition sys_close :: "u64 \<Rightarrow> ('f, 'fs) syscall" where
  "sys_close fd k =
     do { t \<leftarrow> cur_task k;
          case t of
            None \<Rightarrow> returns (- 9) k
          | Some task \<Rightarrow>
              if unat fd < length (t_fds task)
              then returns 0 (set_cur (task\<lparr>t_fds := (t_fds task)[unat fd := None]\<rparr>) k)
              else returns (- 9) k }"

text \<open>What \<open>read\<close>, \<open>write\<close> and \<open>lseek\<close> share: the open file behind a number, a call on it, and the file put back.\<close>

definition with_file :: "u64 \<Rightarrow> ('f \<Rightarrow> 'fs \<Rightarrow> (i64 \<times> 'f \<times> 'fs \<times> Vm) option) \<Rightarrow> ('f, 'fs) syscall" where
  "with_file fd call k =
     do { t \<leftarrow> cur_task k;
          case t of
            None \<Rightarrow> returns (- 9) k
          | Some task \<Rightarrow>
              if unat fd < length (t_fds task)
              then (case t_fds task ! unat fd of
                      None \<Rightarrow> returns (- 9) k
                    | Some file \<Rightarrow>
                        do { (n, file, fs, vm) \<leftarrow> call file (k_vfs k);
                             returns n (set_cur (task\<lparr>t_fds := (t_fds task)[unat fd := Some file]\<rparr>) (k\<lparr>k_vfs := fs, k_vm := vm\<rparr>)) })
              else returns (- 9) k }"

definition sys_lseek :: "('f, 'fs) Methods \<Rightarrow> u64 \<Rightarrow> u64 \<Rightarrow> ('f, 'fs) syscall" where
  "sys_lseek m fd offset k =
     with_file fd (\<lambda>file fs.
       let (r, file, fs) = m_seek m (unat offset) file fs
       in Some (case r of Inr new_off \<Rightarrow> of_nat new_off | Inl _ \<Rightarrow> - 1, file, fs, k_vm k)) k"

section \<open>Reading and writing\<close>

fun kb_pops :: "nat \<Rightarrow> KeyboardBuffer \<Rightarrow> u8 list \<times> KeyboardBuffer" where
  "kb_pops 0 b = ([], b)"
| "kb_pops (Suc n) b =
     (case kb_pop b of
        (None, b) \<Rightarrow> ([], b)
      | (Some ch, b) \<Rightarrow> let (chs, b) = kb_pops n b in (ch # chs, b))"

text \<open>One round of the loop that waits for the keyboard: it copies what there is, or blocks the task.\<close>

definition read_keyboard_round :: "AllRegisters \<Rightarrow> u64 \<Rightarrow> u64 \<Rightarrow> u64 \<Rightarrow> u64 \<Rightarrow> ('f, 'fs) syscall" where
  "read_keyboard_round regs fp pt buf_ptr count k =
     (if \<not> kb_is_empty (k_keyboard k)
      then let to_copy = min (unat count) (kb_count (k_keyboard k));
               (chs, kb) = kb_pops to_copy (k_keyboard k)
           in do { vm \<leftarrow> user_write pt buf_ptr chs (k_vm k);
                   returns (of_nat to_copy) (k\<lparr>k_keyboard := kb, k_vm := vm\<rparr>) }
      else do { s \<leftarrow> block_current Waiting regs fp (k_sched k);
                Some (None, k\<lparr>k_keyboard_waiting := current_slot (k_sched k), k_sched := s\<rparr>) })"

definition sys_read :: "('f, 'fs) Methods \<Rightarrow> AllRegisters \<Rightarrow> u64 \<Rightarrow> u64 \<Rightarrow> u64 \<Rightarrow> u64 \<Rightarrow> ('f, 'fs) syscall" where
  "sys_read m regs fp fd buf_ptr count k =
     (if buf_ptr = 0 \<or> count = 0 then returns (- 22) k
      else do { pt \<leftarrow> user_cr3 k;
                if pt = 0 then returns (- 1) k
                else if fd = 0 then read_keyboard_round regs fp pt buf_ptr count k
                else with_file fd (\<lambda>file fs.
                       let (r, out, file, fs) = m_read m (unat count) file fs
                       in do { vm \<leftarrow> user_write pt buf_ptr out (k_vm k);
                               Some (case r of Inr n \<Rightarrow> of_nat n | Inl _ \<Rightarrow> - 1, file, fs, vm) }) k })"

text \<open>\<open>sys_write\<close>: the bytes for the console are an output and leave the state as it is.\<close>

definition read_user_buf :: "u64 \<Rightarrow> u64 \<Rightarrow> u64 \<Rightarrow> Vm \<Rightarrow> u8 list option option" where
  "read_user_buf pt buf_ptr len s =
     (if buf_ptr + len > 0x0000800000000000 then Some None else map_option Some (user_read pt buf_ptr (unat len) s))"

definition sys_write :: "('f, 'fs) Methods \<Rightarrow> u64 \<Rightarrow> u64 \<Rightarrow> u64 \<Rightarrow> ('f, 'fs) syscall" where
  "sys_write m fd buf_ptr count k =
     (if buf_ptr = 0 \<or> count = 0 then returns (- 22) k
      else do { pt \<leftarrow> user_cr3 k;
                if pt = 0 then returns (- 1) k
                else do { d \<leftarrow> read_user_buf pt buf_ptr count (k_vm k);
                          case d of
                            None \<Rightarrow> returns (- 22) k
                          | Some data \<Rightarrow>
                              if fd = 1 \<or> fd = 2
                              then returns (if from_utf8 data \<noteq> None then count else - 22) k
                              else with_file fd (\<lambda>file fs.
                                     let (r, file, fs) = m_write m data file fs
                                     in Some (case r of Inr n \<Rightarrow> of_nat n | Inl _ \<Rightarrow> - 1, file, fs, k_vm k)) k } })"

definition read_file_into_phys :: "('f, 'fs) Methods \<Rightarrow> u64 \<Rightarrow> u64 \<Rightarrow> u64 \<Rightarrow> ('f, 'fs) syscall" where
  "read_file_into_phys m fd phys_addr count k =
     with_file fd (\<lambda>file fs.
       let (r, out, file, fs) = m_read m (unat (min count 4096)) file fs
       in Some (case r of Inr n \<Rightarrow> of_nat n | Inl _ \<Rightarrow> - 1, file, fs,
                fold (\<lambda>(i, b) vm. phys_write vm (phys_addr + of_nat i) b) (enumerate 0 out) (k_vm k))) k"


section \<open>The break\<close>

definition MAX_HEAP :: u64 where
  "MAX_HEAP = 32 * 1024 * 1024"

text \<open>The loop of \<open>sys_brk\<close>: one fresh zeroed page after the other; \<open>False\<close> is the early return with an error.\<close>

fun brk_pages :: "u64 \<Rightarrow> u64 \<Rightarrow> nat \<Rightarrow> Vm \<Rightarrow> bool \<times> Vm" where
  "brk_pages pt page 0 s = (True, s)"
| "brk_pages pt page (Suc n) s =
     (case vm_alloc_page '''' s of
        (Inl _, s) \<Rightarrow> (False, s)
      | (Inr phys, s) \<Rightarrow>
          (case map_page_with_flags pt page phys (PRESENT OR WRITABLE OR USER) (vm_zero_page phys s) of
             (Inl _, s) \<Rightarrow> (False, s)
           | (Inr _, s) \<Rightarrow> brk_pages pt (page + 4096) n s))"

text \<open>The lock of the scheduler, held or free.  \<open>lock\<close> turns the interrupts off and spins until the lock is free, so that
  on the processor that holds it nothing can release it any more: the call does not return.\<close>

datatype Spinlock = Free | Held

fun spin_lock :: "Spinlock \<Rightarrow> Spinlock or_panic" where
  "spin_lock Free = Some Held"
| "spin_lock Held = None"

definition spin_unlock :: "Spinlock \<Rightarrow> Spinlock" where
  "spin_unlock guard = Free"

text \<open>\<open>sys_brk\<close>, with the places where it takes the lock of the scheduler and drops the guard.  A call starts with the lock free,
  and a guard that was not dropped is dropped on return.\<close>

definition sys_brk :: "u64 \<Rightarrow> ('f, 'fs) syscall" where
  "sys_brk addr k =
     do { sched \<leftarrow> spin_lock Free;
          t \<leftarrow> cur_task k;
          case t of
            None \<Rightarrow> returns (- 1) k
          | Some task \<Rightarrow>
              if addr = 0 then returns (t_brk task) k
              else if addr < t_brk task then returns addr (set_cur (task\<lparr>t_brk := addr\<rparr>) k)
              else let initial_brk = t_brk task
                   in if addr > initial_brk + MAX_HEAP then returns (- 1) k
                      else let start_page = (initial_brk + 4095) AND NOT 0xFFF;
                               end_page = addr AND NOT 0xFFF
                           in if end_page > start_page
                              then let sched = spin_unlock sched
                                   in (case brk_pages (t_page_table task) start_page (unat (end_page - start_page) div 4096) (vmm_new (t_page_table task) (k_vm k)) of
                                         (False, vm) \<Rightarrow> returns (- 1) (k\<lparr>k_vm := vm\<rparr>)
                                       | (True, vm) \<Rightarrow>
                                           do { sched \<leftarrow> spin_lock sched;
                                                returns addr (set_cur (task\<lparr>t_brk := addr\<rparr>) (k\<lparr>k_vm := vm\<rparr>)) })
                              else do { sched \<leftarrow> spin_lock sched;
                                        returns addr (set_cur (task\<lparr>t_brk := addr\<rparr>) k) } }"

section \<open>Directories\<close>

definition sys_chdir :: "u64 \<Rightarrow> u64 \<Rightarrow> ('f, 'fs) syscall" where
  "sys_chdir path_ptr path_len k =
     do { pt \<leftarrow> user_cr3 k;
          r \<leftarrow> read_user_string_with_len pt path_ptr path_len (k_vm k);
          case r of
            Inl e \<Rightarrow> returns e k
          | Inr path \<Rightarrow>
              do { t \<leftarrow> cur_task k;
                   case t of
                     None \<Rightarrow> returns (- 1) k
                   | Some task \<Rightarrow>
                       (let new_cwd = (if starts_with path ''/'' then normalize path else path_join (t_cwd task) path)
                        in returns 0 (set_cur (task\<lparr>t_cwd := new_cwd\<rparr>) k)) } }"

definition sys_getcwd :: "u64 \<Rightarrow> u64 \<Rightarrow> ('f, 'fs) syscall" where
  "sys_getcwd buf_ptr buf_len k =
     do { pt \<leftarrow> user_cr3 k;
          t \<leftarrow> cur_task k;
          case t of
            None \<Rightarrow> returns (- 1) k
          | Some task \<Rightarrow>
              (let cwd = str_bytes (t_cwd task); to_copy = min (length cwd) (unat buf_len)
               in do { vm \<leftarrow> user_write pt buf_ptr (take to_copy cwd) (k_vm k);
                       returns (of_nat to_copy) (k\<lparr>k_vm := vm\<rparr>) }) }"

definition sys_ls :: "('f, 'fs) Methods \<Rightarrow> u64 \<Rightarrow> u64 \<Rightarrow> u64 \<Rightarrow> u64 \<Rightarrow> ('f, 'fs) syscall" where
  "sys_ls m path_ptr path_len buf_ptr buf_len k =
     do { pt \<leftarrow> user_cr3 k;
          r \<leftarrow> resolve_user_path path_ptr path_len k;
          case r of
            Inl e \<Rightarrow> returns e k
          | Inr path \<Rightarrow>
              (case m_read_dir m path (k_vfs k) of
                 (Inl _, fs) \<Rightarrow> returns (- 1) (k\<lparr>k_vfs := fs\<rparr>)
               | (Inr entries, fs) \<Rightarrow>
                   (let bytes = str_bytes (concat (map (\<lambda>e. ''  '' @ e) entries));
                        to_copy = min (length bytes) (unat buf_len)
                    in do { vm \<leftarrow> user_write pt buf_ptr (take to_copy bytes) (k_vm k);
                            returns (of_nat to_copy) (k\<lparr>k_vfs := fs, k_vm := vm\<rparr>) })) }"

text \<open>\<open>sys_create\<close>, \<open>sys_mkdir\<close> and \<open>sys_delete\<close> differ in the call on the mount table only.\<close>

definition path_call :: "(string \<Rightarrow> 'fs \<Rightarrow> (FsError + 'a) \<times> 'fs) \<Rightarrow> u64 \<Rightarrow> u64 \<Rightarrow> ('f, 'fs) syscall" where
  "path_call call path_ptr path_len k =
     do { r \<leftarrow> resolve_user_path path_ptr path_len k;
          case r of
            Inl e \<Rightarrow> returns e k
          | Inr path \<Rightarrow>
              (case call path (k_vfs k) of
                 (Inr _, fs) \<Rightarrow> returns 0 (k\<lparr>k_vfs := fs\<rparr>)
               | (Inl _, fs) \<Rightarrow> returns (- 1) (k\<lparr>k_vfs := fs\<rparr>)) }"

definition sys_create :: "('f, 'fs) Methods \<Rightarrow> u64 \<Rightarrow> u64 \<Rightarrow> ('f, 'fs) syscall" where
  "sys_create m = path_call (m_open m)"

definition sys_mkdir :: "('f, 'fs) Methods \<Rightarrow> u64 \<Rightarrow> u64 \<Rightarrow> ('f, 'fs) syscall" where
  "sys_mkdir m = path_call (m_mkdir m)"

definition sys_delete :: "('f, 'fs) Methods \<Rightarrow> u64 \<Rightarrow> u64 \<Rightarrow> ('f, 'fs) syscall" where
  "sys_delete m = path_call (m_remove m)"

section \<open>Clipboard, mouse and task attributes\<close>

definition sys_clipboard_copy :: "u64 \<Rightarrow> u64 \<Rightarrow> ('f, 'fs) syscall" where
  "sys_clipboard_copy data_ptr data_size k =
     (if data_ptr = 0 \<or> data_size = 0 then returns (- 22) k
      else do { pt \<leftarrow> user_cr3 k;
                src \<leftarrow> user_read pt data_ptr (unat data_size) (k_vm k);
                returns data_size (k\<lparr>k_clipboard := src\<rparr>) })"

definition sys_clipboard_paste :: "u64 \<Rightarrow> u64 \<Rightarrow> ('f, 'fs) syscall" where
  "sys_clipboard_paste buf_ptr buf_len k =
     do { pt \<leftarrow> user_cr3 k;
          if k_clipboard k = [] then returns 0 k
          else do { vm \<leftarrow> user_write pt buf_ptr (take (min (unat buf_len) (length (k_clipboard k))) (k_clipboard k)) (k_vm k);
                    returns (of_nat (length (k_clipboard k))) (k\<lparr>k_vm := vm\<rparr>) } }"

text \<open>The bytes of an \<open>i32\<close> in memory.\<close>

definition i32_bytes :: "int \<Rightarrow> u8 list" where
  "i32_bytes z = map (\<lambda>i. ucast (drop_bit (8 * i) (word_of_int z :: u32))) [0..<4]"

definition sys_get_mouse :: "u64 \<Rightarrow> ('f, 'fs) syscall" where
  "sys_get_mouse buf_ptr k =
     (if buf_ptr = 0 then returns (- 22) k
      else do { pt \<leftarrow> user_cr3 k;
                let state = MOUSE_STATE (k_mouse k);
                    fields = [ms_x state, ms_y state, of_bool (ms_left_button state), of_bool (ms_right_button state), of_bool (ms_middle_button state)]
                in do { vm \<leftarrow> user_write pt buf_ptr (concat (map i32_bytes fields)) (k_vm k);
                        returns 0 (k\<lparr>k_vm := vm\<rparr>) } })"

definition sys_getpid :: "('f, 'fs) syscall" where
  "sys_getpid k = do { pid \<leftarrow> current_pid (k_sched k); returns (of_nat pid) k }"

definition sys_set_latency_class :: "u64 \<Rightarrow> ('f, 'fs) syscall" where
  "sys_set_latency_class class k =
     (if class \<ge> 5 then returns (- 1) k
      else let lc = [Realtime, Interactive, NormalLatency, Batch, PowerSave] ! unat class
           in do { t \<leftarrow> cur_task k;
                   case t of
                     None \<Rightarrow> returns (- 1) k
                   | Some task \<Rightarrow> returns 0 (set_cur (task\<lparr>t_latency_class := lc\<rparr>) k) })"

fun map_phys_loop :: "u64 \<Rightarrow> u64 \<Rightarrow> u64 \<Rightarrow> nat \<Rightarrow> Vm \<Rightarrow> bool \<times> Vm" where
  "map_phys_loop pt dest phys 0 s = (True, s)"
| "map_phys_loop pt dest phys (Suc n) s =
     (case map_page_with_flags pt dest phys (PRESENT OR USER OR WRITABLE) s of
        (Inl _, s) \<Rightarrow> (False, s)
      | (Inr _, s) \<Rightarrow> map_phys_loop pt (dest + 4096) (phys + 4096) n s)"

text \<open>\<open>sys_map_phys\<close> maps into the page table that is loaded, \<open>cr3\<close>; there is one page for every started 4096 bytes.\<close>

definition sys_map_phys :: "u64 \<Rightarrow> u64 \<Rightarrow> u64 \<Rightarrow> u64 \<Rightarrow> ('f, 'fs) syscall" where
  "sys_map_phys cr3 phys_addr sz dest_addr k =
     (if sz = 0 then returns (- 22) k
      else case map_phys_loop (cr3 AND NOT 0xFFF) dest_addr phys_addr ((unat sz + 4095) div 4096) (vmm_new (cr3 AND NOT 0xFFF) (k_vm k)) of
             (True, vm) \<Rightarrow> returns 0 (k\<lparr>k_vm := vm\<rparr>)
           | (False, vm) \<Rightarrow> returns (- 12) (k\<lparr>k_vm := vm\<rparr>))"


section \<open>Starting a program\<close>

text \<open>The 16 pages of the stack, from the top down; running out of memory panics.\<close>

fun exec_stack :: "u64 \<Rightarrow> u64 \<Rightarrow> nat \<Rightarrow> nat \<Rightarrow> Vm \<Rightarrow> Vm option" where
  "exec_stack pt stack_top i 0 s = Some s"
| "exec_stack pt stack_top i (Suc n) s =
     (case vm_alloc_page '''' s of
        (Inl _, _) \<Rightarrow> None
      | (Inr phys, s) \<Rightarrow>
          (case map_page_with_flags pt (stack_top - (of_nat i + 1) * 4096) phys (PRESENT OR WRITABLE OR USER) s of
             (Inl _, _) \<Rightarrow> None
           | (Inr _, s) \<Rightarrow> exec_stack pt stack_top (Suc i) n (vm_zero_page phys s)))"

definition STACK_TOP :: u64 where
  "STACK_TOP = 0x00007FFFFFFFF000"

text \<open>The page at address zero; its failure is only logged.\<close>

definition exec_guard :: "u64 \<Rightarrow> Vm \<Rightarrow> Vm" where
  "exec_guard pt s =
     (case vm_alloc_page '''' s of
        (Inl _, s) \<Rightarrow> s
      | (Inr phys, s) \<Rightarrow> snd (map_page_with_flags pt 0 phys (PRESENT OR USER) s))"

text \<open>The address space of a program: a new page table, the image, the page at zero and the stack.\<close>

definition exec_space :: "u64 \<Rightarrow> u8 list \<Rightarrow> Vm \<Rightarrow> ((i64 + u64 \<times> u64) \<times> Vm) option" where
  "exec_space kernel_cr3 data s =
     (case create_user_page_table kernel_cr3 s of
        (None, s) \<Rightarrow> Some (Inl (- 12), s)
      | (Some page_table, s) \<Rightarrow>
          do { (r, s) \<leftarrow> exec_load page_table data (vmm_new page_table s);
               case r of
                 Inl _ \<Rightarrow> Some (Inl (- 8), s)
               | Inr img \<Rightarrow>
                   do { s \<leftarrow> exec_stack page_table STACK_TOP 0 16 (exec_guard page_table s);
                        Some (Inr (page_table, li_entry img), s) } })"

definition sys_exec :: "u64 \<Rightarrow> u64 \<Rightarrow> u64 \<Rightarrow> u64 \<Rightarrow> ('f, 'fs) syscall" where
  "sys_exec hhdm trampoline path_ptr path_len k =
     do { pt \<leftarrow> user_cr3 k;
          if pt = 0 then returns (- 1) k
          else if path_len = 0 then returns (- 22) k
          else do { slice \<leftarrow> user_read pt path_ptr (unat path_len) (k_vm k);
                    case from_utf8 slice of
                      None \<Rightarrow> returns (- 22) k
                    | Some path \<Rightarrow>
                        let tar_path = (if starts_with path ''/'' then drop 1 path else path)
                        in (case get_file (k_initrd k) tar_path of
                              None \<Rightarrow> returns (- 2) k
                            | Some file \<Rightarrow>
                                do { (r, vm) \<leftarrow> exec_space (k_kernel_cr3 k) (tf_data file) (k_vm k);
                                     case r of
                                       Inl e \<Rightarrow> returns e (k\<lparr>k_vm := vm\<rparr>)
                                     | Inr (page_table, user_entry) \<Rightarrow>
                                         do { (s, p) \<leftarrow> replace_current_task hhdm trampoline user_entry STACK_TOP (str_bytes ''shell'') page_table 0
                                                         (STACK_TOP - 8) (k_sched k, vm_pmm vm);
                                              Some (None, k\<lparr>k_sched := s, k_vm := vm\<lparr>vm_pmm := p\<rparr>\<rparr>) } }) } }"

section \<open>Shared rings\<close>

definition IPC_RING_ADDR :: u64 where
  "IPC_RING_ADDR = 0x700000000000"

text \<open>The result of the mapping is ignored by both calls.\<close>

definition sys_ipc_create_ring :: "u64 \<Rightarrow> u64 \<Rightarrow> ('f, 'fs) syscall" where
  "sys_ipc_create_ring capacity partner_pid k =
     (case vm_alloc_page '''' (k_vm k) of
        (Inl _, vm) \<Rightarrow> returns (- 1) (k\<lparr>k_vm := vm\<rparr>)
      | (Inr phys, vm) \<Rightarrow>
          do { producer_pt \<leftarrow> user_cr3 k;
               let vm = snd (map_page_with_flags producer_pt IPC_RING_ADDR phys (PRESENT OR USER OR WRITABLE)
                          (vmm_new producer_pt (vm_zero_page phys vm)));
                   ring = \<lparr>ir_phys = phys, ir_producer_task = sc_current (k_sched k), ir_consumer_task = unat partner_pid,
                      ir_producer_page_table = producer_pt, ir_consumer_page_table = 0\<rparr>
               in returns (of_nat (length (k_ipc_rings k))) (k\<lparr>k_vm := vm, k_ipc_rings := k_ipc_rings k @ [Some ring]\<rparr>) })"

definition sys_ipc_connect :: "u64 \<Rightarrow> ('f, 'fs) syscall" where
  "sys_ipc_connect ring_id k =
     (if unat ring_id \<ge> length (k_ipc_rings k) then returns (- 1) k
      else case k_ipc_rings k ! unat ring_id of
             None \<Rightarrow> returns (- 1) k
           | Some ring \<Rightarrow>
               if ir_consumer_task ring \<noteq> sc_current (k_sched k) then returns (- 1) k
               else do { consumer_pt \<leftarrow> user_cr3 k;
                         let vm = snd (map_page_with_flags consumer_pt IPC_RING_ADDR (ir_phys ring) (PRESENT OR USER OR WRITABLE)
                                    (vmm_new consumer_pt (k_vm k)))
                         in returns (ir_phys ring) (k\<lparr>k_vm := vm,
                              k_ipc_rings := (k_ipc_rings k)[unat ring_id := Some (ring\<lparr>ir_consumer_page_table := consumer_pt\<rparr>)]\<rparr>) })"


section \<open>An example\<close>

text \<open>A kernel with one user task in the address space of \<open>user_vm\<close> and an archive with one program.\<close>

definition user_task :: "'f Task" where
  "user_task = \<lparr>t_id = 1, t_state = Running, t_priority = 1, t_base_priority = 1, t_ticks = 0, t_ticks_used = 0, t_context = context_empty,
     t_page_table = 0x1000, t_kernel_stack_top = 0, t_stack_phys = 0, t_stack_virt = 0, t_user_entry = 0x400000, t_user_stack_top = 0,
     t_name = [], t_name_len = 0, t_awake_pending = False, t_waiting_on = None, t_cwd = ''/'', t_fds = [None, None, None],
     t_brk = USER_HEAP_START, t_latency_class = NormalLatency\<rparr>"

definition user_archive :: TarArchive where
  "user_archive = write_archive [\<lparr>te_name = ''sh'', te_mode = replicate 24 0, te_rest = replicate 376 0, te_data = elf_example\<rparr>]"

definition user_kernel :: "(unit, unit) Kernel" where
  "user_kernel = \<lparr>k_sched = set_task 0 user_task (sched_new\<lparr>sc_current := 0\<rparr>), k_vm = user_vm, k_vfs = (), k_kernel_cr3 = 0x1000,
     k_keyboard = kb_new, k_keyboard_waiting = NO_TASK, k_mouse = mouse_boot, k_clipboard = [], k_initrd = user_archive, k_ipc_rings = []\<rparr>"

lemma user_kernel_task: "cur_task user_kernel = Some (Some user_task)"
  by (simp add: cur_task_def user_kernel_def task_at_set_task sched_new_def set_task_def task_at_def MAX_TASKS_def)

end
