(* ===== verification/SyscallSpaces.thy ===== *)
theory SyscallSpaces
  imports Syscalls
begin

text \<open>
  What the system calls of \<open>Syscalls\<close> do to address spaces: growing the heap of a program, starting a program, and
  sharing a ring page between two programs.
\<close>

section \<open>Runs of pages\<close>

lemma zero_flags: "(PRESENT OR WRITABLE OR USER) AND PRESENT \<noteq> 0" "(PRESENT OR USER OR WRITABLE) AND PRESENT \<noteq> 0"
    "(PRESENT OR USER) AND PRESENT \<noteq> 0"
  by (simp_all add: PRESENT_def WRITABLE_def USER_def)

lemma brk_pages_ok:
  assumes "vm_wf role roots s" "r \<in> roots" "plain role r s" "q + n \<le> 2 ^ 35" "4 * n \<le> card (pmm_free_pages (vm_pmm s))"
  shows "\<exists>s' role'. brk_pages r (of_nat (q * 4096)) n s = (True, s') \<and> grows roots r {q..<q + n} (\<lambda>_. 0) (role, s) (role', s')
    \<and> card (pmm_free_pages (vm_pmm s)) \<le> card (pmm_free_pages (vm_pmm s')) + 4 * n"
  using assms
proof (induction n arbitrary: q s role)
  case 0
  then show ?case
    using grows_empty by fastforce
next
  case (Suc n)
  have "q < 2 ^ 35" "4 \<le> card (pmm_free_pages (vm_pmm s))"
    using Suc.prems(4,5) by simp_all
  then obtain a s1 s2 role2 where s2: "vm_alloc_page '''' s = (Inr a, s1)"
    "map_page_with_flags r (of_nat (q * 4096)) a (PRESENT OR WRITABLE OR USER) (vm_zero_page a s1) = (Inr (), s2)"
    "grows roots r {q} (\<lambda>_. 0) (role, s) (role2, s2)" "card (pmm_free_pages (vm_pmm s)) \<le> card (pmm_free_pages (vm_pmm s2)) + 4"
    by (rule grow_zero_map [OF Suc.prems(1-3) _ zero_flags(1)])
  obtain s' role' where s': "brk_pages r (of_nat (Suc q * 4096)) n s2 = (True, s')"
    "grows roots r {Suc q..<Suc q + n} (\<lambda>_. 0) (role2, s2) (role', s')"
    "card (pmm_free_pages (vm_pmm s2)) \<le> card (pmm_free_pages (vm_pmm s')) + 4 * n"
    using Suc.IH [OF growsD(1) [OF s2(3)] Suc.prems(2) growsD(2) [OF s2(3)], of "Suc q"] Suc.prems(4,5) s2(4) by auto
  have "grows roots r ({q} \<union> {Suc q..<Suc q + n}) (\<lambda>_. 0) (role, s) (role', s')"
    by (rule grows_trans [OF s2(3) s'(2) Suc.prems(2)]) (use Suc.prems(4) in auto)
  moreover have "{q} \<union> {Suc q..<Suc q + n} = {q..<q + Suc n}"
    by auto
  moreover have "brk_pages r (of_nat (q * 4096)) (Suc n) s = (True, s')"
    using s2(1,2) s'(1) by (simp add: add.commute)
  ultimately show ?case
    using s2(4) s'(3) by auto
qed


section \<open>The break\<close>

lemma align_nat: "unat (v AND NOT 0xFFF :: u64) = unat v div 4096 * 4096"
  using page_align_nat [of v] by simp

lemma page_shows_user_byte:
  assumes "page_shows role r s f (a div 4096)"
  shows "user_byte r (of_nat a) s = Some (f a)"
  using page_shows_byte [OF assms] by (auto simp: user_byte_def)

text \<open>The first and the last page number in the computation of \<open>sys_brk\<close>.\<close>

lemma brk_page_numbers:
  assumes "unat brk + 2 ^ 26 \<le> 2 ^ 47" "brk \<le> addr" "addr \<le> brk + MAX_HEAP"
  shows "(brk + 4095) AND NOT 0xFFF = of_nat ((unat brk + 4095) div 4096 * 4096)" "addr AND NOT 0xFFF = of_nat (unat addr div 4096 * 4096)"
    "unat (addr AND NOT 0xFFF) = unat addr div 4096 * 4096" "unat ((brk + 4095) AND NOT 0xFFF) = (unat brk + 4095) div 4096 * 4096"
    "unat addr + 4096 \<le> 2 ^ 47"
proof -
  have b: "unat (brk + 4095) = unat brk + 4095"
    using assms(1) by (subst unat_word_ariths) simp
  have "unat (brk + MAX_HEAP) = unat brk + 2 ^ 25"
    using assms(1) by (subst unat_word_ariths) (simp add: MAX_HEAP_def)
  then show "unat addr + 4096 \<le> 2 ^ 47"
    using assms(1,3) by (simp add: word_le_nat_alt)
  show n: "unat (addr AND NOT 0xFFF) = unat addr div 4096 * 4096" "unat ((brk + 4095) AND NOT 0xFFF) = (unat brk + 4095) div 4096 * 4096"
    unfolding align_nat b by (rule refl)+
  show "(brk + 4095) AND NOT 0xFFF = of_nat ((unat brk + 4095) div 4096 * 4096)" "addr AND NOT 0xFFF = of_nat (unat addr div 4096 * 4096)"
    unfolding n [symmetric] by simp_all
qed

lemma sys_brk_growing:
  assumes task: "cur_task k = Some (Some task)"
    and brk: "unat (t_brk task) + 2 ^ 26 \<le> 2 ^ 47" "addr \<noteq> 0" "t_brk task \<le> addr" "addr \<le> t_brk task + MAX_HEAP"
  shows "sys_brk addr k =
    (let q0 = (unat (t_brk task) + 4095) div 4096; q1 = unat addr div 4096
     in if q0 < q1
        then (case brk_pages (t_page_table task) (of_nat (q0 * 4096)) (q1 - q0) (vmm_new (t_page_table task) (k_vm k)) of
                (False, vm) \<Rightarrow> returns (- 1) (k\<lparr>k_vm := vm\<rparr>)
              | (True, vm) \<Rightarrow> returns addr (set_cur (task\<lparr>t_brk := addr\<rparr>) (k\<lparr>k_vm := vm\<rparr>)))
        else None)"
proof -
  note pn = brk_page_numbers [OF brk(1,3,4)]
  define S where "S = (t_brk task + 4095) AND NOT 0xFFF"
  define E where "E = addr AND NOT 0xFFF"
  define q0 where "q0 = (unat (t_brk task) + 4095) div 4096"
  define q1 where "q1 = unat addr div 4096"
  have nat: "unat S = q0 * 4096" "unat E = q1 * 4096" "S = of_nat (q0 * 4096)"
    using pn unfolding S_def E_def q0_def q1_def by blast+
  have ord: "\<not> addr < t_brk task" "\<not> t_brk task + MAX_HEAP < addr"
    using brk(3,4) by (simp_all add: not_less)
  have "sys_brk addr k =
      (if S < E
       then (case brk_pages (t_page_table task) S (unat (E - S) div 4096) (vmm_new (t_page_table task) (k_vm k)) of
               (False, vm) \<Rightarrow> returns (- 1) (k\<lparr>k_vm := vm\<rparr>)
             | (True, vm) \<Rightarrow> returns addr (set_cur (task\<lparr>t_brk := addr\<rparr>) (k\<lparr>k_vm := vm\<rparr>)))
       else None)"
    using brk(2) ord unfolding S_def E_def sys_brk_def Let_def task by (simp add: spin_unlock_def split: prod.split bool.split)
  moreover have "S < E \<longleftrightarrow> q0 < q1"
    by (simp add: word_less_nat_alt nat(1,2))
  moreover have "unat (E - S) div 4096 = q1 - q0" if "q0 < q1"
    using that by (simp add: unat_minus_nat nat(1,2) diff_mult_distrib [symmetric])
  ultimately show ?thesis
    unfolding Let_def q0_def [symmetric] q1_def [symmetric] nat(3) [symmetric] by simp
qed




text \<open>C34: When a task asks for its break to stay or to move up by at most \<open>MAX_HEAP\<close>, \<open>sys_brk\<close> returns exactly if a whole page
  lies between the old break and the new one.  Otherwise, for a break that stays within its page in
  particular, it takes the lock of the scheduler a second time while it still holds it, and the kernel stops.\<close>

theorem sys_brk_within_page:
  assumes "cur_task k = Some (Some task)" "unat (t_brk task) + 2 ^ 26 \<le> 2 ^ 47" "addr \<noteq> 0" "t_brk task \<le> addr" "addr \<le> t_brk task + MAX_HEAP"
  shows "sys_brk addr k = None \<longleftrightarrow> unat addr div 4096 \<le> (unat (t_brk task) + 4095) div 4096"
  by (simp add: sys_brk_growing [OF assms] Let_def returns_def split: prod.split bool.split)

theorem sys_brk_within_page_witness: "sys_brk (USER_HEAP_START + 1) user_kernel = None"
proof -
  have "sys_brk (USER_HEAP_START + 1) user_kernel = None
      \<longleftrightarrow> unat (USER_HEAP_START + 1) div 4096 \<le> (unat (t_brk (user_task :: unit Task)) + 4095) div 4096"
    by (rule sys_brk_within_page [OF user_kernel_task]) (simp_all add: user_task_def USER_HEAP_START_def MAX_HEAP_def)
  then show ?thesis
    by (simp add: user_task_def USER_HEAP_START_def)
qed


section \<open>Starting a program\<close>

abbreviation stack_page :: nat where
  "stack_page \<equiv> 0x7FFFFFFFF"

lemma stack_va:
  assumes "i < 16"
  shows "STACK_TOP - (of_nat i + 1) * 4096 = of_nat ((stack_page - Suc i) * 4096)"
proof -
  have "(of_nat ((stack_page - Suc i) * 4096) :: u64) = of_nat (stack_page * 4096) - of_nat (Suc i * 4096)"
    using assms by (subst of_nat_diff [symmetric]) (simp_all add: diff_mult_distrib)
  then show ?thesis
    by (simp add: STACK_TOP_def algebra_simps)
qed

lemma exec_stack_ok:
  assumes "vm_wf role roots s" "r \<in> roots" "plain role r s" "i + n \<le> 16" "4 * n \<le> card (pmm_free_pages (vm_pmm s))"
  shows "\<exists>s' role'. exec_stack r STACK_TOP i n s = Some s' \<and> grows roots r {stack_page - (i + n)..<stack_page - i} (\<lambda>_. 0) (role, s) (role', s')
    \<and> card (pmm_free_pages (vm_pmm s)) \<le> card (pmm_free_pages (vm_pmm s')) + 4 * n"
  using assms
proof (induction n arbitrary: i s role)
  case 0
  then show ?case
    using grows_empty by fastforce
next
  case (Suc n)
  let ?q = "stack_page - Suc i"
  have i: "i < 16" "?q < 2 ^ 35" "4 \<le> card (pmm_free_pages (vm_pmm s))"
    using Suc.prems(4,5) by simp_all
  obtain a s1 s2 role2 where s2: "vm_alloc_page '''' s = (Inr a, s1)"
    "map_page_with_flags r (of_nat (?q * 4096)) a (PRESENT OR WRITABLE OR USER) s1 = (Inr (), s2)"
    "grows roots r {?q} (\<lambda>_. 0) (role, s) (role2, vm_zero_page a s2)" "card (pmm_free_pages (vm_pmm s)) \<le> card (pmm_free_pages (vm_pmm s2)) + 4"
    by (rule grow_map_zero [OF Suc.prems(1-3) i(2) zero_flags(1) i(3)])
  obtain s' role' where s': "exec_stack r STACK_TOP (Suc i) n (vm_zero_page a s2) = Some s'"
    "grows roots r {stack_page - (Suc i + n)..<?q} (\<lambda>_. 0) (role2, vm_zero_page a s2) (role', s')"
    "card (pmm_free_pages (vm_pmm (vm_zero_page a s2))) \<le> card (pmm_free_pages (vm_pmm s')) + 4 * n"
    using Suc.IH [OF growsD(1) [OF s2(3)] Suc.prems(2) growsD(2) [OF s2(3)], of "Suc i"] Suc.prems(4,5) s2(4) by auto
  have "grows roots r ({?q} \<union> {stack_page - (Suc i + n)..<?q}) (\<lambda>_. 0) (role, s) (role', s')"
    by (rule grows_trans [OF s2(3) s'(2) Suc.prems(2)]) auto
  moreover have "{?q} \<union> {stack_page - (Suc i + n)..<?q} = {stack_page - (i + Suc n)..<stack_page - i}"
    using Suc.prems(4) by auto
  moreover have "exec_stack r STACK_TOP i (Suc n) s = Some s'"
    using s2(1,2) s'(1) unfolding exec_stack.simps stack_va [OF i(1)] by simp
  ultimately show ?case
    using s2(4) s'(3) by auto
qed

lemma exec_guard_ok:
  assumes "vm_wf role roots s" "r \<in> roots" "plain role r s" "4 \<le> card (pmm_free_pages (vm_pmm s))"
  obtains role' f where "grows roots r {0} f (role, s) (role', exec_guard r s)"
    "card (pmm_free_pages (vm_pmm s)) \<le> card (pmm_free_pages (vm_pmm (exec_guard r s))) + 4"
proof -
  obtain a s1 s2 where st: "vm_alloc_page '''' s = (Inr a, s1)" "map_page_with_flags r 0 a (PRESENT OR USER) s1 = (Inr (), s2)"
    by (rule fresh_available [OF assms(1-3), of 0]) (use assms(4) in auto)
  note t = take_frame [OF assms(1) st(1)]
  have pl: "plain role r s1"
    using assms(3) t(3) by (simp add: plain_def)
  have q0: "map_page_with_flags r (of_nat (0 * 4096)) a (PRESENT OR USER) s1 = (Inr (), s2)"
    using st(2) by simp
  obtain role' where m: "vm_wf role' roots s2" "plain role' r s2" "keeps_frames role s1 role' s2" "same_outside roots r {0} s1 s2"
    "page_shows role' r s2 (\<lambda>x. frame_byte s1 a (x mod 4096)) 0" "card (pmm_free_pages (vm_pmm s1)) \<le> card (pmm_free_pages (vm_pmm s2)) + 3"
    by (rule map_held [OF t(1) assms(2) pl t(4,6) _ zero_flags(3) q0]) auto
  have "same_translation roots s s1"
    using t(3) by (simp add: same_translation_def)
  from same_outside_trans [OF same_outside_of [OF this] m(4), of "{}"]
  have "grows roots r {0} (\<lambda>x. frame_byte s1 a (x mod 4096)) (role, s) (role', s2)"
    using m(1,2,5) keeps_frames_trans [OF t(2) m(3)] by (simp add: grows_def)
  moreover have "exec_guard r s = s2"
    using st by (simp add: exec_guard_def)
  ultimately show thesis
    using that m(6) t(7) by simp
qed


lemma elf_ok_format:
  assumes "elf_ok data"
  shows "detect_format data = Elf"
proof -
  have len: "64 \<le> length data" and magic: "(field (e_ident (read_ehdr data)) 0 4 :: u32) = ELF_MAGIC"
    using assms by (simp_all add: elf_ok_def Let_def)
  have "e_ident (read_ehdr data) = take 16 data"
    by (simp add: read_ehdr_def)
  then have "(of_nat (le_value (take 4 data)) :: u32) = of_nat (le_value [0x7F, 0x45, 0x4C, 0x46])"
    using magic by (simp add: field_def ELF_MAGIC_def)
  moreover have "le_value (take 4 data) < 2 ^ 32"
    using le_value_bound [of "take 4 data"] len by simp
  moreover have small: "unat (of_nat v :: u32) = v" if "v < 2 ^ 32" for v
    using that by (subst unat_of_nat) simp
  ultimately have "le_value (take 4 data) = le_value [0x7F, 0x45, 0x4C, 0x46]"
    using small [of "le_value (take 4 data)"] small [of "le_value [0x7F, 0x45, 0x4C, 0x46]"] by simp
  then have "take 4 data = [0x7F, 0x45, 0x4C, 0x46]"
    by (intro le_value_inj) (use len in simp_all)
  then show ?thesis
    using len by (simp add: detect_format_def)
qed


lemma create_space_available:
  assumes "vm_wf role roots s" "1 \<le> card (pmm_free_pages (vm_pmm s))"
  obtains new s' where "create_user_page_table k s = (Some new, s')"
proof -
  obtain a p where "alloc_page (vm_pmm s) = (Some a, p)"
  proof (cases rule: vm_alloc_page_cases [OF assms(1), of "''''", case_names oom ok])
    case oom
    then show thesis
      using assms(2) by simp
  next
    case (ok a p)
    then show thesis
      using that by (auto simp: vm_alloc_page_def split: prod.splits option.splits)
  qed
  then show thesis
    using that by (simp add: create_user_page_table_def Let_def del: upt_rec_numeral)
qed

abbreviation stack_pages :: "nat set" where
  "stack_pages \<equiv> {stack_page - 16..<stack_page}"

definition exec_frames :: "u8 list \<Rightarrow> nat" where
  "exec_frames data = frames_needed (elf_segments data) + 69"

text \<open>A program that the kernel can start: a well-formed ELF file whose segments avoid each other, the page at zero
  and the stack.\<close>

definition elf_program :: "u8 list \<Rightarrow> bool" where
  "elf_program data \<longleftrightarrow> elf_ok data \<and> (\<forall>seg \<in> set (elf_segments data). seg_ok seg data) \<and> disjoint_segs (elf_segments data)
     \<and> image_pages (elf_segments data) \<inter> insert 0 stack_pages = {}"

lemma image_page_bound:
  assumes "\<forall>seg \<in> set segs. seg_ok seg data" "seg \<in> set segs" "q \<in> seg_pages seg"
  shows "q < 2 ^ 35" "q \<in> image_pages segs"
  using page_count_nat(2) [of seg data] assms by (auto simp: seg_pages_def image_pages_def)

lemma page_shows_grows:
  assumes "page_shows role r s f q" "grows roots r qs g (role, s) (role', s')" "r \<in> roots" "q \<notin> qs" "q < 2 ^ 35"
  shows "page_shows role' r s' f q"
  using page_shows_keeps [OF assms(1) growsD(3,4) [OF assms(2)] assms(3-5)] .

lemma exec_load_elf:
  assumes wf: "vm_wf role roots s" and r: "r \<in> roots" and pl: "plain role r s" and prog: "elf_program data"
    and free: "frames_needed (elf_segments data) \<le> card (pmm_free_pages (vm_pmm s))"
  obtains s' role' where "exec_load r data s = Some (Inr \<lparr>li_entry = e_entry (read_ehdr data)\<rparr>, s')"
    "vm_wf role' roots s'" "plain role' r s'" "keeps_frames role s role' s'" "same_outside roots r (image_pages (elf_segments data)) s s'"
    "\<forall>seg \<in> set (elf_segments data). \<forall>q \<in> seg_pages seg. page_shows role' r s' (seg_byte seg data) q"
    "card (pmm_free_pages (vm_pmm s)) \<le> card (pmm_free_pages (vm_pmm s')) + frames_needed (elf_segments data)"
proof -
  have p: "elf_ok data" "\<forall>seg \<in> set (elf_segments data). seg_ok seg data" "disjoint_segs (elf_segments data)"
    using prog by (simp_all add: elf_program_def)
  show thesis
    by (rule elf_load_frames [OF wf r pl p free]) (rule that, simp add: exec_load_def elf_ok_format [OF p(1)])
qed

text \<open>The image, the page at zero and the stack of a new address space, after the page table is made.\<close>

lemma exec_fill:
  assumes wf: "vm_wf role roots s" and r: "r \<in> roots" and pl: "plain role r s" and prog: "elf_program data"
    and free: "exec_frames data \<le> Suc (card (pmm_free_pages (vm_pmm s)))"
  obtains s1 s' role' where "exec_load r data s = Some (Inr \<lparr>li_entry = e_entry (read_ehdr data)\<rparr>, s1)"
    "exec_stack r STACK_TOP 0 16 (exec_guard r s1) = Some s'" "vm_wf role' roots s'" "keeps_frames role s role' s'"
    "same_outside roots r (image_pages (elf_segments data) \<union> ({0} \<union> stack_pages)) s s'" "image_loaded r s' data (elf_segments data)"
    "\<forall>q \<in> stack_pages. page_shows role' r s' (\<lambda>_. 0) q" "\<exists>f. page_shows role' r s' f 0"
    "card (pmm_free_pages (vm_pmm s)) \<le> card (pmm_free_pages (vm_pmm s')) + (exec_frames data - 1)"
proof -
  let ?segs = "elf_segments data"
  have seg: "\<forall>seg \<in> set ?segs. seg_ok seg data" "image_pages ?segs \<inter> insert 0 stack_pages = {}"
    using prog by (simp_all add: elf_program_def)
  have "frames_needed ?segs \<le> card (pmm_free_pages (vm_pmm s))"
    using free by (simp add: exec_frames_def)
  then obtain s1 role1 where l: "exec_load r data s = Some (Inr \<lparr>li_entry = e_entry (read_ehdr data)\<rparr>, s1)"
    "vm_wf role1 roots s1" "plain role1 r s1" "keeps_frames role s role1 s1" "same_outside roots r (image_pages ?segs) s s1"
    "\<forall>seg \<in> set ?segs. \<forall>q \<in> seg_pages seg. page_shows role1 r s1 (seg_byte seg data) q"
    "card (pmm_free_pages (vm_pmm s)) \<le> card (pmm_free_pages (vm_pmm s1)) + frames_needed ?segs"
    by (rule exec_load_elf [OF wf r pl prog])
  have c1: "68 \<le> card (pmm_free_pages (vm_pmm s1))"
    using l(7) free by (simp add: exec_frames_def)
  obtain role2 f where g: "grows roots r {0} f (role1, s1) (role2, exec_guard r s1)"
    "card (pmm_free_pages (vm_pmm s1)) \<le> card (pmm_free_pages (vm_pmm (exec_guard r s1))) + 4"
    by (rule exec_guard_ok [OF l(2) r l(3)]) (use c1 in auto)
  obtain s' role' where st: "exec_stack r STACK_TOP 0 16 (exec_guard r s1) = Some s'"
    "grows roots r stack_pages (\<lambda>_. 0) (role2, exec_guard r s1) (role', s')"
    "card (pmm_free_pages (vm_pmm (exec_guard r s1))) \<le> card (pmm_free_pages (vm_pmm s')) + 64"
    using exec_stack_ok [OF growsD(1) [OF g(1)] r growsD(2) [OF g(1)], of 0 16] c1 g(2) by auto
  have img: "page_shows role' r s' (seg_byte seg data) q" if "seg \<in> set ?segs" "q \<in> seg_pages seg" for seg q
  proof -
    note q = image_page_bound [OF seg(1) that]
    have "page_shows role2 r (exec_guard r s1) (seg_byte seg data) q"
      by (rule page_shows_grows [OF _ g(1) r _ q(1)]) (use l(6) that seg(2) q(2) in auto)
    then show ?thesis
      by (rule page_shows_grows [OF _ st(2) r _ q(1)]) (use seg(2) q(2) in auto)
  qed
  have zero: "page_shows role' r s' f 0"
    by (rule page_shows_grows [OF growsD(5) [OF g(1)] st(2) r]) simp_all
  have out: "same_outside roots r (image_pages ?segs \<union> ({0} \<union> stack_pages)) s s'"
    using same_outside_trans [OF l(5) same_outside_trans [OF growsD(4) [OF g(1)] growsD(4) [OF st(2)]]] .
  have loaded: "image_loaded r s' data ?segs"
    using image_loadedI [OF seg(1)] img by blast
  have card: "card (pmm_free_pages (vm_pmm s)) \<le> card (pmm_free_pages (vm_pmm s')) + (exec_frames data - 1)"
    using l(7) g(2) st(3) by (simp add: exec_frames_def)
  note keeps = keeps_frames_trans [OF l(4) keeps_frames_trans [OF growsD(3) [OF g(1)] growsD(3) [OF st(2)]]]
  show thesis
    by (rule that [OF l(1) st(1) growsD(1) [OF st(2)] keeps out loaded _ _ card]) (use growsD(5) [OF st(2)] zero in blast)+
qed


text \<open>The whole address space: every other space keeps its translations, the upper half is that of the kernel, and the
  lower half holds the image, the page at zero and the stack, and nothing else.\<close>

lemma exec_space_ok:
  assumes wf: "vm_wf role roots s" and k: "kcr3 \<in> roots" and prog: "elf_program data"
    and free: "exec_frames data \<le> card (pmm_free_pages (vm_pmm s))"
  obtains new s' role' where "exec_space kcr3 data s = Some (Inr (new, e_entry (read_ehdr data)), s')" "new \<notin> roots"
    "vm_wf role' (insert new roots) s'" "keeps_frames role s role' s'" "image_loaded new s' data (elf_segments data)"
    "\<forall>q \<in> stack_pages. page_shows role' new s' (\<lambda>_. 0) q" "\<exists>f. page_shows role' new s' f 0"
    "\<forall>w. unat w < 2 ^ 47 \<longrightarrow> unat w div 4096 \<notin> image_pages (elf_segments data) \<union> ({0} \<union> stack_pages) \<longrightarrow> translate new s' w = None"
    "\<forall>w. 2 ^ 47 \<le> unat w \<longrightarrow> unat w < 2 ^ 48 \<longrightarrow> pml4_index w \<noteq> RECURSIVE_ENTRY \<longrightarrow> translate new s' w = translate kcr3 s w"
    "\<forall>r \<in> roots. \<forall>w. unat w < 2 ^ 48 \<longrightarrow> pml4_index w \<noteq> RECURSIVE_ENTRY \<longrightarrow> translate r s' w = translate r s w"
    "card (pmm_free_pages (vm_pmm s)) \<le> card (pmm_free_pages (vm_pmm s')) + exec_frames data"
proof -
  let ?qs = "image_pages (elf_segments data) \<union> ({0} \<union> stack_pages)"
  have "1 \<le> card (pmm_free_pages (vm_pmm s))"
    using free by (simp add: exec_frames_def)
  then obtain new s1 where create: "create_user_page_table kcr3 s = (Some new, s1)"
    using create_space_available [OF wf] by metis
  note c = create_space_steps [OF wf k create] and tr = create_space_translate [OF wf k create]
  obtain role1 where r1: "vm_wf role1 (insert new roots) s1" "plain role1 new s1" "keeps_frames role s role1 s1"
    by (rule create_space_wf [OF wf k create])
  note n = vmm_new_ok [OF r1(1) insertI1]
  have card1: "exec_frames data \<le> Suc (card (pmm_free_pages (vm_pmm (vmm_new new s1))))"
    using c(8) free n(5) by simp
  obtain s2 s' role' where f: "exec_load new data (vmm_new new s1) = Some (Inr \<lparr>li_entry = e_entry (read_ehdr data)\<rparr>, s2)"
    "exec_stack new STACK_TOP 0 16 (exec_guard new s2) = Some s'" "vm_wf role' (insert new roots) s'"
    "keeps_frames role1 (vmm_new new s1) role' s'" "same_outside (insert new roots) new ?qs (vmm_new new s1) s'"
    "image_loaded new s' data (elf_segments data)"
    "\<forall>q \<in> stack_pages. page_shows role' new s' (\<lambda>_. 0) q" "\<exists>f. page_shows role' new s' f 0"
    "card (pmm_free_pages (vm_pmm (vmm_new new s1))) \<le> card (pmm_free_pages (vm_pmm s')) + (exec_frames data - 1)"
    by (rule exec_fill [OF n(1) insertI1 n(4) [OF r1(2)] prog card1])
  have "same_outside (insert new roots) new ?qs s1 s'"
    using same_outside_trans [OF same_outside_of [OF n(2)] f(5), of "{}"] by simp
  then have out: "translate r s' w = translate r s1 w"
    if "r \<in> insert new roots" "unat w < 2 ^ 48" "pml4_index w \<noteq> RECURSIVE_ENTRY" "\<not> (r = new \<and> unat w div 4096 \<in> ?qs)" for r w
    using that unfolding same_outside_def by blast
  have low: "translate new s' w = None" if "unat w < 2 ^ 47" "unat w div 4096 \<notin> ?qs" for w
    using out [of new w] tr(1) [of w] lower_half [OF that(1)] that by (simp add: RECURSIVE_ENTRY_def)
  have high: "translate new s' w = translate kcr3 s w"
    if "2 ^ 47 \<le> unat w" "unat w < 2 ^ 48" "pml4_index w \<noteq> RECURSIVE_ENTRY" for w
  proof -
    have "256 \<le> pml4_index w"
      using that by (simp add: va_index_levels va_index_nat)
    moreover have "unat w div 4096 \<notin> ?qs"
    proof -
      have "2 ^ 35 \<le> unat w div 4096"
        using that(1) by simp
      moreover have "q < 2 ^ 35" if "q \<in> ?qs" for q
        using that image_page_bound(1) [of "elf_segments data" data] prog by (auto simp: elf_program_def image_pages_def)
      ultimately show ?thesis
        by fastforce
    qed
    ultimately show ?thesis
      using out [of new w] tr(2) [of w] that by simp
  qed
  have other: "translate r s' w = translate r s w" if "r \<in> roots" "unat w < 2 ^ 48" "pml4_index w \<noteq> RECURSIVE_ENTRY" for r w
    using out [of r w] tr(3) [of r w] that c(2) by auto
  have card: "card (pmm_free_pages (vm_pmm s)) \<le> card (pmm_free_pages (vm_pmm s')) + exec_frames data"
    using c(8) f(9) n(5) by (simp add: exec_frames_def)
  have eq: "exec_space kcr3 data s = Some (Inr (new, e_entry (read_ehdr data)), s')"
    by (simp add: exec_space_def create f(1,2))
  show thesis
    by (rule that [OF eq c(2) f(3) keeps_frames_trans [OF r1(3) keeps_frames_trans [OF n(3) f(4)]] f(6,7,8) _ _ _ card])
      (use low high other in blast)+
qed


lemma pmm_update_eqs [simp]:
  "translate r (s\<lparr>vm_pmm := p\<rparr>) w = translate r s w" "phys_byte (s\<lparr>vm_pmm := p\<rparr>) = phys_byte s"
  "user_byte r v (s\<lparr>vm_pmm := p\<rparr>) = user_byte r v s" "image_loaded r (s\<lparr>vm_pmm := p\<rparr>) data segs = image_loaded r s data segs"
proof -
  show tr: "translate r (s\<lparr>vm_pmm := p\<rparr>) w = translate r s w" for w
    by (simp add: translate_def cong: if_cong)
  show ph: "phys_byte (s\<lparr>vm_pmm := p\<rparr>) = phys_byte s"
    by (simp add: fun_eq_iff phys_byte_def frame_byte_def)
  show "user_byte r v (s\<lparr>vm_pmm := p\<rparr>) = user_byte r v s" "image_loaded r (s\<lparr>vm_pmm := p\<rparr>) data segs = image_loaded r s data segs"
    by (simp_all add: user_byte_def image_loaded_def tr ph)
qed

lemma vm_wf_pmm:
  assumes "vm_wf role roots s" "pmm_wf p" "pmm_free_pages p \<subseteq> pmm_free_pages (vm_pmm s)"
  shows "vm_wf role roots (s\<lparr>vm_pmm := p\<rparr>)"
  using assms by (auto simp: vm_wf_def table_ok_def)

text \<open>A block of free pages holds the frames of a new space and still has a run for the kernel stack afterwards.\<close>

definition exec_memory :: "u8 list \<Rightarrow> Pmm \<Rightarrow> bool" where
  "exec_memory data p \<longleftrightarrow> (\<exists>a. {a..<a + TASK_STACK_PAGES * Suc (exec_frames data)} \<subseteq> pmm_free_pages p)"

lemma exec_memory_card:
  assumes "exec_memory data p"
  shows "exec_frames data \<le> card (pmm_free_pages p)"
proof -
  obtain a where "{a..<a + TASK_STACK_PAGES * Suc (exec_frames data)} \<subseteq> pmm_free_pages p"
    using assms by (auto simp: exec_memory_def)
  then have "card {a..<a + TASK_STACK_PAGES * Suc (exec_frames data)} \<le> card (pmm_free_pages p)"
    by (intro card_mono) (auto simp: free_set_def)
  then show ?thesis
    by (simp add: TASK_STACK_PAGES_def)
qed

lemma exec_kernel_stack:
  assumes "exec_memory data p" "pmm_free_pages p' \<subseteq> pmm_free_pages p" "pmm_wf p'"
    "card (pmm_free_pages p) \<le> card (pmm_free_pages p') + exec_frames data"
  obtains st p'' where "alloc_contiguous TASK_STACK_PAGES p' = (Some st, p'')" "pmm_wf p''" "pmm_free_pages p'' \<subseteq> pmm_free_pages p'"
proof -
  obtain a where "{a..<a + TASK_STACK_PAGES * Suc (exec_frames data)} \<subseteq> pmm_free_pages p"
    using assms(1) by (auto simp: exec_memory_def)
  moreover have "finite (pmm_free_pages p)" "0 < TASK_STACK_PAGES"
    by (simp_all add: free_set_def TASK_STACK_PAGES_def)
  ultimately obtain b where b: "{b..<b + TASK_STACK_PAGES} \<subseteq> pmm_free_pages p'"
    using run_survives [OF _ assms(2,4)] by blast
  have "b + 31 \<in> pmm_free_pages p'"
    using b by (auto simp: TASK_STACK_PAGES_def)
  then have "pmm_is_run p' TASK_STACK_PAGES b"
    using b unfolding is_run_free by (auto simp: free_set_def TASK_STACK_PAGES_def)
  then obtain st where st: "fst (alloc_contiguous TASK_STACK_PAGES p') = Some st"
    using alloc_contiguous_none(2) [of TASK_STACK_PAGES p' b] by (cases "fst (alloc_contiguous TASK_STACK_PAGES p')") (auto simp: TASK_STACK_PAGES_def)
  show thesis
    by (rule alloc_contiguous_some [OF assms(3) st]) (use that st in \<open>metis Diff_subset prod.collapse\<close>)
qed

text \<open>The scheduler's part: the task keeps its number and its directory and starts over at the entry point.\<close>

lemma replace_current_ok:
  assumes "sc_current s < MAX_TASKS" "task_at s (sc_current s) = Some task" "alloc_contiguous TASK_STACK_PAGES p = (Some st, p')"
  obtains t where "replace_current_task hhdm tr start ustack name pt argc argv (s, p) = Some (set_task (sc_current s) t s, p')"
    "t_id t = t_id task" "t_cwd t = t_cwd task" "t_state t = Running" "t_page_table t = pt" "t_user_entry t = start"
    "t_user_stack_top t = ustack" "t_brk t = USER_HEAP_START" "t_fds t = [None, None, None]"
  using assms that by (cases "name_buf name") (simp add: replace_current_task_def task_new_user_def Let_def)


text \<open>The address space of a started program: the image, a zeroed stack, some page at zero, the upper half of the kernel
  and nothing else.\<close>

definition program_space :: "u8 list \<Rightarrow> u64 \<Rightarrow> Vm \<Rightarrow> u64 \<Rightarrow> Vm \<Rightarrow> bool" where
  "program_space data kcr3 s new s' \<longleftrightarrow>
     image_loaded new s' data (elf_segments data)
     \<and> (\<forall>a. a div 4096 \<in> stack_pages \<longrightarrow> user_byte new (of_nat a) s' = Some 0)
     \<and> (\<forall>a < 4096. user_byte new (of_nat a) s' \<noteq> None)
     \<and> (\<forall>w. unat w < 2 ^ 47 \<longrightarrow> unat w div 4096 \<notin> image_pages (elf_segments data) \<union> ({0} \<union> stack_pages) \<longrightarrow> translate new s' w = None)
     \<and> (\<forall>w. 2 ^ 47 \<le> unat w \<longrightarrow> unat w < 2 ^ 48 \<longrightarrow> pml4_index w \<noteq> RECURSIVE_ENTRY \<longrightarrow> translate new s' w = translate kcr3 s w)"

lemma exec_replaces:
  assumes wf: "vm_wf role roots (k_vm k)" "k_kernel_cr3 k \<in> roots" and task: "cur_task k = Some (Some task)" "t_page_table task \<noteq> 0"
    and path: "path_len \<noteq> 0" "user_read (t_page_table task) path_ptr (unat path_len) (k_vm k) = Some bytes" "from_utf8 bytes = Some path"
    and found: "get_file (k_initrd k) (if starts_with path ''/'' then drop 1 path else path) = Some file"
    and space: "exec_space (k_kernel_cr3 k) (tf_data file) (k_vm k) = Some (Inr (new, start), vm)"
    and stack: "alloc_contiguous TASK_STACK_PAGES (vm_pmm vm) = (Some st, p)"
  obtains t where "sys_exec hhdm trampoline path_ptr path_len k = Some (None, set_cur t (k\<lparr>k_vm := vm\<lparr>vm_pmm := p\<rparr>\<rparr>))"
    "t_id t = t_id task" "t_cwd t = t_cwd task" "t_state t = Running" "t_page_table t = new" "t_user_entry t = start"
    "t_user_stack_top t = STACK_TOP" "t_brk t = USER_HEAP_START" "t_fds t = [None, None, None]"
proof -
  have cur: "sc_current (k_sched k) < MAX_TASKS" "task_at (k_sched k) (sc_current (k_sched k)) = Some task" "user_cr3 k = Some (t_page_table task)"
    using task(1) by (simp_all add: cur_task_def user_cr3_def split: if_splits)
  obtain t where t: "replace_current_task hhdm trampoline start STACK_TOP (str_bytes ''shell'') new 0 (STACK_TOP - 8) (k_sched k, vm_pmm vm)
      = Some (set_task (sc_current (k_sched k)) t (k_sched k), p)"
    "t_id t = t_id task" "t_cwd t = t_cwd task" "t_state t = Running" "t_page_table t = new" "t_user_entry t = start"
    "t_user_stack_top t = STACK_TOP" "t_brk t = USER_HEAP_START" "t_fds t = [None, None, None]"
    by (rule replace_current_ok [OF cur(1,2) stack])
  have "sys_exec hhdm trampoline path_ptr path_len k = Some (None, set_cur t (k\<lparr>k_vm := vm\<lparr>vm_pmm := p\<rparr>\<rparr>))"
    using task(2) path(1) by (simp add: sys_exec_def cur(3) path(2,3) found space t(1) set_cur_def Let_def del: of_nat_numeral)
  then show thesis
    using that t by blast
qed

text \<open>C9: Starting a program.  For a well-formed ELF file in the boot archive and enough memory \<open>sys_exec\<close> does not return to
  its caller: the current task keeps its number and its directory and runs the entry point of the file in a new
  address space with the file's image, a zeroed stack and the kernel's upper half.  Every other address space
  translates as before, and the memory stays consistent.\<close>

theorem sys_exec_starts_program:
  assumes wf: "vm_wf role roots (k_vm k)" "k_kernel_cr3 k \<in> roots" and task: "cur_task k = Some (Some task)" "t_page_table task \<noteq> 0"
    and path: "path_len \<noteq> 0" "user_read (t_page_table task) path_ptr (unat path_len) (k_vm k) = Some bytes" "from_utf8 bytes = Some path"
    and found: "get_file (k_initrd k) (if starts_with path ''/'' then drop 1 path else path) = Some file"
    and prog: "elf_program (tf_data file)" and mem: "exec_memory (tf_data file) (vm_pmm (k_vm k))"
  shows "\<exists>new vm t role'. sys_exec hhdm trampoline path_ptr path_len k = Some (None, set_cur t (k\<lparr>k_vm := vm\<rparr>))
    \<and> t_id t = t_id task \<and> t_cwd t = t_cwd task \<and> t_state t = Running \<and> t_page_table t = new
    \<and> t_user_entry t = e_entry (read_ehdr (tf_data file)) \<and> t_user_stack_top t = STACK_TOP
    \<and> t_brk t = USER_HEAP_START \<and> t_fds t = [None, None, None]
    \<and> new \<notin> roots \<and> vm_wf role' (insert new roots) vm \<and> program_space (tf_data file) (k_kernel_cr3 k) (k_vm k) new vm
    \<and> (\<forall>r \<in> roots. \<forall>w. unat w < 2 ^ 48 \<longrightarrow> pml4_index w \<noteq> RECURSIVE_ENTRY \<longrightarrow> translate r vm w = translate r (k_vm k) w)"
proof -
  let ?data = "tf_data file" and ?qs = "image_pages (elf_segments (tf_data file)) \<union> ({0} \<union> stack_pages)"
  obtain new s role' where s: "exec_space (k_kernel_cr3 k) ?data (k_vm k) = Some (Inr (new, e_entry (read_ehdr ?data)), s)" "new \<notin> roots"
    "vm_wf role' (insert new roots) s" "keeps_frames role (k_vm k) role' s" "image_loaded new s ?data (elf_segments ?data)"
    "\<forall>q \<in> stack_pages. page_shows role' new s (\<lambda>_. 0) q" "\<exists>f. page_shows role' new s f 0"
    "\<forall>w. unat w < 2 ^ 47 \<longrightarrow> unat w div 4096 \<notin> ?qs \<longrightarrow> translate new s w = None"
    "\<forall>w. 2 ^ 47 \<le> unat w \<longrightarrow> unat w < 2 ^ 48 \<longrightarrow> pml4_index w \<noteq> RECURSIVE_ENTRY \<longrightarrow> translate new s w = translate (k_kernel_cr3 k) (k_vm k) w"
    "\<forall>r \<in> roots. \<forall>w. unat w < 2 ^ 48 \<longrightarrow> pml4_index w \<noteq> RECURSIVE_ENTRY \<longrightarrow> translate r s w = translate r (k_vm k) w"
    "card (pmm_free_pages (vm_pmm (k_vm k))) \<le> card (pmm_free_pages (vm_pmm s)) + exec_frames ?data"
    by (rule exec_space_ok [OF wf prog exec_memory_card [OF mem]])
  have free: "pmm_free_pages (vm_pmm s) \<subseteq> pmm_free_pages (vm_pmm (k_vm k))" "pmm_wf (vm_pmm s)"
    using s(3,4) by (simp_all add: keeps_frames_def vm_wf_def)
  obtain st p where st: "alloc_contiguous TASK_STACK_PAGES (vm_pmm s) = (Some st, p)" "pmm_wf p" "pmm_free_pages p \<subseteq> pmm_free_pages (vm_pmm s)"
    by (rule exec_kernel_stack [OF mem free s(11)])
  obtain t where t: "sys_exec hhdm trampoline path_ptr path_len k = Some (None, set_cur t (k\<lparr>k_vm := s\<lparr>vm_pmm := p\<rparr>\<rparr>))"
    "t_id t = t_id task" "t_cwd t = t_cwd task" "t_state t = Running" "t_page_table t = new" "t_user_entry t = e_entry (read_ehdr ?data)"
    "t_user_stack_top t = STACK_TOP" "t_brk t = USER_HEAP_START" "t_fds t = [None, None, None]"
    by (rule exec_replaces [OF wf task path found s(1) st(1)])
  have "user_byte new (of_nat a) s = Some 0" if "a div 4096 \<in> stack_pages" for a
    using page_shows_user_byte [of role' new s "\<lambda>_. 0"] s(6) that by simp
  moreover have "user_byte new (of_nat a) s \<noteq> None" if "a < 4096" for a
    using page_shows_user_byte [of role' new s _ a] s(7) that by auto
  ultimately have "program_space ?data (k_kernel_cr3 k) (k_vm k) new (s\<lparr>vm_pmm := p\<rparr>)"
    unfolding program_space_def pmm_update_eqs using s(5,8,9) by blast
  then show ?thesis
    using t s(2,10) vm_wf_pmm [OF s(3) st(2,3)] by (metis pmm_update_eqs(1))
qed


text \<open>The same at work: the text \<open>sh\<close> in the user's page names the program of the archive.\<close>

lemma user_archive_file: "get_file user_archive ''sh'' = Some \<lparr>tf_name = ''sh'', tf_data = elf_example\<rparr>"
  using tar_open_loop_written [of "[\<lparr>te_name = ''sh'', te_mode = replicate 24 0, te_rest = replicate 376 0, te_data = elf_example\<rparr>]" "[]" "''sh''"]
  by (simp add: get_file_open tar_open_def user_archive_def write_archive_def Tar.entry_ok_def elf_example_length trim_start_def slash_def)

lemma elf_example_program: "elf_program elf_example" "exec_frames elf_example \<le> 80"
  using elf_example_ok elf_example_loads(1,2)
  by (simp_all add: elf_program_def exec_frames_def frames_needed_def elf_example_segments image_pages_def seg_pages_def page_count_def)

theorem sys_exec_starts_program_witness:
  "\<exists>vm t. sys_exec 0 0 0x400000 2 user_kernel = Some (None, set_cur t (user_kernel\<lparr>k_vm := vm\<rparr>)) \<and> t_id t = 1 \<and> t_user_entry t = 0x400000
     \<and> t_page_table t \<noteq> 0x1000 \<and> program_space elf_example 0x1000 user_vm (t_page_table t) vm"
proof -
  have k: "k_vm user_kernel = user_vm" "k_kernel_cr3 user_kernel = 0x1000" "k_initrd user_kernel = user_archive"
    by (simp_all add: user_kernel_def)
  have t: "t_page_table (user_task :: unit Task) = 0x1000" "t_id (user_task :: unit Task) = 1"
    by (simp_all add: user_task_def)
  have path: "user_read 0x1000 0x400000 (unat (2 :: u64)) user_vm = Some [0x73, 0x68]"
  proof -
    have two: "unat (2 :: u64) = Suc (Suc 0)"
      by simp
    show ?thesis
      unfolding two using user_vm_bytes by simp
  qed
  have utf: "from_utf8 [0x73, 0x68] = Some ''sh''"
    using from_utf8_ascii [of "''sh''"] by (simp add: str_bytes_def)
  have "{256..<256 + TASK_STACK_PAGES * Suc (exec_frames elf_example)} \<subseteq> pmm_free_pages (vm_pmm user_vm)"
    using elf_example_program(2) by (auto simp: user_vm_def user_pmm_ok TASK_STACK_PAGES_def)
  then have "exec_memory elf_example (vm_pmm user_vm)"
    by (auto simp: exec_memory_def)
  then show ?thesis
    using sys_exec_starts_program [of user_roles "{0x1000}" user_kernel user_task 2 "0x400000" "[0x73, 0x68]" "''sh''"
        "\<lparr>tf_name = ''sh'', tf_data = elf_example\<rparr>" 0 0] user_vm_wf user_kernel_task path utf user_archive_file elf_example_program(1)
    unfolding k t by (auto simp: starts_with_def elf_example_ehdr)
qed

end
