(* ===== verification/SyscallRings.thy ===== *)
theory SyscallRings
  imports SyscallSpaces
begin

text \<open>
  Memory that two tasks share: the rings of \<open>sys_ipc_create_ring\<close> and \<open>sys_ipc_connect\<close>, and the clipboard.
\<close>

section \<open>A frame in two address spaces\<close>

definition page_frame :: "roles \<Rightarrow> u64 \<Rightarrow> Vm \<Rightarrow> u64 \<Rightarrow> nat \<Rightarrow> bool" where
  "page_frame role r s d q \<longleftrightarrow> held role s d \<and> pte_physical_address d = d
     \<and> (\<forall>off < 4096. translate r s (of_nat (q * 4096 + off)) = Some (d + of_nat off))"

lemma page_frame_buffer:
  assumes "page_frame role r s d q" "q < 2 ^ 35" "n \<le> 4096"
  shows "buffer_ok role r s (of_nat (q * 4096)) n" "buffer_distinct r s (of_nat (q * 4096)) n"
proof -
  have d: "held role s d" "pte_physical_address d = d"
    using assms(1) by (simp_all add: page_frame_def)
  have tr: "translate r s (of_nat (q * 4096) + of_nat i) = Some (d + of_nat i)" if "i < n" for i
    using assms(1,3) that by (simp add: page_frame_def)
  have low: "pml4_index (of_nat (q * 4096) + of_nat i) \<noteq> RECURSIVE_ENTRY" if "i < n" for i
  proof -
    have "unat (of_nat (q * 4096 + i) :: u64) < 2 ^ 47"
      using that assms(2,3) by (subst unat_of_nat) simp
    then have "pml4_index (of_nat (q * 4096 + i)) < 256"
      by (rule lower_half)
    then show ?thesis
      by (simp add: RECURSIVE_ENTRY_def)
  qed
  show "buffer_ok role r s (of_nat (q * 4096)) n"
    unfolding buffer_ok_def using tr low frame_offset(1) [OF d(2)] d(1) assms(3) by (simp add: held_def)
  show "buffer_distinct r s (of_nat (q * 4096)) n"
  proof (unfold buffer_distinct_def, rule inj_onI)
    fix i j
    assume "i \<in> {..<n}" "j \<in> {..<n}" "translate r s (of_nat (q * 4096) + of_nat i) = translate r s (of_nat (q * 4096) + of_nat j)"
    then have "(of_nat i :: u64) = of_nat j" "i < 4096" "j < 4096"
      using tr assms(3) by auto
    moreover have "unat (of_nat k :: u64) = k" if "k < 4096" for k
      using that by (simp add: unat_of_nat_small)
    ultimately show "i = j"
      by metis
  qed
qed

text \<open>What one task writes into a shared frame the other reads.\<close>

lemma shared_write_read:
  assumes wf: "vm_wf role roots s" and roots: "p \<in> roots" "c \<in> roots"
    and frame: "page_frame role p s d q" "page_frame role c s d q'" "q < 2 ^ 35" "q' < 2 ^ 35" and len: "length bs \<le> 4096"
  obtains s' where "user_write p (of_nat (q * 4096)) bs s = Some s'" "user_read c (of_nat (q' * 4096)) (length bs) s' = Some bs"
    "vm_wf role roots s'" "same_translation roots s s'"
proof -
  note b = page_frame_buffer [OF frame(1,3) len] and b' = page_frame_buffer [OF frame(2,4) len]
  obtain s' where s': "user_write p (of_nat (q * 4096)) bs s = Some s'" "vm_wf role roots s'" "same_translation roots s s'"
    by (rule user_write_ok [OF wf roots(1) b(1)]) (rule that, blast+)
  have tr: "translate r s' (of_nat (q * 4096) + of_nat i) = Some (d + of_nat i)"
    if "i < length bs" "r \<in> roots" "page_frame role r s d q" "q < 2 ^ 35" for r q i
  proof -
    have "pml4_index (of_nat (q * 4096) + of_nat i) \<noteq> RECURSIVE_ENTRY"
      using page_frame_buffer(1) [OF that(3,4) len] that(1) unfolding buffer_ok_def by blast
    moreover have "translate r s (of_nat (q * 4096) + of_nat i) = Some (d + of_nat i)"
      using that(1,3) len by (simp add: page_frame_def)
    ultimately show ?thesis
      using s'(3) that(2) by (simp add: same_translation_iff)
  qed
  have "user_byte c (of_nat (q' * 4096) + of_nat i) s' = Some (bs ! i)" if "i < length bs" for i
    using user_write_bytes [OF wf roots(1) b s'(1) that] tr [OF that roots(1) frame(1,3)] tr [OF that roots(2) frame(2,4)]
    by (simp add: user_byte_def)
  then have "user_read c (of_nat (q' * 4096)) (length bs) s' = Some bs"
    using user_read_nth [of "length bs" c "of_nat (q' * 4096)" s' "(!) bs"] by (simp add: map_nth)
  then show thesis
    using that s' by blast
qed

text \<open>A page keeps its frame while pages of other address spaces are mapped.\<close>

lemma page_frame_keeps:
  assumes "page_frame role r s d q" "keeps_frames role s role' s'" "same_outside roots r' qs s s'" "r \<in> roots" "\<not> (r = r' \<and> q \<in> qs)" "q < 2 ^ 35"
  shows "page_frame role' r s' d q"
proof -
  have "translate r s' (of_nat (q * 4096 + off)) = translate r s (of_nat (q * 4096 + off))" if "off < 4096" for off
  proof -
    have n: "unat (of_nat (q * 4096 + off) :: u64) = q * 4096 + off"
      using that assms(6) by (subst unat_of_nat) simp
    then have low: "unat (of_nat (q * 4096 + off) :: u64) < 2 ^ 47"
      using that assms(6) by simp
    have "(q * 4096 + off) div 4096 = q"
      using that by simp
    then show ?thesis
      using assms(3-5) low lower_half [OF low] n unfolding same_outside_def RECURSIVE_ENTRY_def by simp
  qed
  then show ?thesis
    using assms(1) keeps_frames_held(1) [OF assms(2)] by (simp add: page_frame_def)
qed

lemma page_frame_shows: "page_frame role r s d q \<Longrightarrow> page_shows role r s (\<lambda>a. frame_byte s d (a mod 4096)) q"
  unfolding page_shows_def page_frame_def by auto

section \<open>Creating and connecting a ring\<close>

abbreviation ring_page :: nat where
  "ring_page \<equiv> 0x700000000"

lemma ring_addr: "IPC_RING_ADDR = of_nat (ring_page * 4096)"
  by (simp add: IPC_RING_ADDR_def)

text \<open>Both calls map the frame of the ring at the same address.\<close>

lemma map_ring:
  assumes wf: "vm_wf role roots s" and r: "r \<in> roots" and pl: "plain role r s" and d: "held role s d" "pte_physical_address d = d"
    and free: "3 \<le> card (pmm_free_pages (vm_pmm s))"
  obtains s' role' where "map_page_with_flags r IPC_RING_ADDR d (PRESENT OR USER OR WRITABLE) (vmm_new r s) = (Inr (), s')"
    "vm_wf role' roots s'" "keeps_frames role s role' s'" "same_outside roots r {ring_page} s s'" "page_frame role' r s' d ring_page"
    "\<forall>p. plain role p s \<longrightarrow> plain role' p s'" "card (pmm_free_pages (vm_pmm s)) \<le> card (pmm_free_pages (vm_pmm s')) + 3"
proof -
  note n = vmm_new_ok [OF wf r]
  have low: "unat (of_nat (ring_page * 4096) :: u64) < 2 ^ 47" "ring_page < 2 ^ 35"
    by simp_all
  obtain s' where map: "map_page_with_flags r (of_nat (ring_page * 4096)) d (PRESENT OR USER OR WRITABLE) (vmm_new r s) = (Inr (), s')"
    using n(5) free by (cases rule: map_page_frames [OF n(1) r lower_half [OF low(1)] n(4) [OF pl], of d "PRESENT OR USER OR WRITABLE"]) auto
  have held: "held role (vmm_new r s) d"
    by (rule keeps_frames_held(1) [OF n(3) d(1)])
  obtain role' where m: "vm_wf role' roots s'" "keeps_frames role (vmm_new r s) role' s'" "same_outside roots r {ring_page} (vmm_new r s) s'"
    "card (pmm_free_pages (vm_pmm (vmm_new r s))) \<le> card (pmm_free_pages (vm_pmm s')) + 3"
    "\<And>off. off < 4096 \<Longrightarrow> translate r s' (of_nat (ring_page * 4096 + off)) = Some (d + of_nat off)" "held role' s' d"
    "\<forall>p. plain role p (vmm_new r s) \<longrightarrow> plain role' p s'"
    by (rule map_held [OF n(1) r n(4) [OF pl] held d(2) low(2) zero_flags(2) map]) (rule that, blast+)
  have frame: "page_frame role' r s' d ring_page"
    unfolding page_frame_def using m(5,6) d(2) by blast
  have out: "same_outside roots r {ring_page} s s'"
    using same_outside_trans [OF same_outside_of [OF n(2)] m(3), of "{}"] by simp
  show thesis
    by (rule that [OF map [folded ring_addr] m(1) keeps_frames_trans [OF n(3) m(2)] out frame]) (use m(4,7) n(4,5) in auto)
qed


lemma create_ring:
  assumes wf: "vm_wf role roots (k_vm k)" and task: "cur_task k = Some (Some sender)" "t_page_table sender \<in> roots" "plain role (t_page_table sender) (k_vm k)"
    and free: "4 \<le> card (pmm_free_pages (vm_pmm (k_vm k)))"
  obtains d vm role' where "sys_ipc_create_ring capacity partner k = Some (Some (of_nat (length (k_ipc_rings k))),
      k\<lparr>k_vm := vm, k_ipc_rings := k_ipc_rings k @ [Some \<lparr>ir_phys = d, ir_producer_task = sc_current (k_sched k), ir_consumer_task = unat partner,
          ir_producer_page_table = t_page_table sender, ir_consumer_page_table = 0\<rparr>]\<rparr>)"
    "vm_wf role' roots vm" "keeps_frames role (k_vm k) role' vm" "same_outside roots (t_page_table sender) {ring_page} (k_vm k) vm"
    "page_frame role' (t_page_table sender) vm d ring_page" "\<forall>off. frame_byte vm d off = 0" "\<forall>p. plain role p (k_vm k) \<longrightarrow> plain role' p vm"
    "card (pmm_free_pages (vm_pmm (k_vm k))) \<le> card (pmm_free_pages (vm_pmm vm)) + 4"
proof -
  let ?p = "t_page_table sender"
  obtain d s1 where al: "vm_alloc_page '''' (k_vm k) = (Inr d, s1)"
    by (rule vm_alloc_page_cases [OF wf, of "''''"]) (use free in auto)
  note z = zero_fresh [OF wf al] and t = take_frame [OF wf al]
  have f3: "3 \<le> card (pmm_free_pages (vm_pmm (vm_zero_page d s1)))"
    using z(6) free by simp
  obtain vm role' where m: "map_page_with_flags ?p IPC_RING_ADDR d (PRESENT OR USER OR WRITABLE) (vmm_new ?p (vm_zero_page d s1)) = (Inr (), vm)"
    "vm_wf role' roots vm" "keeps_frames role (vm_zero_page d s1) role' vm" "same_outside roots ?p {ring_page} (vm_zero_page d s1) vm"
    "page_frame role' ?p vm d ring_page" "\<forall>p. plain role p (vm_zero_page d s1) \<longrightarrow> plain role' p vm"
    "card (pmm_free_pages (vm_pmm (vm_zero_page d s1))) \<le> card (pmm_free_pages (vm_pmm vm)) + 3"
    by (rule map_ring [OF z(1) task(2) z(4) [OF task(3)] z(3) t(6) f3])
  have "user_cr3 k = Some ?p"
    using task(1) by (simp add: user_cr3_def)
  then have eq: "sys_ipc_create_ring capacity partner k = Some (Some (of_nat (length (k_ipc_rings k))),
      k\<lparr>k_vm := vm, k_ipc_rings := k_ipc_rings k @ [Some \<lparr>ir_phys = d, ir_producer_task = sc_current (k_sched k), ir_consumer_task = unat partner,
          ir_producer_page_table = ?p, ir_consumer_page_table = 0\<rparr>]\<rparr>)"
    using al m(1) by (simp add: sys_ipc_create_ring_def returns_def)
  have zero: "\<forall>off. frame_byte vm d off = 0"
    using keeps_frames_held(2) [OF m(3) z(3)] by (simp add: frame_byte_zero)
  have out: "same_outside roots ?p {ring_page} (k_vm k) vm"
    using same_outside_trans [OF same_outside_of [OF z(5)] m(4), of "{}"] by simp
  show thesis
    by (rule that [OF eq m(2) keeps_frames_trans [OF z(2) m(3)] out m(5) zero]) (use m(6,7) z(4,6) in auto)
qed

lemma connect_ring:
  assumes wf: "vm_wf role roots (k_vm k)" and task: "cur_task k = Some (Some receiver)" "t_page_table receiver \<in> roots" "plain role (t_page_table receiver) (k_vm k)"
    and ring: "unat i < length (k_ipc_rings k)" "k_ipc_rings k ! unat i = Some ring" "ir_consumer_task ring = sc_current (k_sched k)"
    and d: "held role (k_vm k) (ir_phys ring)" "pte_physical_address (ir_phys ring) = ir_phys ring"
    and free: "3 \<le> card (pmm_free_pages (vm_pmm (k_vm k)))"
  obtains vm role' where "sys_ipc_connect i k = Some (Some (ir_phys ring),
      k\<lparr>k_vm := vm, k_ipc_rings := (k_ipc_rings k)[unat i := Some (ring\<lparr>ir_consumer_page_table := t_page_table receiver\<rparr>)]\<rparr>)"
    "vm_wf role' roots vm" "keeps_frames role (k_vm k) role' vm" "same_outside roots (t_page_table receiver) {ring_page} (k_vm k) vm"
    "page_frame role' (t_page_table receiver) vm (ir_phys ring) ring_page"
proof -
  obtain vm role' where m: "map_page_with_flags (t_page_table receiver) IPC_RING_ADDR (ir_phys ring) (PRESENT OR USER OR WRITABLE)
      (vmm_new (t_page_table receiver) (k_vm k)) = (Inr (), vm)"
    "vm_wf role' roots vm" "keeps_frames role (k_vm k) role' vm" "same_outside roots (t_page_table receiver) {ring_page} (k_vm k) vm"
    "page_frame role' (t_page_table receiver) vm (ir_phys ring) ring_page"
    by (rule map_ring [OF wf task(2,3) d free]) (rule that, blast+)
  have "user_cr3 k = Some (t_page_table receiver)"
    using task(1) by (simp add: user_cr3_def)
  then have "sys_ipc_connect i k = Some (Some (ir_phys ring),
      k\<lparr>k_vm := vm, k_ipc_rings := (k_ipc_rings k)[unat i := Some (ring\<lparr>ir_consumer_page_table := t_page_table receiver\<rparr>)]\<rparr>)"
    using ring m(1) by (simp add: sys_ipc_connect_def returns_def Let_def)
  then show thesis
    using that m by blast
qed


lemma ring_carries:
  assumes "vm_wf role roots s" "p \<in> roots" "c \<in> roots" "page_frame role p s d ring_page" "page_frame role c s d ring_page" "length bs \<le> 4096"
  shows "\<exists>vm. user_write p IPC_RING_ADDR bs s = Some vm \<and> user_read c IPC_RING_ADDR (length bs) vm = Some bs"
  unfolding ring_addr by (rule shared_write_read [OF assms(1-5) _ _ assms(6)]) auto

text \<open>C11: A ring between two tasks.  The sender creates it for the slot of the receiver; when the receiver runs and connects,
  both see the same frame of zeros at the address of the ring: what either writes there the other reads.  No
  other page of any address space changes.\<close>

theorem ipc_ring_shared:
  assumes wf: "vm_wf role roots (k_vm k)"
    and sender: "cur_task k = Some (Some sender)" "t_page_table sender \<in> roots" "plain role (t_page_table sender) (k_vm k)"
    and receiver: "t_page_table receiver \<in> roots" "plain role (t_page_table receiver) (k_vm k)" "t_page_table receiver \<noteq> t_page_table sender"
    and other: "sc_current sched = unat partner" "sc_current sched < MAX_TASKS" "task_at sched (sc_current sched) = Some receiver"
    and free: "7 \<le> card (pmm_free_pages (vm_pmm (k_vm k)))" and rings: "length (k_ipc_rings k) < 2 ^ 64"
  shows "\<exists>i k1 d k2 role'. sys_ipc_create_ring capacity partner k = Some (Some i, k1)
    \<and> sys_ipc_connect i (k1\<lparr>k_sched := sched\<rparr>) = Some (Some d, k2) \<and> vm_wf role' roots (k_vm k2)
    \<and> (\<forall>a < 4096. user_byte (t_page_table sender) (IPC_RING_ADDR + of_nat a) (k_vm k2) = Some 0)
    \<and> (\<forall>bs. \<forall>(p, c) \<in> {(t_page_table sender, t_page_table receiver), (t_page_table receiver, t_page_table sender)}. length bs \<le> 4096 \<longrightarrow>
         (\<exists>vm. user_write p IPC_RING_ADDR bs (k_vm k2) = Some vm \<and> user_read c IPC_RING_ADDR (length bs) vm = Some bs))
    \<and> (\<forall>r \<in> roots. \<forall>w. unat w < 2 ^ 48 \<longrightarrow> pml4_index w \<noteq> RECURSIVE_ENTRY
         \<longrightarrow> \<not> (r \<in> {t_page_table sender, t_page_table receiver} \<and> unat w div 4096 = ring_page) \<longrightarrow> translate r (k_vm k2) w = translate r (k_vm k) w)"
proof -
  let ?p = "t_page_table sender" and ?c = "t_page_table receiver" and ?i = "of_nat (length (k_ipc_rings k)) :: u64"
  have q: "ring_page < 2 ^ 35"
    by simp
  obtain d vm role1 where c: "sys_ipc_create_ring capacity partner k = Some (Some ?i,
      k\<lparr>k_vm := vm, k_ipc_rings := k_ipc_rings k @ [Some \<lparr>ir_phys = d, ir_producer_task = sc_current (k_sched k), ir_consumer_task = unat partner,
          ir_producer_page_table = ?p, ir_consumer_page_table = 0\<rparr>]\<rparr>)" (is "_ = Some (_, ?k1)")
    "vm_wf role1 roots vm" "keeps_frames role (k_vm k) role1 vm" "same_outside roots ?p {ring_page} (k_vm k) vm"
    "page_frame role1 ?p vm d ring_page" "\<forall>off. frame_byte vm d off = 0" "\<forall>p. plain role p (k_vm k) \<longrightarrow> plain role1 p vm"
    "card (pmm_free_pages (vm_pmm (k_vm k))) \<le> card (pmm_free_pages (vm_pmm vm)) + 4"
    by (rule create_ring [OF wf sender]) (use free in auto)
  have d: "held role1 vm d" "pte_physical_address d = d"
    using c(5) by (simp_all add: page_frame_def)
  have i: "unat ?i = length (k_ipc_rings k)"
    using rings by (simp add: unat_of_nat_small)
  define ring where "ring = \<lparr>ir_phys = d, ir_producer_task = sc_current (k_sched k), ir_consumer_task = unat partner,
          ir_producer_page_table = ?p, ir_consumer_page_table = 0\<rparr>"
  define k1 where "k1 = ?k1\<lparr>k_sched := sched\<rparr>"
  have k1: "k_vm k1 = vm" "cur_task k1 = Some (Some receiver)" "unat ?i < length (k_ipc_rings k1)" "k_ipc_rings k1 ! unat ?i = Some ring"
    "ir_consumer_task ring = sc_current (k_sched k1)" "ir_phys ring = d"
    using other unfolding i by (simp_all add: k1_def ring_def cur_task_def)
  have f3: "3 \<le> card (pmm_free_pages (vm_pmm (k_vm k1)))" and wf1: "vm_wf role1 roots (k_vm k1)"
    and pl1: "plain role1 ?c (k_vm k1)" and d1: "held role1 (k_vm k1) (ir_phys ring)" "pte_physical_address (ir_phys ring) = ir_phys ring"
    using c(2,7,8) d free receiver(2) by (simp_all add: k1(1,6))
  obtain vm2 role2 where n: "sys_ipc_connect ?i k1 = Some (Some d, k1\<lparr>k_vm := vm2, k_ipc_rings := (k_ipc_rings k1)[unat ?i := Some (ring\<lparr>ir_consumer_page_table := ?c\<rparr>)]\<rparr>)"
      (is "_ = Some (_, ?k2)")
    "vm_wf role2 roots vm2" "keeps_frames role1 vm role2 vm2" "same_outside roots ?c {ring_page} vm vm2" "page_frame role2 ?c vm2 d ring_page"
    by (rule connect_ring [OF wf1 k1(2) receiver(1) pl1 k1(3-5) d1 f3]) (rule that, unfold k1(1,6))
  have p: "page_frame role2 ?p vm2 d ring_page"
    by (rule page_frame_keeps [OF c(5) n(3,4) sender(2) _ q]) (use receiver(3) in auto)
  have zero: "frame_byte vm2 d off = 0" for off
    using c(6) keeps_frames_held(2) [OF n(3) d(1)] by simp
  have zeros: "user_byte ?p (IPC_RING_ADDR + of_nat a) vm2 = Some 0" if "a < 4096" for a
    using p that phys_byte_frame [OF d(2) that] zero unfolding page_frame_def ring_addr by (simp add: user_byte_def)
  have rws: "\<exists>vm. user_write p IPC_RING_ADDR bs vm2 = Some vm \<and> user_read c IPC_RING_ADDR (length bs) vm = Some bs"
    if "(p, c) \<in> {(?p, ?c), (?c, ?p)}" "length bs \<le> 4096" for p c bs
    using that ring_carries [OF n(2) sender(2) receiver(1) p n(5)] ring_carries [OF n(2) receiver(1) sender(2) n(5) p] by auto
  have trs: "translate r vm2 w = translate r (k_vm k) w"
    if "r \<in> roots" "unat w < 2 ^ 48" "pml4_index w \<noteq> RECURSIVE_ENTRY" "\<not> (r \<in> {?p, ?c} \<and> unat w div 4096 = ring_page)" for r w
    using c(4) n(4) that unfolding same_outside_def by auto
  define k2 where "k2 = ?k2"
  have k2: "k_vm k2 = vm2" "sys_ipc_connect ?i (?k1\<lparr>k_sched := sched\<rparr>) = Some (Some d, k2)"
    using n(1) by (simp_all add: k2_def k1_def)
  show ?thesis
    by (intro exI conjI, rule c(1), rule k2(2), unfold k2(1), rule n(2)) (use zeros rws trs in auto)
qed


lemma user_vm_pair: "vm_wf (user_roles(0x6000 \<mapsto> (Some 0x6000, []))) {0x1000, 0x6000} user_vm"
  "plain (user_roles(0x6000 \<mapsto> (Some 0x6000, []))) 0x1000 user_vm" "plain (user_roles(0x6000 \<mapsto> (Some 0x6000, []))) 0x6000 user_vm"
proof -
  show "vm_wf (user_roles(0x6000 \<mapsto> (Some 0x6000, []))) {0x1000, 0x6000} user_vm"
    unfolding vm_wf_def table_ok_def user_vm_def user_roles_def
    by (auto simp: user_pmm_ok page_of_def PAGE_SIZE_def Vmm.entry_ok_def edge_def child_role_def pte_is_present_def pte_huge_def
        pte_physical_address_def pte_flags_def PRESENT_def HUGE_PAGE_def split: if_splits)
  show "plain (user_roles(0x6000 \<mapsto> (Some 0x6000, []))) 0x1000 user_vm" "plain (user_roles(0x6000 \<mapsto> (Some 0x6000, []))) 0x6000 user_vm"
    by (auto simp: plain_def user_vm_def user_roles_def pte_is_present_def pte_huge_def pte_flags_def HUGE_PAGE_def PRESENT_def split: if_splits)
qed

theorem ipc_ring_shared_witness:
  "\<exists>i k1 d k2 vm. sys_ipc_create_ring 16 1 user_kernel = Some (Some i, k1)
     \<and> sys_ipc_connect i (k1\<lparr>k_sched := set_task 1 (user_task\<lparr>t_page_table := 0x6000\<rparr>) (sched_new\<lparr>sc_current := 1\<rparr>)\<rparr>) = Some (Some d, k2)
     \<and> user_write 0x1000 IPC_RING_ADDR [1, 2, 3] (k_vm k2) = Some vm \<and> user_read 0x6000 IPC_RING_ADDR 3 vm = Some [1, 2, 3]"
proof -
  let ?receiver = "(user_task :: unit Task)\<lparr>t_page_table := 0x6000\<rparr>"
  let ?sched = "set_task 1 ?receiver (sched_new\<lparr>sc_current := 1\<rparr>)"
  have sched: "sc_current ?sched = unat (1 :: u64)" "sc_current ?sched < MAX_TASKS" "task_at ?sched (sc_current ?sched) = Some ?receiver"
    by (simp_all add: set_task_def sched_new_def task_at_def MAX_TASKS_def)
  have k: "k_vm user_kernel = user_vm" "k_ipc_rings user_kernel = []" "t_page_table (user_task :: unit Task) = 0x1000"
    by (simp_all add: user_kernel_def user_task_def)
  have free: "7 \<le> card (pmm_free_pages (vm_pmm user_vm))"
    by (simp add: user_vm_def user_pmm_ok)
  obtain i k1 d k2 where r: "sys_ipc_create_ring 16 1 user_kernel = Some (Some i, k1)"
      "sys_ipc_connect i (k1\<lparr>k_sched := ?sched\<rparr>) = Some (Some d, k2)"
    and rw: "\<forall>bs. \<forall>(p, c) \<in> {(0x1000, 0x6000), (0x6000, 0x1000)}. length bs \<le> 4096 \<longrightarrow>
         (\<exists>vm. user_write p IPC_RING_ADDR bs (k_vm k2) = Some vm \<and> user_read c IPC_RING_ADDR (length bs) vm = Some bs)"
    using ipc_ring_shared [of "user_roles(0x6000 \<mapsto> (Some 0x6000, []))" "{0x1000, 0x6000}" user_kernel user_task ?receiver ?sched 1 16,
        unfolded k, OF user_vm_pair(1) user_kernel_task _ user_vm_pair(2)] sched free user_vm_pair(3)
    by auto
  have "\<exists>vm. user_write 0x1000 IPC_RING_ADDR [1, 2, 3] (k_vm k2) = Some vm \<and> user_read 0x6000 IPC_RING_ADDR 3 vm = Some [1, 2, 3]"
    using bspec [OF spec [OF rw, of "[1, 2, 3]"], of "(0x1000, 0x6000)"] by (simp add: numeral_3_eq_3 del: user_write.simps user_read.simps)
  then show ?thesis
    using r by blast
qed


section \<open>The clipboard\<close>

text \<open>Pasting into any mapped buffer that holds no page table.\<close>

lemma paste_writes:
  assumes wf: "vm_wf role roots (k_vm k)" "cur_task k = Some (Some task)" "t_page_table task \<in> roots"
    and clip: "k_clipboard k \<noteq> []" "length (k_clipboard k) \<le> unat buf_len" "bs = k_clipboard k"
    and buf: "buffer_ok role (t_page_table task) (k_vm k) v (length bs)" "buffer_distinct (t_page_table task) (k_vm k) v (length bs)"
  obtains vm where "sys_clipboard_paste v buf_len k = Some (Some (of_nat (length bs)), k\<lparr>k_vm := vm\<rparr>)" "vm_wf role roots vm"
    "same_translation roots (k_vm k) vm" "\<And>i. i < length bs \<Longrightarrow> user_byte (t_page_table task) (v + of_nat i) vm = Some (bs ! i)"
proof -
  obtain vm where vm: "user_write (t_page_table task) v bs (k_vm k) = Some vm" "vm_wf role roots vm" "same_translation roots (k_vm k) vm"
    by (rule user_write_ok [OF wf(1,3) buf(1)])
  have "user_cr3 k = Some (t_page_table task)"
    using wf(2) by (simp add: user_cr3_def)
  then have "sys_clipboard_paste v buf_len k = Some (Some (of_nat (length bs)), k\<lparr>k_vm := vm\<rparr>)"
    using clip vm(1) by (simp add: sys_clipboard_paste_def returns_def)
  then show thesis
    using that vm user_write_bytes [OF wf(1,3) buf vm(1)] by blast
qed

text \<open>C35: No system call that fills a buffer checks its address, as \<open>sys_write\<close> does.  A task that pastes the clipboard to an
  address of the upper half overwrites the memory of the kernel: the kernel's own page table shows the bytes.\<close>

theorem paste_overwrites_kernel:
  assumes wf: "vm_wf role roots (k_vm k)" "cur_task k = Some (Some task)" "t_page_table task \<in> roots" "k_kernel_cr3 k \<in> roots"
    and clip: "k_clipboard k \<noteq> []" "length (k_clipboard k) \<le> unat buf_len" "bs = k_clipboard k"
    and upper: "256 \<le> pml4_index v" "\<forall>i < length bs. translate (t_page_table task) (k_vm k) (v + of_nat i) = translate (k_kernel_cr3 k) (k_vm k) (v + of_nat i)"
    and buf: "buffer_ok role (t_page_table task) (k_vm k) v (length bs)" "buffer_distinct (t_page_table task) (k_vm k) v (length bs)"
  shows "\<exists>vm. sys_clipboard_paste v buf_len k = Some (Some (of_nat (length bs)), k\<lparr>k_vm := vm\<rparr>)
    \<and> user_read (k_kernel_cr3 k) v (length bs) vm = Some bs"
proof -
  obtain vm where vm: "sys_clipboard_paste v buf_len k = Some (Some (of_nat (length bs)), k\<lparr>k_vm := vm\<rparr>)" "vm_wf role roots vm"
    "same_translation roots (k_vm k) vm" "\<And>i. i < length bs \<Longrightarrow> user_byte (t_page_table task) (v + of_nat i) vm = Some (bs ! i)"
    by (rule paste_writes [OF wf(1-3) clip buf]) (rule that, blast+)
  have "user_byte (k_kernel_cr3 k) (v + of_nat i) vm = Some (bs ! i)" if "i < length bs" for i
  proof -
    have "pml4_index (v + of_nat i) \<noteq> RECURSIVE_ENTRY"
      using buf(1) that by (simp add: buffer_ok_def)
    then have "translate (k_kernel_cr3 k) vm (v + of_nat i) = translate (t_page_table task) vm (v + of_nat i)"
      using vm(3) upper(2) that wf(3,4) by (simp add: same_translation_iff)
    then show ?thesis
      using vm(4) [OF that] by (simp add: user_byte_def)
  qed
  then have "user_read (k_kernel_cr3 k) v (length bs) vm = Some bs"
    using user_read_nth [of "length bs" "k_kernel_cr3 k" v vm "(!) bs"] by (simp add: map_nth)
  then show ?thesis
    using vm(1) by blast
qed

text \<open>An address space of a kernel and one of a task, with one page of the upper half that both share.\<close>

definition shared_vm :: Vm where
  "shared_vm = \<lparr>vm_mem = (\<lambda>f i. if (f = 0x1000 \<or> f = 0x6000) \<and> i = 256 then 0x2003 else if f = 0x2000 \<and> i = 0 then 0x3003
       else if f = 0x3000 \<and> i = 0 then 0x4003 else if f = 0x4000 \<and> i = 0 then 0x5003 else 0), vm_pmm = user_pmm\<rparr>"

definition shared_roles :: roles where
  "shared_roles = [0x1000 \<mapsto> (Some 0x1000, []), 0x6000 \<mapsto> (Some 0x6000, []), 0x2000 \<mapsto> (None, [256]), 0x3000 \<mapsto> (None, [256, 0]),
     0x4000 \<mapsto> (None, [256, 0, 0])]"

lemma shared_vm_ok: "vm_wf shared_roles {0x1000, 0x6000} shared_vm"
  "r = 0x1000 \<or> r = 0x6000 \<Longrightarrow> translate r shared_vm 0xFFFF800000000000 = Some 0x5000"
proof -
  show "vm_wf shared_roles {0x1000, 0x6000} shared_vm"
    unfolding vm_wf_def table_ok_def shared_vm_def shared_roles_def
    by (auto simp: user_pmm_ok page_of_def PAGE_SIZE_def Vmm.entry_ok_def edge_def child_role_def pte_is_present_def pte_huge_def
        pte_physical_address_def pte_flags_def PRESENT_def HUGE_PAGE_def split: if_splits)
  have "pml4_index 0xFFFF800000000000 = 256" "pdpt_index 0xFFFF800000000000 = 0" "pd_index 0xFFFF800000000000 = 0" "pt_index 0xFFFF800000000000 = 0"
    by (simp_all add: index_defs)
  then show "translate r shared_vm 0xFFFF800000000000 = Some 0x5000" if "r = 0x1000 \<or> r = 0x6000"
    using that by (auto simp: translate_def Let_def shared_vm_def pte_is_present_def pte_flags_def pte_physical_address_def PRESENT_def HUGE_PAGE_def)
qed

theorem paste_overwrites_kernel_witness:
  "\<exists>vm. sys_clipboard_paste 0xFFFF800000000000 1 (user_kernel\<lparr>k_vm := shared_vm, k_kernel_cr3 := 0x6000, k_clipboard := [0x90]\<rparr>)
       = Some (Some 1, user_kernel\<lparr>k_kernel_cr3 := 0x6000, k_clipboard := [0x90], k_vm := vm\<rparr>)
     \<and> user_read 0x6000 0xFFFF800000000000 1 vm = Some [0x90]"
proof -
  let ?k = "user_kernel\<lparr>k_vm := shared_vm, k_kernel_cr3 := 0x6000, k_clipboard := [0x90]\<rparr>"
  have k: "k_vm ?k = shared_vm" "k_kernel_cr3 ?k = 0x6000" "k_clipboard ?k = [0x90]" "t_page_table (user_task :: unit Task) = 0x1000"
    by (simp_all add: user_task_def)
  have task: "cur_task ?k = Some (Some user_task)"
    using user_kernel_task by (simp add: cur_task_def split: if_splits)
  have i: "256 \<le> pml4_index 0xFFFF800000000000" "pml4_index 0xFFFF800000000000 \<noteq> RECURSIVE_ENTRY"
    by (simp_all add: index_defs RECURSIVE_ENTRY_def)
  have "buffer_ok shared_roles 0x1000 shared_vm 0xFFFF800000000000 1" "buffer_distinct 0x1000 shared_vm 0xFFFF800000000000 1"
    using shared_vm_ok(2) [of "0x1000"] i by (simp_all add: buffer_ok_def buffer_distinct_def inj_on_def shared_roles_def)
  then show ?thesis
    using paste_overwrites_kernel [of shared_roles "{0x1000, 0x6000}" ?k user_task 1 "[0x90]" "0xFFFF800000000000", unfolded k,
        OF shared_vm_ok(1) task] i(1) shared_vm_ok(2) by simp
qed

end
