(* ===== verification/SyscallFiles.thy ===== *)
theory SyscallFiles
  imports SyscallRings
begin

text \<open>
  The system calls on open files, on the mounts of the boot, and the reader of the keyboard: what a task writes is what
  it reads back, through its own memory, its table of open files and the file system in memory.
\<close>

section \<open>The methods of the boot mounts\<close>

text \<open>The file system in memory behind the handles: the boot mounts hold one.\<close>

fun home_fs :: "MountedFs Vfs \<Rightarrow> RamFs" where
  "home_fs ((_, RamMount fs) # _) = fs"
| "home_fs ((_, TarMount _) # ms) = home_fs ms"
| "home_fs [] = ramfs_new"

fun set_home :: "RamFs \<Rightarrow> MountedFs Vfs \<Rightarrow> MountedFs Vfs" where
  "set_home fs ((p, RamMount _) # ms) = (p, RamMount fs) # ms"
| "set_home fs ((p, TarMount raw) # ms) = (p, TarMount raw) # set_home fs ms"
| "set_home fs [] = []"

fun file_read :: "nat \<Rightarrow> OpenFile \<Rightarrow> MountedFs Vfs \<Rightarrow> (FsError + nat) \<times> u8 list \<times> OpenFile \<times> MountedFs Vfs" where
  "file_read n (TarHandle f) vfs = (let len = min (length (tf_data f)) n in (Inr len, take len (tf_data f), TarHandle f, vfs))"
| "file_read n (RamHandle h) vfs =
     (case ram_read (home_fs vfs) h n of
        (Inl e, h) \<Rightarrow> (Inl e, [], RamHandle h, vfs)
      | (Inr out, h) \<Rightarrow> (Inr (length out), out, RamHandle h, vfs))"

fun file_write :: "u8 list \<Rightarrow> OpenFile \<Rightarrow> MountedFs Vfs \<Rightarrow> (FsError + nat) \<times> OpenFile \<times> MountedFs Vfs" where
  "file_write buf (TarHandle f) vfs = (tar_write f buf, TarHandle f, vfs)"
| "file_write buf (RamHandle h) vfs =
     (let (r, fs, h) = ram_write buf (home_fs vfs, h) in (r, RamHandle h, set_home fs vfs))"

text \<open>A file of the archive has the default \<open>seek\<close> of the trait.\<close>

fun file_seek :: "nat \<Rightarrow> OpenFile \<Rightarrow> MountedFs Vfs \<Rightarrow> (FsError + nat) \<times> OpenFile \<times> MountedFs Vfs" where
  "file_seek offset (TarHandle f) vfs = (Inl IoError, TarHandle f, vfs)"
| "file_seek offset (RamHandle h) vfs = (let (r, h) = ram_seek (home_fs vfs) offset h in (r, RamHandle h, vfs))"

definition boot_methods :: "(OpenFile, MountedFs Vfs) Methods" where
  "boot_methods = \<lparr>m_open = vfs_open, m_read_dir = vfs_read_dir, m_mkdir = vfs_mkdir, m_remove = vfs_remove,
     m_read = file_read, m_write = file_write, m_seek = file_seek\<rparr>"

abbreviation boot_vfs :: "TarArchive \<Rightarrow> RamFs \<Rightarrow> MountedFs Vfs" where
  "boot_vfs tar fs \<equiv> [(''/'', TarMount tar), (''/home'', RamMount fs)]"

section \<open>Open files of the current task\<close>

lemma cur_task_set [simp]:
  assumes "cur_task k = Some (Some t0)"
  shows "cur_task (set_cur t k) = Some (Some t)"
proof -
  have "sc_current (k_sched k) < MAX_TASKS" "task_at (k_sched k) (sc_current (k_sched k)) = Some t0"
    using assms by (simp_all add: cur_task_def split: if_splits)
  then show ?thesis
    by (simp add: cur_task_def set_cur_def set_task_def task_at_def split: if_splits)
qed

lemma set_cur_fields [simp]:
  "k_vm (set_cur t k) = k_vm k" "k_vfs (set_cur t k) = k_vfs k" "cur_task (k\<lparr>k_vm := vm\<rparr>) = cur_task k" "cur_task (k\<lparr>k_vfs := fs\<rparr>) = cur_task k"
  by (simp_all add: set_cur_def cur_task_def)

lemma user_cr3_task: "cur_task k = Some (Some task) \<Longrightarrow> user_cr3 k = Some (t_page_table task)"
  by (simp add: user_cr3_def)

lemma with_file_ok:
  assumes "cur_task k = Some (Some task)" "unat fd < length (t_fds task)" "t_fds task ! unat fd = Some file"
    "call file (k_vfs k) = Some (n, file', fs, vm)"
  shows "with_file fd call k = Some (Some n, set_cur (task\<lparr>t_fds := (t_fds task)[unat fd := Some file']\<rparr>) (k\<lparr>k_vfs := fs, k_vm := vm\<rparr>))"
  using assms by (simp add: with_file_def returns_def)

text \<open>An open file in memory, as the calls see it: the task, the memory, the handle and the file system.\<close>

definition ram_open_at :: "u64 \<Rightarrow> (OpenFile, MountedFs Vfs) Kernel \<Rightarrow> OpenFile Task \<Rightarrow> TarArchive \<Rightarrow> RamFs \<Rightarrow> RamFsFileHandle \<Rightarrow> bool" where
  "ram_open_at fd k task tar fs h \<longleftrightarrow> cur_task k = Some (Some task) \<and> t_page_table task \<noteq> 0 \<and> 3 \<le> unat fd \<and> unat fd < length (t_fds task)
     \<and> t_fds task ! unat fd = Some (RamHandle h) \<and> k_vfs k = boot_vfs tar fs \<and> rh_file h < length (rf_files fs)"

lemma ram_open_at_set:
  assumes "ram_open_at fd k task tar fs h" "rh_file h' < length (rf_files fs')" "t' = task\<lparr>t_fds := (t_fds task)[unat fd := Some (RamHandle h')]\<rparr>"
  shows "ram_open_at fd (set_cur t' (k\<lparr>k_vfs := boot_vfs tar fs', k_vm := vm\<rparr>)) t' tar fs' h'"
  using assms by (auto simp: ram_open_at_def)


lemma user_read_length: "user_read pt v n s = Some bs \<Longrightarrow> length bs = n"
  by (induction n arbitrary: v bs) (auto split: option.splits)

lemma descriptor_neq: "3 \<le> unat (fd :: u64) \<Longrightarrow> fd \<noteq> 0 \<and> fd \<noteq> 1 \<and> fd \<noteq> 2"
  by auto

abbreviation with_handle :: "u64 \<Rightarrow> RamFsFileHandle \<Rightarrow> OpenFile Task \<Rightarrow> OpenFile Task" where
  "with_handle fd h task \<equiv> task\<lparr>t_fds := (t_fds task)[unat fd := Some (RamHandle h)]\<rparr>"

text \<open>The three calls on such a file.\<close>

lemma sys_write_ram:
  assumes at: "ram_open_at fd k task tar fs h" and buf: "src \<noteq> 0" "n \<noteq> 0" "src + n \<le> 0x0000800000000000"
    "user_read (t_page_table task) src (unat n) (k_vm k) = Some bs" and w: "ram_write bs (fs, h) = (Inr (unat n), fs', h')"
  shows "sys_write boot_methods fd src n k = Some (Some n, set_cur (with_handle fd h' task) (k\<lparr>k_vfs := boot_vfs tar fs', k_vm := k_vm k\<rparr>))"
proof -
  have a: "cur_task k = Some (Some task)" "t_page_table task \<noteq> 0" "unat fd < length (t_fds task)" "t_fds task ! unat fd = Some (RamHandle h)"
    "k_vfs k = boot_vfs tar fs" "fd \<noteq> 0 \<and> fd \<noteq> 1 \<and> fd \<noteq> 2"
    using at descriptor_neq by (simp_all add: ram_open_at_def)
  have "\<not> src + n > 0x0000800000000000"
    using buf(3) by simp
  then have "sys_write boot_methods fd src n k = with_file fd (\<lambda>file fs.
      let (r, file, fs) = m_write boot_methods bs file fs in Some (case r of Inr n \<Rightarrow> of_nat n | Inl _ \<Rightarrow> - 1, file, fs, k_vm k)) k"
    using a buf by (simp add: sys_write_def read_user_buf_def user_cr3_task [OF a(1)])
  then show ?thesis
    by (rule trans, intro with_file_ok [OF a(1,3,4)]) (use w in \<open>simp add: a(5) boot_methods_def\<close>)
qed

lemma sys_lseek_ram:
  assumes at: "ram_open_at fd k task tar fs h" and off: "unat off \<le> length (rf_files fs ! rh_file h)"
  shows "sys_lseek boot_methods fd off k = Some (Some off, set_cur (with_handle fd (h\<lparr>rh_cursor := unat off\<rparr>) task) (k\<lparr>k_vfs := boot_vfs tar fs, k_vm := k_vm k\<rparr>))"
proof -
  have a: "cur_task k = Some (Some task)" "unat fd < length (t_fds task)" "t_fds task ! unat fd = Some (RamHandle h)" "k_vfs k = boot_vfs tar fs"
    using at by (simp_all add: ram_open_at_def)
  show ?thesis
    unfolding sys_lseek_def
    by (rule with_file_ok [OF a(1-3)]) (use off in \<open>simp add: a(4) boot_methods_def ram_seek_def\<close>)
qed

lemma sys_read_ram:
  assumes at: "ram_open_at fd k task tar fs h" and buf: "dst \<noteq> 0" "n \<noteq> 0" and r: "ram_read fs h (unat n) = (Inr out, h')"
    and w: "user_write (t_page_table task) dst out (k_vm k) = Some vm"
  shows "sys_read boot_methods regs fp fd dst n k
     = Some (Some (of_nat (length out)), set_cur (with_handle fd h' task) (k\<lparr>k_vfs := boot_vfs tar fs, k_vm := vm\<rparr>))"
proof -
  have a: "cur_task k = Some (Some task)" "t_page_table task \<noteq> 0" "unat fd < length (t_fds task)" "t_fds task ! unat fd = Some (RamHandle h)"
    "k_vfs k = boot_vfs tar fs" "fd \<noteq> 0 \<and> fd \<noteq> 1 \<and> fd \<noteq> 2"
    using at descriptor_neq by (simp_all add: ram_open_at_def)
  have "sys_read boot_methods regs fp fd dst n k = with_file fd (\<lambda>file fs.
      let (r, out, file, fs) = m_read boot_methods (unat n) file fs
      in user_write (t_page_table task) dst out (k_vm k) \<bind> (\<lambda>vm. Some (case r of Inr n \<Rightarrow> of_nat n | Inl _ \<Rightarrow> - 1, file, fs, vm))) k"
    using a buf by (simp add: sys_read_def user_cr3_task [OF a(1)])
  then show ?thesis
    by (rule trans, intro with_file_ok [OF a(1,3,4)]) (use r w in \<open>simp add: a(5) boot_methods_def\<close>)
qed


section \<open>Writing and reading back\<close>

text \<open>The contents of a file after a write at a position.\<close>

definition written :: "nat \<Rightarrow> u8 list \<Rightarrow> u8 list \<Rightarrow> u8 list" where
  "written c bs data = take c data @ replicate (c - length data) 0 @ bs @ drop (c + length bs) data"

lemma ram_write_written:
  "ram_write bs (fs, h) = (Inr (length bs), fs\<lparr>rf_files := (rf_files fs)[rh_file h := written (rh_cursor h) bs (rf_files fs ! rh_file h)]\<rparr>,
     h\<lparr>rh_cursor := rh_cursor h + length bs\<rparr>)"
  by (auto simp: ram_write_def written_def Let_def min_def not_less)

lemma written_part: "take (length bs) (drop c (written c bs data)) = bs" "c + length bs \<le> length (written c bs data)"
  by (auto simp: written_def min_def)

lemma ram_read_written:
  assumes "rh_file h < length (rf_files fs)"
  shows "ram_read (fs\<lparr>rf_files := (rf_files fs)[rh_file h := written (rh_cursor h) bs data]\<rparr>) h (length bs)
     = (Inr bs, h\<lparr>rh_cursor := rh_cursor h + length bs\<rparr>)"
proof -
  let ?w = "written (rh_cursor h) bs data"
  have "min (length ?w - rh_cursor h) (length bs) = length bs"
    using written_part(2) [of "rh_cursor h" bs data] by simp
  moreover have "bs = []" if "length ?w \<le> rh_cursor h"
    using le_trans [OF written_part(2) [of "rh_cursor h" bs data] that] by simp
  ultimately show ?thesis
    using assms written_part(1) [of bs "rh_cursor h" data] by (auto simp: ram_read_def Let_def)
qed

text \<open>C10: Through the system calls: what a task writes to an open file in memory, seeks back over and reads, arrives in the
  second buffer, whichever part of its memory that is.  The file holds the bytes at the old position, no other file
  changes, and every address space translates as before.\<close>

theorem write_read_back:
  assumes wf: "vm_wf role roots (k_vm k)" and at: "ram_open_at fd k task tar fs h" and pt: "t_page_table task \<in> roots"
    and buf: "src \<noteq> 0" "dst \<noteq> 0" "n \<noteq> 0" "src + n \<le> 0x0000800000000000" "user_read (t_page_table task) src (unat n) (k_vm k) = Some bs"
      "buffer_ok role (t_page_table task) (k_vm k) dst (unat n)" "buffer_distinct (t_page_table task) (k_vm k) dst (unat n)"
    and c: "unat c = rh_cursor h"
  shows "\<exists>k1 k2 k3. sys_write boot_methods fd src n k = Some (Some n, k1) \<and> sys_lseek boot_methods fd c k1 = Some (Some c, k2)
    \<and> sys_read boot_methods regs fp fd dst n k2 = Some (Some n, k3)
    \<and> user_read (t_page_table task) dst (unat n) (k_vm k3) = Some bs
    \<and> k_vfs k3 = boot_vfs tar (fs\<lparr>rf_files := (rf_files fs)[rh_file h := written (rh_cursor h) bs (rf_files fs ! rh_file h)]\<rparr>)
    \<and> vm_wf role roots (k_vm k3) \<and> same_translation roots (k_vm k) (k_vm k3)"
proof -
  let ?pt = "t_page_table task" and ?h1 = "h\<lparr>rh_cursor := rh_cursor h + length bs\<rparr>"
  let ?fs = "fs\<lparr>rf_files := (rf_files fs)[rh_file h := written (rh_cursor h) bs (rf_files fs ! rh_file h)]\<rparr>"
  define t1 where "t1 = with_handle fd ?h1 task"
  define k1 where "k1 = set_cur t1 (k\<lparr>k_vfs := boot_vfs tar ?fs, k_vm := k_vm k\<rparr>)"
  define t2 where "t2 = with_handle fd (?h1\<lparr>rh_cursor := unat c\<rparr>) t1"
  define k2 where "k2 = set_cur t2 (k1\<lparr>k_vfs := boot_vfs tar ?fs, k_vm := k_vm k1\<rparr>)"
  have len: "length bs = unat n"
    by (rule user_read_length [OF buf(5)])
  have nr: "rh_file h < length (rf_files fs)"
    using at by (simp add: ram_open_at_def)
  have w: "sys_write boot_methods fd src n k = Some (Some n, k1)"
    unfolding k1_def t1_def using ram_write_written [of bs fs h] by (intro sys_write_ram [OF at buf(1,3,4,5)]) (simp add: len)
  have at1: "ram_open_at fd k1 t1 tar ?fs ?h1"
    unfolding k1_def by (rule ram_open_at_set [OF at _ t1_def]) (use nr in simp)
  have l: "sys_lseek boot_methods fd c k1 = Some (Some c, k2)"
    unfolding k2_def t2_def by (rule sys_lseek_ram [OF at1]) (use nr c add_leD1 [OF written_part(2) [of "rh_cursor h" bs]] in simp)
  have at2: "ram_open_at fd k2 t2 tar ?fs (?h1\<lparr>rh_cursor := unat c\<rparr>)"
    unfolding k2_def by (rule ram_open_at_set [OF at1 _ t2_def]) (use nr in simp)
  have t2: "t_page_table t2 = ?pt" "k_vm k2 = k_vm k"
    by (simp_all add: t2_def t1_def k2_def k1_def)
  obtain vm where vm: "user_write ?pt dst bs (k_vm k) = Some vm" "vm_wf role roots vm" "same_translation roots (k_vm k) vm"
    by (rule user_write_ok [OF wf pt, of dst bs]) (use buf(6) len in auto)
  have r: "sys_read boot_methods regs fp fd dst n k2
      = Some (Some (of_nat (length bs)), set_cur (with_handle fd ?h1 t2) (k2\<lparr>k_vfs := boot_vfs tar ?fs, k_vm := vm\<rparr>))"
    by (rule sys_read_ram [OF at2 buf(2,3)]) (use vm(1) ram_read_written [OF nr, of bs] in \<open>simp_all add: t2 c len\<close>)
  have "user_read ?pt dst (unat n) vm = Some bs"
    using user_write_read [OF wf pt _ _ vm(1)] buf(6,7) len by simp
  then show ?thesis
    using w l r vm by (simp add: len)
qed


text \<open>The task of the example with an open file of one byte as descriptor 3.\<close>

definition file_task :: "OpenFile Task" where
  "file_task = user_task\<lparr>t_fds := [None, None, None, Some (RamHandle \<lparr>rh_file = 0, rh_cursor = 1\<rparr>)]\<rparr>"

definition file_kernel :: "(OpenFile, MountedFs Vfs) Kernel" where
  "file_kernel = \<lparr>k_sched = set_task 0 file_task (sched_new\<lparr>sc_current := 0\<rparr>), k_vm = user_vm, k_vfs = boot_vfs [] \<lparr>rf_files = [[7]], rf_dirs = [[]]\<rparr>,
     k_kernel_cr3 = 0x1000, k_keyboard = kb_new, k_keyboard_waiting = NO_TASK, k_mouse = mouse_boot, k_clipboard = [], k_initrd = [], k_ipc_rings = []\<rparr>"

lemma file_kernel_open: "ram_open_at 3 file_kernel file_task [] \<lparr>rf_files = [[7]], rf_dirs = [[]]\<rparr> \<lparr>rh_file = 0, rh_cursor = 1\<rparr>"
  by (simp add: ram_open_at_def cur_task_def file_kernel_def file_task_def user_task_def set_task_def sched_new_def task_at_def MAX_TASKS_def)

lemma user_vm_buffer: "n \<le> 4096 \<Longrightarrow> buffer_ok user_roles 0x1000 user_vm 0x400000 n \<and> buffer_distinct 0x1000 user_vm 0x400000 n"
proof -
  assume n: "n \<le> 4096"
  obtain d where d: "page_frame user_roles 0x1000 user_vm d 0x400"
    using user_vm_page by (auto simp: page_shows_def page_frame_def)
  show ?thesis
    using page_frame_buffer [OF d _ n] by simp
qed

theorem write_read_back_witness:
  "\<exists>k1 k2 k3. sys_write boot_methods 3 0x400001 1 file_kernel = Some (Some 1, k1) \<and> sys_lseek boot_methods 3 1 k1 = Some (Some 1, k2)
    \<and> sys_read boot_methods example_regs 0 3 0x400000 1 k2 = Some (Some 1, k3) \<and> user_read 0x1000 0x400000 1 (k_vm k3) = Some [0x68]
    \<and> k_vfs k3 = boot_vfs [] \<lparr>rf_files = [[7, 0x68]], rf_dirs = [[]]\<rparr>"
proof -
  have k: "k_vm file_kernel = user_vm" "t_page_table file_task = 0x1000"
    by (simp_all add: file_kernel_def file_task_def user_task_def)
  have one: "unat (1 :: u64) = Suc 0"
    by simp
  have "user_read 0x1000 0x400001 (unat (1 :: u64)) user_vm = Some [0x68]"
    unfolding one using user_vm_bytes by simp
  then show ?thesis
    using write_read_back [of user_roles "{0x1000}" file_kernel 3 file_task "[]" "\<lparr>rf_files = [[7]], rf_dirs = [[]]\<rparr>" "\<lparr>rh_file = 0, rh_cursor = 1\<rparr>"
        "0x400001" "0x400000" 1 "[0x68]" 1 example_regs 0] user_vm_wf file_kernel_open user_vm_buffer [of "unat (1 :: u64)"]
    unfolding k by (auto simp: written_def)
qed

section \<open>Reading the keyboard\<close>

lemma kb_pops_contents:
  assumes "kb_wf b" "kb_pops n b = (chs, b')"
  shows "kb_wf b' \<and> chs = take n (kb_contents b) \<and> kb_contents b' = drop n (kb_contents b)"
  using assms
proof (induction n arbitrary: b chs b')
  case (Suc n)
  note p = kb_pop_cases [OF Suc.prems(1)]
  show ?case
  proof (cases "kb_contents b")
    case Nil
    then show ?thesis
      using Suc.prems(2) p by (auto split: prod.splits option.splits)
  next
    case (Cons c cs)
    then obtain b1 where b1: "kb_pop b = (Some c, b1)" "kb_wf b1" "kb_contents b1 = cs"
      using p by (cases "kb_pop b") auto
    obtain rest b2 where rest: "kb_pops n b1 = (rest, b2)"
      by force
    then show ?thesis
      using Suc.IH [OF b1(2) rest] Suc.prems(2) b1 Cons by auto
  qed
qed simp

lemma kb_empty_contents: "kb_is_empty b \<longleftrightarrow> kb_contents b = []"
  by (simp add: kb_is_empty_def flip: length_0_conv)

text \<open>A round that finds characters copies as many as fit and keeps the rest.\<close>

lemma keyboard_round_copies:
  assumes wf: "vm_wf role roots (k_vm k)" "pt \<in> roots" and kb: "kb_wf (k_keyboard k)" "kb_contents (k_keyboard k) \<noteq> []"
    and n: "n = min (unat count) (length (kb_contents (k_keyboard k)))" and buf: "buffer_ok role pt (k_vm k) dst n" "buffer_distinct pt (k_vm k) dst n"
  obtains k' where "read_keyboard_round regs fp pt dst count k = Some (Some (of_nat n), k')" "vm_wf role roots (k_vm k')"
    "user_read pt dst n (k_vm k') = Some (take n (kb_contents (k_keyboard k)))" "kb_wf (k_keyboard k')"
    "kb_contents (k_keyboard k') = drop n (kb_contents (k_keyboard k))"
proof -
  let ?xs = "kb_contents (k_keyboard k)"
  obtain chs b where p: "kb_pops n (k_keyboard k) = (chs, b)"
    by force
  note c = kb_pops_contents [OF kb(1) p]
  have len: "length (take n ?xs) = n"
    using n by simp
  obtain vm where vm: "user_write pt dst (take n ?xs) (k_vm k) = Some vm" "vm_wf role roots vm"
    by (rule user_write_ok [OF wf, of dst "take n ?xs"]) (use buf(1) len in auto)
  have "\<not> kb_is_empty (k_keyboard k)" "min (unat count) (kb_count (k_keyboard k)) = n"
    using kb(2) n by (simp_all add: kb_empty_contents)
  then have "read_keyboard_round regs fp pt dst count k = Some (Some (of_nat n), k\<lparr>k_keyboard := b, k_vm := vm\<rparr>)"
    using p c vm(1) by (simp add: read_keyboard_round_def returns_def)
  moreover have "user_read pt dst n vm = Some (take n ?xs)"
    using user_write_read [OF wf _ _ vm(1)] buf len by simp
  ultimately show thesis
    using that c vm(2) by simp
qed

text \<open>C29: A reader that finds no character, while another task is ready, blocks; the next key that gives a character makes it
  ready, and when it runs again its buffer gets the character.  The task is woken by its slot as if that were its id, so that
  the id must be the slot.\<close>

theorem blocked_reader_gets_key:
  assumes wf: "vm_wf role roots (k_vm k)" and task: "cur_task k = Some (Some task)" "t_page_table task \<in> roots" "t_page_table task \<noteq> 0"
    and st: "started (k_sched k)" "\<exists>j. states (k_sched k) j = Some Ready" "find_task (sc_current (k_sched k)) (k_sched k) = Some (sc_current (k_sched k))"
    and kb: "kb_wf (k_keyboard k)" "kb_contents (k_keyboard k) = []" and key: "scancode_effect code m = (Some ch, m')"
    and buf: "dst \<noteq> 0" "count \<noteq> 0" "buffer_ok role (t_page_table task) (k_vm k) dst 1"
  shows "\<exists>k1 kb s. sys_read methods regs fp 0 dst count k = Some (None, k1) \<and> states (k_sched k1) (sc_current (k_sched k)) = Some Blocked
    \<and> handle_scancode code (m, k_keyboard k1, k_keyboard_waiting k1, k_sched k1) = (Some ch, m', kb, NO_TASK, s)
    \<and> states s (sc_current (k_sched k)) = Some Ready
    \<and> (\<forall>sched regs fp. \<exists>k2. read_keyboard_round regs fp (t_page_table task) dst count (k1\<lparr>k_keyboard := kb, k_sched := sched\<rparr>) = Some (Some 1, k2)
         \<and> user_byte (t_page_table task) dst (k_vm k2) = Some ch)"
proof -
  let ?c = "sc_current (k_sched k)" and ?pt = "t_page_table task"
  have w: "reason_ok Waiting"
    by (simp add: reason_ok_def)
  obtain s1 where s1: "block_current Waiting regs fp (k_sched k) = Some s1" "states s1 ?c = Some Blocked"
    using block_current_blocks [OF st(1) w st(2), of regs fp] by metis
  define k1 where "k1 = k\<lparr>k_keyboard_waiting := ?c, k_sched := s1\<rparr>"
  have read: "sys_read methods regs fp 0 dst count k = Some (None, k1)"
    using buf(1,2) task(3) kb(2) s1(1)
    by (simp add: sys_read_def user_cr3_task [OF task(1)] read_keyboard_round_def kb_empty_contents current_slot_def k1_def)
  have "find_task ?c s1 = Some ?c"
    using st(3) block_current_ids [OF st(1) w s1(1)] by (simp add: find_task_ids)
  then have ready: "states (wake_task ?c s1) ?c = Some Ready"
    using wake_task_blocked s1(2) by (metis fun_upd_same)
  define b where "b = kb_push (k_keyboard k) ch"
  have scan: "handle_scancode code (m, k_keyboard k1, k_keyboard_waiting k1, k_sched k1) = (Some ch, m', b, NO_TASK, wake_task ?c s1)"
    using key started_cur(2) [OF st(1)] by (simp add: handle_scancode_def push_keyboard_char_def k1_def b_def)
  have b: "kb_wf b" "kb_contents b = [ch]"
    using kb kb_length [of "k_keyboard k"] by (simp_all add: b_def kb_push_contents)
  have again: "\<exists>k2. read_keyboard_round regs fp ?pt dst count (k1\<lparr>k_keyboard := b, k_sched := sched\<rparr>) = Some (Some 1, k2)
       \<and> user_byte ?pt dst (k_vm k2) = Some ch" for sched regs fp
  proof -
    have "0 < unat count"
      using buf(2) by (simp add: unat_gt_0)
    then have one: "1 = min (unat count) (length (kb_contents b))"
      by (simp add: b)
    obtain k2 where "read_keyboard_round regs fp ?pt dst count (k1\<lparr>k_keyboard := b, k_sched := sched\<rparr>) = Some (Some (of_nat 1), k2)"
      "user_read ?pt dst 1 (k_vm k2) = Some (take 1 (kb_contents b))"
      by (rule keyboard_round_copies [of role roots "k1\<lparr>k_keyboard := b, k_sched := sched\<rparr>" ?pt 1 count dst])
        (use wf task(2) b one buf(3) in \<open>auto simp: k1_def buffer_distinct_def inj_on_def\<close>)
    then show ?thesis
      by (auto simp: b(2) split: option.splits)
  qed
  have "states (k_sched k1) ?c = Some Blocked"
    using s1(2) by (simp add: k1_def)
  then show ?thesis
    using read scan ready again by blast
qed


text \<open>No file system at all.\<close>

definition no_files :: "(unit, unit) Methods" where
  "no_files = \<lparr>m_open = \<lambda>_ fs. (Inl FsError.NotFound, fs), m_read_dir = \<lambda>_ fs. (Inl FsError.NotFound, fs), m_mkdir = \<lambda>_ fs. (Inl FsError.NotFound, fs),
     m_remove = \<lambda>_ fs. (Inl FsError.NotFound, fs), m_read = \<lambda>_ f fs. (Inl FsError.IoError, [], f, fs), m_write = \<lambda>_ f fs. (Inl FsError.IoError, f, fs),
     m_seek = \<lambda>_ f fs. (Inl FsError.IoError, f, fs)\<rparr>"

theorem blocked_reader_gets_key_witness:
  "\<exists>k1 kb s k2. sys_read no_files example_regs 0 0 0x400000 8 (user_kernel\<lparr>k_sched := example_sched\<rparr>) = Some (None, k1)
    \<and> handle_scancode 0x1E (\<lparr>LCTRL_PRESSED = False, LSHIFT_PRESSED = False\<rparr>, k_keyboard k1, k_keyboard_waiting k1, k_sched k1)
      = (Some 0x61, \<lparr>LCTRL_PRESSED = False, LSHIFT_PRESSED = False\<rparr>, kb, NO_TASK, s) \<and> states s 0 = Some Ready
    \<and> read_keyboard_round example_regs 0 0x1000 0x400000 8 (k1\<lparr>k_keyboard := kb, k_sched := example_sched\<rparr>) = Some (Some 1, k2)
    \<and> user_byte 0x1000 0x400000 (k_vm k2) = Some 0x61"
proof -
  let ?k = "user_kernel\<lparr>k_sched := example_sched\<rparr>" and ?m = "\<lparr>LCTRL_PRESSED = False, LSHIFT_PRESSED = False\<rparr>"
  have task: "cur_task ?k = Some (Some (example_task 0 Running))" "t_page_table (example_task 0 Running) = 0x1000" "sc_current example_sched = 0"
    by (simp_all add: cur_task_def example_task_at MAX_TASKS_def) (simp_all add: example_sched_def example_task_def)
  have ready: "\<exists>j. states example_sched j = Some Ready"
    by (rule exI [of _ 1]) (simp add: states_def example_task_at example_task_def)
  have key: "scancode_effect 0x1E ?m = (Some 0x61, ?m)"
    by (simp add: scancode_effect_def key_char_def SCANCODE_MAP_def Let_def)
  have k: "k_vm ?k = user_vm" "k_sched ?k = example_sched" "k_keyboard ?k = kb_new"
    by (simp_all add: user_kernel_def)
  have b: "buffer_ok user_roles 0x1000 user_vm 0x400000 1"
    using user_vm_buffer [of 1] by simp
  show ?thesis
    using blocked_reader_gets_key [of user_roles "{0x1000}" ?k "example_task 0 Running" "0x1E" ?m "0x61" ?m "0x400000" 8 no_files example_regs 0,
        unfolded k task(2,3), OF user_vm_wf task(1) _ _ example_started ready _ kb_new_wf key _ _ b]
    using example_find by (simp add: task(3)) blast
qed

end
