(* ===== verification/IoUring.thy ===== *)
theory IoUring
  imports SyscallFiles
begin

text \<open>
  The submission and completion rings of \<open>kernel/src/io_uring/mod.rs\<close> and their system calls.  Each ring is a frame
  that the program maps and fills; the kernel reads and writes it by physical address, so that a slot past the end
  of the frame is the memory behind it.  A request may block in \<open>sys_read\<close>; then the result has no number.  Nothing
  calls \<open>sq_poll_once\<close> and \<open>adaptive_wait\<close>.
\<close>

section \<open>State\<close>

abbreviation (input) IOURING_MAX_ENTRIES :: u32 where "IOURING_MAX_ENTRIES \<equiv> 128"
abbreviation (input) MAX_REGISTERED_BUFS :: nat where "MAX_REGISTERED_BUFS \<equiv> 16"
abbreviation (input) SQE_SIZE :: nat where "SQE_SIZE \<equiv> 40"
abbreviation (input) CQE_SIZE :: nat where "CQE_SIZE \<equiv> 24"
abbreviation (input) RING_HEADER_SIZE :: nat where "RING_HEADER_SIZE \<equiv> 32"
abbreviation (input) SQE_CHAIN :: u8 where "SQE_CHAIN \<equiv> 1"
abbreviation (input) SQE_FIXED_FILE :: u8 where "SQE_FIXED_FILE \<equiv> 4"

record RingCounters =
  rc_submitted :: u64
  rc_completed :: u64
  rc_zero_copy :: u64
  rc_chains :: u64
  rc_fixed_file_hits :: u64

record IoUringSQEntry =
  sq_opcode :: u8
  sq_flags :: u8
  sq_fd :: u64
  sq_addr :: u64
  sq_len :: u64
  sq_user_data :: u64

record RegisteredBuffer =
  rb_user_addr :: u64
  rb_size :: u64
  rb_buf_id :: u16
  rb_active :: bool

record IoUring =
  ur_sq_phys :: u64
  ur_cq_phys :: u64
  ur_entries :: u32
  ur_page_table :: u64
  ur_bufs :: "RegisteredBuffer list"
  ur_fixed_files :: "u64 option list"
  ur_sq_poll :: bool
  ur_counters :: RingCounters
  ur_chain_result :: i64

text \<open>Writing a little-endian value to physical memory; \<open>phys_field\<close> reads one.\<close>

definition phys_store :: "nat \<Rightarrow> u64 \<Rightarrow> 'a::len word \<Rightarrow> Vm \<Rightarrow> Vm" where
  "phys_store n p v s = fold (\<lambda>i s. phys_write s (p + of_nat i) (ucast (drop_bit (8 * i) v))) [0..<n] s"

definition io_uring_new :: "u32 \<Rightarrow> u64 \<Rightarrow> u64 \<Rightarrow> Vm \<Rightarrow> IoUring option \<times> Vm" where
  "io_uring_new n page_table fl s =
     (let n = max (min n IOURING_MAX_ENTRIES) 1
      in case vm_alloc_page '''' s of
           (Inl _, s) \<Rightarrow> (None, s)
         | (Inr sq_phys, s) \<Rightarrow>
             (case vm_alloc_page '''' s of
                (Inl _, s) \<Rightarrow> (None, s)
              | (Inr cq_phys, s) \<Rightarrow>
                  (Some \<lparr>ur_sq_phys = sq_phys, ur_cq_phys = cq_phys, ur_entries = n, ur_page_table = page_table,
                      ur_bufs = replicate MAX_REGISTERED_BUFS \<lparr>rb_user_addr = 0, rb_size = 0, rb_buf_id = 0, rb_active = False\<rparr>,
                      ur_fixed_files = [], ur_sq_poll = (fl AND 1 \<noteq> 0),
                      ur_counters = \<lparr>rc_submitted = 0, rc_completed = 0, rc_zero_copy = 0, rc_chains = 0, rc_fixed_file_hits = 0\<rparr>,
                      ur_chain_result = 0\<rparr>,
                   phys_store 4 (sq_phys + 20) n (phys_store 4 (sq_phys + 8) n (vm_zero_page cq_phys (vm_zero_page sq_phys s))))))"

definition register_buffer :: "u16 \<Rightarrow> u64 \<Rightarrow> u64 \<Rightarrow> IoUring \<Rightarrow> bool \<times> IoUring" where
  "register_buffer buf_id user_addr sz ring =
     (if unat buf_id \<ge> MAX_REGISTERED_BUFS then (False, ring)
      else (True, ring\<lparr>ur_bufs := (ur_bufs ring)[unat buf_id := \<lparr>rb_user_addr = user_addr, rb_size = sz, rb_buf_id = buf_id, rb_active = True\<rparr>]\<rparr>))"

definition unregister_buffer :: "u16 \<Rightarrow> IoUring \<Rightarrow> IoUring" where
  "unregister_buffer buf_id ring =
     (if unat buf_id < MAX_REGISTERED_BUFS
      then ring\<lparr>ur_bufs := (ur_bufs ring)[unat buf_id := (ur_bufs ring ! unat buf_id)\<lparr>rb_active := False\<rparr>]\<rparr>
      else ring)"

section \<open>Completions\<close>

definition push_cqe :: "u64 \<Rightarrow> i64 \<Rightarrow> u32 \<Rightarrow> IoUring \<Rightarrow> Vm \<Rightarrow> Vm" where
  "push_cqe user_data result fl ring s =
     (let head = phys_field s (ur_cq_phys ring) 0 4 :: u32; tail = phys_field s (ur_cq_phys ring) 4 4
      in if tail - head \<ge> ur_entries ring then s
         else let cqe = ur_cq_phys ring + of_nat (RING_HEADER_SIZE + unat tail mod unat (ur_entries ring) * CQE_SIZE)
              in phys_store 4 (ur_cq_phys ring + 4) (tail + 1)
                   (phys_store 4 (cqe + 16) fl (phys_store 8 (cqe + 8) result (phys_store 8 cqe user_data s))))"

section \<open>Requests\<close>

type_synonym ('f, 'fs) ring_call = "IoUring \<times> ('f, 'fs) Kernel \<Rightarrow> (i64 option \<times> IoUring \<times> ('f, 'fs) Kernel) or_panic"

text \<open>A read into a fresh frame that replaces the page of a registered buffer.\<close>

definition read_zc :: "('f, 'fs) Methods \<Rightarrow> IoUringSQEntry \<Rightarrow> ('f, 'fs) ring_call" where
  "read_zc m sqe = (\<lambda>(ring, k).
     let buf_id = unat (sq_flags sqe AND 0x0F)
     in if buf_id \<ge> MAX_REGISTERED_BUFS \<or> \<not> rb_active (ur_bufs ring ! buf_id) then Some (Some (- 1), ring, k)
        else let buf = ur_bufs ring ! buf_id
             in case vm_alloc_page '''' (k_vm k) of
                  (Inl _, vm) \<Rightarrow> Some (Some (- 1), ring, k\<lparr>k_vm := vm\<rparr>)
                | (Inr phys, vm) \<Rightarrow>
                    do { (r, k) \<leftarrow> read_file_into_phys m (sq_fd sqe) phys (min (min (sq_len sqe) (rb_size buf)) 4096) (k\<lparr>k_vm := vm\<rparr>);
                         case r of
                           None \<Rightarrow> Some (None, ring, k)
                         | Some result \<Rightarrow>
                             if 0 < sint result
                             then let aligned_addr = rb_user_addr buf AND NOT 0xFFF;
                                      vm = snd (unmap_page (ur_page_table ring) aligned_addr (vmm_new (ur_page_table ring) (k_vm k)));
                                      vm = snd (map_page_with_flags (ur_page_table ring) aligned_addr phys (PRESENT OR USER OR WRITABLE) vm)
                                  in Some (Some result, ring, k\<lparr>k_vm := vm\<rparr>)
                             else Some (Some result, ring, k\<lparr>k_vm := (k_vm k)\<lparr>vm_pmm := free_page phys (vm_pmm (k_vm k))\<rparr>\<rparr>) })"

text \<open>Vectored reads and writes over at most 16 pairs of an address and a length.  \<open>short\<close> ends a read at the first part
  that is not filled.\<close>

fun vectored :: "bool \<Rightarrow> (u64 \<Rightarrow> u64 \<Rightarrow> ('f, 'fs) syscall) \<Rightarrow> u64 \<Rightarrow> u64 \<Rightarrow> nat \<Rightarrow> i64 \<Rightarrow> ('f, 'fs) syscall" where
  "vectored short call pt iovec_addr 0 acc k = Some (Some acc, k)"
| "vectored short call pt iovec_addr (Suc n) acc k =
     do { base \<leftarrow> user_read pt iovec_addr 8 (k_vm k);
          len \<leftarrow> user_read pt (iovec_addr + 8) 8 (k_vm k);
          (r, k) \<leftarrow> call (field base 0 8) (field len 0 8) k;
          case r of
            None \<Rightarrow> Some (None, k)
          | Some ret \<Rightarrow>
              if sint ret < 0 then Some (Some (if 0 < sint acc then acc else ret), k)
              else if short \<and> sint ret < sint (field len 0 8 :: i64) then Some (Some (acc + ret), k)
              else vectored short call pt (iovec_addr + 16) n (acc + ret) k }"

text \<open>Running one request; other operation codes, \<open>NOP\<close> among them, give \<open>-1\<close>.\<close>

definition exec_sqe :: "('f, 'fs) Methods \<Rightarrow> AllRegisters \<Rightarrow> u64 \<Rightarrow> IoUringSQEntry \<Rightarrow> ('f, 'fs) ring_call" where
  "exec_sqe m regs fp sqe = (\<lambda>(ring, k).
     let c = (ur_counters ring)\<lparr>rc_submitted := rc_submitted (ur_counters ring) + 1\<rparr>;
         fixed = (sq_flags sqe AND SQE_FIXED_FILE \<noteq> 0 \<and> unat (sq_fd sqe) < length (ur_fixed_files ring));
         fd = (if fixed then (case ur_fixed_files ring ! unat (sq_fd sqe) of Some f \<Rightarrow> f | None \<Rightarrow> sq_fd sqe) else sq_fd sqe);
         c = (if fixed then c\<lparr>rc_fixed_file_hits := rc_fixed_file_hits c + 1\<rparr> else c);
         c = (if sq_opcode sqe = 3 then c\<lparr>rc_zero_copy := rc_zero_copy c + 1\<rparr> else c);
         ring = ring\<lparr>ur_counters := c\<rparr>;
         lift = map_option (\<lambda>(r, k). (r, ring, k));
         n = unat (min (sq_len sqe) 16)
     in do { (r, ring, k) \<leftarrow>
               (if sq_opcode sqe = 1 then lift (sys_read m regs fp fd (sq_addr sqe) (sq_len sqe) k)
                else if sq_opcode sqe = 2 then lift (sys_write m fd (sq_addr sqe) (sq_len sqe) k)
                else if sq_opcode sqe = 3 then read_zc m sqe (ring, k)
                else if sq_opcode sqe = 4 then lift (sys_open m (sq_addr sqe) (sq_len sqe) k)
                else if sq_opcode sqe = 5 then lift (sys_close fd k)
                else if sq_opcode sqe = 6 then lift (do { pt \<leftarrow> user_cr3 k; vectored True (sys_read m regs fp fd) pt (sq_addr sqe) n 0 k })
                else if sq_opcode sqe = 7 then lift (do { pt \<leftarrow> user_cr3 k; vectored False (sys_write m fd) pt (sq_addr sqe) n 0 k })
                else Some (Some (- 1), ring, k));
             case r of
               None \<Rightarrow> Some (None, ring, k)
             | Some result \<Rightarrow> Some (Some result, ring\<lparr>ur_counters := (ur_counters ring)\<lparr>rc_completed := rc_completed (ur_counters ring) + 1\<rparr>\<rparr>, k) })"


section \<open>Submission\<close>

text \<open>The slot of a request and the request in it.\<close>

definition sqe_at :: "IoUring \<Rightarrow> u32 \<Rightarrow> u64" where
  "sqe_at ring idx = ur_sq_phys ring + of_nat (RING_HEADER_SIZE + unat idx mod unat (ur_entries ring) * SQE_SIZE)"

definition read_sqe :: "Vm \<Rightarrow> u64 \<Rightarrow> IoUringSQEntry" where
  "read_sqe s p = \<lparr>sq_opcode = phys_field s p 0 1, sq_flags = phys_field s p 1 1, sq_fd = phys_field s p 8 8,
     sq_addr = phys_field s p 16 8, sq_len = phys_field s p 24 8, sq_user_data = phys_field s p 32 8\<rparr>"

definition sqe_prio :: "IoUringSQEntry \<Rightarrow> u8" where
  "sqe_prio sqe = drop_bit 4 (sq_flags sqe) AND 7"

lemma pending_Suc:
  assumes "idx \<noteq> tail"
  shows "unat (tail - idx) = Suc (unat (tail - (idx + 1 :: u32)))"
proof -
  have nz: "tail - idx \<noteq> 0"
    using assms by simp
  then have "0 < unat (tail - idx)" "unat (tail - idx - 1) = unat (tail - idx) - 1"
    by (simp_all only: unat_gt_0 unat_minus_one not_False_eq_True)
  then show ?thesis
    by (simp add: diff_diff_eq)
qed

text \<open>One pass over the pending requests for one priority.  It ends at the first request of that priority that is not
  chained to the next.\<close>

function submit_pass :: "('f, 'fs) Methods \<Rightarrow> AllRegisters \<Rightarrow> u64 \<Rightarrow> u8 \<Rightarrow> u32 \<Rightarrow> u32 \<Rightarrow> u32 \<Rightarrow> IoUring \<times> ('f, 'fs) Kernel
    \<Rightarrow> (u32 option \<times> IoUring \<times> ('f, 'fs) Kernel) or_panic" where
  "submit_pass m regs fp prio tail idx submitted st =
     (let (ring, k) = st
      in if idx = tail \<or> submitted \<ge> ur_entries ring then Some (Some submitted, ring, k)
         else let sqe = read_sqe (k_vm k) (sqe_at ring idx)
              in if sqe_prio sqe \<noteq> prio then submit_pass m regs fp prio tail (idx + 1) submitted (ring, k)
                 else let chain = (sq_flags sqe AND SQE_CHAIN \<noteq> 0);
                          local_sqe = (if sq_flags sqe AND 0x80 \<noteq> 0
                                       then sqe\<lparr>sq_fd := if sint (ur_chain_result ring) < 0 then 0 else ur_chain_result ring\<rparr> else sqe)
                      in case exec_sqe m regs fp local_sqe (ring, k) of
                           None \<Rightarrow> None
                         | Some (None, ring, k) \<Rightarrow> Some (None, ring, k)
                         | Some (Some result, ring, k) \<Rightarrow>
                             if \<not> chain
                             then let ring = ring\<lparr>ur_chain_result := 0\<rparr>
                                  in Some (Some (submitted + 1), ring, k\<lparr>k_vm := push_cqe (sq_user_data sqe) result 0 ring (k_vm k)\<rparr>)
                             else submit_pass m regs fp prio tail (idx + 1) (submitted + 1)
                                    (ring\<lparr>ur_counters := (ur_counters ring)\<lparr>rc_chains := rc_chains (ur_counters ring) + 1\<rparr>, ur_chain_result := result\<rparr>, k))"
  by pat_completeness auto
termination
  by (relation "measure (\<lambda>(m, regs, fp, prio, tail, idx, submitted, st). unat (tail - idx))") (auto simp: pending_Suc)

declare submit_pass.simps [simp del]

fun submit_passes :: "('f, 'fs) Methods \<Rightarrow> AllRegisters \<Rightarrow> u64 \<Rightarrow> u8 list \<Rightarrow> u32 \<Rightarrow> u32 \<Rightarrow> u32 \<Rightarrow> IoUring \<times> ('f, 'fs) Kernel
    \<Rightarrow> (u32 option \<times> IoUring \<times> ('f, 'fs) Kernel) or_panic" where
  "submit_passes m regs fp [] head tail submitted st = Some (Some submitted, st)"
| "submit_passes m regs fp (prio # prios) head tail submitted st =
     (case submit_pass m regs fp prio tail head submitted st of
        None \<Rightarrow> None
      | Some (None, st) \<Rightarrow> Some (None, st)
      | Some (Some submitted, st) \<Rightarrow> submit_passes m regs fp prios head tail submitted st)"

definition submit_sqes :: "('f, 'fs) Methods \<Rightarrow> AllRegisters \<Rightarrow> u64 \<Rightarrow> IoUring \<times> ('f, 'fs) Kernel
    \<Rightarrow> (u32 option \<times> IoUring \<times> ('f, 'fs) Kernel) or_panic" where
  "submit_sqes m regs fp = (\<lambda>(ring, k).
     let head = phys_field (k_vm k) (ur_sq_phys ring) 0 4; tail = phys_field (k_vm k) (ur_sq_phys ring) 4 4
     in if head = tail then Some (Some 0, ring, k)
        else do { (r, ring, k) \<leftarrow> submit_passes m regs fp [4, 3, 2, 1, 0] head tail 0 (ring, k);
                  Some (r, ring, if r = None then k else k\<lparr>k_vm := phys_store 4 (ur_sq_phys ring) tail (k_vm k)\<rparr>) })"

section \<open>System calls\<close>

definition map_to_user :: "u64 \<Rightarrow> u64 \<Rightarrow> IoUring \<Rightarrow> Vm \<Rightarrow> bool \<times> Vm" where
  "map_to_user user_sq_addr pt ring s =
     (case map_page_with_flags pt user_sq_addr (ur_sq_phys ring) (PRESENT OR USER OR WRITABLE) (vmm_new pt s) of
        (Inl _, s) \<Rightarrow> (False, s)
      | (Inr _, s) \<Rightarrow>
          (case map_page_with_flags pt (user_sq_addr + 0x1000) (ur_cq_phys ring) (PRESENT OR USER OR WRITABLE) s of
             (Inl _, s) \<Rightarrow> (False, s)
           | (Inr _, s) \<Rightarrow> (True, s)))"

text \<open>The calls work on the table of rings, \<open>IO_URINGS\<close>, and the kernel.\<close>

type_synonym ('f, 'fs) uring_syscall =
  "IoUring option list \<times> ('f, 'fs) Kernel \<Rightarrow> (i64 option \<times> IoUring option list \<times> ('f, 'fs) Kernel) or_panic"

definition sys_io_uring_setup :: "u64 \<Rightarrow> u64 \<Rightarrow> ('f, 'fs) uring_syscall" where
  "sys_io_uring_setup n fl = (\<lambda>(table, k).
     do { page_table \<leftarrow> user_cr3 k;
          case io_uring_new (ucast n) page_table fl (k_vm k) of
            (None, vm) \<Rightarrow> Some (Some (- 1), table, k\<lparr>k_vm := vm\<rparr>)
          | (Some ring, vm) \<Rightarrow>
              (case map_to_user 0x600000000000 page_table ring vm of
                 (False, vm) \<Rightarrow> Some (Some (- 1), table, k\<lparr>k_vm := vm\<rparr>)
               | (True, vm) \<Rightarrow>
                   (case position (\<lambda>r. r = None) table of
                      Some idx \<Rightarrow> Some (Some (of_nat idx), table[idx := Some ring], k\<lparr>k_vm := vm\<rparr>)
                    | None \<Rightarrow> Some (Some (of_nat (length table)), table @ [Some ring], k\<lparr>k_vm := vm\<rparr>))) })"

text \<open>The call on the ring of a descriptor; \<open>-1\<close> if there is none.\<close>

definition with_ring :: "u64 \<Rightarrow> (IoUring \<times> ('f, 'fs) Kernel \<Rightarrow> (i64 option \<times> IoUring \<times> ('f, 'fs) Kernel) or_panic) \<Rightarrow> ('f, 'fs) uring_syscall" where
  "with_ring fd call = (\<lambda>(table, k).
     if unat fd \<ge> length table then Some (Some (- 1), table, k)
     else case table ! unat fd of
            None \<Rightarrow> Some (Some (- 1), table, k)
          | Some ring \<Rightarrow> do { (r, ring, k) \<leftarrow> call (ring, k); Some (r, table[unat fd := Some ring], k) })"

text \<open>Submissions until one takes a request.  The call submits once, and twice more if nothing was submitted and the program
  waits for completions; the waiting time of the latency class is read and not used.\<close>

fun submit_again :: "('f, 'fs) Methods \<Rightarrow> AllRegisters \<Rightarrow> u64 \<Rightarrow> nat \<Rightarrow> ('f, 'fs) ring_call" where
  "submit_again m regs fp 0 st = Some (Some 0, st)"
| "submit_again m regs fp (Suc n) st =
     (case submit_sqes m regs fp st of
        None \<Rightarrow> None
      | Some (None, st) \<Rightarrow> Some (None, st)
      | Some (Some submitted, st) \<Rightarrow>
          if submitted = 0 then submit_again m regs fp n st else Some (Some (ucast submitted), st))"

definition sys_io_uring_enter :: "('f, 'fs) Methods \<Rightarrow> AllRegisters \<Rightarrow> u64 \<Rightarrow> u64 \<Rightarrow> u64 \<Rightarrow> u64 \<Rightarrow> ('f, 'fs) uring_syscall" where
  "sys_io_uring_enter m regs fp fd to_submit min_complete =
     with_ring fd (\<lambda>st.
       do { (r, ring, k) \<leftarrow> submit_again m regs fp (if to_submit > 0 then 1 else 0) st;
            if r = Some 0 \<and> min_complete > 0 then do { _ \<leftarrow> cur_task k; submit_again m regs fp 2 (ring, k) }
            else Some (r, ring, k) })"

definition sys_io_uring_register :: "u64 \<Rightarrow> u64 \<Rightarrow> u64 \<Rightarrow> ('f, 'fs) uring_syscall" where
  "sys_io_uring_register fd opcode arg =
     with_ring fd (\<lambda>(ring, k).
       if opcode = 0
       then do { pt \<leftarrow> user_cr3 k;
                 reg \<leftarrow> user_read pt arg 24 (k_vm k);
                 let (stored, ring) = register_buffer (ucast (field reg 16 8 :: u64)) (field reg 0 8) (field reg 8 8) ring
                 in Some (Some (if stored then 0 else - 1), ring, k) }
       else if opcode = 1 then Some (Some 0, unregister_buffer (ucast arg) ring, k)
       else if opcode = 2
       then do { pt \<leftarrow> user_cr3 k;
                 count \<leftarrow> user_read pt arg 4 (k_vm k);
                 let n = unat (field count 0 4 :: u32)
                 in do { fds \<leftarrow> user_read pt (arg + 8) (8 * n) (k_vm k);
                         Some (Some 0, ring\<lparr>ur_fixed_files := map (\<lambda>i. Some (field fds (8 * i) 8)) [0..<n]\<rparr>, k) } }
       else if opcode = 3 then Some (Some 0, ring\<lparr>ur_fixed_files := []\<rparr>, k)
       else Some (Some (- 1), ring, k))"

definition sys_io_uring_stats :: "u64 \<Rightarrow> u64 \<Rightarrow> ('f, 'fs) uring_syscall" where
  "sys_io_uring_stats fd out_ptr =
     with_ring fd (\<lambda>(ring, k).
       let c = ur_counters ring;
           stats = [rc_submitted c, rc_completed c, rc_zero_copy c, rc_chains c, rc_fixed_file_hits c];
           bytes = concat (map (\<lambda>v. map (\<lambda>i. ucast (drop_bit (8 * i) v)) [0..<8]) stats)
       in do { pt \<leftarrow> user_cr3 k;
               vm \<leftarrow> user_write pt out_ptr bytes (k_vm k);
               Some (Some 0, ring, k\<lparr>k_vm := vm\<rparr>) })"


section \<open>Fields in physical memory\<close>

lemma le_value_word:
  fixes v :: "'a::len word"
  shows "le_value (map (\<lambda>i. ucast (drop_bit (8 * i) v)) [0..<n]) = unat v mod 256 ^ n"
proof (induction n)
  case (Suc n)
  have "unat (ucast (drop_bit (8 * n) v) :: u8) = unat v div 256 ^ n mod 256"
  proof -
    have "unat (drop_bit k v) = unat v div 2 ^ k" for k
      unfolding unsigned_drop_bit_eq using unsigned_less [of v, where 'a = nat] by (simp add: drop_bit_eq_div take_bit_nat_eq_self)
    then have "unat (drop_bit (8 * n) v) = unat v div 256 ^ n"
      by (simp add: power_mult)
    then show ?thesis
      unfolding unsigned_ucast_eq by (simp add: take_bit_eq_mod)
  qed
  then show ?case
    using mod_mult2_eq [of "unat v" "256 ^ n" 256] Suc by (simp add: le_value_append mult.commute)
qed simp

lemma phys_field_cong: "(\<And>i. i < n \<Longrightarrow> phys_byte s' (p + of_nat (off + i)) = phys_byte s (p + of_nat (off + i))) \<Longrightarrow> phys_field s' p off n = phys_field s p off n"
  unfolding phys_field_def by (metis (no_types, lifting) atLeastLessThan_iff map_eq_conv set_upt)

lemma phys_store_Suc: "phys_store (Suc n) p v s = phys_write (phys_store n p v s) (p + of_nat n) (ucast (drop_bit (8 * n) v))"
  by (simp add: phys_store_def)

lemma phys_store_other: "\<forall>i < n. q \<noteq> p + of_nat i \<Longrightarrow> phys_byte (phys_store n p v s) q = phys_byte s q"
  by (induction n) (simp_all add: phys_store_Suc phys_byte_write, simp add: phys_store_def)

lemma phys_store_pmm [simp]: "vm_pmm (phys_store n p v s) = vm_pmm s"
  by (induction n) (simp_all add: phys_store_Suc, simp add: phys_store_def)

lemma phys_store_same:
  assumes "i < n" "n \<le> 8"
  shows "phys_byte (phys_store n p v s) (p + of_nat i) = ucast (drop_bit (8 * i) v)"
  using assms
proof (induction n)
  case (Suc n)
  have "of_nat i \<noteq> (of_nat n :: u64)" if "i \<noteq> n"
  proof -
    have "unat (of_nat i :: u64) = i" "unat (of_nat n :: u64) = n"
      using Suc.prems by (simp_all add: unat_of_nat_small)
    then show ?thesis
      using that by metis
  qed
  then show ?case
    using Suc by (cases "i = n") (simp_all add: phys_store_Suc phys_byte_write)
qed simp

lemma phys_field_store:
  fixes v :: "'a::len word"
  assumes "n \<le> 8" "LENGTH('a) = 8 * n"
  shows "phys_field (phys_store n p v s) p 0 n = v"
proof -
  have eq: "map (\<lambda>i. phys_byte (phys_store n p v s) (p + of_nat (0 + i))) [0..<n] = map (\<lambda>i. ucast (drop_bit (8 * i) v)) [0..<n]"
    by (rule map_cong [OF refl]) (use phys_store_same [OF _ assms(1)] in auto)
  have "unat v < 256 ^ n"
    using unsigned_less [of v, where 'a = nat] assms(2) by (simp add: power_mult)
  then show ?thesis
    unfolding phys_field_def eq le_value_word by simp
qed

text \<open>The bytes of a frame, and writes that stay in it.\<close>

definition in_frame :: "u64 \<Rightarrow> u64 \<Rightarrow> bool" where
  "in_frame d p \<longleftrightarrow> p AND NOT 0xFFF = d"

lemma in_frame_offset: "pte_physical_address d = d \<Longrightarrow> off < 4096 \<Longrightarrow> in_frame d (d + of_nat off)"
  unfolding in_frame_def by (rule frame_offset)

lemma store_in_frame:
  assumes "pte_physical_address d = d" "off + n \<le> 4096" "\<not> in_frame d q"
  shows "phys_byte (phys_store n (d + of_nat off) v s) q = phys_byte s q"
proof (rule phys_store_other, intro allI impI)
  fix i
  assume "i < n"
  then have "in_frame d (d + of_nat off + of_nat i)"
    using in_frame_offset [OF assms(1), of "off + i"] assms(2) by (simp add: add.assoc)
  then show "q \<noteq> d + of_nat off + of_nat i"
    using assms(3) by auto
qed

text \<open>Two fields of one frame that do not overlap.\<close>

lemma field_store_apart:
  fixes v :: "'a::len word"
  assumes "off + n \<le> 4096" "off' + n' \<le> 4096" "off + n \<le> off' \<or> off' + n' \<le> off"
  shows "phys_field (phys_store n (d + of_nat off) v s) d off' n' = phys_field s d off' n'"
proof (rule phys_field_cong, rule phys_store_other, intro allI impI)
  fix i j
  assume ij: "i < n'" "j < n"
  have "unat (of_nat a :: u64) = a" if "a < 4096" for a
    using that by (simp add: unat_of_nat_small)
  then have "unat (of_nat (off' + i) :: u64) = off' + i" "unat (of_nat (off + j) :: u64) = off + j"
    using ij assms(1,2) by (metis add_strict_left_mono less_le_trans)+
  moreover have "off' + i \<noteq> off + j"
    using ij assms(3) by auto
  ultimately have "of_nat (off' + i) \<noteq> (of_nat (off + j) :: u64)"
    by metis
  then show "d + of_nat (off' + i) \<noteq> d + of_nat off + of_nat j"
    by (simp add: add.assoc)
qed


lemma phys_field_at:
  fixes v :: "'a::len word"
  assumes "n \<le> 8" "LENGTH('a) = 8 * n"
  shows "phys_field (phys_store n (d + of_nat off) v s) d off n = v"
  using phys_field_store [OF assms, where p = "d + of_nat off" and v = v and s = s] by (simp add: phys_field_def add.assoc)

section \<open>The completion ring\<close>

definition cqe_slot :: "IoUring \<Rightarrow> u32 \<Rightarrow> nat" where
  "cqe_slot ring idx = RING_HEADER_SIZE + unat idx mod unat (ur_entries ring) * CQE_SIZE"

lemma push_cqe_stores:
  assumes "\<not> ur_entries ring \<le> (phys_field s cq 4 4 :: u32) - phys_field s cq 0 4" "cq = ur_cq_phys ring" "tail = phys_field s cq 4 4"
  shows "push_cqe ud r fl ring s = phys_store 4 (cq + of_nat 4) (tail + 1) (phys_store 4 (cq + of_nat (cqe_slot ring tail + 16)) fl
     (phys_store 8 (cq + of_nat (cqe_slot ring tail + 8)) r (phys_store 8 (cq + of_nat (cqe_slot ring tail)) ud s)))"
  using assms unfolding push_cqe_def Let_def cqe_slot_def by (simp add: add.assoc)

lemma cqe_slot_bound:
  assumes "0 < ur_entries ring" "ur_entries ring \<le> IOURING_MAX_ENTRIES"
  shows "32 \<le> cqe_slot ring idx" "cqe_slot ring idx + 24 \<le> 4096"
proof -
  have e: "0 < unat (ur_entries ring)" "unat (ur_entries ring) \<le> 128"
    using assms by (simp_all add: word_less_nat_alt word_le_nat_alt)
  then have "unat idx mod unat (ur_entries ring) < 128"
    using mod_less_divisor [OF e(1), of "unat idx"] by simp
  then show "32 \<le> cqe_slot ring idx" "cqe_slot ring idx + 24 \<le> 4096"
    by (simp_all add: cqe_slot_def)
qed

lemma push_cqe_frame:
  assumes "pte_physical_address (ur_cq_phys ring) = ur_cq_phys ring" "0 < ur_entries ring" "ur_entries ring \<le> IOURING_MAX_ENTRIES"
    "\<not> in_frame (ur_cq_phys ring) q"
  shows "phys_byte (push_cqe ud r fl ring s) q = phys_byte s q"
proof (cases "ur_entries ring \<le> (phys_field s (ur_cq_phys ring) 4 4 :: u32) - phys_field s (ur_cq_phys ring) 0 4")
  case True
  then show ?thesis
    by (simp add: push_cqe_def Let_def)
next
  case False
  show ?thesis
    unfolding push_cqe_stores [OF False refl refl]
    using cqe_slot_bound [OF assms(2,3), of "phys_field s (ur_cq_phys ring) 4 4"]
    by (simp add: store_in_frame [OF assms(1) _ assms(4)] del: of_nat_add of_nat_numeral)
qed

lemma push_cqe_room:
  assumes "cq = ur_cq_phys ring" "0 < ur_entries ring" "ur_entries ring \<le> IOURING_MAX_ENTRIES"
    and head: "head = phys_field s cq 0 4" and tail: "tail = phys_field s cq 4 4" and "\<not> ur_entries ring \<le> tail - head"
    and s': "s' = push_cqe ud r fl ring s"
  shows "phys_field s' cq 0 4 = head" "phys_field s' cq 4 4 = tail + 1" "phys_field s' cq (cqe_slot ring tail) 8 = ud"
    "phys_field s' cq (cqe_slot ring tail + 8) 8 = r" "phys_field s' cq (cqe_slot ring tail + 16) 4 = fl"
    "32 \<le> off \<Longrightarrow> off + 8 \<le> 4096 \<Longrightarrow> off + 8 \<le> cqe_slot ring tail \<or> cqe_slot ring tail + 24 \<le> off \<Longrightarrow>
       phys_field s' cq off 8 = (phys_field s cq off 8 :: u64)"
proof -
  let ?o = "cqe_slot ring tail"
  note b = cqe_slot_bound [OF assms(2,3), of tail]
  have eq: "s' = phys_store 4 (cq + of_nat 4) (tail + 1) (phys_store 4 (cq + of_nat (?o + 16)) fl
     (phys_store 8 (cq + of_nat (?o + 8)) r (phys_store 8 (cq + of_nat ?o) ud s)))"
    unfolding s' by (rule push_cqe_stores) (use assms in simp_all)
  show "phys_field s' cq 0 4 = head"
    unfolding eq head using b by (simp add: field_store_apart del: of_nat_add of_nat_numeral)
  show "phys_field s' cq 4 4 = tail + 1"
    unfolding eq by (rule phys_field_at) simp_all
  show "phys_field s' cq ?o 8 = ud" "phys_field s' cq (?o + 8) 8 = r" "phys_field s' cq (?o + 16) 4 = fl"
    unfolding eq using b by (simp_all add: field_store_apart phys_field_at del: of_nat_add of_nat_numeral)
  assume off: "32 \<le> off" "off + 8 \<le> 4096" "off + 8 \<le> ?o \<or> ?o + 24 \<le> off"
  show "phys_field s' cq off 8 = (phys_field s cq off 8 :: u64)"
    unfolding eq by (rule disjE [OF off(3)]) (use off(1,2) b in \<open>simp_all add: field_store_apart del: of_nat_add of_nat_numeral\<close>)
qed

text \<open>The slot of the next completion is none of the untaken ones, as long as the indices, which are taken modulo the number
  of entries, have not wrapped around in between, or that number divides \<open>2\<^sup>3\<^sup>2\<close>.\<close>

lemma untaken_slots:
  assumes "n dvd 2 ^ 32 \<or> unat head \<le> unat tail" "unat (tail - head :: u32) < n" "j < unat (tail - head)"
  shows "unat (head + of_nat j) mod n \<noteq> unat tail mod n"
proof -
  define d where "d = unat (tail - head)"
  have idx: "unat (head + of_nat k) mod n = (unat head + k) mod n" if "k \<le> d" for k
    using assms(1)
  proof
    assume "n dvd 2 ^ 32"
    then show ?thesis
      by (simp add: unat_word_ariths unat_of_nat mod_simps mod_mod_cancel)
  next
    assume "unat head \<le> unat tail"
    then have "unat head + k < 2 ^ 32"
      using that unsigned_less [of tail, where 'a = nat] by (simp add: d_def unat_sub word_le_nat_alt)
    then show ?thesis
      by (simp add: unat_word_ariths unat_of_nat mod_simps)
  qed
  have "head + of_nat d = tail"
    by (simp add: d_def)
  then have "unat tail mod n = (unat head + d) mod n"
    using idx [of d] by simp
  moreover have "(unat head + j) mod n \<noteq> (unat head + d) mod n"
  proof
    assume "(unat head + j) mod n = (unat head + d) mod n"
    then have "n dvd (unat head + d) - (unat head + j)"
      using mod_eq_dvd_iff_nat [of "unat head + j" "unat head + d" n] assms(3) by (simp add: d_def)
    then show False
      using assms(2,3) dvd_imp_le [of n "d - j"] by (simp add: d_def)
  qed
  ultimately show ?thesis
    using idx [of j] assms(3) by (simp add: d_def)
qed

text \<open>C30: A completion stays inside of the frame of its ring, whatever the program wrote into the header of the ring.  If the
  header counts as many completions as the ring has entries, nothing is written.  Otherwise the next slot gets the
  completion and the tail moves on; the head and all other slots keep their contents.  The slots of the completions that
  are not taken are among those others if the tail has not wrapped around \<open>2\<^sup>3\<^sup>2\<close> since the head, or if the number of entries
  divides \<open>2\<^sup>3\<^sup>2\<close>.\<close>

theorem push_cqe_bounded:
  assumes cq: "cq = ur_cq_phys ring" "pte_physical_address cq = cq" and n: "0 < ur_entries ring" "ur_entries ring \<le> IOURING_MAX_ENTRIES"
    and head: "head = phys_field s cq 0 4" and tail: "tail = phys_field s cq 4 4" and s': "s' = push_cqe ud r fl ring s"
  shows "(\<forall>q. \<not> in_frame cq q \<longrightarrow> phys_byte s' q = phys_byte s q)
    \<and> (if ur_entries ring \<le> tail - head then s' = s
       else phys_field s' cq 0 4 = head \<and> phys_field s' cq 4 4 = tail + 1 \<and> phys_field s' cq (cqe_slot ring tail) 8 = ud
         \<and> phys_field s' cq (cqe_slot ring tail + 8) 8 = r \<and> phys_field s' cq (cqe_slot ring tail + 16) 4 = fl
         \<and> (\<forall>i < unat (ur_entries ring). i \<noteq> unat tail mod unat (ur_entries ring) \<longrightarrow>
              phys_field s' cq (RING_HEADER_SIZE + i * CQE_SIZE) 8 = (phys_field s cq (RING_HEADER_SIZE + i * CQE_SIZE) 8 :: u64)
              \<and> phys_field s' cq (RING_HEADER_SIZE + i * CQE_SIZE + 8) 8 = (phys_field s cq (RING_HEADER_SIZE + i * CQE_SIZE + 8) 8 :: i64)
              \<and> phys_field s' cq (RING_HEADER_SIZE + i * CQE_SIZE + 16) 8 = (phys_field s cq (RING_HEADER_SIZE + i * CQE_SIZE + 16) 8 :: u64))
         \<and> (unat (ur_entries ring) dvd 2 ^ 32 \<or> unat head \<le> unat tail \<longrightarrow>
              (\<forall>j < unat (tail - head). unat (head + of_nat j) mod unat (ur_entries ring) \<noteq> unat tail mod unat (ur_entries ring))))"
proof (cases "ur_entries ring \<le> tail - head")
  case True
  then show ?thesis
    using head tail cq(1) s' by (simp add: push_cqe_def Let_def)
next
  case False
  let ?o = "cqe_slot ring tail"
  note room = push_cqe_room [OF cq(1) n head tail False s']
  have "unat (tail - head) < unat (ur_entries ring)"
    using False by (simp add: word_le_nat_alt)
  note untaken = untaken_slots [OF _ this]
  note apart = room(6)
  have slots: "phys_field s' cq (32 + i * 24) 8 = (phys_field s cq (32 + i * 24) 8 :: u64) \<and> phys_field s' cq (32 + i * 24 + 8) 8 = (phys_field s cq (32 + i * 24 + 8) 8 :: u64)
      \<and> phys_field s' cq (32 + i * 24 + 16) 8 = (phys_field s cq (32 + i * 24 + 16) 8 :: u64)"
    if "i < unat (ur_entries ring)" "i \<noteq> unat tail mod unat (ur_entries ring)" for i
  proof -
    have "i < 128"
      using that(1) n(2) by (simp add: word_le_nat_alt)
    moreover have "32 + i * 24 + 24 \<le> ?o \<or> ?o + 24 \<le> 32 + i * 24"
      using that(2) by (auto simp: cqe_slot_def neq_iff)
    ultimately show ?thesis
      using apart [of "32 + i * 24"] apart [of "32 + i * 24 + 8"] apart [of "32 + i * 24 + 16"] by auto
  qed
  show ?thesis
    using False room(1-5) slots untaken push_cqe_frame [of ring _ ud r fl s] cq n unfolding s' by simp
qed


text \<open>A ring with eight slots behind the example of the user memory.\<close>

definition uring_example :: IoUring where
  "uring_example = \<lparr>ur_sq_phys = 0x7000, ur_cq_phys = 0x8000, ur_entries = 8, ur_page_table = 0x1000,
     ur_bufs = replicate 16 \<lparr>rb_user_addr = 0, rb_size = 0, rb_buf_id = 0, rb_active = False\<rparr>, ur_fixed_files = [], ur_sq_poll = False,
     ur_counters = \<lparr>rc_submitted = 0, rc_completed = 0, rc_zero_copy = 0, rc_chains = 0, rc_fixed_file_hits = 0\<rparr>, ur_chain_result = 0\<rparr>"

lemma phys_field_zero: "(\<And>i. i < n \<Longrightarrow> phys_byte s (p + of_nat (off + i)) = 0) \<Longrightarrow> phys_field s p off n = 0"
proof -
  assume "\<And>i. i < n \<Longrightarrow> phys_byte s (p + of_nat (off + i)) = 0"
  then have "map (\<lambda>i. phys_byte s (p + of_nat (off + i))) [0..<n] = replicate n 0"
    by (simp add: list_eq_iff_nth_eq)
  then show ?thesis
    unfolding phys_field_def by simp
qed

lemma example_frame_zero:
  assumes "pte_physical_address d = d" "0x6000 \<le> d" "off + n \<le> 4096"
  shows "phys_field user_vm d off n = 0"
proof (rule phys_field_zero)
  fix i
  assume "i < n"
  then have "phys_byte user_vm (d + of_nat (off + i)) = frame_byte user_vm d (off + i)"
    using phys_byte_frame [OF assms(1), of "off + i" user_vm] assms(3) by simp
  then show "phys_byte user_vm (d + of_nat (off + i)) = 0"
    using assms(2) by (auto simp: frame_byte_def user_vm_def)
qed

theorem push_cqe_bounded_witness:
  "phys_field (push_cqe 7 5 0 uring_example user_vm) 0x8000 4 4 = (1 :: u32) \<and> phys_field (push_cqe 7 5 0 uring_example user_vm) 0x8000 32 8 = (7 :: u64)"
proof -
  have u: "0x8000 = ur_cq_phys uring_example" "pte_physical_address 0x8000 = 0x8000" "0 < ur_entries uring_example" "ur_entries uring_example \<le> 128"
    "ur_entries uring_example = 8"
    by (simp_all add: uring_example_def pte_physical_address_def)
  show ?thesis
    using push_cqe_bounded [OF u(1-4) refl refl refl, where s = user_vm and ud = 7 and r = 5 and fl = 0]
    by (simp add: cqe_slot_def example_frame_zero [OF u(2)] u(5))
qed


section \<open>Passes over the pending requests\<close>

text \<open>The pending requests, counted from the head.\<close>

definition sqe_nth :: "IoUring \<Rightarrow> Vm \<Rightarrow> u32 \<Rightarrow> nat \<Rightarrow> IoUringSQEntry" where
  "sqe_nth ring s idx j = read_sqe s (sqe_at ring (idx + of_nat j))"

lemma sqe_nth_Suc: "sqe_nth ring s idx (Suc j) = sqe_nth ring s (idx + 1) j"
  by (simp add: sqe_nth_def add.assoc)

definition local_sqe :: "IoUring \<Rightarrow> IoUringSQEntry \<Rightarrow> IoUringSQEntry" where
  "local_sqe ring sqe = (if sq_flags sqe AND 0x80 \<noteq> 0
     then sqe\<lparr>sq_fd := if sint (ur_chain_result ring) < 0 then 0 else ur_chain_result ring\<rparr> else sqe)"

lemma pass_step:
  "submit_pass m regs fp prio tail tail submitted (ring, k) = Some (Some submitted, ring, k)"
  "ur_entries ring \<le> submitted \<Longrightarrow> submit_pass m regs fp prio tail idx submitted (ring, k) = Some (Some submitted, ring, k)"
  "idx \<noteq> tail \<Longrightarrow> submitted < ur_entries ring \<Longrightarrow> sqe_prio (sqe_nth ring (k_vm k) idx 0) \<noteq> prio \<Longrightarrow>
     submit_pass m regs fp prio tail idx submitted (ring, k) = submit_pass m regs fp prio tail (idx + 1) submitted (ring, k)"
  by (subst submit_pass.simps, simp add: Let_def sqe_nth_def not_le)+

lemma pass_run:
  assumes "idx \<noteq> tail" "submitted < ur_entries ring" "sqe = sqe_nth ring (k_vm k) idx 0" "sqe_prio sqe = prio" "sq_flags sqe AND SQE_CHAIN = 0"
    "exec_sqe m regs fp (local_sqe ring sqe) (ring, k) = Some (Some r, ring1, k1)" "ring2 = ring1\<lparr>ur_chain_result := 0\<rparr>"
  shows "submit_pass m regs fp prio tail idx submitted (ring, k)
    = Some (Some (submitted + 1), ring2, k1\<lparr>k_vm := push_cqe (sq_user_data sqe) r 0 ring2 (k_vm k1)\<rparr>)"
proof -
  have e: "exec_sqe m regs fp (if sq_flags sqe AND 0x80 \<noteq> 0
      then sqe\<lparr>sq_fd := if sint (ur_chain_result ring) < 0 then 0 else ur_chain_result ring\<rparr> else sqe) (ring, k) = Some (Some r, ring1, k1)"
    using assms(6) by (simp only: local_sqe_def)
  have q: "read_sqe (k_vm k) (sqe_at ring idx) = sqe"
    using assms(3) by (simp add: sqe_nth_def)
  show ?thesis
    using assms(1,2,4,5,7) by (subst submit_pass.simps) (simp only: Let_def prod.case q e, simp add: not_le)
qed

lemma pass_skip:
  assumes "\<forall>j < unat (tail - idx). sqe_prio (sqe_nth ring (k_vm k) idx j) \<noteq> prio"
  shows "submit_pass m regs fp prio tail idx submitted (ring, k) = Some (Some submitted, ring, k)"
  using assms
proof (induction "unat (tail - idx)" arbitrary: idx)
  case 0
  then have "idx = tail"
    by (simp add: unat_eq_0)
  then show ?case
    by (simp add: pass_step(1))
next
  case (Suc n)
  then have ne: "idx \<noteq> tail"
    by auto
  note p = pending_Suc [OF ne]
  have IH: "submit_pass m regs fp prio tail (idx + 1) submitted (ring, k) = Some (Some submitted, ring, k)"
    by (rule Suc.hyps(1)) (use Suc.prems Suc.hyps(2) p in \<open>auto simp: sqe_nth_Suc [symmetric]\<close>)
  show ?case
    using Suc.prems p IH pass_step(3) [OF ne, of submitted ring k prio]
    by (cases "submitted < ur_entries ring") (auto simp: pass_step(2) not_less)
qed

lemma pass_first:
  assumes "j < unat (tail - idx)" "\<forall>i < j. sqe_prio (sqe_nth ring (k_vm k) idx i) \<noteq> prio" "sqe = sqe_nth ring (k_vm k) idx j"
    and hit: "sqe_prio sqe = prio" "sq_flags sqe AND SQE_CHAIN = 0" "submitted < ur_entries ring"
    "exec_sqe m regs fp (local_sqe ring sqe) (ring, k) = Some (Some r, ring1, k1)" "ring2 = ring1\<lparr>ur_chain_result := 0\<rparr>"
  shows "submit_pass m regs fp prio tail idx submitted (ring, k)
    = Some (Some (submitted + 1), ring2, k1\<lparr>k_vm := push_cqe (sq_user_data sqe) r 0 ring2 (k_vm k1)\<rparr>)"
  using assms(1-3)
proof (induction j arbitrary: idx)
  case 0
  then have "idx \<noteq> tail"
    by auto
  then show ?case
    using pass_run [OF _ hit(3) 0(3) hit(1,2,4,5)] by blast
next
  case (Suc j)
  then have ne: "idx \<noteq> tail"
    by auto
  have "submit_pass m regs fp prio tail (idx + 1) submitted (ring, k)
    = Some (Some (submitted + 1), ring2, k1\<lparr>k_vm := push_cqe (sq_user_data sqe) r 0 ring2 (k_vm k1)\<rparr>)"
    by (rule Suc.IH) (use Suc.prems pending_Suc [OF ne] in \<open>auto simp: sqe_nth_Suc [symmetric]\<close>)
  then show ?case
    using pass_step(3) [OF ne hit(3), of k prio] Suc.prems(2) by auto
qed

section \<open>Requests that do not touch memory\<close>

text \<open>A request that only closes a file, or that has no operation, outside of a chain.\<close>

definition quiet :: "IoUringSQEntry \<Rightarrow> bool" where
  "quiet sqe \<longleftrightarrow> sq_flags sqe AND SQE_CHAIN = 0 \<and> (sq_opcode sqe = 0 \<or> sq_opcode sqe = 5 \<or> 7 < sq_opcode sqe)"

definition same_ring :: "IoUring \<Rightarrow> IoUring \<Rightarrow> bool" where
  "same_ring ring ring' \<longleftrightarrow> ur_sq_phys ring' = ur_sq_phys ring \<and> ur_cq_phys ring' = ur_cq_phys ring \<and> ur_entries ring' = ur_entries ring"

definition task_valid :: "('f, 'fs) Kernel \<Rightarrow> bool" where
  "task_valid k \<longleftrightarrow> sc_current (k_sched k) < MAX_TASKS"

lemma close_valid: 
  assumes "task_valid k"
  obtains r k1 where "sys_close fd k = Some (Some r, k1)" "k_vm k1 = k_vm k" "task_valid k1"
proof (cases "cur_task k")
  case None
  then show ?thesis
    using assms by (simp add: cur_task_def task_valid_def split: if_splits)
next
  case (Some t)
  have "\<exists>r k1. sys_close fd k = Some (Some r, k1) \<and> k_vm k1 = k_vm k \<and> task_valid k1"
    using assms Some by (cases t) (simp_all add: sys_close_def returns_def task_valid_def set_cur_def set_task_def)
  then show ?thesis
    using that by blast
qed

lemma quiet_opcodes: "quiet sqe \<Longrightarrow> sq_opcode sqe \<noteq> 1 \<and> sq_opcode sqe \<noteq> 2 \<and> sq_opcode sqe \<noteq> 3 \<and> sq_opcode sqe \<noteq> 4 \<and> sq_opcode sqe \<noteq> 6 \<and> sq_opcode sqe \<noteq> 7"
  by (auto simp: quiet_def)

lemma exec_quiet:
  assumes "quiet sqe" "task_valid k"
  obtains r ring1 k1 where "exec_sqe m regs fp sqe (ring, k) = Some (Some r, ring1, k1)" "same_ring ring ring1"
    "rc_completed (ur_counters ring1) = rc_completed (ur_counters ring) + 1" "k_vm k1 = k_vm k" "task_valid k1"
proof -
  define fixed where "fixed = (sq_flags sqe AND SQE_FIXED_FILE \<noteq> 0 \<and> unat (sq_fd sqe) < length (ur_fixed_files ring))"
  define fd where "fd = (if fixed then (case ur_fixed_files ring ! unat (sq_fd sqe) of Some f \<Rightarrow> f | None \<Rightarrow> sq_fd sqe) else sq_fd sqe)"
  obtain r k1 where c: "sys_close fd k = Some (Some r, k1)" "k_vm k1 = k_vm k" "task_valid k1"
    using close_valid [OF assms(2)] by blast
  note o = quiet_opcodes [OF assms(1)]
  have "\<exists>r ring1 k1. exec_sqe m regs fp sqe (ring, k) = Some (Some r, ring1, k1) \<and> same_ring ring ring1
    \<and> rc_completed (ur_counters ring1) = rc_completed (ur_counters ring) + 1 \<and> k_vm k1 = k_vm k \<and> task_valid k1"
    using o c assms(2) unfolding exec_sqe_def Let_def prod.case fixed_def [symmetric] fd_def [symmetric]
    by (cases "sq_opcode sqe = 5"; cases fixed) (simp_all add: same_ring_def)
  then show ?thesis
    using that by blast
qed

lemma local_quiet [simp]: "quiet (local_sqe ring sqe) = quiet sqe"
  by (simp add: local_sqe_def quiet_def)

text \<open>The two frames of a ring, with every slot inside of them.\<close>

definition ring_ok :: "IoUring \<Rightarrow> bool" where
  "ring_ok ring \<longleftrightarrow> pte_physical_address (ur_sq_phys ring) = ur_sq_phys ring \<and> pte_physical_address (ur_cq_phys ring) = ur_cq_phys ring
     \<and> ur_sq_phys ring \<noteq> ur_cq_phys ring \<and> 5 \<le> ur_entries ring \<and> ur_entries ring \<le> 101"

lemma sqe_slot:
  assumes "ring_ok ring" "i < 40"
  shows "in_frame (ur_sq_phys ring) (sqe_at ring idx + of_nat i)"
proof -
  have e: "0 < unat (ur_entries ring)" "unat (ur_entries ring) \<le> 101"
    using assms(1) by (simp_all add: ring_ok_def word_le_nat_alt)
  then have "unat idx mod unat (ur_entries ring) < 101"
    using mod_less_divisor [OF e(1), of "unat idx"] by simp
  then show ?thesis
    using in_frame_offset [of "ur_sq_phys ring" "32 + unat idx mod unat (ur_entries ring) * 40 + i"] assms
    by (simp add: ring_ok_def sqe_at_def add.assoc)
qed

lemma sqe_field_same:
  assumes "ring_ok ring" "\<And>q. in_frame (ur_sq_phys ring) q \<Longrightarrow> phys_byte s' q = phys_byte s q" "off + n \<le> 40"
  shows "phys_field s' (sqe_at ring i) off n = phys_field s (sqe_at ring i) off n"
  by (rule phys_field_cong) (rule assms(2) [OF sqe_slot [OF assms(1)]], use assms(3) in simp)

lemma sqe_nth_same:
  assumes "ring_ok ring" "same_ring ring ring'" "\<And>q. in_frame (ur_sq_phys ring) q \<Longrightarrow> phys_byte s' q = phys_byte s q"
  shows "sqe_nth ring' s' idx j = sqe_nth ring s idx j"
proof -
  have "sqe_at ring' = sqe_at ring"
    using assms(2) by (simp add: same_ring_def sqe_at_def fun_eq_iff)
  then show ?thesis
    by (simp add: sqe_nth_def read_sqe_def sqe_field_same [OF assms(1,3)])
qed

text \<open>Running some requests one after the other, each with its completion; and the requests that are picked from the pending
  ones: the first of each priority.\<close>

fun serve :: "('f, 'fs) Methods \<Rightarrow> AllRegisters \<Rightarrow> u64 \<Rightarrow> IoUringSQEntry list \<Rightarrow> IoUring \<times> ('f, 'fs) Kernel \<Rightarrow> (IoUring \<times> ('f, 'fs) Kernel) option" where
  "serve m regs fp [] st = Some st"
| "serve m regs fp (sqe # sqes) (ring, k) =
     (case exec_sqe m regs fp (local_sqe ring sqe) (ring, k) of
        Some (Some r, ring, k) \<Rightarrow>
          let ring = ring\<lparr>ur_chain_result := 0\<rparr>
          in serve m regs fp sqes (ring, k\<lparr>k_vm := push_cqe (sq_user_data sqe) r 0 ring (k_vm k)\<rparr>)
      | _ \<Rightarrow> None)"

definition pending :: "IoUring \<Rightarrow> Vm \<Rightarrow> u32 \<Rightarrow> u32 \<Rightarrow> IoUringSQEntry list" where
  "pending ring s head tail = map (sqe_nth ring s head) [0..<unat (tail - head)]"

definition first_of :: "IoUringSQEntry list \<Rightarrow> u8 \<Rightarrow> IoUringSQEntry list" where
  "first_of sqes prio = take 1 (filter (\<lambda>sqe. sqe_prio sqe = prio) sqes)"

lemma serve_append: "serve m regs fp (xs @ ys) st = Option.bind (serve m regs fp xs st) (serve m regs fp ys)"
  by (induction m regs fp xs st rule: serve.induct) (auto simp: Let_def split: option.splits prod.splits)

lemma pending_same:
  assumes "ring_ok ring" "same_ring ring ring'" "\<forall>q. in_frame (ur_sq_phys ring) q \<longrightarrow> phys_byte s' q = phys_byte s q"
  shows "pending ring' s' head tail = pending ring s head tail"
  unfolding pending_def using sqe_nth_same [OF assms(1,2)] assms(3) by (intro map_cong refl) blast

lemma first_of_cases:
  obtains (none) "first_of (pending ring s head tail) prio = []" "\<forall>j < unat (tail - head). sqe_prio (sqe_nth ring s head j) \<noteq> prio"
  | (first) j where "first_of (pending ring s head tail) prio = [sqe_nth ring s head j]" "j < unat (tail - head)"
      "sqe_prio (sqe_nth ring s head j) = prio" "\<forall>i < j. sqe_prio (sqe_nth ring s head i) \<noteq> prio"
proof (cases "\<exists>j. j < unat (tail - head) \<and> sqe_prio (sqe_nth ring s head j) = prio")
  case False
  then show thesis
    by (intro none) (auto simp: first_of_def pending_def)
next
  case True
  then obtain j where j: "j < unat (tail - head)" "sqe_prio (sqe_nth ring s head j) = prio"
      "\<forall>i < j. \<not> (i < unat (tail - head) \<and> sqe_prio (sqe_nth ring s head i) = prio)"
    using exists_least_iff [of "\<lambda>j. j < unat (tail - head) \<and> sqe_prio (sqe_nth ring s head j) = prio"] by blast
  have least: "\<forall>i < j. sqe_prio (sqe_nth ring s head i) \<noteq> prio"
    using j(1,3) less_trans by blast
  have "[0..<unat (tail - head)] = [0..<j] @ j # [Suc j..<unat (tail - head)]"
    using j(1) upt_add_eq_append [of 0 j "unat (tail - head) - j"] by (simp add: upt_conv_Cons)
  then have "first_of (pending ring s head tail) prio = [sqe_nth ring s head j]"
    using least j(2) by (simp add: first_of_def pending_def filter_empty_conv)
  then show thesis
    using first j(1,2) least by blast
qed

lemma pass_quiet:
  assumes ok: "ring_ok ring" "task_valid k" "submitted < ur_entries ring"
    and quiet: "\<forall>sqe \<in> set (pending ring (k_vm k) head tail). quiet sqe"
    and sqes: "sqes = first_of (pending ring (k_vm k) head tail) prio"
  obtains ring' k' where "submit_pass m regs fp prio tail head submitted (ring, k) = Some (Some (submitted + of_nat (length sqes)), ring', k')"
    "serve m regs fp sqes (ring, k) = Some (ring', k')" "same_ring ring ring'" "task_valid k'"
    "rc_completed (ur_counters ring') = rc_completed (ur_counters ring) + of_nat (length sqes)"
    "\<forall>q. in_frame (ur_sq_phys ring) q \<longrightarrow> phys_byte (k_vm k') q = phys_byte (k_vm k) q"
proof (cases rule: first_of_cases [of ring "k_vm k" head tail prio, case_names none first])
  case none
  then have "submit_pass m regs fp prio tail head submitted (ring, k) = Some (Some submitted, ring, k)" "sqes = []"
    using sqes by (simp_all add: pass_skip)
  then show ?thesis
    by (intro that [of ring k]) (simp_all add: same_ring_def ok(2))
next
  case (first j)
  let ?sqe = "sqe_nth ring (k_vm k) head j"
  have "?sqe \<in> set (pending ring (k_vm k) head tail)"
    using first(2) by (auto simp: pending_def)
  then have q: "quiet ?sqe"
    by (rule bspec [OF quiet])
  obtain r ring1 k1 where e: "exec_sqe m regs fp (local_sqe ring ?sqe) (ring, k) = Some (Some r, ring1, k1)" "same_ring ring ring1"
    "rc_completed (ur_counters ring1) = rc_completed (ur_counters ring) + 1" "k_vm k1 = k_vm k" "task_valid k1"
    by (rule exec_quiet [OF _ ok(2), of "local_sqe ring ?sqe" m regs fp ring]) (simp_all add: q)
  define ring2 where "ring2 = ring1\<lparr>ur_chain_result := 0\<rparr>"
  define k2 where "k2 = k1\<lparr>k_vm := push_cqe (sq_user_data ?sqe) r 0 ring2 (k_vm k1)\<rparr>"
  have r2: "same_ring ring ring2"
    using e(2) by (simp add: ring2_def same_ring_def)
  have p: "submit_pass m regs fp prio tail head submitted (ring, k) = Some (Some (submitted + 1), ring2, k2)"
    unfolding k2_def by (rule pass_first [OF first(2,4) refl first(3) _ ok(3) e(1) ring2_def]) (use q in \<open>simp add: quiet_def\<close>)
  have same: "phys_byte (k_vm k2) q = phys_byte (k_vm k) q" if "in_frame (ur_sq_phys ring) q" for q
  proof -
    have "\<not> in_frame (ur_cq_phys ring) q"
      using ok(1) that by (auto simp: in_frame_def ring_ok_def)
    then show ?thesis
      using ok(1) r2 push_cqe_frame [of ring2 q] e(4) by (simp add: k2_def ring_ok_def same_ring_def word_le_nat_alt word_less_nat_alt)
  qed
  have one: "sqes = [?sqe]"
    using sqes first(1) by simp
  then have "serve m regs fp sqes (ring, k) = Some (ring2, k2)"
    by (simp add: e(1) ring2_def k2_def Let_def)
  then show ?thesis
    by (rule that [rotated]) (use p r2 e(3,5) same one in \<open>simp_all add: task_valid_def ring2_def k2_def\<close>)
qed

lemma unat_add_bound: "unat (a + of_nat n :: 'a::len word) \<le> unat a + n"
  by (simp add: unat_word_ariths unat_of_nat mod_simps mod_less_eq_dividend)

lemma passes_quiet:
  assumes "ring_ok ring" "task_valid k" "unat submitted + length prios \<le> unat (ur_entries ring)"
    "\<forall>sqe \<in> set (pending ring (k_vm k) head tail). quiet sqe" "sqes = concat (map (first_of (pending ring (k_vm k) head tail)) prios)"
  shows "\<exists>ring' k'. submit_passes m regs fp prios head tail submitted (ring, k) = Some (Some (submitted + of_nat (length sqes)), ring', k')
    \<and> serve m regs fp sqes (ring, k) = Some (ring', k')
    \<and> same_ring ring ring' \<and> rc_completed (ur_counters ring') = rc_completed (ur_counters ring) + of_nat (length sqes)"
  using assms
proof (induction prios arbitrary: ring k submitted sqes)
  case Nil
  then show ?case
    by (simp add: same_ring_def)
next
  case (Cons p prios)
  define xs where "xs = first_of (pending ring (k_vm k) head tail) p"
  define ys where "ys = concat (map (first_of (pending ring (k_vm k) head tail)) prios)"
  have sqes: "sqes = xs @ ys"
    by (simp add: Cons.prems(5) xs_def ys_def)
  have "length xs \<le> 1"
    by (simp add: xs_def first_of_def)
  have lt: "submitted < ur_entries ring"
    using Cons.prems(3) by (simp add: word_less_nat_alt)
  obtain ring1 k1 where s: "submit_pass m regs fp p tail head submitted (ring, k) = Some (Some (submitted + of_nat (length xs)), ring1, k1)"
    "serve m regs fp xs (ring, k) = Some (ring1, k1)" "same_ring ring ring1" "task_valid k1"
    "rc_completed (ur_counters ring1) = rc_completed (ur_counters ring) + of_nat (length xs)"
    "\<forall>q. in_frame (ur_sq_phys ring) q \<longrightarrow> phys_byte (k_vm k1) q = phys_byte (k_vm k) q"
    by (rule pass_quiet [OF Cons.prems(1,2) lt Cons.prems(4) xs_def, where m = m and regs = regs and fp = fp])
  note same = pending_same [OF Cons.prems(1) s(3,6), of head tail]
  have ok: "ring_ok ring1"
    using Cons.prems(1) s(3) by (simp add: ring_ok_def same_ring_def)
  have bound: "unat (submitted + of_nat (length xs)) + length prios \<le> unat (ur_entries ring1)"
    using Cons.prems(3) s(3) unat_add_bound [of submitted "length xs"] \<open>length xs \<le> 1\<close> by (simp add: same_ring_def)
  obtain ring2 k2 where "submit_passes m regs fp prios head tail (submitted + of_nat (length xs)) (ring1, k1)
      = Some (Some (submitted + of_nat (length xs) + of_nat (length ys)), ring2, k2)"
    "serve m regs fp ys (ring1, k1) = Some (ring2, k2)"
    "same_ring ring1 ring2" "rc_completed (ur_counters ring2) = rc_completed (ur_counters ring1) + of_nat (length ys)"
    using Cons.IH [OF ok s(4) bound, unfolded same, OF Cons.prems(4) ys_def] by blast
  then show ?case
    using s(1-3,5) unfolding sqes by (intro exI [of _ ring2] exI [of _ k2]) (simp add: same_ring_def add.assoc serve_append)
qed

text \<open>C36: With requests pending that only close files or do nothing, none of them in a chain, in a ring of 5 to 101 entries, one
  call of \<open>submit_sqes\<close> runs the first request of each priority from 4 down to 0, in this order and each with its
  completion, and then releases all requests: the head of the ring becomes its tail.  The other requests, further ones of
  the same priority and all of the priorities 5 to 7, are neither run nor completed.\<close>

theorem submit_one_per_priority:
  assumes ring: "ring_ok ring" "sq = ur_sq_phys ring" and k: "task_valid k"
    and head: "head = phys_field (k_vm k) sq 0 4" and tail: "tail = phys_field (k_vm k) sq 4 4" "head \<noteq> tail"
    and quiet: "\<forall>sqe \<in> set (pending ring (k_vm k) head tail). quiet sqe"
    and sqes: "sqes = concat (map (first_of (pending ring (k_vm k) head tail)) [4, 3, 2, 1, 0])"
  shows "\<exists>ring' k' k2. serve m regs fp sqes (ring, k) = Some (ring', k') \<and> k2 = k'\<lparr>k_vm := phys_store 4 sq tail (k_vm k')\<rparr>
    \<and> submit_sqes m regs fp (ring, k) = Some (Some (of_nat (length sqes)), ring', k2) \<and> phys_field (k_vm k2) sq 0 4 = tail
    \<and> rc_completed (ur_counters ring') = rc_completed (ur_counters ring) + of_nat (length sqes)"
proof -
  have "unat (0 :: u32) + length [4, 3, 2, 1, 0 :: u8] \<le> unat (ur_entries ring)"
    using ring(1) by (simp add: ring_ok_def word_le_nat_alt)
  from passes_quiet [OF ring(1) k this quiet sqes, of m regs fp] obtain ring' k' where
    p: "submit_passes m regs fp [4, 3, 2, 1, 0] head tail 0 (ring, k) = Some (Some (0 + of_nat (length sqes)), ring', k')"
    "serve m regs fp sqes (ring, k) = Some (ring', k')"
    "same_ring ring ring'" "rc_completed (ur_counters ring') = rc_completed (ur_counters ring) + of_nat (length sqes)"
    by blast
  have "submit_sqes m regs fp (ring, k) = Some (Some (of_nat (length sqes)), ring', k'\<lparr>k_vm := phys_store 4 sq tail (k_vm k')\<rparr>)"
    using p(1,3) tail(2) unfolding submit_sqes_def Let_def prod.case ring(2) [symmetric] head [symmetric] tail(1) [symmetric]
    by (simp add: same_ring_def ring(2) del: submit_passes.simps)
  then show ?thesis
    using p(2,4) by (simp add: phys_field_store)
qed

text \<open>Two requests of the same priority: one is run, and the ring is empty.\<close>

definition pending_vm :: "u32 \<Rightarrow> Vm" where
  "pending_vm t = phys_store 4 (0x7000 + of_nat 4) t user_vm"

lemma phys_field_shift: "phys_field s (d + of_nat a) off n = phys_field s d (a + off) n"
  by (simp add: phys_field_def add.assoc)

lemma pending_vm_zero: "8 \<le> off \<Longrightarrow> off + n \<le> 4096 \<Longrightarrow> phys_field (pending_vm t) 0x7000 off n = 0"
  unfolding pending_vm_def
  by (simp add: field_store_apart example_frame_zero pte_physical_address_def del: of_nat_numeral)

lemma pending_vm_header: "phys_field (pending_vm t) 0x7000 0 4 = (0 :: u32)" "phys_field (pending_vm t) 0x7000 4 4 = t"
  unfolding pending_vm_def
  by (simp_all add: field_store_apart phys_field_at example_frame_zero pte_physical_address_def del: of_nat_numeral)

lemma pending_vm_sqe:
  assumes "j < 8"
  shows "sqe_nth uring_example (pending_vm t) 0 j = \<lparr>sq_opcode = 0, sq_flags = 0, sq_fd = 0, sq_addr = 0, sq_len = 0, sq_user_data = 0\<rparr>"
proof -
  have "sqe_at uring_example (of_nat j) = 0x7000 + of_nat (32 + j * 40)"
    using assms by (simp add: sqe_at_def uring_example_def unat_of_nat_small)
  then show ?thesis
    using assms by (simp add: sqe_nth_def read_sqe_def phys_field_shift pending_vm_zero del: of_nat_add of_nat_mult of_nat_numeral)
qed

theorem submit_one_per_priority_witness:
  "length (pending uring_example (pending_vm 2) 0 2) = 2
    \<and> (\<exists>ring' k'. submit_sqes no_files example_regs 0 (uring_example, user_kernel\<lparr>k_vm := pending_vm 2\<rparr>) = Some (Some 1, ring', k')
      \<and> rc_completed (ur_counters ring') = 1 \<and> phys_field (k_vm k') 0x7000 0 4 = (2 :: u32))"
proof -
  let ?k = "user_kernel\<lparr>k_vm := pending_vm 2\<rparr>" and ?pending = "pending uring_example (pending_vm 2) 0 2"
  let ?sqe = "\<lparr>sq_opcode = 0, sq_flags = 0, sq_fd = 0, sq_addr = 0, sq_len = 0, sq_user_data = 0\<rparr>"
  have ring: "ring_ok uring_example" "0x7000 = ur_sq_phys uring_example" "rc_completed (ur_counters uring_example) = 0"
    by (simp_all add: ring_ok_def uring_example_def pte_physical_address_def)
  have k: "task_valid ?k"
    by (simp add: task_valid_def user_kernel_def MAX_TASKS_def)
  have p: "?pending = [?sqe, ?sqe]"
    by (simp add: pending_def upt_rec pending_vm_sqe)
  have quiet: "\<forall>sqe \<in> set (pending uring_example (k_vm ?k) 0 2). quiet sqe"
    by (simp add: p quiet_def)
  have one: "[?sqe] = concat (map (first_of (pending uring_example (k_vm ?k) 0 2)) [4, 3, 2, 1, 0])"
    by (simp add: p first_of_def sqe_prio_def)
  have header: "(0 :: u32) = phys_field (k_vm ?k) 0x7000 0 4" "(2 :: u32) = phys_field (k_vm ?k) 0x7000 4 4" "(0 :: u32) \<noteq> 2"
    by (simp_all add: pending_vm_header)
  obtain ring' k' k2 where "submit_sqes no_files example_regs 0 (uring_example, ?k) = Some (Some (of_nat (length [?sqe])), ring', k2)"
      "phys_field (k_vm k2) 0x7000 0 4 = (2 :: u32)" "rc_completed (ur_counters ring') = rc_completed (ur_counters uring_example) + of_nat (length [?sqe])"
    using submit_one_per_priority [OF ring(1,2) k header quiet one, of no_files example_regs 0] by blast
  then show ?thesis
    using p ring(3) by simp
qed

section \<open>Slots outside of the frame\<close>

lemma ring_sizes:
  assumes "io_uring_new n page_table fl s = (Some ring, s')"
  shows "ur_entries ring = max (min n IOURING_MAX_ENTRIES) 1"
  using assms by (auto simp: io_uring_new_def Let_def split: prod.splits sum.splits)

text \<open>C37: A ring takes up to 128 requests, but its frame has room for 101 only: the slots from 102 on lie in the next frame
  of physical memory, which belongs to somebody else.\<close>

theorem sq_slots_outside:
  assumes new: "io_uring_new n page_table fl s = (Some ring, s')" "IOURING_MAX_ENTRIES \<le> n"
    and frame: "ur_sq_phys ring + 0x1000 = d" "pte_physical_address d = d" and idx: "102 \<le> idx" "idx < 128"
  shows "in_frame d (sqe_at ring idx)"
proof -
  have e: "ur_entries ring = 128"
    using ring_sizes [OF new(1)] new(2) by (simp add: min_absorb2)
  have i: "102 \<le> unat idx" "unat idx < 128"
    using idx by (simp_all add: word_le_nat_alt word_less_nat_alt)
  then have "sqe_at ring idx = d + of_nat (32 + unat idx * 40 - 4096)"
    unfolding frame(1) [symmetric] sqe_at_def e by (simp add: of_nat_diff)
  then show ?thesis
    using in_frame_offset [OF frame(2), of "32 + unat idx * 40 - 4096"] i by simp
qed

lemma user_vm_ring:
  obtains ring s' where "io_uring_new 128 0x1000 0 user_vm = (Some ring, s')" "ur_sq_phys ring = 0x100000"
proof -
  obtain a p1 where a: "alloc_page user_pmm = (Some a, p1)"
    using alloc_page_none(1) [OF user_pmm_ok(1)] by (cases "alloc_page user_pmm"; cases "fst (alloc_page user_pmm)") (auto simp: user_pmm_ok)
  obtain page where page: "a = of_nat (page * PAGE_SIZE)" "page \<in> pmm_free_pages user_pmm" "\<And>q. q \<in> pmm_free_pages user_pmm \<Longrightarrow> page \<le> q"
      "pmm_free_pages p1 = pmm_free_pages user_pmm - {page}" "pmm_wf p1"
    by (rule alloc_page_some [OF user_pmm_ok(1), of a]) (use a in simp_all)
  have "page = 256"
    using page(2) page(3) [of 256] by (simp add: user_pmm_ok)
  then have "257 \<in> pmm_free_pages p1" "a = 0x100000"
    using page(1,4) by (simp_all add: user_pmm_ok PAGE_SIZE_def)
  moreover obtain b p2 where "alloc_page p1 = (Some b, p2)"
    using alloc_page_none(1) [OF page(5)] \<open>257 \<in> pmm_free_pages p1\<close> by (cases "alloc_page p1"; cases "fst (alloc_page p1)") auto
  ultimately show ?thesis
    using that a by (simp add: io_uring_new_def vm_alloc_page_def user_vm_def)
qed

theorem sq_slots_outside_witness:
  "\<exists>ring s'. io_uring_new 128 0x1000 0 user_vm = (Some ring, s') \<and> in_frame (ur_sq_phys ring + 0x1000) (sqe_at ring 127)"
proof -
  obtain ring s' where new: "io_uring_new 128 0x1000 0 user_vm = (Some ring, s')" "ur_sq_phys ring = 0x100000"
    by (rule user_vm_ring)
  have "in_frame (ur_sq_phys ring + 0x1000) (sqe_at ring 127)"
    by (rule sq_slots_outside [OF new(1)]) (simp_all add: new(2) pte_physical_address_def)
  then show ?thesis
    using new(1) by blast
qed

section \<open>One request\<close>

lemma passes_skip:
  "sqe_prio (sqe_nth ring (k_vm k) head 0) \<notin> set prios \<Longrightarrow> tail = head + 1 \<Longrightarrow>
     submit_passes m regs fp prios head tail submitted (ring, k) = Some (Some submitted, ring, k)"
  by (induction prios) (auto simp: pass_skip)

lemma passes_append:
  "submit_passes m regs fp (ps @ qs) head tail submitted st =
     (case submit_passes m regs fp ps head tail submitted st of
        None \<Rightarrow> None
      | Some (None, st) \<Rightarrow> Some (None, st)
      | Some (Some submitted, st) \<Rightarrow> submit_passes m regs fp qs head tail submitted st)"
  by (induction ps arbitrary: submitted st) (auto split: option.splits)

lemma prio_served:
  assumes "p \<le> (4 :: u8)"
  obtains ps qs where "[4, 3, 2, 1, 0] = ps @ p # qs" "p \<notin> set ps" "p \<notin> set qs"
proof -
  have "unat p \<le> 4" "p = of_nat (unat p)"
    using assms by (simp_all add: word_le_nat_alt)
  then consider "p = 0" | "p = 1" | "p = 2" | "p = 3" | "p = 4"
    by (cases "unat p" rule: nat.exhaust) (auto simp: le_Suc_eq numeral_eq_Suc)
  then have "p \<in> set [4, 3, 2, 1, 0]"
    by cases simp_all
  moreover have "distinct [4, 3, 2, 1, 0 :: u8]"
    by simp
  ultimately show ?thesis
    using that by (metis distinct_append distinct.simps(2) split_list_first)
qed

lemma field_other_frame:
  assumes "pte_physical_address sq = sq" "pte_physical_address cq = cq" "sq \<noteq> cq" "a + m \<le> 4096" "off + n \<le> 4096"
  shows "phys_field (phys_store m (sq + of_nat a) v s) cq off n = phys_field s cq off n"
proof (rule phys_field_cong)
  fix i
  assume "i < n"
  then have "in_frame cq (cq + of_nat (off + i))"
    by (intro in_frame_offset [OF assms(2)]) (use assms(5) in linarith)
  then have "\<not> in_frame sq (cq + of_nat (off + i))"
    using assms(3) by (simp add: in_frame_def)
  then show "phys_byte (phys_store m (sq + of_nat a) v s) (cq + of_nat (off + i)) = phys_byte s (cq + of_nat (off + i))"
    by (rule store_in_frame [OF assms(1,4)])
qed

text \<open>C12: In a ring of 5 to 101 entries, in two frames, a single pending request outside of a chain and without the flag \<open>0x80\<close>, of
  one of the priorities 4 to 0, is run and completed: if running it gives a result and leaves the submission ring alone, and if
  there is room in the completion ring afterwards, the next slot of that ring holds the result with the request's \<open>user_data\<close>,
  its tail moves on, and the request is released.\<close>

theorem submit_completes_request:
  assumes ring: "ring_ok ring" "sq = ur_sq_phys ring" "cq = ur_cq_phys ring"
    and one: "head = phys_field (k_vm k) sq 0 4" "phys_field (k_vm k) sq 4 4 = head + 1"
    and sqe: "sqe = read_sqe (k_vm k) (sqe_at ring head)" "sqe_prio sqe \<le> 4" "sq_flags sqe AND SQE_CHAIN = 0" "sq_flags sqe AND 0x80 = 0"
    and run: "exec_sqe m regs fp sqe (ring, k) = Some (Some r, ring1, k1)" "same_ring ring ring1"
      "\<forall>q. in_frame sq q \<longrightarrow> phys_byte (k_vm k1) q = phys_byte (k_vm k) q"
    and room: "tail = phys_field (k_vm k1) cq 4 4" "tail - phys_field (k_vm k1) cq 0 4 < ur_entries ring"
  shows "\<exists>k2. submit_sqes m regs fp (ring, k) = Some (Some 1, ring1\<lparr>ur_chain_result := 0\<rparr>, k2)
    \<and> phys_field (k_vm k2) sq 0 4 = head + 1 \<and> phys_field (k_vm k2) cq 4 4 = tail + 1
    \<and> phys_field (k_vm k2) cq (cqe_slot ring tail) 8 = sq_user_data sqe \<and> phys_field (k_vm k2) cq (cqe_slot ring tail + 8) 8 = r"
proof -
  let ?ring2 = "ring1\<lparr>ur_chain_result := 0\<rparr>" and ?p = "sqe_prio sqe"
  define vm where "vm = push_cqe (sq_user_data sqe) r 0 ?ring2 (k_vm k1)"
  have n: "0 < ur_entries ring" "ur_entries ring \<le> 128" "ur_entries ?ring2 = ur_entries ring" "ur_cq_phys ?ring2 = cq"
      "same_ring ring ?ring2" "cqe_slot ?ring2 = cqe_slot ring"
    using ring(1,3) run(2) by (simp_all add: ring_ok_def same_ring_def word_le_nat_alt word_less_nat_alt cqe_slot_def fun_eq_iff)
  have al: "pte_physical_address sq = sq" "pte_physical_address cq = cq" "sq \<noteq> cq"
    using ring by (simp_all add: ring_ok_def)
  have s0: "sqe_nth ring (k_vm k) head 0 = sqe"
    by (simp add: sqe_nth_def sqe(1))
  have "phys_byte vm q = phys_byte (k_vm k) q" if "in_frame sq q" for q
    unfolding vm_def using push_cqe_frame [of ?ring2 q] n al that run(3) by (simp add: in_frame_def)
  then have s1: "sqe_nth ?ring2 vm head 0 = sqe"
    using sqe_nth_same [OF ring(1) n(5)] s0 ring(2) by simp
  have one_pass: "submit_pass m regs fp ?p (head + 1) head 0 (ring, k) = Some (Some 1, ?ring2, k1\<lparr>k_vm := vm\<rparr>)"
    using pass_run [of head "head + 1" 0 ring sqe k ?p m regs fp r ring1 k1, OF _ _ s0 [symmetric] refl sqe(3) _ refl] run(1) sqe(4) n(1)
    by (simp add: local_sqe_def vm_def)
  obtain ps qs where pq: "[4, 3, 2, 1, 0] = ps @ ?p # qs" "?p \<notin> set ps" "?p \<notin> set qs"
    by (rule prio_served [OF sqe(2)])
  have "submit_passes m regs fp (ps @ ?p # qs) head (head + 1) 0 (ring, k) = Some (Some 1, ?ring2, k1\<lparr>k_vm := vm\<rparr>)"
    using pq(2,3) by (simp add: passes_append passes_skip s0 s1 one_pass)
  then have "submit_sqes m regs fp (ring, k) = Some (Some 1, ?ring2, k1\<lparr>k_vm := phys_store 4 sq (head + 1) vm\<rparr>)"
    unfolding submit_sqes_def Let_def prod.case ring(2) [symmetric] one(1) [symmetric] one(2) pq(1)
    using n(5) ring(2) by (simp add: same_ring_def del: submit_passes.simps)
  moreover have "\<not> ur_entries ?ring2 \<le> tail - phys_field (k_vm k1) cq 0 4"
    using room(2) n(3) by simp
  note c = push_cqe_room [OF n(4) [symmetric] _ _ refl room(1) this vm_def]
  ultimately show ?thesis
    using c(2-4) n(1-3,6) cqe_slot_bound [OF n(1,2), of tail]
    by (intro exI [of _ "k1\<lparr>k_vm := phys_store 4 sq (head + 1) vm\<rparr>"])
      (simp add: phys_field_store field_other_frame [OF al, where a = 0, simplified])
qed

theorem submit_completes_request_witness:
  "\<exists>ring1 k2. submit_sqes no_files example_regs 0 (uring_example, user_kernel\<lparr>k_vm := pending_vm 1\<rparr>) = Some (Some 1, ring1, k2)
    \<and> phys_field (k_vm k2) 0x7000 0 4 = (1 :: u32) \<and> phys_field (k_vm k2) 0x8000 4 4 = (1 :: u32) \<and> phys_field (k_vm k2) 0x8000 40 8 = (- 1 :: i64)"
proof -
  let ?k = "user_kernel\<lparr>k_vm := pending_vm 1\<rparr>" and ?c = "ur_counters uring_example"
  let ?sqe = "\<lparr>sq_opcode = 0, sq_flags = 0, sq_fd = 0, sq_addr = 0, sq_len = 0, sq_user_data = 0\<rparr>"
  let ?ring1 = "uring_example\<lparr>ur_counters := ?c\<lparr>rc_submitted := 1, rc_completed := 1\<rparr>\<rparr>"
  have ring: "ring_ok uring_example" "0x7000 = ur_sq_phys uring_example" "0x8000 = ur_cq_phys uring_example" "ur_entries uring_example = 8"
    by (simp_all add: ring_ok_def uring_example_def pte_physical_address_def)
  have sqe: "?sqe = read_sqe (k_vm ?k) (sqe_at uring_example 0)"
    using pending_vm_sqe [of 0 1] by (simp add: sqe_nth_def)
  have run: "exec_sqe no_files example_regs 0 ?sqe (uring_example, ?k) = Some (Some (- 1), ?ring1, ?k)" "same_ring uring_example ?ring1"
    by (simp_all add: exec_sqe_def Let_def uring_example_def same_ring_def)
  have cq: "0 = phys_field (k_vm ?k) 0x8000 4 4" "phys_field (k_vm ?k) 0x8000 0 4 = (0 :: u32)"
    unfolding pending_vm_def by (simp_all add: field_other_frame example_frame_zero pte_physical_address_def del: of_nat_numeral)
  show ?thesis
    using submit_completes_request [OF ring(1-3) _ _ sqe _ _ _ run _ cq(1)] cq(2)
    by (auto simp: pending_vm_header ring(4) cqe_slot_def sqe_prio_def)
qed

end
