(* ===== verification/Spec2Isabelle.thy ===== *)
theory Spec2Isabelle
  imports SpscRing Capability Heap Sched TaskIds BoostRing Channel Pressure FileOps Mounts UniversalExec Fat32 IoUring
begin

text \<open>
  A verification library for the BeastOS kernel, a 64-bit operating system in Rust (\<open>src/kernel\<close>, \<open>src/libs\<close>).

  \<^bold>\<open>Conventions.\<close>  A struct is a \<open>record\<close>, an enum a \<open>datatype\<close>, an integer of a fixed width a word of that width where
  wrap-around or bits matter and a natural number where the code keeps it small (slots, list lengths, tick counters).
  Release builds wrap, and so do the words.  \<open>Result\<close> is a sum with the error on the left, \<open>'a or_panic\<close> is an option
  whose \<open>None\<close> is a panic.  State is passed explicitly; a \<open>static\<close> behind a lock is a field of the state.  Addresses
  and values that come from outside of the sources (boot loader entries, trampolines, random numbers, disk sectors)
  are arguments.

  \<^bold>\<open>Generic theories.\<close>
  \<^item> \<open>Prelude\<close>: list, option and word lemmas, the collections \<open>word_bits\<close> and others, early return (\<open>try_then\<close>).
  \<^item> \<open>Fifo\<close> (locale \<open>bounded_fifo\<close>), \<open>Handles\<close> (\<open>handle_table\<close>), \<open>Regions\<close> (\<open>region_allocator\<close>) and \<open>BTreeMap\<close>
    (\<open>dictionary\<close>): the contracts of bounded queues, of tables with generation counters, of allocators of disjoint
    regions and of finite maps.  Each is interpreted on the code's own operations in the theory of the provider.
  \<^item> \<open>Bytes\<close> and \<open>Strings\<close>: little-endian fields, UTF-8 and UTF-16, ASCII comparison, trimming and splitting.

  \<^bold>\<open>Memory.\<close>
  \<^item> \<open>Pmm\<close> (\<open>memory/pmm.rs\<close>): the page bitmap.  Pages that are handed out are never free and never overlap; the
    contiguous search finds the lowest run.
  \<^item> \<open>Heap\<close> (\<open>memory/heap.rs\<close>): the first-fit free list over addresses; blocks never overlap.
  \<^item> \<open>Paging\<close>, \<open>Vmm\<close> (\<open>arch/paging.rs\<close>, \<open>memory/vmm.rs\<close>): page tables in physical memory.  A state \<open>Vm\<close> holds the
    entries of all frames and the page allocator.  \<open>vm_wf\<close> says that the tables reachable from the roots form a forest
    (each table has one role: its owner and the path to it), with the upper half shared.  \<open>walk\<close> is the translation of
    the hardware by recursion on the level; \<open>translate\<close>, mapping, unmapping, faults, splitting of large pages and new
    address spaces are related to it.
  \<^item> \<open>PhysMem\<close>: the bytes of a frame, and what mapping fresh frames does to the bytes a program sees.

  \<^bold>\<open>Tasks and communication.\<close>
  \<^item> \<open>Task\<close>, \<open>Mlfq\<close>, \<open>Sched\<close>, \<open>TaskIds\<close> (\<open>scheduler/*.rs\<close>): control blocks, the six run queues as rings, ticks,
    boosts, blocking, waking, spawning, exit and exec.  \<open>sched_inv\<close> holds after every sequence of operations.
  \<^item> \<open>SpscRing\<close> (\<open>beast_ring\<close>): the ring, and its two sides as an interleaving of atomic steps.
  \<^item> \<open>BoostRing\<close>, \<open>Channel\<close> (\<open>ipc/*.rs\<close>): rings and channels that block and wake tasks.
  \<^item> \<open>Capability\<close> (\<open>beast_capability\<close>), \<open>Pressure\<close> (\<open>pressure.rs\<close>).

  \<^bold>\<open>Files and programs.\<close>
  \<^item> \<open>Storage\<close>, \<open>Token\<close>, \<open>PathCache\<close>, \<open>Merkle\<close>, \<open>FileOps\<close> (\<open>storage/*.rs\<close>, \<open>fs/*.rs\<close>): the content-addressed file
    system; every sequence of operations keeps every named file readable.
  \<^item> \<open>Vfs\<close>, \<open>Tar\<close>, \<open>RamFs\<close>, \<open>Mounts\<close>: the mount table and the two file systems of the boot; \<open>RamFs\<close> refines a tree.
  \<^item> \<open>Fat32\<close> (\<open>fs/fat32.rs\<close>): boot sector, cluster chains, directories with long names, reads.
  \<^item> \<open>Segments\<close>, \<open>ElfLoader\<close>, \<open>PeLoader\<close>, \<open>UniversalExec\<close> (\<open>fs/elf_loader.rs\<close>, \<open>pe_loader.rs\<close>, \<open>pe_patcher.rs\<close>,
    \<open>macho_loader.rs\<close>, \<open>universal_exec.rs\<close>): the loaders over page tables and physical bytes.

  \<^bold>\<open>System calls.\<close>
  \<^item> \<open>Keyboard\<close>, \<open>Mouse\<close> (\<open>drivers/keyboard.rs\<close>, \<open>drivers/mouse.rs\<close>, the buffer of \<open>syscall/mod.rs\<close>): typed keys arrive in
    order; the pointer stays on the screen.
  \<^item> \<open>UserMem\<close>: the memory of a task as the kernel reads and writes it through the task's page table, byte by byte.
  \<^item> \<open>Syscalls\<close> (\<open>syscall/mod.rs\<close>): one record \<open>Kernel\<close> with the scheduler, the memory, the mount table and the static
    buffers, and one function for each call.
  \<^item> \<open>SyscallSpaces\<close>: the calls that build address spaces: growing the heap, and starting a program from the boot
    archive, which composes the archive, the page tables, the loaders, the allocator and the scheduler.
  \<^item> \<open>SyscallRings\<close>: a ring shared by two tasks is one frame that both see, and what a missing check of a user pointer
    allows.  \<open>SyscallFiles\<close>: data written to a file is read back into user memory; a blocked reader gets the next key.
  \<^item> \<open>IoUring\<close> (\<open>io_uring/mod.rs\<close> and its calls in \<open>syscall/mod.rs\<close>): the two rings as frames of physical memory, the
    requests and the passes over their priorities.  A single request is run and completed; a completion stays in its
    frame and, unless the index wraps around in a ring whose size is not a power of two, fills none of the untaken slots.
    Of several requests of one priority only the first is run, and the slots of a large ring leave its frame.

  \<^bold>\<open>Loops.\<close>  Loops are recursions with a termination proof.  The loops of the code that may run for ever are
  \<open>partial_function (option)\<close>: the cluster chain of \<open>Fat32\<close>, where the theorem says exactly when it returns, the walk of
  share tokens in \<open>Token\<close> and the import tables in \<open>PeLoader\<close>.  The walk of the page tables stops at the fourth level.
  Waiting loops (channel receive, ring dequeue, keyboard) are modelled by their rounds, since another task runs in
  between.

  \<^bold>\<open>Not modelled.\<close>  Assembly and the code that only drives hardware (boot stages, descriptor tables, interrupt stubs,
  interrupt controller, timer, serial log, framebuffer, AHCI, the initialisation of keyboard and mouse); the lock
  wrapper, a third-party mutex with interrupt masking, of which only the held or free state of the scheduler's lock
  during \<open>sys_brk\<close> appears; \<open>snapshot.rs\<close> and \<open>gc.rs\<close>, which no module includes,
  and \<open>block_store.rs\<close>, which is commented out; \<open>ring_transfer.rs\<close>, which no other module uses, and \<open>adaptive_wait\<close> of
  \<open>io_uring/mod.rs\<close>, which nothing calls; the device files and the calls for drivers in user space, which work on
  device registers; floating-point statistics; the user programs.  Allocation failure of
  the kernel heap is not a branch of the model, kernel stacks have no bytes, and an access through a page table is
  checked for presence and not for the write and user bits.
\<close>

end
